(* ===== verification/Redleaf_Base.thy ===== *)
theory Redleaf_Base
  imports Main "HOL-Library.Word" "HOL-Library.Monad_Syntax"
begin

text \<open>
  Shared vocabulary of the development.

  A Rust panic (a failed \<open>assert!\<close>, an \<open>unwrap\<close> of \<open>None\<close>, an index out of range, an
  arithmetic overflow, which the default debug build checks) is the value \<^const>\<open>None\<close> of the
  option monad; every fallible operation of the model is a chain of binds in that monad.  A Rust
  \<open>Result\<close> is a sum, with \<^const>\<open>Inl\<close> for \<open>Err\<close> and \<^const>\<open>Inr\<close> for \<open>Ok\<close>.  Unsigned machine
  integers are \<^typ>\<open>nat\<close> with the overflow check written at every operation that can leave the
  type's range; bytes are \<^typ>\<open>8 word\<close>.  The theory holds the checked operations, bounds-checked
  indexing and slicing, and the little-endian conversions used by every on-disk format.
\<close>

type_synonym u8 = "8 word"
type_synonym bytes = "u8 list"

named_theorems panic_simps \<open>inversion of the panic monad: which steps returned\<close>
named_theorems codec_simps \<open>lengths and round trips of byte encodings\<close>

section \<open>Checked steps\<close>

definition assert_that :: "bool \<Rightarrow> unit option" where
  "assert_that b = (if b then Some () else None)"

definition add_u32 :: "nat \<Rightarrow> nat \<Rightarrow> nat option" where
  "add_u32 a b = (if a + b < 2 ^ 32 then Some (a + b) else None)"

definition mul_u32 :: "nat \<Rightarrow> nat \<Rightarrow> nat option" where
  "mul_u32 a b = (if a * b < 2 ^ 32 then Some (a * b) else None)"

definition add_usize :: "nat \<Rightarrow> nat \<Rightarrow> nat option" where
  "add_usize a b = (if a + b < 2 ^ 64 then Some (a + b) else None)"

definition mul_usize :: "nat \<Rightarrow> nat \<Rightarrow> nat option" where
  "mul_usize a b = (if a * b < 2 ^ 64 then Some (a * b) else None)"

definition sub_chk :: "nat \<Rightarrow> nat \<Rightarrow> nat option" where
  "sub_chk a b = (if b \<le> a then Some (a - b) else None)"

definition nth_chk :: "'a list \<Rightarrow> nat \<Rightarrow> 'a option" where
  "nth_chk xs i = (if i < length xs then Some (xs ! i) else None)"

definition upd_chk :: "'a list \<Rightarrow> nat \<Rightarrow> 'a \<Rightarrow> 'a list option" where
  "upd_chk xs i v = (if i < length xs then Some (xs[i := v]) else None)"

definition slice_chk :: "'a list \<Rightarrow> nat \<Rightarrow> nat \<Rightarrow> 'a list option" where
  "slice_chk xs a b = (if a \<le> b \<and> b \<le> length xs then Some (take (b - a) (drop a xs)) else None)"

definition splice_chk :: "'a list \<Rightarrow> nat \<Rightarrow> 'a list \<Rightarrow> 'a list option" where
  "splice_chk xs off ys =
     (if off + length ys \<le> length xs then Some (take off xs @ ys @ drop (off + length ys) xs)
      else None)"

definition modify_chk :: "'a list \<Rightarrow> nat \<Rightarrow> ('a \<Rightarrow> 'a) \<Rightarrow> 'a list option" where
  "modify_chk xs i f = (if i < length xs then Some (xs[i := f (xs ! i)]) else None)"

definition as_usize :: "int \<Rightarrow> nat" where
  "as_usize i = nat (i mod 2 ^ 64)"

definition as_i32 :: "nat \<Rightarrow> int" where
  "as_i32 n = (int n + 2 ^ 31) mod 2 ^ 32 - 2 ^ 31"

fun position :: "('a \<Rightarrow> bool) \<Rightarrow> 'a list \<Rightarrow> nat option" where
  "position p [] = None"
| "position p (x # xs) = (if p x then Some 0 else map_option Suc (position p xs))"

section \<open>Little-endian integers\<close>

definition to_le_u16 :: "nat \<Rightarrow> bytes" where
  "to_le_u16 n = [of_nat n, of_nat (n div 256)]"

definition from_le_u16 :: "bytes \<Rightarrow> nat option" where
  "from_le_u16 bs =
     (if 2 \<le> length bs then Some (unat (bs ! 0) + 256 * unat (bs ! 1)) else None)"

definition to_le_u32 :: "nat \<Rightarrow> bytes" where
  "to_le_u32 n = [of_nat n, of_nat (n div 256), of_nat (n div 65536), of_nat (n div 16777216)]"

definition from_le_u32 :: "bytes \<Rightarrow> nat option" where
  "from_le_u32 bs =
     (if 4 \<le> length bs
      then Some (unat (bs ! 0) + 256 * unat (bs ! 1) + 65536 * unat (bs ! 2)
                 + 16777216 * unat (bs ! 3))
      else None)"

definition to_le_i16 :: "int \<Rightarrow> bytes" where
  "to_le_i16 i = to_le_u16 (nat (i mod 65536))"

definition from_le_i16 :: "bytes \<Rightarrow> int option" where
  "from_le_i16 bs =
     map_option (\<lambda>n. if n < 32768 then int n else int n - 65536) (from_le_u16 bs)"

section \<open>Lemmas\<close>

declare One_nat_def [simp del]

lemma assert_that_Some [panic_simps]: "assert_that b = Some u \<longleftrightarrow> b"
  by (simp add: assert_that_def)

lemma assert_that_True [simp]: "assert_that True = Some ()"
  by (simp add: assert_that_def)

lemma assert_that_False [simp]: "assert_that False = None"
  by (simp add: assert_that_def)

lemma add_u32_Some [panic_simps]: "add_u32 a b = Some c \<longleftrightarrow> c = a + b \<and> a + b < 2 ^ 32"
  by (auto simp: add_u32_def)

lemma mul_u32_Some [panic_simps]: "mul_u32 a b = Some c \<longleftrightarrow> c = a * b \<and> a * b < 2 ^ 32"
  by (auto simp: mul_u32_def)

lemma add_usize_Some [panic_simps]: "add_usize a b = Some c \<longleftrightarrow> c = a + b \<and> a + b < 2 ^ 64"
  by (auto simp: add_usize_def)

lemma mul_usize_Some [panic_simps]: "mul_usize a b = Some c \<longleftrightarrow> c = a * b \<and> a * b < 2 ^ 64"
  by (auto simp: mul_usize_def)

lemma sub_chk_Some [panic_simps]: "sub_chk a b = Some c \<longleftrightarrow> c = a - b \<and> b \<le> a"
  by (auto simp: sub_chk_def)

lemma nth_chk_Some [panic_simps]: "nth_chk xs i = Some x \<longleftrightarrow> x = xs ! i \<and> i < length xs"
  by (auto simp: nth_chk_def)

lemma upd_chk_Some [panic_simps]: "upd_chk xs i v = Some ys \<longleftrightarrow> ys = xs[i := v] \<and> i < length xs"
  by (auto simp: upd_chk_def)

lemma modify_chk_Some [panic_simps]:
  "modify_chk xs i f = Some ys \<longleftrightarrow> ys = xs[i := f (xs ! i)] \<and> i < length xs"
  by (auto simp: modify_chk_def)

lemma slice_chk_Some [panic_simps]:
  "slice_chk xs a b = Some ys \<longleftrightarrow> ys = take (b - a) (drop a xs) \<and> a \<le> b \<and> b \<le> length xs"
  by (auto simp: slice_chk_def)

lemma splice_chk_Some [panic_simps]:
  "splice_chk xs off ys = Some zs \<longleftrightarrow>
     zs = take off xs @ ys @ drop (off + length ys) xs \<and> off + length ys \<le> length xs"
  by (auto simp: splice_chk_def)

declare bind_eq_Some_conv [panic_simps]

lemma splice_chk_length [codec_simps]: "splice_chk xs off ys = Some zs \<Longrightarrow> length zs = length xs"
  by (auto simp: splice_chk_def split: if_splits)

lemma as_usize_id [simp]: "0 \<le> i \<Longrightarrow> i < 2 ^ 64 \<Longrightarrow> as_usize i = nat i"
  by (simp add: as_usize_def)

lemma as_usize_int [simp]: "n < 2 ^ 64 \<Longrightarrow> as_usize (int n) = n"
  by (simp add: as_usize_def)

lemma as_i32_id [simp]: "n < 2 ^ 31 \<Longrightarrow> as_i32 n = int n"
  by (simp add: as_i32_def)

lemma position_Some:
  "position p xs = Some i \<longleftrightarrow> i < length xs \<and> p (xs ! i) \<and> (\<forall>j < i. \<not> p (xs ! j))"
proof (induction xs arbitrary: i)
  case Nil
  then show ?case by simp
next
  case (Cons x xs)
  show ?case
    by (cases i) (auto simp: Cons.IH less_Suc_eq_0_disj)
qed

lemma position_None: "position p xs = None \<longleftrightarrow> (\<forall>x \<in> set xs. \<not> p x)"
  by (induction xs) auto

lemma length_to_le_u16 [simp, codec_simps]: "length (to_le_u16 n) = 2"
  by (simp add: to_le_u16_def)

lemma length_to_le_u32 [simp, codec_simps]: "length (to_le_u32 n) = 4"
  by (simp add: to_le_u32_def)

lemma length_to_le_i16 [simp, codec_simps]: "length (to_le_i16 n) = 2"
  by (simp add: to_le_i16_def)

lemma unat_of_nat_u8: "unat (of_nat n :: u8) = n mod 256"
  by (simp add: unat_of_nat)

lemma le_split2: "n < 65536 \<Longrightarrow> n mod 256 + 256 * (n div 256 mod 256) = (n::nat)"
  by (simp add: less_mult_imp_div_less)

lemma le_split4:
  assumes "n < 4294967296"
  shows "n mod 256 + 256 * (n div 256 mod 256) + 65536 * (n div 65536 mod 256)
     + 16777216 * (n div 16777216 mod 256) = (n::nat)"
proof -
  define q1 q2 q3 where "q1 = n div 256" and "q2 = q1 div 256" and "q3 = q2 div 256"
  have q: "n div 65536 = q2" "n div 16777216 = q3"
    by (simp_all add: q1_def q2_def q3_def flip: div_mult2_eq)
  have "q3 < 256"
    using assms unfolding q(2)[symmetric] by (simp add: less_mult_imp_div_less)
  moreover have "n = 256 * q1 + n mod 256" "q1 = 256 * q2 + q1 mod 256" "q2 = 256 * q3 + q2 mod 256"
    by (simp_all add: q1_def q2_def q3_def)
  ultimately show ?thesis
    unfolding q by (simp flip: q1_def)
qed

lemma from_to_le_u16 [codec_simps]: "n < 2 ^ 16 \<Longrightarrow> from_le_u16 (to_le_u16 n @ rest) = Some n"
  by (simp add: from_le_u16_def to_le_u16_def unat_of_nat_u8 le_split2)

lemma from_to_le_u32 [codec_simps]: "n < 2 ^ 32 \<Longrightarrow> from_le_u32 (to_le_u32 n @ rest) = Some n"
  using le_split4[of n] by (simp add: from_le_u32_def to_le_u32_def unat_of_nat_u8)

lemma from_to_le_i16 [codec_simps]:
  assumes "- 32768 \<le> i" "i < 32768"
  shows "from_le_i16 (to_le_i16 i @ rest) = Some i"
proof -
  have "nat (i mod 65536) < 2 ^ 16" by simp
  then have "from_le_u16 (to_le_i16 i @ rest) = Some (nat (i mod 65536))"
    unfolding to_le_i16_def by (rule from_to_le_u16)
  moreover have "i mod 65536 = (if 0 \<le> i then i else i + 65536)"
    using assms mod_add_self2[of i 65536] mod_pos_pos_trivial[of "i + 65536" 65536]
    by simp
  ultimately show ?thesis
    using assms by (auto simp: from_le_i16_def)
qed

lemma from_le_u32_bound: "from_le_u32 bs = Some n \<Longrightarrow> n < 2 ^ 32"
proof -
  assume "from_le_u32 bs = Some n"
  then have n: "n = unat (bs ! 0) + 256 * unat (bs ! 1) + 65536 * unat (bs ! 2)
                 + 16777216 * unat (bs ! 3)"
    by (simp add: from_le_u32_def split: if_splits)
  have "\<And>w :: u8. unat w < 256"
    by (rule order_less_le_trans[OF unsigned_less]) simp
  from this[of "bs ! 0"] this[of "bs ! 1"] this[of "bs ! 2"] this[of "bs ! 3"] n
  show ?thesis by simp
qed

section \<open>Indices that wrap around\<close>

unbundle bit_operations_syntax

lemma and_pow2_mod: "(n :: nat) AND (2 ^ k - 1) = n mod 2 ^ k"
  by (simp add: take_bit_eq_mod flip: take_bit_eq_mask mask_eq_exp_minus_1)

lemma mod_add_less: "(h + k) mod n = (h + l) mod n \<Longrightarrow> k < l \<Longrightarrow> n \<le> (l :: nat)"
proof -
  assume e: "(h + k) mod n = (h + l) mod n" and l: "k < l"
  then have "n dvd (h + l) - (h + k)" using mod_eq_dvd_iff_nat[of "h + k" "h + l" n] by simp
  then have "n \<le> l - k" using l by (intro dvd_imp_le) simp_all
  then show "n \<le> l" by simp
qed

lemma mod_wrap: "t < n \<Longrightarrow> k \<le> n \<Longrightarrow> (t + k) mod n = (if t + k < n then t + k else t + k - (n::nat))"
  by (auto simp: not_less mod_if)

lemma mod_add_inj: "j < n \<Longrightarrow> k < n \<Longrightarrow> (t + j) mod n = (t + k) mod n \<longleftrightarrow> j = (k::nat)"
  using mod_add_less[of t j n k] mod_add_less[of t k n j] by (cases j k rule: linorder_cases) auto

section \<open>Counting, and invariants of step relations\<close>

definition cnt :: "('p \<Rightarrow> bool) \<Rightarrow> 'p list \<Rightarrow> nat" where
  "cnt P ps = length (filter P ps)"

lemma cnt_update:
  "t < length ps \<Longrightarrow> cnt P (ps[t := x]) + (if P (ps ! t) then 1 else 0) = cnt P ps + (if P x then 1 else 0)"
  unfolding cnt_def
proof (induction ps arbitrary: t)
  case (Cons p ps)
  then show ?case by (cases t) auto
qed simp

lemma cnt_pos: "t < length ps \<Longrightarrow> P (ps ! t) \<Longrightarrow> 0 < cnt P ps"
  by (auto simp: cnt_def filter_empty_conv)

lemma cnt_le: "cnt P ps \<le> length ps"
  by (simp add: cnt_def)

lemma cnt_one:
  assumes "cnt P ps \<le> 1" "t < length ps" "u < length ps" "P (ps ! t)" "P (ps ! u)"
  shows "t = u"
proof -
  have "{i. i < length ps \<and> P (ps ! i)} \<subseteq> {i. i < length ps \<and> P (ps ! i)} \<and> card {i. i < length ps \<and> P (ps ! i)} \<le> 1"
    using assms(1) by (simp add: cnt_def length_filter_conv_card)
  then show ?thesis using assms(2-) card_le_Suc0_iff_eq[of "{i. i < length ps \<and> P (ps ! i)}"] by (auto simp: One_nat_def)
qed

lemma cnt_zero: "(\<And>p. p \<in> set ps \<Longrightarrow> \<not> P p) \<Longrightarrow> cnt P ps = 0"
  by (simp add: cnt_def filter_empty_conv)

lemma reach_induct:
  "r\<^sup>*\<^sup>* s s' \<Longrightarrow> P s \<Longrightarrow> (\<And>s s'. r s s' \<Longrightarrow> P s \<Longrightarrow> P s') \<Longrightarrow> P s'"
  by (induction rule: rtranclp_induct) auto

end
