(* ===== verification/Membdev.thy ===== *)
theory Membdev
  imports Redleaf_Base
begin

text \<open>
  The in-memory block device, \<^verbatim>\<open>src/lib/external/libmembdev/src/membdev.rs\<close>, and the contract a
  block device gives the buffer cache (the trait \<open>BDev\<close> of \<^verbatim>\<open>src/interface/src/bdev.rs\<close>): the
  locale \<open>block_device\<close>, interpreted on the device's own read and write.
\<close>

abbreviation BSIZE :: nat where "BSIZE \<equiv> 4096"

abbreviation SECTOR_SIZE :: nat where "SECTOR_SIZE \<equiv> 512"

record mem_bdev =
  memdisk :: bytes

definition membdev_read :: "mem_bdev \<Rightarrow> nat \<Rightarrow> bytes \<Rightarrow> bytes option" where
  "membdev_read d block data =
     (let start = block * SECTOR_SIZE; size = length data
      in slice_chk (memdisk d) start (start + size))"

definition membdev_write :: "mem_bdev \<Rightarrow> nat \<Rightarrow> bytes \<Rightarrow> mem_bdev option" where
  "membdev_write d block data =
     (let start = block * SECTOR_SIZE
      in do { img \<leftarrow> splice_chk (memdisk d) start data; Some (d\<lparr>memdisk := img\<rparr>) })"

section \<open>The block-device contract\<close>

text \<open>
  A device is read and written in whole blocks of \<open>BSIZE\<close> bytes, block \<open>b\<close> starting at sector
  \<open>8 * b\<close>.  \<open>blocks\<close> is the number of whole blocks the device holds.
\<close>

locale block_device =
  fixes dread :: "'d \<Rightarrow> nat \<Rightarrow> bytes \<Rightarrow> bytes option"
    and dwrite :: "'d \<Rightarrow> nat \<Rightarrow> bytes \<Rightarrow> 'd option"
    and blocks :: "'d \<Rightarrow> nat"
  assumes read_Some: "b < blocks d \<Longrightarrow> length ys = BSIZE \<Longrightarrow> \<exists>xs. dread d (b * 8) ys = Some xs \<and> length xs = BSIZE"
    and read_any: "length ys = BSIZE \<Longrightarrow> length zs = BSIZE \<Longrightarrow> dread d s ys = dread d s zs"
    and write_Some: "b < blocks d \<Longrightarrow> length xs = BSIZE \<Longrightarrow> \<exists>d'. dwrite d (b * 8) xs = Some d'"
    and write_blocks: "dwrite d s xs = Some d' \<Longrightarrow> blocks d' = blocks d"
    and read_written: "dwrite d (b * 8) xs = Some d' \<Longrightarrow> length xs = BSIZE \<Longrightarrow> length ys = BSIZE \<Longrightarrow>
           dread d' (b * 8) ys = Some xs"
    and read_other: "dwrite d (b * 8) xs = Some d' \<Longrightarrow> length xs = BSIZE \<Longrightarrow> length ys = BSIZE \<Longrightarrow>
           a \<noteq> b \<Longrightarrow> dread d' (a * 8) ys = dread d (a * 8) ys"
begin

lemma read_blank_Some:
  "b < blocks d \<Longrightarrow> \<exists>xs. dread d (b * 8) (replicate BSIZE 0) = Some xs \<and> length xs = BSIZE"
  by (rule read_Some) simp_all

lemma read_blank: "length ys = BSIZE \<Longrightarrow> dread d s ys = dread d s (replicate BSIZE 0)"
  by (rule read_any) simp_all

lemma write_map_update:
  assumes "dwrite d (b * 8) xs = Some d'" "length xs = BSIZE"
  shows "(\<lambda>a. dread d' (a * 8) (replicate BSIZE 0)) =
         (\<lambda>a. dread d (a * 8) (replicate BSIZE 0))(b := Some xs)"
proof
  fix a
  show "dread d' (a * 8) (replicate BSIZE 0) =
        ((\<lambda>a. dread d (a * 8) (replicate BSIZE 0))(b := Some xs)) a"
    using read_written[OF assms, of "replicate BSIZE 0"]
      read_other[OF assms, of "replicate BSIZE 0" a]
    by simp
qed

end

section \<open>The memory disk implements it\<close>

definition membdev_blocks :: "mem_bdev \<Rightarrow> nat" where
  "membdev_blocks d = length (memdisk d) div BSIZE"

text \<open>The contents of the device by block number, the view the buffer cache has of it.\<close>

definition disk_block :: "mem_bdev \<Rightarrow> nat \<Rightarrow> bytes option" where
  "disk_block d b = membdev_read d (b * 8) (replicate BSIZE 0)"

lemma splice_slice_same:
  "off + length ys \<le> length xs \<Longrightarrow>
   take (length ys) (drop off (take off xs @ ys @ drop (off + length ys) xs)) = ys"
  by simp

lemma splice_slice_before:
  assumes "off + length ys \<le> length xs" "a + n \<le> off"
  shows "take n (drop a (take off xs @ ys @ drop (off + length ys) xs)) = take n (drop a xs)"
  using assms by (simp add: take_drop min_def)

lemma splice_slice_after:
  assumes "off + length ys \<le> length xs" "off + length ys \<le> a"
  shows "take n (drop a (take off xs @ ys @ drop (off + length ys) xs)) = take n (drop a xs)"
  using assms by (simp add: le_add_diff_inverse2)

lemma membdev_write_Some:
  "membdev_write d s xs = Some d' \<longleftrightarrow>
     s * 512 + length xs \<le> length (memdisk d) \<and>
     d' = d\<lparr>memdisk := take (s * 512) (memdisk d) @ xs @ drop (s * 512 + length xs) (memdisk d)\<rparr>"
  by (auto simp: membdev_write_def panic_simps Let_def)

lemma membdev_blocks_iff: "b < membdev_blocks d \<longleftrightarrow> b * 4096 + 4096 \<le> length (memdisk d)"
  by (simp add: membdev_blocks_def less_eq_div_iff_mult_less_eq flip: Suc_le_eq) linarith

interpretation mem: block_device membdev_read membdev_write membdev_blocks
proof (unfold_locales, goal_cases)
  case (1 b d ys)
  then show ?case
    by (auto simp: membdev_blocks_iff membdev_read_def slice_chk_def Let_def)
next
  case (2 ys zs d s)
  then show ?case by (simp add: membdev_read_def)
next
  case (3 b d xs)
  then show ?case by (auto simp: membdev_blocks_iff membdev_write_Some)
next
  case (4 d s xs d')
  then show ?case by (auto simp: membdev_write_Some membdev_blocks_def)
next
  case (5 d b xs d' ys)
  then show ?case
    by (auto simp: membdev_write_Some membdev_read_def slice_chk_def)
next
  case (6 d b xs d' ys a)
  then have "a < b \<or> b < a" by auto
  then show ?case
  proof
    assume "a < b"
    with 6 show ?thesis
      using splice_slice_before[of "4096 * b" xs "memdisk d" "4096 * a" 4096]
      by (auto simp: membdev_write_Some membdev_read_def slice_chk_def Let_def)
  next
    assume "b < a"
    with 6 show ?thesis
      using splice_slice_after[of "4096 * b" xs "memdisk d" "4096 * a" 4096]
      by (auto simp: membdev_write_Some membdev_read_def slice_chk_def Let_def)
  qed
qed

lemma disk_block_Some: "b < membdev_blocks d \<Longrightarrow> \<exists>xs. disk_block d b = Some xs \<and> length xs = BSIZE"
  unfolding disk_block_def by (rule mem.read_blank_Some)

lemma disk_block_length: "disk_block d b = Some xs \<Longrightarrow> length xs = BSIZE"
  by (auto simp: disk_block_def membdev_read_def slice_chk_def Let_def split: if_splits)

lemma membdev_read_disk_block:
  "length ys = BSIZE \<Longrightarrow> membdev_read d (b * 8) ys = disk_block d b"
  unfolding disk_block_def by (rule mem.read_blank)

lemma disk_block_write:
  "membdev_write d (b * 8) xs = Some d' \<Longrightarrow> length xs = BSIZE \<Longrightarrow>
   disk_block d' = (disk_block d)(b := Some xs)"
  using mem.write_map_update[of d b xs d'] by (simp add: disk_block_def[abs_def])

lemma membdev_write_ok:
  "disk_block d b = Some ys \<Longrightarrow> length xs = BSIZE \<Longrightarrow> \<exists>d'. membdev_write d (b * 8) xs = Some d'"
  by (auto simp: disk_block_def membdev_read_def slice_chk_def membdev_write_Some Let_def
      split: if_splits)

end
