(* ===== verification/Bcache.thy ===== *)
theory Bcache
  imports Membdev
begin

text \<open>
  The buffer cache of the xv6 file system,
  \<^verbatim>\<open>src/domains/usr/xv6/kernel/fs/src/bcache.rs\<close>: \<open>NBUF\<close> buffers linked into a circular
  doubly-linked list by indices, most recently released first.

  The record \<open>buffer_cache\<close> is the static \<open>BCACHE\<close>: the cache proper, the block device, and the
  history of the writes the device was given (a ghost field, used to speak about what is on the
  disk if the machine stops in the middle of an operation).  A \<open>BufferGuard\<close> is the slot it
  points to; dropping it is the explicit call of \<open>brelse\<close>.  The \<open>Arc\<close> of a slot's data is never
  replaced, so the slot's index identifies it.  The \<open>Option\<close> of \<open>BufferBlockWrapper\<close> is empty
  only inside the expression that refills it and is not represented.
\<close>

abbreviation MAXOPBLOCKS :: nat where "MAXOPBLOCKS \<equiv> 10"
abbreviation NBUF :: nat where "NBUF \<equiv> 30"

record buffer =
  buf_prev :: int
  buf_next :: int
  buf_dev :: nat
  buf_block_number :: nat
  buf_reference_count :: nat
  buf_data :: bytes

record bcache_internal =
  buffers :: "buffer list"
  head :: nat

record buffer_cache =
  bc_internal :: bcache_internal
  bc_bdev :: mem_bdev
  bc_writes :: "(nat \<times> bytes) list"

record buffer_guard =
  bg_dev :: nat
  bg_block_number :: nat
  bg_index :: nat

section \<open>Operations\<close>

definition Buffer_new :: "nat \<Rightarrow> buffer" where
  "Buffer_new index =
     \<lparr>buf_prev = as_i32 index - 1, buf_next = as_i32 index + 1, buf_dev = 0,
      buf_block_number = 0, buf_reference_count = 0, buf_data = replicate BSIZE 0\<rparr>"

definition BufferCacheInternal_new :: bcache_internal where
  "BufferCacheInternal_new =
     (let bs = map Buffer_new [0..<NBUF];
          bs = bs[0 := (bs ! 0)\<lparr>buf_prev := as_i32 NBUF - 1\<rparr>];
          bs = bs[NBUF - 1 := (bs ! (NBUF - 1))\<lparr>buf_next := 0\<rparr>]
      in \<lparr>buffers = bs, head = 0\<rparr>)"

text \<open>
  \<open>self.iter().find(p)\<close>: at most \<open>self.size\<close> buffers are visited, following \<open>next\<close> from \<open>cur\<close>.  The
  result is the index of the buffer found (the code recovers it from the buffer's address).
\<close>

fun iter_find :: "(buffer \<Rightarrow> bool) \<Rightarrow> buffer list \<Rightarrow> nat \<Rightarrow> nat \<Rightarrow> nat option option" where
  "iter_find p bs cur 0 = Some None"
| "iter_find p bs cur (Suc n) =
     do { b \<leftarrow> nth_chk bs cur;
          if p b then Some (Some cur) else iter_find p bs (as_usize (buf_next b)) n }"

text \<open>The loop that looks for an unused buffer, from the least recently used one backwards.\<close>

fun recycle :: "buffer list \<Rightarrow> int \<Rightarrow> nat \<Rightarrow> nat option option" where
  "recycle bs cur 0 = Some None"
| "recycle bs cur (Suc n) =
     do { b \<leftarrow> nth_chk bs (as_usize cur);
          if buf_reference_count b = 0 then Some (Some (as_usize cur))
          else recycle bs (buf_prev b) n }"

definition bget :: "nat \<Rightarrow> nat \<Rightarrow> bcache_internal \<Rightarrow> ((bool \<times> nat) \<times> bcache_internal) option" where
  "bget dev block_number c =
     do { found \<leftarrow> iter_find (\<lambda>b. buf_dev b = dev \<and> buf_block_number b = block_number)
                    (buffers c) (head c) (length (buffers c));
          case found of
            Some index \<Rightarrow>
              do { b \<leftarrow> nth_chk (buffers c) index;
                   rc \<leftarrow> add_u32 (buf_reference_count b) 1;
                   Some ((True, index),
                         c\<lparr>buffers := (buffers c)[index := b\<lparr>buf_reference_count := rc\<rparr>]\<rparr>) }
          | None \<Rightarrow>
              do { h \<leftarrow> nth_chk (buffers c) (head c);
                   free \<leftarrow> recycle (buffers c) (buf_prev h) NBUF;
                   case free of
                     None \<Rightarrow> None
                   | Some index \<Rightarrow>
                       Some ((False, index),
                         c\<lparr>buffers := (buffers c)[index := (buffers c ! index)
                              \<lparr>buf_dev := dev, buf_block_number := block_number,
                               buf_reference_count := 1\<rparr>]\<rparr>) } }"

text \<open>
  The list surgery of \<open>release\<close>, after the count reached zero: the buffer is unlinked and put in
  front of the head.  The result is the buffers and the new head.
\<close>

definition move_to_front :: "nat \<Rightarrow> buffer list \<Rightarrow> nat \<Rightarrow> (buffer list \<times> nat) option" where
  "move_to_front index bs hd0 =
     do { b \<leftarrow> nth_chk bs index;
          let prev = as_usize (buf_prev b);
          let next = as_usize (buf_next b);
          bs \<leftarrow> modify_chk bs next (\<lambda>x. x\<lparr>buf_prev := buf_prev (bs ! index)\<rparr>);
          bs \<leftarrow> modify_chk bs prev (\<lambda>x. x\<lparr>buf_next := buf_next (bs ! index)\<rparr>);
          h \<leftarrow> (if hd0 = index
                then map_option (\<lambda>x. as_usize (buf_next x)) (nth_chk bs hd0)
                else Some hd0);
          hb \<leftarrow> nth_chk bs h;
          let head_prev = buf_prev hb;
          bs \<leftarrow> modify_chk bs index (\<lambda>x. x\<lparr>buf_next := as_i32 h\<rparr>);
          bs \<leftarrow> modify_chk bs index (\<lambda>x. x\<lparr>buf_prev := head_prev\<rparr>);
          bs \<leftarrow> modify_chk bs h (\<lambda>x. x\<lparr>buf_prev := as_i32 index\<rparr>);
          bs \<leftarrow> modify_chk bs (as_usize head_prev) (\<lambda>x. x\<lparr>buf_next := as_i32 index\<rparr>);
          Some (bs, index) }"

definition release_internal :: "nat \<Rightarrow> bcache_internal \<Rightarrow> bcache_internal option" where
  "release_internal index c =
     do { b \<leftarrow> nth_chk (buffers c) index;
          rc \<leftarrow> sub_chk (buf_reference_count b) 1;
          let bs = (buffers c)[index := b\<lparr>buf_reference_count := rc\<rparr>];
          if rc = 0 then
            do { (bs, h) \<leftarrow> move_to_front index bs (head c);
                 Some (c\<lparr>buffers := bs, head := h\<rparr>) }
          else Some (c\<lparr>buffers := bs\<rparr>) }"

definition BufferCache_new :: "mem_bdev \<Rightarrow> buffer_cache" where
  "BufferCache_new bdev =
     \<lparr>bc_internal = BufferCacheInternal_new, bc_bdev = bdev, bc_writes = []\<rparr>"

text \<open>Reading and writing the data of a held buffer (\<open>guard.lock()\<close> and its dereference).\<close>

definition buf_get :: "buffer_guard \<Rightarrow> buffer_cache \<Rightarrow> bytes option" where
  "buf_get g c = map_option buf_data (nth_chk (buffers (bc_internal c)) (bg_index g))"

definition buf_put :: "buffer_guard \<Rightarrow> bytes \<Rightarrow> buffer_cache \<Rightarrow> buffer_cache option" where
  "buf_put g xs c =
     do { bs \<leftarrow> modify_chk (buffers (bc_internal c)) (bg_index g) (\<lambda>b. b\<lparr>buf_data := xs\<rparr>);
          Some (c\<lparr>bc_internal := (bc_internal c)\<lparr>buffers := bs\<rparr>\<rparr>) }"

definition bread :: "nat \<Rightarrow> nat \<Rightarrow> buffer_cache \<Rightarrow> (buffer_guard \<times> buffer_cache) option" where
  "bread device block_number c =
     do { ((valid, index), i) \<leftarrow> bget device block_number (bc_internal c);
          let c = c\<lparr>bc_internal := i\<rparr>;
          let g = \<lparr>bg_dev = device, bg_block_number = block_number, bg_index = index\<rparr>;
          if \<not> valid then
            do { sector \<leftarrow> mul_u32 block_number (BSIZE div SECTOR_SIZE);
                 buffer \<leftarrow> buf_get g c;
                 data \<leftarrow> membdev_read (bc_bdev c) sector buffer;
                 c \<leftarrow> buf_put g data c;
                 Some (g, c) }
          else Some (g, c) }"

definition bwrite :: "nat \<Rightarrow> bytes \<Rightarrow> buffer_cache \<Rightarrow> buffer_cache option" where
  "bwrite block_number data c =
     do { sector \<leftarrow> mul_u32 block_number (BSIZE div SECTOR_SIZE);
          d \<leftarrow> membdev_write (bc_bdev c) sector data;
          Some (c\<lparr>bc_bdev := d, bc_writes := bc_writes c @ [(block_number, data)]\<rparr>) }"

definition brelse :: "buffer_guard \<Rightarrow> buffer_cache \<Rightarrow> buffer_cache option" where
  "brelse g c =
     do { i \<leftarrow> release_internal (bg_index g) (bc_internal c);
          Some (c\<lparr>bc_internal := i\<rparr>) }"

definition bpin :: "buffer_guard \<Rightarrow> buffer_cache \<Rightarrow> buffer_cache option" where
  "bpin g c =
     do { b \<leftarrow> nth_chk (buffers (bc_internal c)) (bg_index g);
          rc \<leftarrow> add_u32 (buf_reference_count b) 1;
          Some (c\<lparr>bc_internal := (bc_internal c)\<lparr>buffers :=
             (buffers (bc_internal c))[bg_index g := b\<lparr>buf_reference_count := rc\<rparr>]\<rparr>\<rparr>) }"

definition bunpin :: "buffer_guard \<Rightarrow> buffer_cache \<Rightarrow> buffer_cache option" where
  "bunpin g c =
     do { b \<leftarrow> nth_chk (buffers (bc_internal c)) (bg_index g);
          rc \<leftarrow> sub_chk (buf_reference_count b) 1;
          Some (c\<lparr>bc_internal := (bc_internal c)\<lparr>buffers :=
             (buffers (bc_internal c))[bg_index g := b\<lparr>buf_reference_count := rc\<rparr>]\<rparr>\<rparr>) }"

section \<open>The list of buffers in recency order\<close>

definition nx :: "buffer list \<Rightarrow> nat \<Rightarrow> nat" where
  "nx bs i = as_usize (buf_next (bs ! i))"

definition pv :: "buffer list \<Rightarrow> nat \<Rightarrow> nat" where
  "pv bs i = as_usize (buf_prev (bs ! i))"

fun linked :: "(nat \<Rightarrow> nat) \<Rightarrow> (nat \<Rightarrow> nat) \<Rightarrow> nat list \<Rightarrow> bool" where
  "linked f g (a # b # r) = (f a = b \<and> g b = a \<and> linked f g (b # r))"
| "linked f g _ = True"

definition lru_order :: "bcache_internal \<Rightarrow> nat list \<Rightarrow> bool" where
  "lru_order c xs \<longleftrightarrow>
     distinct xs \<and> set xs = {..<length (buffers c)} \<and> xs \<noteq> [] \<and> head c = hd xs \<and>
     length (buffers c) < 2 ^ 31 \<and>
     linked (nx (buffers c)) (pv (buffers c)) (xs @ [hd xs])"

text \<open>The order read off the list by following \<open>next\<close> from the head.\<close>

fun chase :: "buffer list \<Rightarrow> nat \<Rightarrow> nat \<Rightarrow> nat list" where
  "chase bs cur 0 = []"
| "chase bs cur (Suc n) = cur # chase bs (nx bs cur) n"

definition lru :: "bcache_internal \<Rightarrow> nat list" where
  "lru c = chase (buffers c) (head c) (length (buffers c))"

definition core :: "buffer \<Rightarrow> nat \<times> nat \<times> nat \<times> bytes" where
  "core b = (buf_dev b, buf_block_number b, buf_reference_count b, buf_data b)"

text \<open>The result of the surgery when no index is out of range.\<close>

definition relink :: "buffer list \<Rightarrow> nat \<Rightarrow> nat \<Rightarrow> nat \<Rightarrow> buffer list" where
  "relink bs i h hp =
     (let bs1 = bs[nx bs i := (bs ! nx bs i)\<lparr>buf_prev := buf_prev (bs ! i)\<rparr>];
          bs2 = bs1[pv bs i := (bs1 ! pv bs i)\<lparr>buf_next := buf_next (bs1 ! i)\<rparr>];
          bs3 = bs2[i := (bs2 ! i)\<lparr>buf_next := as_i32 h\<rparr>];
          bs4 = bs3[i := (bs3 ! i)\<lparr>buf_prev := buf_prev (bs2 ! h)\<rparr>];
          bs5 = bs4[h := (bs4 ! h)\<lparr>buf_prev := as_i32 i\<rparr>]
      in bs5[hp := (bs5 ! hp)\<lparr>buf_next := as_i32 i\<rparr>])"

subsection \<open>Doubly-linked segments\<close>

lemma linked_Cons: "xs \<noteq> [] \<Longrightarrow> linked f g (a # xs) \<longleftrightarrow> f a = hd xs \<and> g (hd xs) = a \<and> linked f g xs"
  by (cases xs) auto

lemma linked_append:
  "xs \<noteq> [] \<Longrightarrow> ys \<noteq> [] \<Longrightarrow>
   linked f g (xs @ ys) \<longleftrightarrow>
     linked f g xs \<and> f (last xs) = hd ys \<and> g (hd ys) = last xs \<and> linked f g ys"
  by (induction xs rule: induct_list012) (auto simp: linked_Cons)

lemma linked_cong:
  "\<forall>a \<in> set (butlast xs). f' a = f a \<Longrightarrow> \<forall>b \<in> set (tl xs). g' b = g b \<Longrightarrow>
   linked f' g' xs = linked f g xs"
  by (induction xs rule: induct_list012) auto

lemma linked_cong_distinct:
  assumes "distinct xs"
    and "\<And>a. a \<in> set xs \<Longrightarrow> a \<noteq> last xs \<Longrightarrow> f' a = f a"
    and "\<And>a. a \<in> set xs \<Longrightarrow> a \<noteq> hd xs \<Longrightarrow> g' a = g a"
  shows "linked f' g' xs = linked f g xs"
proof (cases "xs = []")
  case False
  obtain ys where ys: "xs = ys @ [last xs]"
    using False by (metis append_butlast_last_id)
  then have "last xs \<notin> set ys"
    using assms(1) by (metis distinct_append disjoint_iff list.set_intros(1))
  then have l: "a \<noteq> last xs" if "a \<in> set (butlast xs)" for a
    using that ys by (metis butlast_snoc)
  have h: "a \<noteq> hd xs" if "a \<in> set (tl xs)" for a
    using assms(1) that False by (cases xs) auto
  show ?thesis
  proof (rule linked_cong, goal_cases)
    case 1
    then show ?case using assms(2) l in_set_butlastD by fast
  next
    case 2
    then show ?case using assms(3) h False by (metis list.set_sel(2))
  qed
qed simp

lemma nx_upd_next [simp]:
  "k < length bs \<Longrightarrow> nx (bs[k := x\<lparr>buf_next := v\<rparr>]) = (nx bs)(k := as_usize v)"
  by (auto simp: nx_def fun_eq_iff nth_list_update)

lemma pv_upd_prev [simp]:
  "k < length bs \<Longrightarrow> pv (bs[k := x\<lparr>buf_prev := v\<rparr>]) = (pv bs)(k := as_usize v)"
  by (auto simp: pv_def fun_eq_iff nth_list_update)

lemma nx_upd_prev [simp]: "nx (bs[k := (bs ! k)\<lparr>buf_prev := v\<rparr>]) = nx bs"
  by (cases "k < length bs") (auto simp: nx_def fun_eq_iff nth_list_update list_update_beyond)

lemma pv_upd_next [simp]: "pv (bs[k := (bs ! k)\<lparr>buf_next := v\<rparr>]) = pv bs"
  by (cases "k < length bs") (auto simp: pv_def fun_eq_iff nth_list_update list_update_beyond)

lemma chase_linked:
  "linked (nx bs) g (xs @ [y]) \<Longrightarrow> chase bs (hd (xs @ [y])) (length xs) = xs"
proof (induction xs)
  case (Cons x xs)
  then show ?case by (cases xs) auto
qed simp

lemma lru_eq: "lru_order c xs \<Longrightarrow> lru c = xs"
proof -
  assume o: "lru_order c xs"
  then have len: "length xs = length (buffers c)"
    unfolding lru_order_def by (metis card_lessThan distinct_card)
  have l: "linked (nx (buffers c)) (pv (buffers c)) (xs @ [hd xs])" and "xs \<noteq> []" "head c = hd xs"
    using o by (simp_all add: lru_order_def)
  then have "head c = hd (xs @ [hd xs])" by simp
  with chase_linked[OF l] len show ?thesis by (simp only: lru_def)
qed

lemma iter_find_linked:
  "linked (nx bs) g (xs @ [y]) \<Longrightarrow> set xs \<subseteq> {..<length bs} \<Longrightarrow>
   iter_find p bs (hd (xs @ [y])) (length xs) = Some (find (\<lambda>i. p (bs ! i)) xs)"
proof (induction xs)
  case (Cons x xs)
  then show ?case by (cases xs) (auto simp: nth_chk_def nx_def)
qed simp

lemma recycle_linked:
  "linked f (pv bs) xs \<Longrightarrow> set xs \<subseteq> {..<length bs} \<Longrightarrow> xs \<noteq> [] \<Longrightarrow> as_usize cur = last xs \<Longrightarrow>
   recycle bs cur (length xs) = Some (find (\<lambda>i. buf_reference_count (bs ! i) = 0) (rev xs))"
proof (induction xs arbitrary: cur rule: rev_induct)
  case (snoc x xs)
  show ?case
  proof (cases "xs = []")
    case True
    with snoc.prems show ?thesis by (simp add: nth_chk_def)
  next
    case False
    with snoc.prems have "linked f (pv bs) xs" "pv bs x = last xs"
      by (simp_all add: linked_append)
    then have "linked f (pv bs) xs" "as_usize (buf_prev (bs ! x)) = last xs"
      by (simp_all only: pv_def)
    with snoc.prems snoc.IH[of "buf_prev (bs ! x)"] False show ?thesis
      by (simp add: nth_chk_def)
  qed
qed simp

subsection \<open>Moving a buffer to the front\<close>

lemma move_head:
  assumes "linked f g ((x # bs) @ [x])" "distinct (x # bs)"
  defines "h \<equiv> (f(g x := f x)) x"
  defines "hp \<equiv> (g(f x := g x)) h"
  shows "linked (f(g x := f x, x := h, hp := x)) (g(f x := g x, x := hp, h := x)) ((x # bs) @ [x])"
proof (cases "bs = []")
  case True
  with assms show ?thesis by simp
next
  case False
  from assms(1) False have fx: "f x = hd bs" and gx: "g x = last bs"
    and bk: "f (last bs) = x" "g (hd bs) = x"
    by (auto simp: linked_append linked_Cons)
  have ne: "hd bs \<noteq> x" "last bs \<noteq> x"
    using assms(2) False by auto
  have h: "h = hd bs" and hp: "hp = last bs"
    using ne by (auto simp: h_def hp_def fx gx)
  show ?thesis
    by (rule linked_cong[THEN iffD2, OF _ _ assms(1)]) (auto simp: h hp fx gx bk ne[symmetric])
qed

lemma linked_ring2:
  "us \<noteq> [] \<Longrightarrow> vs \<noteq> [] \<Longrightarrow> linked f g us \<Longrightarrow> linked f g vs \<Longrightarrow> f x = hd us \<Longrightarrow> g (hd us) = x \<Longrightarrow>
   f (last us) = hd vs \<Longrightarrow> g (hd vs) = last us \<Longrightarrow> f (last vs) = x \<Longrightarrow> g x = last vs \<Longrightarrow>
   linked f g ((x # us @ vs) @ [x])"
  by (simp add: linked_append linked_Cons)

lemma move_inner:
  assumes "linked f g ((us @ x # vs) @ [hd us])" "distinct (us @ x # vs)" "us \<noteq> []"
  defines "hp \<equiv> (g(f x := g x)) (hd us)"
  shows "linked (f(g x := f x, x := hd us, hp := x)) (g(f x := g x, x := hp, hd us := x))
           ((x # us @ vs) @ [x])"
    (is "linked ?f ?g _")
proof -
  have us: "linked f g us" and gx: "g x = last us"
    using assms(1,3) by (auto simp: linked_append linked_Cons)
  have nx: "x \<notin> set us" "x \<notin> set vs" and d: "distinct us" "distinct vs" "set us \<inter> set vs = {}"
    using assms(2) by auto
  have inus: "hd us \<in> set us" "last us \<in> set us" using assms(3) by auto
  show ?thesis
  proof (cases "vs = []")
    case True
    with assms(1,3) have fx: "f x = hd us"
      by (auto simp: linked_append linked_Cons)
    have hp: "hp = last us" by (simp add: hp_def fx gx)
    have "linked ?f ?g us = linked f g us"
      by (rule linked_cong_distinct) (use nx d in \<open>auto simp: fx gx hp\<close>)
    with us True assms(3) nx inus show ?thesis
      by (auto simp: linked_append linked_Cons hp fx gx)
  next
    case False
    with assms(1,3) have fx: "f x = hd vs" and vs: "linked f g vs"
      and ghd: "g (hd us) = last vs"
      by (auto simp: linked_append linked_Cons)
    have invs: "hd vs \<in> set vs" "last vs \<in> set vs" using False by auto
    have ne: "hd us \<noteq> hd vs" "last us \<noteq> last vs" "last us \<noteq> hd vs" "hd us \<noteq> last vs"
      using d inus invs by auto
    have hp: "hp = last vs" using ne by (simp add: hp_def fx ghd)
    have u: "linked ?f ?g us = linked f g us"
      by (rule linked_cong_distinct) (use nx d inus invs in \<open>auto simp: fx gx hp\<close>)
    have v: "linked ?f ?g vs = linked f g vs"
      by (rule linked_cong_distinct) (use nx d inus invs in \<open>auto simp: fx gx hp\<close>)
    have e: "?f x = hd us" "?g (hd us) = x" "?f (last us) = hd vs" "?g (hd vs) = last us"
      "?f (last vs) = x" "?g x = last vs"
      using nx inus invs ne by (auto simp: hp fx gx)
    show ?thesis
      by (rule linked_ring2[OF assms(3) False u[THEN iffD2, OF us] v[THEN iffD2, OF vs] e])
  qed
qed

lemma core_links [simp]:
  "core (b\<lparr>buf_prev := p\<rparr>) = core b" "core (b\<lparr>buf_next := n\<rparr>) = core b"
  by (simp_all add: core_def)

lemma map_core_links [simp]:
  "map core (bs[k := (bs ! k)\<lparr>buf_prev := v\<rparr>]) = map core bs"
  "map core (bs[k := (bs ! k)\<lparr>buf_next := v\<rparr>]) = map core bs"
  by (metis core_links list_update_id map_update)+

lemma ring_range:
  assumes "linked f g (xs @ [hd xs])" "x \<in> set xs"
  shows "f x \<in> set xs \<and> g x \<in> set xs"
proof -
  obtain us vs where xs: "xs = us @ x # vs"
    using assms(2) by (metis split_list)
  have l: "linked f g (us @ (x # (vs @ [hd xs])))"
    using assms(1) by (simp add: xs)
  then have f: "f x = hd (vs @ [hd xs])"
    by (cases "us = []") (simp_all add: linked_append linked_Cons)
  have g: "us \<noteq> [] \<Longrightarrow> g x = last us"
    using l by (simp add: linked_append)
  have "us = [] \<Longrightarrow> g x = last xs"
    using assms(1) linked_append[of xs "[hd xs]" f g] by (simp add: xs)
  with f g show ?thesis
    by (cases "us = []"; cases "vs = []") (auto simp: xs)
qed

lemma move_front:
  assumes "linked f g (xs @ [hd xs])" "distinct xs" "x \<in> set xs"
  defines "h \<equiv> (if hd xs = x then (f(g x := f x)) x else hd xs)"
  defines "hp \<equiv> (g(f x := g x)) h"
  shows "linked (f(g x := f x, x := h, hp := x)) (g(f x := g x, x := hp, h := x))
           ((x # remove1 x xs) @ [x])"
proof -
  obtain us vs where xs: "xs = us @ x # vs" and nus: "x \<notin> set us"
    using assms(3) by (metis split_list_first)
  have r: "remove1 x xs = us @ vs" using nus by (simp add: xs remove1_append)
  show ?thesis
  proof (cases "us = []")
    case True
    then have hd: "hd xs = x" and xs': "xs = x # vs" by (simp_all add: xs)
    show ?thesis
      using move_head[of f g x vs] assms(1,2) unfolding r h_def hp_def hd unfolding xs' True by simp
  next
    case False
    then have hd: "hd xs = hd us" "hd us \<noteq> x" using nus by (auto simp: xs)
    show ?thesis
      using move_inner[of f g us x vs] assms(1,2) False hd(2)
      unfolding r h_def hp_def hd(1) unfolding xs by simp
  qed
qed

lemma nx_upd_rc [simp]: "nx (bs[k := (bs ! k)\<lparr>buf_reference_count := v\<rparr>]) = nx bs"
  by (cases "k < length bs") (auto simp: nx_def fun_eq_iff nth_list_update list_update_beyond)

lemma pv_upd_rc [simp]: "pv (bs[k := (bs ! k)\<lparr>buf_reference_count := v\<rparr>]) = pv bs"
  by (cases "k < length bs") (auto simp: pv_def fun_eq_iff nth_list_update list_update_beyond)

lemma length_relink [simp]: "length (relink bs i h hp) = length bs"
  by (simp add: relink_def Let_def)

lemma relink_core: "map core (relink bs i h hp) = map core bs"
  by (simp only: relink_def Let_def map_core_links)

lemma relink_ok:
  fixes bs i h0
  defines "f \<equiv> nx bs" and "g \<equiv> pv bs" and "n \<equiv> length bs"
  defines "h \<equiv> (if h0 = i then (f(g i := f i)) i else h0)"
  defines "hp \<equiv> (g(f i := g i)) h"
  assumes i: "i < n" and rng: "f i < n" "g i < n" "h < n" "hp < n" "n < 2 ^ 31"
  shows "move_to_front i bs h0 = Some (relink bs i h hp, i)"
    and "nx (relink bs i h hp) = f(g i := f i, i := h, hp := i)"
    and "pv (relink bs i h hp) = g(f i := g i, i := hp, h := i)"
proof -
  define bs1 where "bs1 = bs[f i := (bs ! f i)\<lparr>buf_prev := buf_prev (bs ! i)\<rparr>]"
  define bs2 where "bs2 = bs1[g i := (bs1 ! g i)\<lparr>buf_next := buf_next (bs1 ! i)\<rparr>]"
  define bs3 where "bs3 = bs2[i := (bs2 ! i)\<lparr>buf_next := as_i32 h\<rparr>]"
  define bs4 where "bs4 = bs3[i := (bs3 ! i)\<lparr>buf_prev := buf_prev (bs2 ! h)\<rparr>]"
  define bs5 where "bs5 = bs4[h := (bs4 ! h)\<lparr>buf_prev := as_i32 i\<rparr>]"
  define bs6 where "bs6 = bs5[hp := (bs5 ! hp)\<lparr>buf_next := as_i32 i\<rparr>]"
  note steps = bs1_def bs2_def bs3_def bs4_def bs5_def bs6_def
  have r: "relink bs i h hp = bs6"
    by (simp only: relink_def Let_def steps f_def g_def)
  have len: "length bs1 = n" "length bs2 = n" "length bs3 = n" "length bs4 = n" "length bs5 = n"
    by (simp_all add: steps n_def)
  have n1: "nx bs1 = f" "pv bs1 = g(f i := g i)"
    using rng(1) by (simp_all add: bs1_def n_def flip: f_def g_def) (simp add: g_def pv_def)
  have n2: "nx bs2 = f(g i := f i)" "pv bs2 = g(f i := g i)"
    by (simp_all add: bs2_def n1 len rng) (simp add: nx_def flip: n1)
  have hp: "as_usize (buf_prev (bs2 ! h)) = hp"
    unfolding hp_def n2(2)[symmetric] by (simp add: pv_def)
  have n3: "nx bs3 = f(g i := f i, i := h)" "pv bs3 = g(f i := g i)"
    using rng i by (simp_all add: bs3_def n2 len)
  have n4: "nx bs4 = f(g i := f i, i := h)" "pv bs4 = g(f i := g i, i := hp)"
    using i by (simp_all add: bs4_def n3 len hp)
  have n5: "nx bs5 = f(g i := f i, i := h)" "pv bs5 = g(f i := g i, i := hp, h := i)"
    using rng i by (simp_all add: bs5_def n4 len)
  show "nx (relink bs i h hp) = f(g i := f i, i := h, hp := i)"
    "pv (relink bs i h hp) = g(f i := g i, i := hp, h := i)"
    using rng i by (simp_all add: r bs6_def n5 len)
  have hd: "(if h0 = i then map_option (\<lambda>x. as_usize (buf_next x)) (nth_chk bs2 h0)
             else Some h0) = Some h"
    using i fun_cong[OF n2(1), of i] unfolding h_def
    by (auto simp: nth_chk_def len nx_def)
  have m: "nth_chk bs i = Some (bs ! i)"
    "modify_chk bs (f i) (\<lambda>x. x\<lparr>buf_prev := buf_prev (bs ! i)\<rparr>) = Some bs1"
    "modify_chk bs1 (g i) (\<lambda>x. x\<lparr>buf_next := buf_next (bs1 ! i)\<rparr>) = Some bs2"
    "nth_chk bs2 h = Some (bs2 ! h)"
    "modify_chk bs2 i (\<lambda>x. x\<lparr>buf_next := as_i32 h\<rparr>) = Some bs3"
    "modify_chk bs3 i (\<lambda>x. x\<lparr>buf_prev := buf_prev (bs2 ! h)\<rparr>) = Some bs4"
    "modify_chk bs4 h (\<lambda>x. x\<lparr>buf_prev := as_i32 i\<rparr>) = Some bs5"
    "modify_chk bs5 hp (\<lambda>x. x\<lparr>buf_next := as_i32 i\<rparr>) = Some bs6"
    using rng i by (simp_all add: modify_chk_def nth_chk_def len steps flip: n_def)
  have s: "as_usize (buf_prev (bs ! i)) = g i" "as_usize (buf_next (bs ! i)) = f i"
    by (simp_all add: f_def g_def nx_def pv_def)
  show "move_to_front i bs h0 = Some (relink bs i h hp, i)"
    by (simp only: move_to_front_def s Let_def bind.bind_lunit m hd hp r)
qed

lemma lru_orderD:
  assumes "lru_order c xs"
  shows "distinct xs" "set xs = {..<length (buffers c)}" "xs \<noteq> []" "head c = hd xs"
    "length (buffers c) < 2 ^ 31" "linked (nx (buffers c)) (pv (buffers c)) (xs @ [hd xs])"
  using assms by (simp_all add: lru_order_def)

lemma move_to_front_order:
  assumes o: "lru_order c xs" and i: "i < length (buffers c)"
  shows "\<exists>bs. move_to_front i (buffers c) (head c) = Some (bs, i) \<and>
           lru_order (c\<lparr>buffers := bs, head := i\<rparr>) (i # remove1 i xs) \<and> map core bs = map core (buffers c)"
proof -
  let ?bs = "buffers c" and ?n = "length (buffers c)"
  note xs = lru_orderD[OF o]
  define f where "f = nx ?bs"
  define g where "g = pv ?bs"
  have lk: "linked f g (xs @ [hd xs])" using xs(6) by (simp add: f_def g_def)
  define h where "h = (if hd xs = i then (f(g i := f i)) i else hd xs)"
  define hp where "hp = (g(f i := g i)) h"
  have ix: "i \<in> set xs" using i xs(2) by simp
  have rng: "f i < ?n" "g i < ?n"
    using ring_range[OF lk ix] xs(2) by auto
  have "hd xs < ?n"
    using hd_in_set[OF xs(3)] unfolding xs(2) by simp
  then have hrng: "h < ?n"
    by (simp add: h_def rng)
  then have "g h < ?n"
    using ring_range[OF lk, of h] unfolding xs(2) by simp
  then have hprng: "hp < ?n"
    by (simp add: hp_def rng)
  note k = relink_ok[of i ?bs "hd xs", folded f_def g_def, folded h_def, folded hp_def,
      OF i rng hrng hprng xs(5)]
  have "lru_order (c\<lparr>buffers := relink ?bs i h hp, head := i\<rparr>) (i # remove1 i xs)"
    using move_front[OF lk xs(1) ix, folded h_def, folded hp_def] xs ix
    by (simp add: lru_order_def k insert_absorb)
  with k(1) relink_core show ?thesis unfolding xs(4) by blast
qed

end
