(* ===== verification/Bcache_Spec.thy ===== *)
theory Bcache_Spec
  imports Bcache
begin

text \<open>
  What the buffer cache promises to the layers above it.  The cache is seen as four functions of
  the block number: the references held on the block, its current content, what the disk holds,
  and the slot of a held block.  The locale \<open>block_cache\<close> states the contract in these terms; the
  operations of \<open>Bcache\<close> interpret it.
\<close>

abbreviation (input) ROOTDEV :: nat where "ROOTDEV \<equiv> 1"

definition has_key :: "nat \<Rightarrow> buffer \<Rightarrow> bool" where
  "has_key n b \<longleftrightarrow> buf_dev b = ROOTDEV \<and> buf_block_number b = n"

definition cached :: "bcache_internal \<Rightarrow> nat \<Rightarrow> (nat \<times> bytes) option" where
  "cached c n = map_option (\<lambda>b. (buf_reference_count b, buf_data b)) (find (has_key n) (buffers c))"

definition unique_keys :: "buffer list \<Rightarrow> bool" where
  "unique_keys bs \<longleftrightarrow>
     (\<forall>n. \<forall>i < length bs. \<forall>j < length bs. has_key n (bs ! i) \<and> has_key n (bs ! j) \<longrightarrow> i = j)"

definition internal_ok :: "bcache_internal \<Rightarrow> bool" where
  "internal_ok c \<longleftrightarrow>
     length (buffers c) = NBUF \<and> lru_order c (lru c) \<and> unique_keys (buffers c) \<and>
     (\<forall>b \<in> set (buffers c). length (buf_data b) = BSIZE \<and>
        (buf_dev b = ROOTDEV \<or> buf_dev b = 0 \<and> buf_reference_count b = 0))"

definition slot_of :: "bcache_internal \<Rightarrow> nat \<Rightarrow> nat option" where
  "slot_of c n = position (has_key n) (buffers c)"

definition refs :: "buffer_cache \<Rightarrow> nat \<Rightarrow> nat" where
  "refs c n = (case cached (bc_internal c) n of None \<Rightarrow> 0 | Some (r, _) \<Rightarrow> r)"

definition disk :: "buffer_cache \<Rightarrow> nat \<Rightarrow> bytes option" where
  "disk c = disk_block (bc_bdev c)"

definition content :: "buffer_cache \<Rightarrow> nat \<Rightarrow> bytes option" where
  "content c n = (case cached (bc_internal c) n of None \<Rightarrow> disk c n | Some (_, d) \<Rightarrow> Some d)"

definition holds :: "buffer_cache \<Rightarrow> buffer_guard \<Rightarrow> nat \<Rightarrow> bool" where
  "holds c g n \<longleftrightarrow> slot_of (bc_internal c) n = Some (bg_index g) \<and> 0 < refs c n \<and>
     bg_dev g = ROOTDEV \<and> bg_block_number g = n"

definition in_use :: "buffer_cache \<Rightarrow> nat" where
  "in_use c = card {n. 0 < refs c n}"

text \<open>
  The invariant: a cached block that nobody references agrees with the disk (so it may be
  recycled), and only blocks of the device are cached.
\<close>

definition bc_ok :: "buffer_cache \<Rightarrow> bool" where
  "bc_ok c \<longleftrightarrow> internal_ok (bc_internal c) \<and>
     (\<forall>n. cached (bc_internal c) n \<noteq> None \<longrightarrow> disk c n \<noteq> None \<and> (refs c n = 0 \<longrightarrow> content c n = disk c n))"

text \<open>Changing the count and the data of a cached block.\<close>

abbreviation with_slot :: "nat \<Rightarrow> nat \<Rightarrow> bytes \<Rightarrow> bcache_internal \<Rightarrow> bcache_internal" where
  "with_slot i r d c \<equiv>
     c\<lparr>buffers := (buffers c)[i := (buffers c ! i)\<lparr>buf_reference_count := r, buf_data := d\<rparr>]\<rparr>"

section \<open>Slots and contents\<close>

lemma unique_keysD:
  "unique_keys bs \<Longrightarrow> has_key n (bs ! i) \<Longrightarrow> has_key n (bs ! j) \<Longrightarrow> i < length bs \<Longrightarrow> j < length bs \<Longrightarrow> i = j"
  unfolding unique_keys_def by blast

lemma find_unique:
  assumes "unique_keys bs" "i < length bs" "has_key n (bs ! i)"
  shows "find (has_key n) bs = Some (bs ! i)"
proof -
  have "find (has_key n) bs \<noteq> None"
    using assms(3) nth_mem[OF assms(2)] by (auto simp: find_None_iff)
  then obtain b where b: "find (has_key n) bs = Some b" by blast
  then obtain j where "j < length bs" "has_key n (bs ! j)" "b = bs ! j"
    by (auto simp: find_Some_iff)
  with assms b show ?thesis using unique_keysD by metis
qed

lemma find_order:
  assumes "unique_keys bs" "set xs = {..<length bs}"
  shows "find (\<lambda>i. has_key n (bs ! i)) xs = position (has_key n) bs"
proof (cases "position (has_key n) bs")
  case None
  then have "find (\<lambda>i. has_key n (bs ! i)) xs = None"
    using assms(2) by (auto simp: position_None find_None_iff)
  with None show ?thesis by simp
next
  case (Some i)
  then have i: "i < length bs" "has_key n (bs ! i)" by (simp_all add: position_Some)
  with assms(2) have "find (\<lambda>i. has_key n (bs ! i)) xs \<noteq> None"
    by (auto simp: find_None_iff)
  then obtain j where j: "find (\<lambda>i. has_key n (bs ! i)) xs = Some j" by blast
  then have "j \<in> set xs" "has_key n (bs ! j)" by (auto simp: find_Some_iff)
  with i assms Some j show ?thesis using unique_keysD by (metis lessThan_iff)
qed

lemma slot_of_cached:
  assumes "unique_keys (buffers c)"
  shows "slot_of c n = Some i \<longleftrightarrow> i < length (buffers c) \<and> has_key n (buffers c ! i)"
proof
  assume "slot_of c n = Some i"
  then show "i < length (buffers c) \<and> has_key n (buffers c ! i)"
    by (simp add: slot_of_def position_Some)
next
  assume i: "i < length (buffers c) \<and> has_key n (buffers c ! i)"
  have "\<not> has_key n (buffers c ! j)" if "j < i" for j
    using unique_keysD[OF assms, of n i j] i that by auto
  with i show "slot_of c n = Some i" by (simp add: slot_of_def position_Some)
qed

lemma cached_slot:
  assumes "unique_keys (buffers c)" "slot_of c n = Some i"
  shows "cached c n = Some (buf_reference_count (buffers c ! i), buf_data (buffers c ! i))"
  using assms find_unique[OF assms(1), of i n] by (simp add: slot_of_cached cached_def)

lemma cached_None: "cached c n = None \<longleftrightarrow> slot_of c n = None"
  by (auto simp: cached_def slot_of_def position_None find_None_iff)

text \<open>Changing a buffer without changing its key.\<close>

lemma cached_update:
  assumes "unique_keys (buffers c)" "slot_of c n = Some i" "has_key n b"
  shows "unique_keys ((buffers c)[i := b])"
    and "cached (c\<lparr>buffers := (buffers c)[i := b]\<rparr>) = (cached c)(n \<mapsto> (buf_reference_count b, buf_data b))"
    and "slot_of (c\<lparr>buffers := (buffers c)[i := b]\<rparr>) = slot_of c"
proof -
  have i: "i < length (buffers c)" "has_key n (buffers c ! i)"
    using assms by (simp_all add: slot_of_cached)
  have k: "has_key m ((buffers c)[i := b] ! j) = has_key m (buffers c ! j)" if "j < length (buffers c)" for m j
    using i assms(3) that by (auto simp: nth_list_update has_key_def)
  show u: "unique_keys ((buffers c)[i := b])"
    using assms(1) unfolding unique_keys_def by (simp add: k)
  show s: "slot_of (c\<lparr>buffers := (buffers c)[i := b]\<rparr>) = slot_of c"
  proof
    fix m
    have "slot_of (c\<lparr>buffers := (buffers c)[i := b]\<rparr>) m = Some j \<longleftrightarrow> slot_of c m = Some j" for j
      using assms(1) u by (auto simp: slot_of_cached k)
    then show "slot_of (c\<lparr>buffers := (buffers c)[i := b]\<rparr>) m = slot_of c m"
      by (metis option.exhaust)
  qed
  show "cached (c\<lparr>buffers := (buffers c)[i := b]\<rparr>) = (cached c)(n \<mapsto> (buf_reference_count b, buf_data b))"
  proof
    fix m
    show "cached (c\<lparr>buffers := (buffers c)[i := b]\<rparr>) m = ((cached c)(n \<mapsto> (buf_reference_count b, buf_data b))) m"
    proof (cases "slot_of c m")
      case None
      then have "m \<noteq> n" using assms(2) by auto
      with None show ?thesis using s cached_None by (metis fun_upd_other)
    next
      case (Some j)
      have "(j = i) = (m = n)"
        using Some assms i by (metis option.inject slot_of_cached has_key_def)
      with Some s i u show ?thesis
        using cached_slot[of "c\<lparr>buffers := (buffers c)[i := b]\<rparr>" m j] cached_slot[OF assms(1) Some]
        by (auto simp: nth_list_update)
    qed
  qed
qed

text \<open>Giving an unreferenced buffer to another block.\<close>

lemma cached_replace:
  assumes "unique_keys (buffers c)" "slot_of c n = None" "i < length (buffers c)" "has_key n b"
  defines "c' \<equiv> c\<lparr>buffers := (buffers c)[i := b]\<rparr>"
  shows "unique_keys (buffers c')"
    and "slot_of c' n = Some i"
    and "cached c' = (if buf_dev (buffers c ! i) = ROOTDEV
            then (cached c)(buf_block_number (buffers c ! i) := None) else cached c)
          (n \<mapsto> (buf_reference_count b, buf_data b))"
    and "slot_of c m = Some j \<Longrightarrow> j \<noteq> i \<Longrightarrow> slot_of c' m = Some j"
proof -
  have bs: "buffers c' = (buffers c)[i := b]" by (simp add: c'_def)
  have no: "\<not> has_key n (buffers c ! j)" if "j < length (buffers c)" for j
    using assms(2) that by (auto simp: slot_of_def position_None)
  have k: "has_key m (buffers c' ! j) = (if j = i then m = n else has_key m (buffers c ! j))"
    if "j < length (buffers c)" for m j
    using assms(3,4) that by (auto simp: bs nth_list_update has_key_def)
  have len: "length (buffers c') = length (buffers c)" by (simp add: bs)
  show u: "unique_keys (buffers c')"
    unfolding unique_keys_def len
  proof (intro allI impI)
    fix m j1 j2
    assume "j1 < length (buffers c)" "j2 < length (buffers c)"
      and "has_key m (buffers c' ! j1) \<and> has_key m (buffers c' ! j2)"
    then show "j1 = j2"
      using unique_keysD[OF assms(1), of m j1 j2] no by (auto simp: k split: if_splits)
  qed
  have s: "slot_of c' m = Some j \<longleftrightarrow> j < length (buffers c) \<and> (if j = i then m = n else has_key m (buffers c ! j))" for m j
    unfolding slot_of_cached[OF u] len using k by (metis (no_types))
  show n: "slot_of c' n = Some i" using assms(3) by (simp add: s)
  show sl: "slot_of c m = Some j \<Longrightarrow> j \<noteq> i \<Longrightarrow> slot_of c' m = Some j" for m j
    using assms(1) by (simp add: s slot_of_cached)
  show "cached c' = (if buf_dev (buffers c ! i) = ROOTDEV
            then (cached c)(buf_block_number (buffers c ! i) := None) else cached c)
          (n \<mapsto> (buf_reference_count b, buf_data b))" (is "_ = ?r")
  proof
    fix m
    consider "m = n" | "m \<noteq> n" "has_key m (buffers c ! i)"
      | "m \<noteq> n" "\<not> has_key m (buffers c ! i)" by blast
    then show "cached c' m = ?r m"
    proof cases
      case 1
      then show ?thesis using cached_slot[OF u n] assms(3) by (simp add: bs)
    next
      case 2
      then have "slot_of c' m = None"
        using assms(1,3) unfolding unique_keys_def
        by (cases "slot_of c' m") (auto simp: s split: if_splits)
      with 2 show ?thesis by (simp add: cached_None has_key_def)
    next
      case 3
      have "slot_of c' m = slot_of c m"
      proof (cases "slot_of c m")
        case None
        then have "\<not> has_key m (buffers c ! j)" if "j < length (buffers c)" for j
          using that by (simp add: slot_of_def position_None)
        then have "slot_of c' m \<noteq> Some j" for j
          using 3(1) by (auto simp: s)
        with None show ?thesis by (metis option.exhaust)
      next
        case (Some j)
        with 3(2) assms(1) have "j \<noteq> i" by (auto simp: slot_of_cached)
        with Some show ?thesis by (simp add: sl)
      qed
      moreover have "slot_of c m \<noteq> Some i" using 3(2) assms(1) by (simp add: slot_of_cached)
      ultimately have "cached c' m = cached c m"
        using cached_slot[OF u, of m] cached_slot[OF assms(1), of m] cached_None
        by (cases "slot_of c m") (auto simp: bs, metis)
      with 3 show ?thesis by (auto simp: has_key_def)
    qed
  qed
qed

section \<open>Updates of the invariant\<close>

lemma lru_order_links:
  assumes o: "lru_order c xs" and l: "length bs = length (buffers c)"
    and "\<And>i. i < length bs \<Longrightarrow> buf_prev (bs ! i) = buf_prev (buffers c ! i)"
    and "\<And>i. i < length bs \<Longrightarrow> buf_next (bs ! i) = buf_next (buffers c ! i)"
  shows "lru_order (c\<lparr>buffers := bs\<rparr>) xs"
proof -
  note xs = lru_orderD[OF o]
  have n: "nx bs i = nx (buffers c) i" "pv bs i = pv (buffers c) i" if "i < length bs" for i
    using assms(3,4) that by (simp_all add: nx_def pv_def)
  have "set (butlast (xs @ [hd xs])) \<subseteq> {..<length bs}" "set (tl (xs @ [hd xs])) \<subseteq> {..<length bs}"
    using xs(2,3) l by (cases xs; auto)+
  then have "linked (nx bs) (pv bs) (xs @ [hd xs])"
    using linked_cong[of "xs @ [hd xs]" "nx bs" "nx (buffers c)" "pv bs" "pv (buffers c)"] n xs(6)
    by (auto simp: subset_iff)
  with xs l show ?thesis by (simp add: lru_order_def)
qed

lemma internal_lru:
  assumes "internal_ok c"
  shows "set (lru c) = {..<NBUF}" "distinct (lru c)" "lru_order c (lru c)" "length (buffers c) = NBUF" "length (lru c) = NBUF"
proof -
  show l: "length (buffers c) = NBUF" and o: "lru_order c (lru c)" using assms by (auto simp: internal_ok_def)
  show d: "distinct (lru c)" and s: "set (lru c) = {..<NBUF}"
    using lru_orderD[OF o] l by simp_all
  show "length (lru c) = NBUF" using distinct_card[OF d] s by simp
qed

lemma bget_hit:
  assumes ok: "internal_ok c" and s: "slot_of c n = Some i" and r: "buf_reference_count (buffers c ! i) + 1 < 2 ^ 32"
  shows "bget ROOTDEV n c = Some ((True, i), c\<lparr>buffers := (buffers c)[i :=
     (buffers c ! i)\<lparr>buf_reference_count := buf_reference_count (buffers c ! i) + 1\<rparr>]\<rparr>)"
proof -
  note l = internal_lru[OF ok] lru_orderD[OF internal_lru(3)[OF ok]]
  have "iter_find (has_key n) (buffers c) (head c) (length (buffers c)) = Some (Some i)"
    using iter_find_linked[OF l(11), of "has_key n"] find_order[of "buffers c" "lru c" n] s l ok
    by (simp add: slot_of_def internal_ok_def)
  moreover have "i < length (buffers c)" using s by (simp add: slot_of_def position_Some)
  ultimately show ?thesis
    using r by (simp add: bget_def has_key_def[abs_def] nth_chk_def add_u32_def)
qed

lemma bget_miss:
  assumes ok: "internal_ok c" and s: "slot_of c n = None"
    and f: "find (\<lambda>i. buf_reference_count (buffers c ! i) = 0) (rev (lru c)) = Some i"
  shows "bget ROOTDEV n c = Some ((False, i), c\<lparr>buffers := (buffers c)[i :=
     (buffers c ! i)\<lparr>buf_dev := ROOTDEV, buf_block_number := n, buf_reference_count := 1\<rparr>]\<rparr>)"
proof -
  note l = internal_lru[OF ok] lru_orderD[OF internal_lru(3)[OF ok]]
  have 1: "iter_find (has_key n) (buffers c) (head c) (length (buffers c)) = Some None"
    using iter_find_linked[OF l(11), of "has_key n"] find_order[of "buffers c" "lru c" n] s l ok
    by (simp add: slot_of_def internal_ok_def)
  have hd: "nth_chk (buffers c) (head c) = Some (buffers c ! head c)"
    using l hd_in_set[OF l(8)] unfolding l(9) nth_chk_def l(7) by simp
  have lk: "linked (nx (buffers c)) (pv (buffers c)) (lru c)" 
   and pv: "as_usize (buf_prev (buffers c ! head c)) = last (lru c)"
    using l(8,9,11) linked_append[of "lru c" "[hd (lru c)]"] by (simp_all add: pv_def)
  have 2: "recycle (buffers c) (buf_prev (buffers c ! head c)) NBUF = Some (Some i)"
    using recycle_linked[OF lk _ l(8) pv] f l by simp
  show ?thesis
    using 1 2 hd by (simp add: bget_def has_key_def[abs_def])
qed

lemma internal_ok_intro:
  assumes "lru_order c xs" "length (buffers c) = NBUF" "unique_keys (buffers c)"
    "\<And>b. b \<in> set (buffers c) \<Longrightarrow> length (buf_data b) = BSIZE \<and>
        (buf_dev b = ROOTDEV \<or> buf_dev b = 0 \<and> buf_reference_count b = 0)"
  shows "internal_ok c"
  using assms lru_eq[OF assms(1)] by (simp add: internal_ok_def)

text \<open>Everything but the order of the list is a function of the contents of the buffers.\<close>

lemma core_cong:
  assumes "map core bs = map core (buffers c)"
  shows "cached (c\<lparr>buffers := bs, head := h\<rparr>) = cached c"
    and "slot_of (c\<lparr>buffers := bs, head := h\<rparr>) = slot_of c"
    and "internal_ok c \<Longrightarrow> lru_order (c\<lparr>buffers := bs, head := h\<rparr>) xs \<Longrightarrow>
           internal_ok (c\<lparr>buffers := bs, head := h\<rparr>)"
proof -
  have k: "has_key n = (\<lambda>(d, b, _). d = ROOTDEV \<and> b = n) \<circ> core" for n
    by (auto simp: fun_eq_iff has_key_def core_def)
  have pm: "position (P \<circ> f) xs = position P (map f xs)" for P f and xs :: "buffer list"
    by (induction xs) auto
  have fm: "map_option f (find (P \<circ> f) xs) = find P (map f xs)" for P f and xs :: "buffer list"
    by (induction xs) auto
  have len: "length bs = length (buffers c)" using assms by (metis length_map)
  show "slot_of (c\<lparr>buffers := bs, head := h\<rparr>) = slot_of c"
    by (rule ext) (simp add: slot_of_def k pm assms)
  have "map_option (\<lambda>b. (buf_reference_count b, buf_data b)) (find (has_key n) xs) =
        map_option (\<lambda>(_, _, r, d). (r, d)) (find (\<lambda>(d, b, _). d = ROOTDEV \<and> b = n) (map core xs))" for n xs
    unfolding fm[symmetric] k option.map_comp by (rule option.map_cong0) (simp add: core_def)
  then show "cached (c\<lparr>buffers := bs, head := h\<rparr>) = cached c"
    by (simp add: cached_def[abs_def] assms)
  have "core (bs ! i) = core (buffers c ! i)" if "i < length bs" for i
    using assms that len by (metis nth_map)
  then have e: "has_key n (bs ! i) = has_key n (buffers c ! i)"
    "buf_data (bs ! i) = buf_data (buffers c ! i)" "buf_dev (bs ! i) = buf_dev (buffers c ! i)"
    "buf_reference_count (bs ! i) = buf_reference_count (buffers c ! i)" if "i < length bs" for n i
    using that by (auto simp: k core_def)
  show "internal_ok (c\<lparr>buffers := bs, head := h\<rparr>)"
    if ok: "internal_ok c" and o: "lru_order (c\<lparr>buffers := bs, head := h\<rparr>) xs"
  proof (rule internal_ok_intro[OF o])
    show "length (buffers (c\<lparr>buffers := bs, head := h\<rparr>)) = NBUF"
      using ok len by (simp add: internal_ok_def)
    show "unique_keys (buffers (c\<lparr>buffers := bs, head := h\<rparr>))"
      using ok len e by (simp add: internal_ok_def unique_keys_def)
    fix b assume "b \<in> set (buffers (c\<lparr>buffers := bs, head := h\<rparr>))"
    then obtain i where i: "i < length bs" "b = bs ! i" by (auto simp: in_set_conv_nth)
    then show "length (buf_data b) = BSIZE \<and> (buf_dev b = ROOTDEV \<or> buf_dev b = 0 \<and> buf_reference_count b = 0)"
      using ok len nth_mem[of i "buffers c"] unfolding i(2) e[OF i(1)] internal_ok_def by simp
  qed
qed

lemma with_slot_ok:
  assumes ok: "internal_ok c" and s: "slot_of c n = Some i" and d: "length d = BSIZE"
  shows "internal_ok (with_slot i r d c)"
    and "cached (with_slot i r d c) = (cached c)(n \<mapsto> (r, d))"
    and "slot_of (with_slot i r d c) = slot_of c"
    and "lru (with_slot i r d c) = lru c"
proof -
  have u: "unique_keys (buffers c)" using ok by (simp add: internal_ok_def)
  have i: "i < length (buffers c)" "has_key n (buffers c ! i)" using s u by (simp_all add: slot_of_cached)
  let ?b = "(buffers c ! i)\<lparr>buf_reference_count := r, buf_data := d\<rparr>"
  have k: "has_key n ?b" using i by (simp add: has_key_def)
  note c = cached_update[OF u s k]
  show "cached (with_slot i r d c) = (cached c)(n \<mapsto> (r, d))" "slot_of (with_slot i r d c) = slot_of c"
    using c(2,3) by simp_all
  have o: "lru_order (with_slot i r d c) (lru c)"
    by (rule lru_order_links[OF internal_lru(3)[OF ok]]) (simp_all add: nth_list_update i(1))
  then show "lru (with_slot i r d c) = lru c" by (rule lru_eq)
  show "internal_ok (with_slot i r d c)"
  proof (rule internal_ok_intro[OF o])
    show "length (buffers (with_slot i r d c)) = NBUF" using ok by (simp add: internal_ok_def)
    show "unique_keys (buffers (with_slot i r d c))" using c(1) by simp
    fix b assume "b \<in> set (buffers (with_slot i r d c))"
    then have "b = ?b \<or> b \<in> set (buffers c)" using set_update_subset_insert by fastforce
    then show "length (buf_data b) = BSIZE \<and> (buf_dev b = ROOTDEV \<or> buf_dev b = 0 \<and> buf_reference_count b = 0)"
      using ok i d by (auto simp: internal_ok_def has_key_def)
  qed
qed

lemma release_ok:
  assumes ok: "internal_ok c" and s: "slot_of c n = Some i" and c: "cached c n = Some (r, d)" and r: "0 < r"
  shows "\<exists>c'. release_internal i c = Some c' \<and> internal_ok c' \<and> cached c' = (cached c)(n \<mapsto> (r - 1, d)) \<and>
     slot_of c' = slot_of c \<and> lru c' = (if r = 1 then i # remove1 i (lru c) else lru c)"
proof -
  have u: "unique_keys (buffers c)" using ok by (simp add: internal_ok_def)
  have i: "i < length (buffers c)" using s u by (simp add: slot_of_cached)
  have b: "buf_reference_count (buffers c ! i) = r" "buf_data (buffers c ! i) = d"
    using cached_slot[OF u s] c by simp_all
  have dl: "length d = BSIZE" using ok i b nth_mem[OF i] by (auto simp: internal_ok_def)
  let ?c = "with_slot i (r - 1) d c"
  have w: "(buffers c)[i := (buffers c ! i)\<lparr>buf_reference_count := r - 1\<rparr>] = buffers ?c"
    by (simp add: b(2)[symmetric])
  note ws = with_slot_ok[OF ok s dl, of "r - 1"]
  have step: "nth_chk (buffers c) i = Some (buffers c ! i)" "sub_chk (buf_reference_count (buffers c ! i)) 1 = Some (r - 1)"
    using i r b by (simp_all add: nth_chk_def sub_chk_def)
  show ?thesis
  proof (cases "r = 1")
    case False
    then have "release_internal i c = Some ?c"
      unfolding release_internal_def step bind.bind_lunit Let_def w using r by simp
    with ws False show ?thesis by simp
  next
    case True
    have i': "i < length (buffers ?c)" using i by simp
    obtain bs where m: "move_to_front i (buffers ?c) (head ?c) = Some (bs, i)"
      and o: "lru_order (?c\<lparr>buffers := bs, head := i\<rparr>) (i # remove1 i (lru ?c))"
      and k: "map core bs = map core (buffers ?c)"
      using move_to_front_order[OF internal_lru(3)[OF ws(1)] i'] by blast
    have rel: "release_internal i c = Some (?c\<lparr>buffers := bs, head := i\<rparr>)"
      unfolding release_internal_def step bind.bind_lunit Let_def w using m True by simp
    note cc = core_cong[OF k, of i]
    show ?thesis
      using rel cc(1,2) cc(3)[OF ws(1) o] lru_eq[OF o] ws True by simp
  qed
qed

section \<open>The operations in terms of the views\<close>

lemma bc_okD:
  assumes "bc_ok c"
  shows "internal_ok (bc_internal c)" "unique_keys (buffers (bc_internal c))"
    "length (buffers (bc_internal c)) = NBUF"
    "cached (bc_internal c) n \<noteq> None \<Longrightarrow> disk c n \<noteq> None"
    "cached (bc_internal c) n \<noteq> None \<Longrightarrow> refs c n = 0 \<Longrightarrow> content c n = disk c n"
  using assms by (auto simp: bc_ok_def internal_ok_def)

lemma cached_views:
  "cached (bc_internal c) n = Some (r, d) \<Longrightarrow> refs c n = r \<and> content c n = Some d"
  by (simp add: refs_def content_def)

lemma slot_cached:
  assumes "bc_ok c" "slot_of (bc_internal c) n = Some i"
  shows "\<exists>d. cached (bc_internal c) n = Some (refs c n, d) \<and> content c n = Some d \<and> length d = BSIZE \<and>
     i < length (buffers (bc_internal c)) \<and> buffers (bc_internal c) ! i \<in> set (buffers (bc_internal c)) \<and>
     buf_reference_count (buffers (bc_internal c) ! i) = refs c n \<and> buf_data (buffers (bc_internal c) ! i) = d"
proof -
  note ok = bc_okD[OF assms(1)]
  have i: "i < length (buffers (bc_internal c))" using assms(2) ok(2) by (simp add: slot_of_cached)
  have "length (buf_data (buffers (bc_internal c) ! i)) = BSIZE"
    using ok(1) nth_mem[OF i] by (auto simp: internal_ok_def)
  with i cached_slot[OF ok(2) assms(2)] show ?thesis
    by (auto simp: refs_def content_def)
qed

lemma referenced_slot: "bc_ok c \<Longrightarrow> 0 < refs c n \<Longrightarrow> \<exists>i. slot_of (bc_internal c) n = Some i"
  using cached_None[of "bc_internal c" n] by (auto simp: refs_def split: option.splits)

text \<open>A step that sets the count and the data of one cached block.\<close>

lemma set_slot_ok:
  assumes ok: "bc_ok c" and s: "slot_of (bc_internal c) n = Some i" and d: "length d = BSIZE"
    and z: "r = 0 \<Longrightarrow> disk c n = Some d"
    and i': "internal_ok i'" "cached i' = (cached (bc_internal c))(n \<mapsto> (r, d))" "slot_of i' = slot_of (bc_internal c)"
    and c': "c' = c\<lparr>bc_internal := i'\<rparr>"
  shows "bc_ok c'" "refs c' = (refs c)(n := r)" "content c' = (content c)(n \<mapsto> d)"
    "disk c' = disk c" "bc_writes c' = bc_writes c" "slot_of (bc_internal c') = slot_of (bc_internal c)"
proof -
  show dk: "disk c' = disk c" and "bc_writes c' = bc_writes c"
    and "slot_of (bc_internal c') = slot_of (bc_internal c)"
    using i' by (simp_all add: c' disk_def)
  show r: "refs c' = (refs c)(n := r)" and ct: "content c' = (content c)(n \<mapsto> d)"
    using i' dk by (auto simp: c' refs_def content_def disk_def fun_eq_iff split: option.split)
  have "cached (bc_internal c) n \<noteq> None" using s cached_None by (metis option.distinct(1))
  then show "bc_ok c'"
    using ok i' z unfolding bc_ok_def r ct dk by (auto simp: c')
qed

lemma hit_ok:
  assumes ok: "bc_ok c" and s: "slot_of (bc_internal c) n = Some i" and r: "refs c n + 1 < 2 ^ 32"
  shows "\<exists>c'. bread ROOTDEV n c = Some (\<lparr>bg_dev = ROOTDEV, bg_block_number = n, bg_index = i\<rparr>, c') \<and>
    bc_ok c' \<and> refs c' = (refs c)(n := refs c n + 1) \<and> content c' = content c \<and> disk c' = disk c \<and>
    bc_writes c' = bc_writes c \<and> slot_of (bc_internal c') = slot_of (bc_internal c)"
proof -
  let ?i = "bc_internal c"
  obtain d where d: "content c n = Some d" "length d = BSIZE" "buf_reference_count (buffers ?i ! i) = refs c n"
    "buf_data (buffers ?i ! i) = d"
    using slot_cached[OF ok s] by auto
  have w: "(?i\<lparr>buffers := (buffers ?i)[i := (buffers ?i ! i)\<lparr>buf_reference_count := refs c n + 1\<rparr>]\<rparr>)
     = with_slot i (refs c n + 1) d ?i"
    by (simp add: d(4)[symmetric])
  have g: "bget ROOTDEV n ?i = Some ((True, i), with_slot i (refs c n + 1) d ?i)"
    using bget_hit[OF bc_okD(1)[OF ok] s] r unfolding d(3) w by simp
  note ws = with_slot_ok[OF bc_okD(1)[OF ok] s d(2), of "refs c n + 1"]
  note st = set_slot_ok[OF ok s d(2) _ ws(1-3) refl]
  have "(content c)(n \<mapsto> d) = content c" using d(1) by auto
  with st show ?thesis by (simp add: bread_def g)
qed

lemma free_slot:
  assumes ok: "bc_ok c" and u: "in_use c < NBUF"
  shows "\<exists>i. find (\<lambda>i. buf_reference_count (buffers (bc_internal c) ! i) = 0) (rev (lru (bc_internal c))) = Some i"
proof (rule ccontr)
  let ?i = "bc_internal c" and ?bs = "buffers (bc_internal c)"
  note k = bc_okD[OF ok] internal_lru[OF bc_okD(1)[OF ok]]
  assume "\<not> ?thesis"
  then have "find (\<lambda>i. buf_reference_count (?bs ! i) = 0) (rev (lru ?i)) = None" by simp
  then have p: "0 < buf_reference_count (?bs ! j)" if "j < NBUF" for j
    using that k(6) by (auto simp: find_None_iff)
  have key: "has_key (buf_block_number (?bs ! j)) (?bs ! j)" if "j < NBUF" for j
    using k(1,3) p[OF that] nth_mem[of j ?bs] that by (auto simp: internal_ok_def has_key_def)
  have inj: "inj_on (\<lambda>j. buf_block_number (?bs ! j)) {..<NBUF}"
  proof (rule inj_onI)
    fix a b assume "a \<in> {..<NBUF}" "b \<in> {..<NBUF}" "buf_block_number (?bs ! a) = buf_block_number (?bs ! b)"
    then show "a = b" using unique_keysD[OF k(2), of "buf_block_number (?bs ! a)" a b] key[of a] key[of b] k(3) by simp
  qed
  have r: "0 < refs c (buf_block_number (?bs ! j))" if "j < NBUF" for j
  proof -
    have "slot_of ?i (buf_block_number (?bs ! j)) = Some j"
      using key[OF that] that k(2,3) by (simp add: slot_of_cached)
    from slot_cached[OF ok this] p[OF that] show ?thesis by simp
  qed
  have fin: "finite {n. 0 < refs c n}"
  proof (rule finite_subset)
    show "{n. 0 < refs c n} \<subseteq> buf_block_number ` set ?bs"
    proof
      fix n assume "n \<in> {n. 0 < refs c n}"
      then obtain i where "slot_of ?i n = Some i" using referenced_slot[OF ok] by auto
      then have "i < length ?bs" "buf_block_number (?bs ! i) = n"
        using k(2) by (auto simp: slot_of_cached has_key_def)
      then show "n \<in> buf_block_number ` set ?bs" using nth_mem by blast
    qed
  qed simp
  have "card {..<NBUF} \<le> in_use c"
    unfolding in_use_def by (rule card_inj_on_le[OF inj _ fin]) (use r in auto)
  with u show False by simp
qed

text \<open>Giving an unreferenced slot to another block of the disk.\<close>

lemma replace_ok:
  assumes ok: "bc_ok c" and s: "slot_of (bc_internal c) n = None" and d: "disk c n = Some d"
    and i: "i < length (buffers (bc_internal c))" "buf_reference_count (buffers (bc_internal c) ! i) = 0"
  defines "i' \<equiv> (bc_internal c)\<lparr>buffers := (buffers (bc_internal c))[i := (buffers (bc_internal c) ! i)
        \<lparr>buf_dev := ROOTDEV, buf_block_number := n, buf_reference_count := 1, buf_data := d\<rparr>]\<rparr>"
  shows "internal_ok i'" "slot_of i' n = Some i"
    "\<And>m j. slot_of (bc_internal c) m = Some j \<Longrightarrow> 0 < refs c m \<Longrightarrow> slot_of i' m = Some j"
    "\<exists>f. cached i' = f(n \<mapsto> (1, d)) \<and>
       (\<forall>m. f m = cached (bc_internal c) m \<or> f m = None \<and> refs c m = 0 \<and> content c m = disk c m)"
proof -
  let ?i = "bc_internal c" and ?bs = "buffers (bc_internal c)"
  let ?b = "(?bs ! i)\<lparr>buf_dev := ROOTDEV, buf_block_number := n, buf_reference_count := 1, buf_data := d\<rparr>"
  note k = bc_okD[OF ok] internal_lru[OF bc_okD(1)[OF ok]]
  have hk: "has_key n ?b" by (simp add: has_key_def)
  note cr = cached_replace[OF k(2) s i(1) hk, folded i'_def]
  show "slot_of i' n = Some i" using cr(2) .
  show "slot_of i' m = Some j" if "slot_of ?i m = Some j" "0 < refs c m" for m j
  proof (rule cr(4)[OF that(1)])
    show "j \<noteq> i" using slot_cached[OF ok that(1)] that(2) i(2) by auto
  qed
  have o: "lru_order i' (lru ?i)"
    unfolding i'_def by (rule lru_order_links[OF k(8)]) (simp_all add: nth_list_update i(1))
  show "internal_ok i'"
  proof (rule internal_ok_intro[OF o])
    show "length (buffers i') = NBUF" using k(3) by (simp add: i'_def)
    show "unique_keys (buffers i')" by (rule cr(1))
    have dl: "length d = BSIZE" using d disk_block_length by (simp add: disk_def)
    fix b assume "b \<in> set (buffers i')"
    then have "b = ?b \<or> b \<in> set ?bs" unfolding i'_def using set_update_subset_insert by fastforce
    then show "length (buf_data b) = BSIZE \<and> (buf_dev b = ROOTDEV \<or> buf_dev b = 0 \<and> buf_reference_count b = 0)"
      using k(1) dl by (auto simp: internal_ok_def)
  qed
  let ?f = "if buf_dev (?bs ! i) = ROOTDEV then (cached ?i)(buf_block_number (?bs ! i) := None) else cached ?i"
  have "?f m = cached ?i m \<or> ?f m = None \<and> refs c m = 0 \<and> content c m = disk c m" for m
  proof (cases "has_key m (?bs ! i)")
    case True
    then have sl: "slot_of ?i m = Some i" using i k(2) by (simp add: slot_of_cached)
    then have "refs c m = 0" "cached ?i m \<noteq> None" using slot_cached[OF ok sl] i(2) by auto
    with k(5) True show ?thesis by (auto simp: has_key_def)
  qed (auto simp: has_key_def)
  moreover have "cached i' = ?f(n \<mapsto> (1, d))" using cr(3) by simp
  ultimately show "\<exists>f. cached i' = f(n \<mapsto> (1, d)) \<and>
       (\<forall>m. f m = cached (bc_internal c) m \<or> f m = None \<and> refs c m = 0 \<and> content c m = disk c m)"
    by blast
qed

lemma miss_ok:
  assumes ok: "bc_ok c" and s: "slot_of (bc_internal c) n = None"
    and f: "find (\<lambda>i. buf_reference_count (buffers (bc_internal c) ! i) = 0) (rev (lru (bc_internal c))) = Some i"
    and d: "disk c n = Some d" and n: "n < 2 ^ 29"
  shows "\<exists>c'. bread ROOTDEV n c = Some (\<lparr>bg_dev = ROOTDEV, bg_block_number = n, bg_index = i\<rparr>, c') \<and>
    bc_ok c' \<and> refs c' = (refs c)(n := refs c n + 1) \<and> content c' = content c \<and> disk c' = disk c \<and>
    bc_writes c' = bc_writes c \<and> slot_of (bc_internal c') n = Some i \<and>
    (\<forall>m j. 0 < refs c m \<longrightarrow> slot_of (bc_internal c) m = Some j \<longrightarrow> slot_of (bc_internal c') m = Some j)"
proof -
  let ?i = "bc_internal c" and ?bs = "buffers (bc_internal c)"
  note k = bc_okD[OF ok] internal_lru[OF bc_okD(1)[OF ok]]
  have i: "i < length ?bs" and z: "buf_reference_count (?bs ! i) = 0"
    using f k(3,6) by (auto simp: find_Some_iff) (metis k(6) lessThan_iff nth_mem length_rev set_rev)
  let ?b = "(?bs ! i)\<lparr>buf_dev := ROOTDEV, buf_block_number := n, buf_reference_count := 1, buf_data := d\<rparr>"
  note r = replace_ok[OF ok s d i z]
  let ?i' = "?i\<lparr>buffers := ?bs[i := ?b]\<rparr>" and ?g = "\<lparr>bg_dev = ROOTDEV, bg_block_number = n, bg_index = i\<rparr>"
  have bl: "length (buf_data (?bs ! i)) = BSIZE"
    using k(1) nth_mem[OF i] by (auto simp: internal_ok_def)
  have "membdev_read (bc_bdev c) (n * 8) (buf_data (?bs ! i)) = Some d"
    using membdev_read_disk_block[OF bl] d by (simp add: disk_def)
  then have br: "bread ROOTDEV n c = Some (?g, c\<lparr>bc_internal := ?i'\<rparr>)"
    using n i bget_miss[OF k(1) s f]
    by (simp add: bread_def mul_u32_def buf_get_def buf_put_def nth_chk_def modify_chk_def)
  define c' where "c' = c\<lparr>bc_internal := ?i'\<rparr>"
  obtain f where f: "cached ?i' = f(n \<mapsto> (1, d))"
    "\<And>m. f m = cached ?i m \<or> f m = None \<and> refs c m = 0 \<and> content c m = disk c m" using r(4) by blast
  have dk: "disk c' = disk c" by (simp add: disk_def c'_def)
  have n0: "cached ?i n = None" using s cached_None by metis
  have rf: "refs c' = (refs c)(n := refs c n + 1)"
  proof
    fix m show "refs c' m = ((refs c)(n := refs c n + 1)) m"
      using f(1) f(2)[of m] n0 by (auto simp: c'_def refs_def split: option.splits)
  qed
  moreover have ct: "content c' = content c"
  proof
    fix m show "content c' m = content c m"
      using f(1) f(2)[of m] n0 d dk by (auto simp: c'_def content_def split: option.splits)
  qed
  moreover have "bc_ok c'"
    unfolding bc_ok_def rf ct dk using ok r(1) f d
    by (auto simp: c'_def bc_ok_def) (metis fun_upd_apply option.distinct(1))+
  ultimately show ?thesis using br r(2,3) dk unfolding c'_def by auto
qed

lemma bread_ok:
  assumes ok: "bc_ok c" and d: "disk c n \<noteq> None" and n: "n < 2 ^ 29" and r: "refs c n + 1 < 2 ^ 32"
    and u: "0 < refs c n \<or> in_use c < NBUF"
  shows "\<exists>g c'. bread ROOTDEV n c = Some (g, c') \<and> bc_ok c' \<and> holds c' g n \<and>
    refs c' = (refs c)(n := refs c n + 1) \<and> content c' = content c \<and> disk c' = disk c \<and>
    bc_writes c' = bc_writes c \<and> (\<forall>g' m. holds c g' m \<longrightarrow> holds c' g' m)"
proof (cases "slot_of (bc_internal c) n")
  case (Some i)
  with hit_ok[OF ok Some r] show ?thesis by (fastforce simp: holds_def)
next
  case None
  then have "refs c n = 0" by (simp add: refs_def flip: cached_None)
  with u have "in_use c < NBUF" by simp
  from free_slot[OF ok this] obtain i where
    f: "find (\<lambda>i. buf_reference_count (buffers (bc_internal c) ! i) = 0) (rev (lru (bc_internal c))) = Some i"
    by blast
  from d obtain xs where "disk c n = Some xs" by blast
  from miss_ok[OF ok None f this n] show ?thesis by (fastforce simp: holds_def)
qed

lemma brelse_ok:
  assumes ok: "bc_ok c" and h: "holds c g n" and cl: "refs c n = 1 \<Longrightarrow> content c n = disk c n"
  shows "\<exists>c'. brelse g c = Some c' \<and> bc_ok c' \<and> refs c' = (refs c)(n := refs c n - 1) \<and>
    content c' = content c \<and> disk c' = disk c \<and> bc_writes c' = bc_writes c \<and>
    (\<forall>g' m. holds c g' m \<longrightarrow> m \<noteq> n \<or> 1 < refs c n \<longrightarrow> holds c' g' m) \<and>
    lru (bc_internal c') = (if refs c n = 1 then bg_index g # remove1 (bg_index g) (lru (bc_internal c))
                            else lru (bc_internal c))"
proof -
  have s: "slot_of (bc_internal c) n = Some (bg_index g)" and p: "0 < refs c n"
    using h by (simp_all add: holds_def)
  obtain d where d: "cached (bc_internal c) n = Some (refs c n, d)" "content c n = Some d" "length d = BSIZE"
    using slot_cached[OF ok s] by auto
  obtain i' where i': "release_internal (bg_index g) (bc_internal c) = Some i'" "internal_ok i'"
    "cached i' = (cached (bc_internal c))(n \<mapsto> (refs c n - 1, d))" "slot_of i' = slot_of (bc_internal c)"
    "lru i' = (if refs c n = 1 then bg_index g # remove1 (bg_index g) (lru (bc_internal c)) else lru (bc_internal c))"
    using release_ok[OF bc_okD(1)[OF ok] s d(1) p] by blast
  have "refs c n - 1 = 0 \<Longrightarrow> disk c n = Some d" using cl d(2) p by simp
  note st = set_slot_ok[OF ok s d(3) this i'(2-4) refl]
  have "(content c)(n \<mapsto> d) = content c" using d(2) by auto
  with st i'(5) show ?thesis by (auto simp: brelse_def i'(1) holds_def)
qed

lemma set_slot_step:
  assumes ok: "bc_ok c" and h: "holds c g n" and d: "length d = BSIZE" and z: "r = 0 \<Longrightarrow> disk c n = Some d"
    and c': "c' = c\<lparr>bc_internal := with_slot (bg_index g) r d (bc_internal c)\<rparr>"
  shows "bc_ok c' \<and> refs c' = (refs c)(n := r) \<and> content c' = (content c)(n \<mapsto> d) \<and> disk c' = disk c \<and>
    bc_writes c' = bc_writes c \<and> (\<forall>g' m. holds c g' m \<longrightarrow> m \<noteq> n \<or> 0 < r \<longrightarrow> holds c' g' m)"
proof -
  have s: "slot_of (bc_internal c) n = Some (bg_index g)" using h by (simp add: holds_def)
  note st = set_slot_ok[OF ok s d z with_slot_ok(1-3)[OF bc_okD(1)[OF ok] s d] c']
  then show ?thesis by (auto simp: holds_def)
qed

lemma held_slot:
  assumes "bc_ok c" "holds c g n"
  shows "\<exists>d. content c n = Some d \<and> length d = BSIZE \<and> bg_index g < length (buffers (bc_internal c)) \<and>
     buf_reference_count (buffers (bc_internal c) ! bg_index g) = refs c n \<and>
     buf_data (buffers (bc_internal c) ! bg_index g) = d \<and> 0 < refs c n"
  using slot_cached[OF assms(1)] assms(2) by (auto simp: holds_def)

lemma bpin_ok:
  assumes ok: "bc_ok c" and h: "holds c g n" and r: "refs c n + 1 < 2 ^ 32"
  shows "\<exists>c'. bpin g c = Some c' \<and> bc_ok c' \<and> refs c' = (refs c)(n := refs c n + 1) \<and>
    content c' = content c \<and> disk c' = disk c \<and> bc_writes c' = bc_writes c \<and>
    (\<forall>g' m. holds c g' m \<longrightarrow> holds c' g' m)"
proof -
  obtain d where d: "content c n = Some d" "length d = BSIZE" "bg_index g < length (buffers (bc_internal c))"
     "buf_reference_count (buffers (bc_internal c) ! bg_index g) = refs c n"
     "buf_data (buffers (bc_internal c) ! bg_index g) = d"
    using held_slot[OF ok h] by auto
  have "bpin g c = Some (c\<lparr>bc_internal := with_slot (bg_index g) (refs c n + 1) d (bc_internal c)\<rparr>)"
    using r d(3) unfolding bpin_def nth_chk_def add_u32_def by (simp add: d(4) d(5)[symmetric])
  moreover have "(content c)(n \<mapsto> d) = content c" using d(1) by auto
  ultimately show ?thesis using set_slot_step[OF ok h d(2) _ refl, of "refs c n + 1"] by simp
qed

lemma bunpin_ok:
  assumes ok: "bc_ok c" and h: "holds c g n" and cl: "refs c n = 1 \<Longrightarrow> content c n = disk c n"
  shows "\<exists>c'. bunpin g c = Some c' \<and> bc_ok c' \<and> refs c' = (refs c)(n := refs c n - 1) \<and>
    content c' = content c \<and> disk c' = disk c \<and> bc_writes c' = bc_writes c \<and>
    (\<forall>g' m. holds c g' m \<longrightarrow> m \<noteq> n \<or> 1 < refs c n \<longrightarrow> holds c' g' m)"
proof -
  obtain d where d: "content c n = Some d" "length d = BSIZE" "bg_index g < length (buffers (bc_internal c))"
     "buf_reference_count (buffers (bc_internal c) ! bg_index g) = refs c n"
     "buf_data (buffers (bc_internal c) ! bg_index g) = d" "0 < refs c n"
    using held_slot[OF ok h] by auto
  have "bunpin g c = Some (c\<lparr>bc_internal := with_slot (bg_index g) (refs c n - 1) d (bc_internal c)\<rparr>)"
    using d(3,6) unfolding bunpin_def nth_chk_def sub_chk_def by (simp add: d(4) d(5)[symmetric])
  moreover have "(content c)(n \<mapsto> d) = content c" using d(1) by auto
  moreover have "refs c n - 1 = 0 \<Longrightarrow> disk c n = Some d" using cl d(1,6) by simp
  ultimately show ?thesis using set_slot_step[OF ok h d(2) _ refl, of "refs c n - 1"] by auto
qed

lemma buf_get_ok:
  assumes "bc_ok c" "holds c g n"
  shows "buf_get g c = content c n" "\<exists>d. content c n = Some d \<and> length d = BSIZE"
  using held_slot[OF assms] by (auto simp: buf_get_def nth_chk_def)

lemma buf_put_ok:
  assumes ok: "bc_ok c" and h: "holds c g n" and l: "length d = BSIZE"
  shows "\<exists>c'. buf_put g d c = Some c' \<and> bc_ok c' \<and> refs c' = refs c \<and>
    content c' = (content c)(n \<mapsto> d) \<and> disk c' = disk c \<and> bc_writes c' = bc_writes c \<and>
    (\<forall>g' m. holds c g' m \<longrightarrow> holds c' g' m)"
proof -
  have r: "bg_index g < length (buffers (bc_internal c))"
     "buf_reference_count (buffers (bc_internal c) ! bg_index g) = refs c n" "0 < refs c n"
    using held_slot[OF ok h] by auto
  have "buf_put g d c = Some (c\<lparr>bc_internal := with_slot (bg_index g) (refs c n) d (bc_internal c)\<rparr>)"
    using r(1) by (simp add: buf_put_def modify_chk_def r(2)[symmetric])
  then show ?thesis using set_slot_step[OF ok h l _ refl, of "refs c n"] r(3) by auto
qed

lemma bwrite_ok:
  assumes ok: "bc_ok c" and p: "0 < refs c n" and l: "length d = BSIZE" and n: "n < 2 ^ 29"
  shows "\<exists>c'. bwrite n d c = Some c' \<and> bc_ok c' \<and> refs c' = refs c \<and>
    content c' = content c \<and> disk c' = (disk c)(n \<mapsto> d) \<and> bc_writes c' = bc_writes c @ [(n, d)] \<and>
    (\<forall>g' m. holds c g' m \<longrightarrow> holds c' g' m)"
proof -
  have ca: "cached (bc_internal c) n \<noteq> None" using p by (auto simp: refs_def split: option.splits)
  then obtain ys where "disk_block (bc_bdev c) n = Some ys" using bc_okD(4)[OF ok] by (auto simp: disk_def)
  from membdev_write_ok[OF this l] obtain d' where w: "membdev_write (bc_bdev c) (n * 8) d = Some d'" by blast
  define c' where "c' = c\<lparr>bc_bdev := d', bc_writes := bc_writes c @ [(n, d)]\<rparr>"
  have "bwrite n d c = Some c'" using n w by (simp add: bwrite_def mul_u32_def c'_def)
  moreover have dk: "disk c' = (disk c)(n \<mapsto> d)"
    using disk_block_write[OF w l] by (simp add: disk_def c'_def)
  moreover have rf: "refs c' = refs c" by (auto simp: refs_def c'_def)
  moreover have ct: "content c' = content c"
  proof
    fix m show "content c' m = content c m" using ca dk by (auto simp: content_def c'_def split: option.splits)
  qed
  moreover have "bc_ok c'"
    using ok p unfolding bc_ok_def rf ct dk by (auto simp: c'_def)
  moreover have "\<forall>g' m. holds c g' m \<longrightarrow> holds c' g' m" by (simp add: holds_def rf) (simp add: c'_def)
  ultimately show ?thesis by (simp add: c'_def)
qed

lemma clean:
  assumes "bc_ok c" "refs c n = 0"
  shows "content c n = disk c n"
proof (cases "cached (bc_internal c) n = None")
  case True
  then show ?thesis by (simp add: content_def)
next
  case False
  then show ?thesis by (rule bc_okD(5)[OF assms(1)]) (rule assms(2))
qed

section \<open>The empty cache\<close>

lemma linked_nth:
  "linked f g xs \<longleftrightarrow> (\<forall>i. Suc i < length xs \<longrightarrow> f (xs ! i) = xs ! Suc i \<and> g (xs ! Suc i) = xs ! i)"
proof (induction xs rule: induct_list012)
  case (3 x y zs)
  have "(\<forall>i. Q i) \<longleftrightarrow> Q 0 \<and> (\<forall>i. Q (Suc i))" for Q :: "nat \<Rightarrow> bool"
    by (metis not0_implies_Suc)
  from this[of "\<lambda>i. Suc i < length (x # y # zs) \<longrightarrow>
      f ((x # y # zs) ! i) = (x # y # zs) ! Suc i \<and> g ((x # y # zs) ! Suc i) = (x # y # zs) ! i"] 3
  show ?case by simp
qed simp_all

lemma new_buffers:
  assumes "i < NBUF"
  shows "nx (buffers BufferCacheInternal_new) i = (if i = NBUF - 1 then 0 else i + 1)"
    "pv (buffers BufferCacheInternal_new) i = (if i = 0 then NBUF - 1 else i - 1)"
    "core (buffers BufferCacheInternal_new ! i) = (0, 0, 0, replicate BSIZE 0)"
  using assms
  by (auto simp: BufferCacheInternal_new_def Buffer_new_def Let_def nx_def pv_def core_def nth_list_update nat_add_distrib nat_diff_distrib)

lemma new_order: "lru_order BufferCacheInternal_new [0..<NBUF]"
proof -
  have h: "hd [0..<NBUF] = 0" by (simp add: upt_rec)
  have "linked (nx (buffers BufferCacheInternal_new)) (pv (buffers BufferCacheInternal_new)) ([0..<NBUF] @ [0])"
    unfolding linked_nth by (auto simp: new_buffers nth_append)
  then show ?thesis unfolding lru_order_def h
    by (simp add: BufferCacheInternal_new_def Let_def atLeast0LessThan)
qed

lemma new_ok: "bc_ok (BufferCache_new d)" "refs (BufferCache_new d) n = 0" "disk (BufferCache_new d) = disk_block d"
proof -
  let ?i = "BufferCacheInternal_new"
  have l: "length (buffers ?i) = NBUF" by (simp add: BufferCacheInternal_new_def Let_def)
  have c: "core b = (0, 0, 0, replicate BSIZE 0)" if "b \<in> set (buffers ?i)" for b
    using that new_buffers(3) by (auto simp: in_set_conv_nth l)
  have nk: "\<not> has_key n b" if "b \<in> set (buffers ?i)" for n b
    using c[OF that] by (simp add: core_def has_key_def)
  have n: "cached ?i n = None" for n using nk by (simp add: cached_def find_None_iff)
  have "internal_ok ?i"
  proof (rule internal_ok_intro[OF new_order l])
    show "unique_keys (buffers ?i)" using nk nth_mem unfolding unique_keys_def by blast
    fix b assume "b \<in> set (buffers ?i)"
    from c[OF this] show "length (buf_data b) = BSIZE \<and> (buf_dev b = ROOTDEV \<or> buf_dev b = 0 \<and> buf_reference_count b = 0)"
      by (simp add: core_def)
  qed
  with n show "bc_ok (BufferCache_new d)" by (simp add: bc_ok_def BufferCache_new_def)
  show "refs (BufferCache_new d) n = 0" using n by (simp add: refs_def BufferCache_new_def)
  show "disk (BufferCache_new d) = disk_block d" by (simp add: disk_def BufferCache_new_def)
qed

section \<open>The contract\<close>

locale block_cache =
  fixes rd :: "nat \<Rightarrow> 'c \<Rightarrow> ('g \<times> 'c) option"
    and get :: "'g \<Rightarrow> 'c \<Rightarrow> bytes option"
    and put :: "'g \<Rightarrow> bytes \<Rightarrow> 'c \<Rightarrow> 'c option"
    and wr :: "nat \<Rightarrow> bytes \<Rightarrow> 'c \<Rightarrow> 'c option"
    and rel :: "'g \<Rightarrow> 'c \<Rightarrow> 'c option"
    and ok :: "'c \<Rightarrow> bool"
    and cnt :: "'c \<Rightarrow> nat \<Rightarrow> nat"
    and cont :: "'c \<Rightarrow> nat \<Rightarrow> bytes option"
    and dsk :: "'c \<Rightarrow> nat \<Rightarrow> bytes option"
    and hist :: "'c \<Rightarrow> (nat \<times> bytes) list"
    and held :: "'c \<Rightarrow> 'g \<Rightarrow> nat \<Rightarrow> bool"
  assumes rd_ok: "ok c \<Longrightarrow> dsk c n \<noteq> None \<Longrightarrow> n < 2 ^ 29 \<Longrightarrow> cnt c n + 1 < 2 ^ 32 \<Longrightarrow>
      0 < cnt c n \<or> card {n. 0 < cnt c n} < NBUF \<Longrightarrow>
      \<exists>g c'. rd n c = Some (g, c') \<and> ok c' \<and> held c' g n \<and> cnt c' = (cnt c)(n := cnt c n + 1) \<and>
        cont c' = cont c \<and> dsk c' = dsk c \<and> hist c' = hist c \<and> (\<forall>g' m. held c g' m \<longrightarrow> held c' g' m)"
    and rel_ok: "ok c \<Longrightarrow> held c g n \<Longrightarrow> (cnt c n = 1 \<Longrightarrow> cont c n = dsk c n) \<Longrightarrow>
      \<exists>c'. rel g c = Some c' \<and> ok c' \<and> cnt c' = (cnt c)(n := cnt c n - 1) \<and>
        cont c' = cont c \<and> dsk c' = dsk c \<and> hist c' = hist c \<and>
        (\<forall>g' m. held c g' m \<longrightarrow> m \<noteq> n \<or> 1 < cnt c n \<longrightarrow> held c' g' m)"
    and get_ok: "ok c \<Longrightarrow> held c g n \<Longrightarrow> get g c = cont c n"
    and cont_ok: "ok c \<Longrightarrow> held c g n \<Longrightarrow> \<exists>d. cont c n = Some d \<and> length d = BSIZE"
    and put_ok: "ok c \<Longrightarrow> held c g n \<Longrightarrow> length d = BSIZE \<Longrightarrow>
      \<exists>c'. put g d c = Some c' \<and> ok c' \<and> cnt c' = cnt c \<and> cont c' = (cont c)(n \<mapsto> d) \<and>
        dsk c' = dsk c \<and> hist c' = hist c \<and> (\<forall>g' m. held c g' m \<longrightarrow> held c' g' m)"
    and wr_ok: "ok c \<Longrightarrow> 0 < cnt c n \<Longrightarrow> length d = BSIZE \<Longrightarrow> n < 2 ^ 29 \<Longrightarrow>
      \<exists>c'. wr n d c = Some c' \<and> ok c' \<and> cnt c' = cnt c \<and> cont c' = cont c \<and>
        dsk c' = (dsk c)(n \<mapsto> d) \<and> hist c' = hist c @ [(n, d)] \<and> (\<forall>g' m. held c g' m \<longrightarrow> held c' g' m)"
    and clean_ok: "ok c \<Longrightarrow> cnt c n = 0 \<Longrightarrow> cont c n = dsk c n"
begin

text \<open>Looking at a block: nothing but the recency order changes.\<close>

lemma look:
  assumes "ok c" "dsk c n \<noteq> None" "n < 2 ^ 29" "cnt c n + 1 < 2 ^ 32" "0 < cnt c n \<or> card {n. 0 < cnt c n} < NBUF"
  shows "\<exists>g c1 d c'. rd n c = Some (g, c1) \<and> get g c1 = Some d \<and> rel g c1 = Some c' \<and>
    cont c n = Some d \<and> length d = BSIZE \<and> ok c' \<and> cnt c' = cnt c \<and> cont c' = cont c \<and> dsk c' = dsk c \<and> hist c' = hist c"
proof -
  obtain g c1 where r: "rd n c = Some (g, c1)" "ok c1" "held c1 g n" "cnt c1 = (cnt c)(n := cnt c n + 1)"
    "cont c1 = cont c" "dsk c1 = dsk c" "hist c1 = hist c" using rd_ok[OF assms] by blast
  obtain d where d: "cont c1 n = Some d" "length d = BSIZE" using cont_ok[OF r(2,3)] by blast
  have "cnt c1 n = 1 \<Longrightarrow> cont c1 n = dsk c1 n" using clean_ok[OF assms(1), of n] r by simp
  from rel_ok[OF r(2,3) this] obtain c' where "rel g c1 = Some c'" "ok c'" "cnt c' = (cnt c1)(n := cnt c1 n - 1)"
    "cont c' = cont c1" "dsk c' = dsk c1" "hist c' = hist c1" by blast
  with r d get_ok[OF r(2,3)] show ?thesis by auto
qed

text \<open>Replacing a block and writing it through.\<close>

lemma write_through:
  assumes "ok c" "dsk c n \<noteq> None" "n < 2 ^ 29" "cnt c n + 1 < 2 ^ 32" "0 < cnt c n \<or> card {n. 0 < cnt c n} < NBUF"
  shows "\<exists>g c1 d. rd n c = Some (g, c1) \<and> get g c1 = Some d \<and> cont c n = Some d \<and> length d = BSIZE \<and>
    (\<forall>d'. length d' = BSIZE \<longrightarrow>
       (\<exists>c2 c3 c'. put g d' c1 = Some c2 \<and> wr n d' c2 = Some c3 \<and> rel g c3 = Some c' \<and>
         ok c' \<and> cnt c' = cnt c \<and> cont c' = (cont c)(n \<mapsto> d') \<and> dsk c' = (dsk c)(n \<mapsto> d') \<and>
         hist c' = hist c @ [(n, d')]))"
proof -
  obtain g c1 where r: "rd n c = Some (g, c1)" "ok c1" "held c1 g n" "cnt c1 = (cnt c)(n := cnt c n + 1)"
    "cont c1 = cont c" "dsk c1 = dsk c" "hist c1 = hist c" using rd_ok[OF assms] by blast
  obtain d where d: "cont c1 n = Some d" "length d = BSIZE" using cont_ok[OF r(2,3)] by blast
  have "\<exists>c2 c3 c'. put g d' c1 = Some c2 \<and> wr n d' c2 = Some c3 \<and> rel g c3 = Some c' \<and>
         ok c' \<and> cnt c' = cnt c \<and> cont c' = (cont c)(n \<mapsto> d') \<and> dsk c' = (dsk c)(n \<mapsto> d') \<and>
         hist c' = hist c @ [(n, d')]" if l: "length d' = BSIZE" for d'
  proof -
    obtain c2 where p: "put g d' c1 = Some c2" "ok c2" "cnt c2 = cnt c1" "cont c2 = (cont c1)(n \<mapsto> d')"
      "dsk c2 = dsk c1" "hist c2 = hist c1" "held c2 g n" using put_ok[OF r(2,3) l] r(3) by blast
    have "0 < cnt c2 n" using p(3) r(4) by simp
    from wr_ok[OF p(2) this l assms(3)] p(7) obtain c3 where w: "wr n d' c2 = Some c3" "ok c3" "cnt c3 = cnt c2"
      "cont c3 = cont c2" "dsk c3 = (dsk c2)(n \<mapsto> d')" "hist c3 = hist c2 @ [(n, d')]" "held c3 g n" by blast
    have "cnt c3 n = 1 \<Longrightarrow> cont c3 n = dsk c3 n" using w p by simp
    from rel_ok[OF w(2,7) this] obtain c' where "rel g c3 = Some c'" "ok c'" "cnt c' = (cnt c3)(n := cnt c3 n - 1)"
      "cont c' = cont c3" "dsk c' = dsk c3" "hist c' = hist c3" by blast
    with p w r show ?thesis by auto
  qed
  with r d get_ok[OF r(2,3)] show ?thesis by auto
qed

end

interpretation bc: block_cache "bread ROOTDEV" buf_get buf_put bwrite brelse bc_ok refs content disk bc_writes holds
proof (unfold_locales, goal_cases)
  case (1 c n)
  then show ?case using bread_ok[of c n] unfolding in_use_def by blast
next
  case (2 c g n)
  then show ?case using brelse_ok by blast
next
  case (3 c g n)
  then show ?case by (rule buf_get_ok(1))
next
  case (4 c g n)
  then show ?case by (rule buf_get_ok(2))
next
  case (5 c g n d)
  then show ?case by (rule buf_put_ok)
next
  case (6 c n d)
  then show ?case by (rule bwrite_ok)
next
  case (7 c n)
  then show ?case by (rule clean)
qed

lemma find_last:
  assumes "find P (rev xs) = Some i"
  shows "\<exists>us vs. xs = us @ i # vs \<and> P i \<and> (\<forall>j \<in> set vs. \<not> P j)"
proof -
  have "\<exists>ys zs. rev xs = ys @ i # zs \<and> P i \<and> (\<forall>j \<in> set ys. \<not> P j)"
    using assms
  proof (induction "rev xs" arbitrary: xs)
    case (Cons a l)
    show ?case
    proof (cases "P a")
      case True
      with Cons show ?thesis by (metis append_Nil empty_iff find.simps(2) list.set(1) option.inject)
    next
      case False
      then obtain ys zs where "l = ys @ i # zs" "P i" "\<forall>j \<in> set ys. \<not> P j"
        using Cons.hyps(1)[of "rev l"] Cons.prems Cons.hyps(2)[symmetric] by auto
      with False show ?thesis using Cons.hyps(2)[symmetric] by (metis append_Cons set_ConsD)
    qed
  qed simp
  then obtain ys zs where "rev xs = ys @ i # zs" "P i" "\<forall>j \<in> set ys. \<not> P j" by blast
  then show ?thesis
    by (metis append.assoc append_Cons append_Nil rev_append rev_rev_ident rev.simps(2) set_rev)
qed

section \<open>Properties\<close>

text \<open>C2.  Reading a block of the disk never panics while a buffer is free or the block is already
  referenced; the guard obtained shows the block's current content, one reference is added, and
  nothing else a client can observe changes: not the content of any block, cached or evicted, and
  not the disk.\<close>

theorem bread_correct:
  assumes "bc_ok c" "disk c n \<noteq> None" "n < 2 ^ 29" "refs c n + 1 < 2 ^ 32" "0 < refs c n \<or> in_use c < NBUF"
  shows "\<exists>g d c'. bread ROOTDEV n c = Some (g, c') \<and> bc_ok c' \<and> holds c' g n \<and>
    content c n = Some d \<and> buf_get g c' = Some d \<and> refs c' = (refs c)(n := refs c n + 1) \<and>
    content c' = content c \<and> disk c' = disk c"
proof -
  obtain g c' where r: "bread ROOTDEV n c = Some (g, c')" "bc_ok c'" "holds c' g n"
    "refs c' = (refs c)(n := refs c n + 1)" "content c' = content c" "disk c' = disk c"
    using bread_ok[OF assms] by blast
  with buf_get_ok[OF r(2,3)] show ?thesis by fastforce
qed

lemma bread_correct_witness:
  "\<exists>g c'. bread ROOTDEV 1 (BufferCache_new \<lparr>memdisk = replicate 8192 7\<rparr>) = Some (g, c') \<and>
     buf_get g c' = Some (replicate 4096 7) \<and> refs c' 1 = 1 \<and> refs c' 0 = 0"
proof -
  let ?c = "BufferCache_new \<lparr>memdisk = replicate 8192 7\<rparr>"
  have d: "disk ?c 1 = Some (replicate 4096 7)"
    by (simp add: new_ok disk_block_def membdev_read_def slice_chk_def Let_def)
  have "content ?c 1 = disk ?c 1" by (rule clean) (simp_all add: new_ok)
  moreover have "in_use ?c < NBUF" by (simp add: in_use_def new_ok)
  ultimately show ?thesis using bread_correct[of ?c 1] d by (auto simp: new_ok)
qed

text \<open>C8.  Releasing a held buffer never panics (provided a buffer whose last reference goes
  away has been written back); it drops one reference, moves the buffer to the front of the recency
  list exactly when that was the last one, and changes no content.\<close>

theorem brelse_correct:
  assumes "bc_ok c" "holds c g n" "refs c n = 1 \<Longrightarrow> content c n = disk c n"
  shows "\<exists>c'. brelse g c = Some c' \<and> bc_ok c' \<and> refs c' = (refs c)(n := refs c n - 1) \<and>
    content c' = content c \<and> disk c' = disk c \<and>
    lru (bc_internal c') = (if refs c n = 1 then bg_index g # remove1 (bg_index g) (lru (bc_internal c))
                            else lru (bc_internal c))"
  using brelse_ok[OF assms] by blast

lemma brelse_correct_witness:
  "\<exists>g c c'. bread ROOTDEV 1 (BufferCache_new \<lparr>memdisk = replicate 8192 7\<rparr>) = Some (g, c) \<and>
     brelse g c = Some c' \<and> refs c' 1 = 0 \<and> hd (lru (bc_internal c')) = bg_index g"
proof -
  let ?c = "BufferCache_new \<lparr>memdisk = replicate 8192 7\<rparr>"
  have d: "disk ?c 1 = Some (replicate 4096 7)"
    by (simp add: new_ok disk_block_def membdev_read_def slice_chk_def Let_def)
  have "in_use ?c < NBUF" by (simp add: in_use_def new_ok)
  then obtain g c where r: "bread ROOTDEV 1 ?c = Some (g, c)" "bc_ok c" "holds c g 1"
    "refs c = (refs ?c)(1 := refs ?c 1 + 1)" "content c = content ?c" "disk c = disk ?c"
    using bread_ok[of ?c 1] d by (auto simp: new_ok)
  have "content c 1 = disk c 1" unfolding r(5,6) by (rule clean) (simp_all add: new_ok)
  with brelse_correct[OF r(2,3)] r show ?thesis by (auto simp: new_ok)
qed

text \<open>A block that is not cached takes the least recently released buffer nobody references:
  every buffer behind it in the recency list is referenced.\<close>

theorem bread_evicts_least_recent:
  assumes "bc_ok c" "slot_of (bc_internal c) n = None" "disk c n \<noteq> None" "n < 2 ^ 29" "in_use c < NBUF"
  shows "\<exists>g c' xs ys. bread ROOTDEV n c = Some (g, c') \<and> lru (bc_internal c) = xs @ bg_index g # ys \<and>
    buf_reference_count (buffers (bc_internal c) ! bg_index g) = 0 \<and>
    (\<forall>j \<in> set ys. 0 < buf_reference_count (buffers (bc_internal c) ! j)) \<and>
    slot_of (bc_internal c') n = Some (bg_index g)"
proof -
  let ?P = "\<lambda>i. buf_reference_count (buffers (bc_internal c) ! i) = 0"
  obtain i where f: "find ?P (rev (lru (bc_internal c))) = Some i"
    using free_slot[OF assms(1,5)] by blast
  obtain d where "disk c n = Some d" using assms(3) by blast
  from miss_ok[OF assms(1,2) f this assms(4)] obtain g c' where
    r: "bread ROOTDEV n c = Some (g, c')" "bg_index g = i" "slot_of (bc_internal c') n = Some i" by fastforce
  from find_last[OF f] r show ?thesis by fastforce
qed

lemma bread_evicts_least_recent_witness:
  "\<exists>g c'. bread ROOTDEV 1 (BufferCache_new \<lparr>memdisk = replicate 8192 7\<rparr>) = Some (g, c') \<and> bg_index g = NBUF - 1"
proof -
  let ?c = "BufferCache_new \<lparr>memdisk = replicate 8192 7\<rparr>"
  have d: "disk ?c 1 = Some (replicate 4096 7)"
    by (simp add: new_ok disk_block_def membdev_read_def slice_chk_def Let_def)
  have i: "bc_internal ?c = BufferCacheInternal_new" by (simp add: BufferCache_new_def)
  have l: "lru BufferCacheInternal_new = [0..<NBUF]" by (rule lru_eq[OF new_order])
  have z: "buf_reference_count (buffers BufferCacheInternal_new ! j) = 0" if "j < NBUF" for j
    using new_buffers(3)[OF that] by (simp add: core_def)
  have s: "slot_of BufferCacheInternal_new 1 = None"
    using new_buffers(3) by (auto simp: slot_of_def position_None in_set_conv_nth core_def has_key_def BufferCacheInternal_new_def Let_def)
  obtain g c' xs ys where r: "bread ROOTDEV 1 ?c = Some (g, c')" "[0..<NBUF] = xs @ bg_index g # ys"
    "\<forall>j \<in> set ys. 0 < buf_reference_count (buffers BufferCacheInternal_new ! j)"
    using bread_evicts_least_recent[of ?c 1] d s by (auto simp: new_ok i l in_use_def)
  have "set ys \<subseteq> {..<NBUF}" using arg_cong[OF r(2), of set] by auto
  then have "ys = []" using z r(3) by (cases ys) auto
  with arg_cong[OF r(2), of last] r(1) show ?thesis by auto
qed

end
