(* ===== verification/Fslog.thy ===== *)
theory Fslog
  imports Bcache_Spec
begin

text \<open>
  The write-ahead log of the xv6 file system:
  \<^verbatim>\<open>src/domains/usr/xv6/kernel/fs/src/log/log.rs\<close>, \<^verbatim>\<open>log/log_header.rs\<close>, \<^verbatim>\<open>log/transaction.rs\<close>, and the
  super block and start-up of \<^verbatim>\<open>fs.rs\<close>.

  Guards are released where Rust drops them: at the end of each loop body, in the reverse order of
  their declaration.  Locking a buffer whose lock the thread already holds spins forever; such a
  step, like a panic, has no result (the assertion that the two slots differ).
\<close>

abbreviation LOGSIZE :: nat where "LOGSIZE \<equiv> 30"

record super_block =
  sb_size :: nat
  sb_nblocks :: nat
  sb_ninodes :: nat
  sb_nlog :: nat
  sb_logstart :: nat
  sb_inodestart :: nat
  sb_bmapstart :: nat

record log_header =
  lh_n :: nat
  lh_block_nums :: "nat list"

record log_internal =
  log_start :: nat
  log_size :: nat
  log_outstanding :: nat
  log_committing :: bool
  log_dev :: nat
  log_logheader :: log_header

section \<open>On-disk formats\<close>

text \<open>\<open>LittleEndian::read_u32(&buffer[offset..offset + 4])\<close> and its counterpart.\<close>

definition read_u32_at :: "bytes \<Rightarrow> nat \<Rightarrow> nat option" where
  "read_u32_at buffer offset = slice_chk buffer offset (offset + 4) \<bind> from_le_u32"

definition write_u32_at :: "bytes \<Rightarrow> nat \<Rightarrow> nat \<Rightarrow> bytes option" where
  "write_u32_at buffer offset v = splice_chk buffer offset (to_le_u32 v)"

definition superblock_from_bytes :: "bytes \<Rightarrow> super_block option" where
  "superblock_from_bytes b =
     do { sz \<leftarrow> read_u32_at b 0;
          nblocks \<leftarrow> read_u32_at b 4;
          ninodes \<leftarrow> read_u32_at b 8;
          nlog \<leftarrow> read_u32_at b 12;
          logstart \<leftarrow> read_u32_at b 16;
          inodestart \<leftarrow> read_u32_at b 20;
          bmapstart \<leftarrow> read_u32_at b 24;
          Some \<lparr>sb_size = sz, sb_nblocks = nblocks, sb_ninodes = ninodes, sb_nlog = nlog,
                sb_logstart = logstart, sb_inodestart = inodestart, sb_bmapstart = bmapstart\<rparr> }"

fun read_u32s :: "bytes \<Rightarrow> nat \<Rightarrow> nat \<Rightarrow> nat list option" where
  "read_u32s buffer offset 0 = Some []"
| "read_u32s buffer offset (Suc k) =
     do { v \<leftarrow> read_u32_at buffer offset; vs \<leftarrow> read_u32s buffer (offset + 4) k; Some (v # vs) }"

fun write_u32s :: "bytes \<Rightarrow> nat \<Rightarrow> nat list \<Rightarrow> bytes option" where
  "write_u32s buffer offset [] = Some buffer"
| "write_u32s buffer offset (v # vs) =
     do { buffer \<leftarrow> write_u32_at buffer offset v; write_u32s buffer (offset + 4) vs }"

definition from_buffer_block :: "log_header \<Rightarrow> bytes \<Rightarrow> log_header option" where
  "from_buffer_block h buffer =
     do { n \<leftarrow> read_u32_at buffer 0;
          block_nums \<leftarrow> read_u32s buffer 4 (length (lh_block_nums h));
          Some (h\<lparr>lh_n := n, lh_block_nums := block_nums\<rparr>) }"

definition to_buffer_block :: "log_header \<Rightarrow> bytes \<Rightarrow> bytes option" where
  "to_buffer_block h buffer =
     do { buffer \<leftarrow> write_u32_at buffer 0 (lh_n h);
          write_u32s buffer 4 (lh_block_nums h) }"

section \<open>The log\<close>

text \<open>
  \<open>install_trans\<close>: the loop \<open>for tail in 0..self.logheader.n\<close>, with \<open>k\<close> iterations left.
\<close>

fun install_from :: "log_internal \<Rightarrow> nat \<Rightarrow> nat \<Rightarrow> buffer_cache \<Rightarrow> buffer_cache option" where
  "install_from l tail 0 c = Some c"
| "install_from l tail (Suc k) c =
     do { a \<leftarrow> add_u32 (log_start l) tail;
          a \<leftarrow> add_u32 a 1;
          (lbuf, c) \<leftarrow> bread (log_dev l) a c;
          b \<leftarrow> nth_chk (lh_block_nums (log_logheader l)) tail;
          (dbuf, c) \<leftarrow> bread (log_dev l) b c;
          assert_that (bg_index dbuf \<noteq> bg_index lbuf);
          data \<leftarrow> buf_get lbuf c;
          c \<leftarrow> buf_put dbuf data c;
          c \<leftarrow> bwrite (bg_block_number dbuf) data c;
          c \<leftarrow> bunpin dbuf c;
          c \<leftarrow> brelse dbuf c;
          c \<leftarrow> brelse lbuf c;
          install_from l (tail + 1) k c }"

definition install_trans :: "log_internal \<Rightarrow> buffer_cache \<Rightarrow> buffer_cache option" where
  "install_trans l c = install_from l 0 (lh_n (log_logheader l)) c"

definition read_head :: "log_internal \<Rightarrow> buffer_cache \<Rightarrow> (log_internal \<times> buffer_cache) option" where
  "read_head l c =
     do { (buf, c) \<leftarrow> bread (log_dev l) (log_start l) c;
          data \<leftarrow> buf_get buf c;
          h \<leftarrow> from_buffer_block (log_logheader l) data;
          c \<leftarrow> brelse buf c;
          Some (l\<lparr>log_logheader := h\<rparr>, c) }"

definition write_head :: "log_internal \<Rightarrow> buffer_cache \<Rightarrow> buffer_cache option" where
  "write_head l c =
     do { (buf, c) \<leftarrow> bread (log_dev l) (log_start l) c;
          data \<leftarrow> buf_get buf c;
          data \<leftarrow> to_buffer_block (log_logheader l) data;
          c \<leftarrow> buf_put buf data c;
          c \<leftarrow> bwrite (bg_block_number buf) data c;
          brelse buf c }"

definition set_n :: "nat \<Rightarrow> log_internal \<Rightarrow> log_internal" where
  "set_n n l = l\<lparr>log_logheader := (log_logheader l)\<lparr>lh_n := n\<rparr>\<rparr>"

definition recover_from_log :: "log_internal \<Rightarrow> buffer_cache \<Rightarrow> (log_internal \<times> buffer_cache) option" where
  "recover_from_log l c =
     do { (l, c) \<leftarrow> read_head l c;
          c \<leftarrow> install_trans l c;
          let l = set_n 0 l;
          c \<leftarrow> write_head l c;
          Some (l, c) }"

definition LogInternal_new :: "nat \<Rightarrow> super_block \<Rightarrow> buffer_cache \<Rightarrow> (log_internal \<times> buffer_cache) option" where
  "LogInternal_new dev sb c =
     do { assert_that (4 + 4 * LOGSIZE < BSIZE);
          recover_from_log
            \<lparr>log_start = sb_logstart sb, log_size = sb_nlog sb, log_outstanding = 0,
             log_committing = False, log_dev = dev,
             log_logheader = \<lparr>lh_n = 123456, lh_block_nums = replicate LOGSIZE 123456\<rparr>\<rparr> c }"

definition try_begin_op :: "log_internal \<Rightarrow> (bool \<times> log_internal) option" where
  "try_begin_op l =
     (if log_committing l then Some (False, l)
      else do { o1 \<leftarrow> add_u32 (log_outstanding l) 1;
                m \<leftarrow> mul_u32 o1 MAXOPBLOCKS;
                s \<leftarrow> add_u32 (lh_n (log_logheader l)) m;
                if s > LOGSIZE then Some (False, l)
                else do { o1 \<leftarrow> add_u32 (log_outstanding l) 1;
                          Some (True, l\<lparr>log_outstanding := o1\<rparr>) } })"

text \<open>\<open>write_log\<close>: the loop \<open>for tail in 0..self.logheader.n\<close>.\<close>

fun write_log_from :: "log_internal \<Rightarrow> nat \<Rightarrow> nat \<Rightarrow> buffer_cache \<Rightarrow> buffer_cache option" where
  "write_log_from l tail 0 c = Some c"
| "write_log_from l tail (Suc k) c =
     do { a \<leftarrow> add_u32 (log_start l) tail;
          a \<leftarrow> add_u32 a 1;
          (to, c) \<leftarrow> bread (log_dev l) a c;
          b \<leftarrow> nth_chk (lh_block_nums (log_logheader l)) tail;
          (frm, c) \<leftarrow> bread (log_dev l) b c;
          assert_that (bg_index to \<noteq> bg_index frm);
          data \<leftarrow> buf_get frm c;
          c \<leftarrow> buf_put to data c;
          c \<leftarrow> bwrite (bg_block_number to) data c;
          c \<leftarrow> brelse frm c;
          c \<leftarrow> brelse to c;
          write_log_from l (tail + 1) k c }"

definition write_log :: "log_internal \<Rightarrow> buffer_cache \<Rightarrow> buffer_cache option" where
  "write_log l c = write_log_from l 0 (lh_n (log_logheader l)) c"

definition commit :: "log_internal \<Rightarrow> buffer_cache \<Rightarrow> (log_internal \<times> buffer_cache) option" where
  "commit l c =
     (if 0 < lh_n (log_logheader l) then
        do { c \<leftarrow> write_log l c;
             c \<leftarrow> write_head l c;
             c \<leftarrow> install_trans l c;
             let l = set_n 0 l;
             c \<leftarrow> write_head l c;
             Some (l, c) }
      else Some (l, c))"

definition end_op :: "log_internal \<Rightarrow> buffer_cache \<Rightarrow> (log_internal \<times> buffer_cache) option" where
  "end_op l c =
     do { o1 \<leftarrow> sub_chk (log_outstanding l) 1;
          let l = l\<lparr>log_outstanding := o1\<rparr>;
          assert_that (\<not> log_committing l);
          if log_outstanding l = 0 then
            do { let l = l\<lparr>log_committing := True\<rparr>;
                 (l, c) \<leftarrow> commit l c;
                 Some (l\<lparr>log_committing := False\<rparr>, c) }
          else Some (l, c) }"

definition log_write :: "buffer_guard \<Rightarrow> log_internal \<Rightarrow> buffer_cache \<Rightarrow> (log_internal \<times> buffer_cache) option" where
  "log_write g l c =
     do { let n = lh_n (log_logheader l);
          (if n < LOGSIZE then Some ()
           else do { s \<leftarrow> sub_chk (log_size l) 1; assert_that (n < s) });
          assert_that (1 \<le> log_outstanding l);
          bns \<leftarrow> upd_chk (lh_block_nums (log_logheader l)) n (bg_block_number g);
          let l = l\<lparr>log_logheader := (log_logheader l)\<lparr>lh_block_nums := bns\<rparr>\<rparr>;
          current_blocks \<leftarrow> slice_chk bns 0 n;
          case position (\<lambda>x. x = bg_block_number g) current_blocks of
            None \<Rightarrow>
              do { c \<leftarrow> bpin g c;
                   n' \<leftarrow> add_u32 n 1;
                   Some (set_n n' l, c) }
          | Some i \<Rightarrow> Some (l, c) }"

section \<open>The disk state of the file system\<close>

text \<open>
  The statics \<open>BCACHE\<close>, \<open>SUPER_BLOCK\<close> and \<open>LOG\<close> after \<open>fsinit\<close>.  A \<open>Transaction\<close> holds only a
  reference to the log: opening one is \<open>begin_op\<close>, \<open>trans.write\<close> is \<open>trans_write\<close>, dropping it is
  \<open>end_trans\<close>.  \<open>begin_op\<close> is one round of the loop of \<open>Transaction::new\<close>: \<open>False\<close> means that the
  caller sleeps and tries again.
\<close>

record dstate =
  d_bc :: buffer_cache
  d_sb :: super_block
  d_log :: log_internal

definition begin_op :: "dstate \<Rightarrow> (bool \<times> dstate) option" where
  "begin_op s =
     do { (r, l) \<leftarrow> try_begin_op (d_log s); Some (r, s\<lparr>d_log := l\<rparr>) }"

definition trans_write :: "buffer_guard \<Rightarrow> dstate \<Rightarrow> dstate option" where
  "trans_write g s =
     do { (l, c) \<leftarrow> log_write g (d_log s) (d_bc s); Some (s\<lparr>d_log := l, d_bc := c\<rparr>) }"

definition end_trans :: "dstate \<Rightarrow> dstate option" where
  "end_trans s =
     do { (l, c) \<leftarrow> end_op (d_log s) (d_bc s); Some (s\<lparr>d_log := l, d_bc := c\<rparr>) }"

definition read_superblock :: "nat \<Rightarrow> buffer_cache \<Rightarrow> (super_block \<times> buffer_cache) option" where
  "read_superblock dev c =
     do { (buffer, c) \<leftarrow> bread dev 1 c;
          data \<leftarrow> buf_get buffer c;
          superblock \<leftarrow> superblock_from_bytes data;
          c \<leftarrow> brelse buffer c;
          Some (superblock, c) }"

definition fsinit :: "nat \<Rightarrow> mem_bdev \<Rightarrow> dstate option" where
  "fsinit dev_no dev =
     do { let c = BufferCache_new dev;
          (sb, c) \<leftarrow> read_superblock dev_no c;
          (l, c) \<leftarrow> LogInternal_new dev_no sb c;
          Some \<lparr>d_bc = c, d_sb = sb, d_log = l\<rparr> }"

end
