(* ===== verification/Fslog_Spec.thy ===== *)
theory Fslog_Spec
  imports Fslog
begin

text \<open>
  What the log guarantees.  The buffer cache is seen through its contract (\<open>refs\<close>, \<open>content\<close>,
  \<open>disk\<close>); \<open>log_inv H\<close> is the invariant of the log while callers hold the guards \<open>H\<close>.  The writes the
  device is given during a commit are known exactly (\<open>commit_writes\<close>), so that what a crash at any
  point leaves behind can be compared with what recovery should make of it (\<open>replay\<close>).
\<close>

section \<open>Invariants and abstract functions\<close>

definition header_ok :: "log_header \<Rightarrow> bool" where
  "header_ok h \<longleftrightarrow> length (lh_block_nums h) = LOGSIZE \<and> lh_n h \<le> LOGSIZE \<and> (\<forall>v \<in> set (lh_block_nums h). v < 2 ^ 32)"

definition logged :: "log_internal \<Rightarrow> nat list" where
  "logged l = take (lh_n (log_logheader l)) (lh_block_nums (log_logheader l))"

abbreviation log_block :: "log_internal \<Rightarrow> nat \<Rightarrow> nat" where
  "log_block l i \<equiv> log_start l + i + 1"

abbreviation home :: "log_internal \<Rightarrow> nat \<Rightarrow> nat" where
  "home l i \<equiv> lh_block_nums (log_logheader l) ! i"

definition log_region :: "log_internal \<Rightarrow> nat set" where
  "log_region l = {log_start l .. log_start l + LOGSIZE}"

text \<open>The log's part of the disk is where the super block says, and home blocks are elsewhere.\<close>

definition log_placed :: "log_internal \<Rightarrow> buffer_cache \<Rightarrow> bool" where
  "log_placed l c \<longleftrightarrow> log_dev l = ROOTDEV \<and> header_ok (log_logheader l) \<and> log_start l + LOGSIZE < 2 ^ 29 \<and>
     (\<forall>n \<in> log_region l. disk c n \<noteq> None \<and> content c n = disk c n) \<and>
     distinct (logged l) \<and> (\<forall>b \<in> set (logged l). b < 2 ^ 29 \<and> b \<notin> log_region l)"

definition log_pinned :: "log_internal \<Rightarrow> buffer_cache \<Rightarrow> bool" where
  "log_pinned l c \<longleftrightarrow> (\<forall>b \<in> set (logged l). 0 < refs c b)"

definition room :: "buffer_cache \<Rightarrow> bool" where
  "room c \<longleftrightarrow> bc_ok c \<and> in_use c < NBUF \<and> (\<forall>n. refs c n + 1 < 2 ^ 32)"

definition apply_writes :: "(nat \<times> bytes) list \<Rightarrow> (nat \<Rightarrow> bytes option) \<Rightarrow> nat \<Rightarrow> bytes option" where
  "apply_writes W f = foldl (\<lambda>f (n, d). f(n \<mapsto> d)) f W"

definition commit_writes :: "log_internal \<Rightarrow> (nat \<Rightarrow> bytes option) \<Rightarrow> bytes \<Rightarrow> bytes \<Rightarrow> (nat \<times> bytes) list" where
  "commit_writes l f h1 h0 =
     (let n = lh_n (log_logheader l)
      in map (\<lambda>i. (log_block l i, the (f (home l i)))) [0..<n] @ [(log_start l, h1)] @
         map (\<lambda>i. (home l i, the (f (home l i)))) [0..<n] @ [(log_start l, h0)])"

definition blank_header :: log_header where
  "blank_header = \<lparr>lh_n = 0, lh_block_nums = replicate LOGSIZE 0\<rparr>"

definition decode_header :: "bytes \<Rightarrow> log_header option" where
  "decode_header = from_buffer_block blank_header"

text \<open>
  What recovery makes of a disk: the committed blocks of the header are copied home.
\<close>

definition replay :: "nat \<Rightarrow> (nat \<Rightarrow> bytes option) \<Rightarrow> nat \<Rightarrow> bytes option" where
  "replay start f =
     (case f start \<bind> decode_header of
        None \<Rightarrow> f
      | Some h \<Rightarrow> apply_writes (map (\<lambda>i. (lh_block_nums h ! i, the (f (start + i + 1)))) [0..<lh_n h]) f)"

definition header_clear :: "log_internal \<Rightarrow> buffer_cache \<Rightarrow> bool" where
  "header_clear l c \<longleftrightarrow> (\<exists>b h. disk c (log_start l) = Some b \<and> decode_header b = Some h \<and> lh_n h = 0)"

text \<open>
  \<open>H n\<close> is the number of guards the callers hold on block \<open>n\<close>.  Besides those, exactly the blocks
  of the running transaction are referenced, once each, and only they may differ from the disk.
\<close>

definition log_inv :: "(nat \<Rightarrow> nat) \<Rightarrow> log_internal \<Rightarrow> buffer_cache \<Rightarrow> bool" where
  "log_inv H l c \<longleftrightarrow> bc_ok c \<and> log_placed l c \<and> header_clear l c \<and>
     refs c = (\<lambda>n. (if n \<in> set (logged l) then 1 else 0) + H n) \<and>
     (\<forall>m. m \<notin> set (logged l) \<longrightarrow> content c m = disk c m) \<and>
     finite {n. 0 < H n} \<and> (\<forall>n. H n < 2 ^ 30)"

text \<open>A cache in which no block is referenced agrees with the disk.\<close>

definition quiet :: "buffer_cache \<Rightarrow> bool" where
  "quiet c \<longleftrightarrow> bc_ok c \<and> (\<forall>n. refs c n = 0)"

definition log_fits :: "nat \<Rightarrow> (nat \<Rightarrow> bytes option) \<Rightarrow> bool" where
  "log_fits start f \<longleftrightarrow> start + LOGSIZE < 2 ^ 29 \<and> (\<forall>n \<in> {start .. start + LOGSIZE}. f n \<noteq> None)"

definition fresh_log :: "log_internal \<Rightarrow> bool" where
  "fresh_log l \<longleftrightarrow> log_dev l = ROOTDEV \<and> length (lh_block_nums (log_logheader l)) = LOGSIZE"

text \<open>
  Operations interleave freely.  A state pairs the log and the cache with the number of blocks each
  running operation has written so far; an operation promises to write at most \<open>MAXOPBLOCKS\<close>.
\<close>

inductive log_step :: "log_internal \<times> buffer_cache \<times> nat list \<Rightarrow> log_internal \<times> buffer_cache \<times> nat list \<Rightarrow> bool" where
  step_begin: "try_begin_op l = Some (True, l') \<Longrightarrow> log_step (l, c, ops) (l', c, 0 # ops)"
| step_refused: "try_begin_op l = Some (False, l') \<Longrightarrow> log_step (l, c, ops) (l', c, ops)"
| step_write: "i < length ops \<Longrightarrow> ops ! i < MAXOPBLOCKS \<Longrightarrow> log_write g l c = Some (l', c') \<Longrightarrow>
    log_step (l, c, ops) (l', c', ops[i := ops ! i + 1])"
| step_end: "i < length ops \<Longrightarrow> end_op l c = Some (l', c') \<Longrightarrow>
    log_step (l, c, ops) (l', c', take i ops @ drop (Suc i) ops)"
| step_cache: "log_step (l, c, ops) (l, c', ops)"

definition capacity_ok :: "log_internal \<times> buffer_cache \<times> nat list \<Rightarrow> bool" where
  "capacity_ok = (\<lambda>(l, c, ops). log_outstanding l = length ops \<and> \<not> log_committing l \<and>
     length (lh_block_nums (log_logheader l)) = LOGSIZE \<and> (\<forall>w \<in> set ops. w \<le> MAXOPBLOCKS) \<and>
     lh_n (log_logheader l) + sum_list (map (\<lambda>w. MAXOPBLOCKS - w) ops) \<le> LOGSIZE)"

text \<open>A disk of 64 blocks, all zero: its log occupies blocks 0 to 30.\<close>

definition zero_disk :: mem_bdev where
  "zero_disk = \<lparr>memdisk = replicate (64 * BSIZE) 0\<rparr>"

text \<open>The same disk after a crash with block 35 committed and not yet installed.\<close>

definition committed_disk :: mem_bdev where
  "committed_disk = \<lparr>memdisk = [1, 0, 0, 0, 35, 0, 0, 0] @ replicate (64 * BSIZE - 8) 0\<rparr>"

section \<open>The header codec\<close>

lemma write_u32_at_ok:
  assumes "off + 4 \<le> length b"
  shows "\<exists>b'. write_u32_at b off v = Some b' \<and> length b' = length b"
  using assms by (auto simp: write_u32_at_def splice_chk_def)

lemma read_write_u32_at:
  assumes "write_u32_at b off v = Some b'" "v < 2 ^ 32"
  shows "read_u32_at b' off = Some v"
  using assms from_to_le_u32[OF assms(2), of "[]"]
  by (auto simp: write_u32_at_def read_u32_at_def panic_simps slice_chk_def)

lemma read_write_u32_at_other:
  assumes "write_u32_at b off v = Some b'" "o1 + 4 \<le> off \<or> off + 4 \<le> o1"
  shows "read_u32_at b' o1 = read_u32_at b o1"
proof -
  have b': "b' = take off b @ to_le_u32 v @ drop (off + length (to_le_u32 v)) b"
    and l: "off + length (to_le_u32 v) \<le> length b"
    using assms(1) by (auto simp: write_u32_at_def panic_simps)
  have "length b' = length b" using l by (simp add: b')
  moreover have "take 4 (drop o1 b') = take 4 (drop o1 b)"
    using assms(2) splice_slice_before[OF l, of o1 4] splice_slice_after[OF l, of o1 4]
    by (auto simp: b')
  ultimately show ?thesis by (simp add: read_u32_at_def slice_chk_def)
qed

lemma write_u32s_ok:
  "off + 4 * length vs \<le> length b \<Longrightarrow> \<exists>b'. write_u32s b off vs = Some b' \<and> length b' = length b"
proof (induction vs arbitrary: b off)
  case (Cons v vs)
  then obtain b1 where b1: "write_u32_at b off v = Some b1" "length b1 = length b"
    using write_u32_at_ok[of off b v] by auto
  with Cons.IH[of "off + 4" b1] Cons.prems show ?case by simp
qed simp

lemma write_u32s_before:
  "write_u32s b off vs = Some b' \<Longrightarrow> o1 + 4 \<le> off \<Longrightarrow> read_u32_at b' o1 = read_u32_at b o1"
proof (induction vs arbitrary: b off)
  case (Cons v vs)
  then obtain b1 where b1: "write_u32_at b off v = Some b1" "write_u32s b1 (off + 4) vs = Some b'"
    by (auto simp: panic_simps)
  with Cons.IH[OF b1(2)] read_write_u32_at_other[OF b1(1), of o1] Cons.prems(2) show ?case by simp
qed simp

lemma read_write_u32s:
  "write_u32s b off vs = Some b' \<Longrightarrow> \<forall>v \<in> set vs. v < 2 ^ 32 \<Longrightarrow> read_u32s b' off (length vs) = Some vs"
proof (induction vs arbitrary: b off)
  case (Cons v vs)
  then obtain b1 where b1: "write_u32_at b off v = Some b1" "write_u32s b1 (off + 4) vs = Some b'"
    by (auto simp: panic_simps)
  then have "read_u32_at b' off = Some v"
    using write_u32s_before[OF b1(2), of off] read_write_u32_at[OF b1(1)] Cons.prems(2) by simp
  with Cons.IH[OF b1(2)] Cons.prems(2) show ?case by simp
qed simp

lemma to_buffer_block_ok:
  assumes "header_ok h" "length b = BSIZE"
  shows "\<exists>b'. to_buffer_block h b = Some b' \<and> length b' = BSIZE"
proof -
  obtain b1 where b1: "write_u32_at b 0 (lh_n h) = Some b1" "length b1 = BSIZE"
    using write_u32_at_ok[of 0 b] assms(2) by auto
  then show ?thesis
    using write_u32s_ok[of 4 "lh_block_nums h" b1] assms(1) by (simp add: to_buffer_block_def header_ok_def)
qed

lemma from_to_buffer_block:
  assumes "to_buffer_block h b = Some b'" "header_ok h" "length (lh_block_nums h0) = LOGSIZE"
  shows "from_buffer_block h0 b' = Some h"
proof -
  obtain b1 where b1: "write_u32_at b 0 (lh_n h) = Some b1" "write_u32s b1 4 (lh_block_nums h) = Some b'"
    using assms(1) by (auto simp: to_buffer_block_def panic_simps)
  have "read_u32_at b' 0 = Some (lh_n h)"
    using write_u32s_before[OF b1(2), of 0] read_write_u32_at[OF b1(1)] assms(2) by (simp add: header_ok_def)
  moreover have "read_u32s b' 4 LOGSIZE = Some (lh_block_nums h)"
    using read_write_u32s[OF b1(2)] assms(2) by (simp add: header_ok_def)
  ultimately show ?thesis using assms(3) by (simp add: from_buffer_block_def)
qed

section \<open>The copying steps\<close>

lemma finite_refs: assumes "bc_ok c" shows "finite {n. 0 < refs c n}"
proof (rule finite_subset)
  show "{n. 0 < refs c n} \<subseteq> buf_block_number ` set (buffers (bc_internal c))"
  proof
    fix n assume "n \<in> {n. 0 < refs c n}"
    then obtain i where "slot_of (bc_internal c) n = Some i" using referenced_slot[OF assms] by auto
    then have "i < length (buffers (bc_internal c))" "buf_block_number (buffers (bc_internal c) ! i) = n"
      using bc_okD(2)[OF assms] by (auto simp: slot_of_cached has_key_def)
    then show "n \<in> buf_block_number ` set (buffers (bc_internal c))" using nth_mem by blast
  qed
qed simp

lemma in_use_mono: "bc_ok c \<Longrightarrow> (\<And>n. refs c' n \<le> refs c n) \<Longrightarrow> in_use c' \<le> in_use c"
  unfolding in_use_def by (rule card_mono[OF finite_refs]) (auto simp: order_less_le_trans)

lemma holds_distinct: "bc_ok c \<Longrightarrow> holds c g n \<Longrightarrow> holds c g' m \<Longrightarrow> n \<noteq> m \<Longrightarrow> bg_index g \<noteq> bg_index g'"
  using bc_okD(2) by (auto simp: holds_def slot_of_cached has_key_def)

text \<open>Two blocks are read, the second of them already referenced.\<close>

lemma bread_two:
  assumes ok: "bc_ok c" and ab: "a \<noteq> b" and da: "disk c a \<noteq> None" and n: "a < 2 ^ 29" "b < 2 ^ 29"
    and rb: "0 < refs c b" and ra: "0 < refs c a \<or> in_use c < NBUF"
    and r: "refs c a + 1 < 2 ^ 32" "refs c b + 1 < 2 ^ 32"
  shows "\<exists>g c1 g' c2. bread ROOTDEV a c = Some (g, c1) \<and> bread ROOTDEV b c1 = Some (g', c2) \<and> bc_ok c2 \<and>
    holds c2 g a \<and> holds c2 g' b \<and> bg_index g \<noteq> bg_index g' \<and>
    refs c2 = (refs c)(a := refs c a + 1, b := refs c b + 1) \<and> content c2 = content c \<and> disk c2 = disk c \<and>
    bc_writes c2 = bc_writes c"
proof -
  obtain g c1 where 1: "bread ROOTDEV a c = Some (g, c1)" "bc_ok c1" "holds c1 g a"
    "refs c1 = (refs c)(a := refs c a + 1)" "content c1 = content c" "disk c1 = disk c" "bc_writes c1 = bc_writes c"
    using bread_ok[OF ok da n(1) r(1) ra] by blast
  have db: "disk c b \<noteq> None" using bc_okD(4)[OF ok, of b] rb by (auto simp: refs_def split: option.splits)
  have "refs c1 b = refs c b" using ab by (simp add: 1)
  then obtain g' c2 where 2: "bread ROOTDEV b c1 = Some (g', c2)" "bc_ok c2" "holds c2 g' b"
    "refs c2 = (refs c1)(b := refs c1 b + 1)" "content c2 = content c1" "disk c2 = disk c1" "bc_writes c2 = bc_writes c1"
    "holds c2 g a"
    using bread_ok[OF 1(2), of b] db n(2) rb r(2) 1(3,6) by (metis)
  have "bg_index g \<noteq> bg_index g'" using holds_distinct[OF 2(2,8,3) ab] .
  moreover have "refs c2 = (refs c)(a := refs c a + 1, b := refs c b + 1)" using ab by (simp add: 2(4) 1(4))
  ultimately show ?thesis using 1 2 by metis
qed

text \<open>The two copies of the log: from the cache to the log, and from the log home.\<close>

lemma copy_out:
  assumes ok: "bc_ok c" and ab: "a \<noteq> b" and da: "disk c a \<noteq> None" and n: "a < 2 ^ 29" "b < 2 ^ 29"
    and rb: "0 < refs c b" and ra: "0 < refs c a \<or> in_use c < NBUF"
    and r: "refs c a + 1 < 2 ^ 32" "refs c b + 1 < 2 ^ 32"
  shows "\<exists>d c'. content c b = Some d \<and> length d = BSIZE \<and>
    (do { (to, c) \<leftarrow> bread ROOTDEV a c; (frm, c) \<leftarrow> bread ROOTDEV b c;
          assert_that (bg_index to \<noteq> bg_index frm); data \<leftarrow> buf_get frm c; c \<leftarrow> buf_put to data c;
          c \<leftarrow> bwrite (bg_block_number to) data c; c \<leftarrow> brelse frm c; brelse to c }) = Some c' \<and>
    bc_ok c' \<and> refs c' = refs c \<and> content c' = (content c)(a \<mapsto> d) \<and> disk c' = (disk c)(a \<mapsto> d) \<and>
    bc_writes c' = bc_writes c @ [(a, d)]"
proof -
  obtain g c1 g' c2 where 2: "bread ROOTDEV a c = Some (g, c1)" "bread ROOTDEV b c1 = Some (g', c2)" "bc_ok c2"
    "holds c2 g a" "holds c2 g' b" "bg_index g \<noteq> bg_index g'"
    "refs c2 = (refs c)(a := refs c a + 1, b := refs c b + 1)" "content c2 = content c" "disk c2 = disk c"
    "bc_writes c2 = bc_writes c"
    using bread_two[OF assms] by blast
  obtain d where d: "content c b = Some d" "length d = BSIZE" "buf_get g' c2 = Some d"
    using buf_get_ok[OF 2(3,5)] 2(8) by auto
  obtain c3 where 3: "buf_put g d c2 = Some c3" "bc_ok c3" "refs c3 = refs c2" "content c3 = (content c2)(a \<mapsto> d)"
    "disk c3 = disk c2" "bc_writes c3 = bc_writes c2" "holds c3 g a" "holds c3 g' b"
    using buf_put_ok[OF 2(3,4) d(2)] 2(4,5) by blast
  have "0 < refs c3 a" using ab by (simp add: 3(3) 2(7))
  from bwrite_ok[OF 3(2) this d(2) n(1)] 3(7,8) obtain c4 where 4: "bwrite a d c3 = Some c4" "bc_ok c4"
    "refs c4 = refs c3" "content c4 = content c3" "disk c4 = (disk c3)(a \<mapsto> d)" "bc_writes c4 = bc_writes c3 @ [(a, d)]"
    "holds c4 g a" "holds c4 g' b" by blast
  have "refs c4 b \<noteq> 1" using rb ab by (simp add: 4(3) 3(3) 2(7))
  with brelse_ok[OF 4(2,8)] 4(7) ab obtain c5 where 5: "brelse g' c4 = Some c5" "bc_ok c5"
    "refs c5 = (refs c4)(b := refs c4 b - 1)" "content c5 = content c4" "disk c5 = disk c4"
    "bc_writes c5 = bc_writes c4" "holds c5 g a" by blast
  have "content c5 a = disk c5 a" by (simp add: 5 4 3)
  with brelse_ok[OF 5(2,7)] obtain c6 where 6: "brelse g c5 = Some c6" "bc_ok c6"
    "refs c6 = (refs c5)(a := refs c5 a - 1)" "content c6 = content c5" "disk c6 = disk c5"
    "bc_writes c6 = bc_writes c5" by blast
  have gb: "bg_block_number g = a" using 2(4) by (simp add: holds_def)
  have "refs c6 = refs c" using ab by (auto simp: 6(3) 5(3) 4(3) 3(3) 2(7))
  then show ?thesis using d 2 3 4 5 6 gb by simp
qed

lemma copy_home:
  assumes ok: "bc_ok c" and ab: "a \<noteq> b" and da: "disk c a \<noteq> None" and n: "a < 2 ^ 29" "b < 2 ^ 29"
    and rb: "0 < refs c b" and ra: "0 < refs c a \<or> in_use c < NBUF"
    and r: "refs c a + 1 < 2 ^ 32" "refs c b + 1 < 2 ^ 32"
    and cl: "content c a = disk c a"
  shows "\<exists>d c'. content c a = Some d \<and> length d = BSIZE \<and>
    (do { (lbuf, c) \<leftarrow> bread ROOTDEV a c; (dbuf, c) \<leftarrow> bread ROOTDEV b c;
          assert_that (bg_index dbuf \<noteq> bg_index lbuf); data \<leftarrow> buf_get lbuf c; c \<leftarrow> buf_put dbuf data c;
          c \<leftarrow> bwrite (bg_block_number dbuf) data c; c \<leftarrow> bunpin dbuf c; c \<leftarrow> brelse dbuf c; brelse lbuf c }) = Some c' \<and>
    bc_ok c' \<and> refs c' = (refs c)(b := refs c b - 1) \<and> content c' = (content c)(b \<mapsto> d) \<and>
    disk c' = (disk c)(b \<mapsto> d) \<and> bc_writes c' = bc_writes c @ [(b, d)]"
proof -
  obtain g c1 g' c2 where 2: "bread ROOTDEV a c = Some (g, c1)" "bread ROOTDEV b c1 = Some (g', c2)" "bc_ok c2"
    "holds c2 g a" "holds c2 g' b" "bg_index g \<noteq> bg_index g'"
    "refs c2 = (refs c)(a := refs c a + 1, b := refs c b + 1)" "content c2 = content c" "disk c2 = disk c"
    "bc_writes c2 = bc_writes c"
    using bread_two[OF assms(1-9)] by blast
  obtain d where d: "content c a = Some d" "length d = BSIZE" "buf_get g c2 = Some d"
    using buf_get_ok[OF 2(3,4)] 2(8) by auto
  obtain c3 where 3: "buf_put g' d c2 = Some c3" "bc_ok c3" "refs c3 = refs c2" "content c3 = (content c2)(b \<mapsto> d)"
    "disk c3 = disk c2" "bc_writes c3 = bc_writes c2" "holds c3 g a" "holds c3 g' b"
    using buf_put_ok[OF 2(3,5) d(2)] 2(4,5) by blast
  have "0 < refs c3 b" using ab by (simp add: 3(3) 2(7))
  from bwrite_ok[OF 3(2) this d(2) n(2)] 3(7,8) obtain c4 where 4: "bwrite b d c3 = Some c4" "bc_ok c4"
    "refs c4 = refs c3" "content c4 = content c3" "disk c4 = (disk c3)(b \<mapsto> d)" "bc_writes c4 = bc_writes c3 @ [(b, d)]"
    "holds c4 g a" "holds c4 g' b" by blast
  have "1 < refs c4 b" using rb ab by (simp add: 4(3) 3(3) 2(7))
  with bunpin_ok[OF 4(2,8)] 4(7,8) ab obtain c5 where 5: "bunpin g' c4 = Some c5" "bc_ok c5"
    "refs c5 = (refs c4)(b := refs c4 b - 1)" "content c5 = content c4" "disk c5 = disk c4"
    "bc_writes c5 = bc_writes c4" "holds c5 g a" "holds c5 g' b" by (metis less_irrefl_nat)
  have "content c5 b = disk c5 b" by (simp add: 5 4 3)
  with brelse_ok[OF 5(2,8)] 5(7) ab obtain c6 where 6: "brelse g' c5 = Some c6" "bc_ok c6"
    "refs c6 = (refs c5)(b := refs c5 b - 1)" "content c6 = content c5" "disk c6 = disk c5"
    "bc_writes c6 = bc_writes c5" "holds c6 g a" by metis
  have "content c6 a = disk c6 a" using cl ab by (simp add: 6 5 4 3 2)
  with brelse_ok[OF 6(2,7)] obtain c7 where 7: "brelse g c6 = Some c7" "bc_ok c7"
    "refs c7 = (refs c6)(a := refs c6 a - 1)" "content c7 = content c6" "disk c7 = disk c6"
    "bc_writes c7 = bc_writes c6" by metis
  have gb: "bg_block_number g' = b" using 2(5) by (simp add: holds_def)
  have "refs c7 = (refs c)(b := refs c b - 1)" using ab by (auto simp: 7(3) 6(3) 5(3) 4(3) 3(3) 2(7))
  then show ?thesis using d 2 3 4 5 6 7 gb by simp
qed

lemma apply_writes_simps [simp]:
  "apply_writes [] f = f"
  "apply_writes ((n, d) # W) f = apply_writes W (f(n \<mapsto> d))"
  "apply_writes (W @ W') f = apply_writes W' (apply_writes W f)"
  by (simp_all add: apply_writes_def)

lemma apply_writes_map_of: "apply_writes W f = f ++ map_of (rev W)"
proof (induction W rule: rev_induct)
  case (snoc w W)
  obtain n d where "w = (n, d)" by (cases w)
  with snoc show ?case by (simp add: fun_eq_iff map_add_def split: option.split)
qed simp

lemma apply_writes_other: "m \<notin> fst ` set W \<Longrightarrow> apply_writes W f m = f m"
  by (simp add: apply_writes_map_of map_add_dom_app_simps(3) dom_map_of_conv_image_fst)

lemma apply_writes_in:
  assumes "inj_on f (set is)" "i \<in> set is"
  shows "apply_writes (map (\<lambda>i. (f i, g i)) is) h (f i) = Some (g i)"
  using assms
proof (induction "is" arbitrary: h rule: rev_induct)
  case (snoc j js)
  show ?case
  proof (cases "i = j")
    case False
    with snoc.prems have "f i \<noteq> f j" by (metis in_set_conv_decomp inj_onD)
    with snoc False show ?thesis by (auto simp: inj_on_def)
  qed simp
qed simp

lemma log_placedD:
  assumes "log_placed l c" "i < lh_n (log_logheader l)"
  shows "log_block l i \<in> log_region l" "log_block l i < 2 ^ 29" "home l i \<in> set (logged l)" "home l i < 2 ^ 29"
    "home l i \<notin> log_region l" "nth_chk (lh_block_nums (log_logheader l)) i = Some (home l i)"
    "add_u32 (log_start l) i = Some (log_start l + i)" "add_u32 (log_start l + i) 1 = Some (log_block l i)"
proof -
  have b: "lh_n (log_logheader l) \<le> LOGSIZE" "length (lh_block_nums (log_logheader l)) = LOGSIZE"
    "log_start l + LOGSIZE < 2 ^ 29"
    using assms(1) by (auto simp: log_placed_def header_ok_def)
  then show "log_block l i \<in> log_region l" "log_block l i < 2 ^ 29"
    "nth_chk (lh_block_nums (log_logheader l)) i = Some (home l i)"
    "add_u32 (log_start l) i = Some (log_start l + i)" "add_u32 (log_start l + i) 1 = Some (log_block l i)"
    using assms(2) by (auto simp: log_region_def nth_chk_def add_u32_def)
  show h: "home l i \<in> set (logged l)"
    using assms(2) b by (auto simp: logged_def in_set_conv_nth intro!: exI[of _ i])
  with assms(1) show "home l i < 2 ^ 29" "home l i \<notin> log_region l" by (auto simp: log_placed_def)
qed

lemma write_log_from_ok:
  assumes "log_placed l c" "log_pinned l c" "room c" "tail + k = lh_n (log_logheader l)"
  defines "W \<equiv> map (\<lambda>i. (log_block l i, the (content c (home l i)))) [tail..<tail + k]"
  shows "\<exists>c'. write_log_from l tail k c = Some c' \<and> bc_ok c' \<and> refs c' = refs c \<and>
    content c' = apply_writes W (content c) \<and> disk c' = apply_writes W (disk c) \<and> bc_writes c' = bc_writes c @ W"
  using assms(1-4) unfolding W_def
proof (induction k arbitrary: tail c)
  case (Suc k)
  then have t: "tail < lh_n (log_logheader l)" by simp
  note p = log_placedD[OF Suc.prems(1) t]
  have dv: "log_dev l = ROOTDEV" and ne: "log_block l tail \<noteq> home l tail"
    using Suc.prems(1) p(1,5) by (auto simp: log_placed_def)
  have da: "disk c (log_block l tail) \<noteq> None" using Suc.prems(1) p(1) by (auto simp: log_placed_def)
  have rb: "0 < refs c (home l tail)" using Suc.prems(2) p(3) by (simp add: log_pinned_def)
  have ok: "bc_ok c" and u: "in_use c < NBUF" and r: "\<And>n. refs c n + 1 < 2 ^ 32" using Suc.prems(3) by (auto simp: room_def)
  obtain d c' where d: "content c (home l tail) = Some d" and
    step: "(do { (to, c) \<leftarrow> bread ROOTDEV (log_block l tail) c; (frm, c) \<leftarrow> bread ROOTDEV (home l tail) c;
          assert_that (bg_index to \<noteq> bg_index frm); data \<leftarrow> buf_get frm c; c \<leftarrow> buf_put to data c;
          c \<leftarrow> bwrite (bg_block_number to) data c; c \<leftarrow> brelse frm c; brelse to c }) = Some c'"
    and c': "bc_ok c'" "refs c' = refs c" "content c' = (content c)(log_block l tail \<mapsto> d)"
    "disk c' = (disk c)(log_block l tail \<mapsto> d)" "bc_writes c' = bc_writes c @ [(log_block l tail, d)]"
    using copy_out[OF ok ne da p(2,4) rb _ r r] u by blast
  have run: "write_log_from l tail (Suc k) c = write_log_from l (tail + 1) k c'"
    using step by (auto simp: p dv panic_simps)
  have pl: "log_placed l c'" using Suc.prems(1) p(1) by (simp add: log_placed_def c')
  have pn: "log_pinned l c'" using Suc.prems(2) by (simp add: log_pinned_def c')
  have rm: "room c'" using Suc.prems(3) by (simp add: room_def in_use_def c')
  have e: "content c' (home l i) = content c (home l i)" if "tail + 1 \<le> i" "i < tail + 1 + k" for i
    using log_placedD(5)[OF Suc.prems(1), of i] Suc.prems(4) that p(1) by (auto simp: c')
  have W: "map (\<lambda>i. (log_block l i, the (content c' (home l i)))) [tail + 1..<tail + 1 + k] =
     map (\<lambda>i. (log_block l i, the (content c (home l i)))) [tail + 1..<tail + 1 + k]"
    using e by auto
  have up: "[tail..<tail + Suc k] = tail # [tail + 1..<tail + 1 + k]" by (simp add: upt_conv_Cons del: upt_Suc flip: Suc_eq_plus1)
  have "tail + 1 + k = lh_n (log_logheader l)" using Suc.prems(4) by simp
  from Suc.IH[OF pl pn rm this] show ?case unfolding run W up unfolding c'(2-5) by (simp add: d del: fun_upd_apply)
qed (simp add: room_def)

lemma install_from_ok:
  assumes "log_placed l c" "distinct (map (home l) [tail..<tail + k])" "\<forall>i \<in> {tail..<tail + k}. 0 < refs c (home l i)"
    "room c" "tail + k \<le> lh_n (log_logheader l)"
  defines "W \<equiv> map (\<lambda>i. (home l i, the (content c (log_block l i)))) [tail..<tail + k]"
  shows "\<exists>c'. install_from l tail k c = Some c' \<and> bc_ok c' \<and>
    refs c' = (\<lambda>n. if n \<in> home l ` {tail..<tail + k} then refs c n - 1 else refs c n) \<and>
    content c' = apply_writes W (content c) \<and> disk c' = apply_writes W (disk c) \<and> bc_writes c' = bc_writes c @ W"
  using assms(1-5) unfolding W_def
proof (induction k arbitrary: tail c)
  case (Suc k)
  then have t: "tail < lh_n (log_logheader l)" by simp
  note p = log_placedD[OF Suc.prems(1) t]
  have dv: "log_dev l = ROOTDEV" and ne: "log_block l tail \<noteq> home l tail"
    using Suc.prems(1) p(1,5) by (auto simp: log_placed_def)
  have da: "disk c (log_block l tail) \<noteq> None" "content c (log_block l tail) = disk c (log_block l tail)"
    using Suc.prems(1) p(1) by (auto simp: log_placed_def)
  have rb: "0 < refs c (home l tail)" using Suc.prems(3) by simp
  have ok: "bc_ok c" and u: "in_use c < NBUF" and r: "\<And>n. refs c n + 1 < 2 ^ 32" using Suc.prems(4) by (auto simp: room_def)
  obtain d c' where d: "content c (log_block l tail) = Some d" and
    step: "(do { (lbuf, c) \<leftarrow> bread ROOTDEV (log_block l tail) c; (dbuf, c) \<leftarrow> bread ROOTDEV (home l tail) c;
          assert_that (bg_index dbuf \<noteq> bg_index lbuf); data \<leftarrow> buf_get lbuf c; c \<leftarrow> buf_put dbuf data c;
          c \<leftarrow> bwrite (bg_block_number dbuf) data c; c \<leftarrow> bunpin dbuf c; c \<leftarrow> brelse dbuf c; brelse lbuf c }) = Some c'"
    and c': "bc_ok c'" "refs c' = (refs c)(home l tail := refs c (home l tail) - 1)"
    "content c' = (content c)(home l tail \<mapsto> d)"
    "disk c' = (disk c)(home l tail \<mapsto> d)" "bc_writes c' = bc_writes c @ [(home l tail, d)]"
    using copy_home[OF ok ne da(1) p(2,4) rb _ r r da(2)] u by blast
  have run: "install_from l tail (Suc k) c = install_from l (tail + 1) k c'"
    using step by (auto simp: p dv panic_simps)
  have pl: "log_placed l c'" using Suc.prems(1) p(5) by (auto simp: log_placed_def c')
  have up: "[tail..<tail + Suc k] = tail # [tail + 1..<tail + 1 + k]" by (simp add: upt_conv_Cons del: upt_Suc flip: Suc_eq_plus1)
  have d1: "distinct (map (home l) [tail + 1..<tail + 1 + k])" and d2: "home l tail \<notin> home l ` {tail + 1..<tail + 1 + k}"
    using Suc.prems(2) unfolding up by auto
  have pn: "\<forall>i \<in> {tail + 1..<tail + 1 + k}. 0 < refs c' (home l i)"
  proof
    fix i assume i: "i \<in> {tail + 1..<tail + 1 + k}"
    then have "home l i \<noteq> home l tail" using d2 by (metis image_eqI)
    then show "0 < refs c' (home l i)" using Suc.prems(3) i by (simp add: c')
  qed
  have "in_use c' \<le> in_use c" by (rule in_use_mono[OF ok]) (simp add: c')
  then have rm: "room c'" using Suc.prems(4) r by (auto simp: room_def c' less_imp_diff_less)
  have e: "content c' (log_block l i) = content c (log_block l i)" if "tail + 1 \<le> i" "i < tail + 1 + k" for i
    using log_placedD(1)[OF Suc.prems(1), of i] Suc.prems(5) that p(5) by (auto simp: c')
  have W: "map (\<lambda>i. (home l i, the (content c' (log_block l i)))) [tail + 1..<tail + 1 + k] =
     map (\<lambda>i. (home l i, the (content c (log_block l i)))) [tail + 1..<tail + 1 + k]"
    using e by auto
  have R: "(\<lambda>n. if n \<in> home l ` {tail + 1..<tail + 1 + k} then refs c' n - 1 else refs c' n) =
     (\<lambda>n. if n \<in> home l ` {tail..<tail + Suc k} then refs c n - 1 else refs c n)"
  proof -
    have "{tail..<tail + Suc k} = insert tail {tail + 1..<tail + 1 + k}" by auto
    then show ?thesis using d2 by (auto simp: c' fun_eq_iff)
  qed
  have "tail + 1 + k \<le> lh_n (log_logheader l)" using Suc.prems(5) by simp
  from Suc.IH[OF pl d1 pn rm this] show ?case unfolding run W R up unfolding c'(3-5) by (simp add: d del: fun_upd_apply)
qed (simp add: room_def)

lemma decode_encode: "to_buffer_block h b = Some b' \<Longrightarrow> header_ok h \<Longrightarrow> decode_header b' = Some h"
  unfolding decode_header_def by (rule from_to_buffer_block) (simp_all add: blank_header_def)

lemma write_head_ok:
  assumes "room c" "log_placed l c"
  shows "\<exists>h c'. write_head l c = Some c' \<and> decode_header h = Some (log_logheader l) \<and> length h = BSIZE \<and>
    bc_ok c' \<and> refs c' = refs c \<and> content c' = (content c)(log_start l \<mapsto> h) \<and>
    disk c' = (disk c)(log_start l \<mapsto> h) \<and> bc_writes c' = bc_writes c @ [(log_start l, h)]"
proof -
  have l: "log_dev l = ROOTDEV" "header_ok (log_logheader l)" "log_start l < 2 ^ 29"
    "disk c (log_start l) \<noteq> None" using assms(2) by (auto simp: log_placed_def log_region_def)
  have r: "bc_ok c" "refs c (log_start l) + 1 < 2 ^ 32" "card {n. 0 < refs c n} < NBUF"
    using assms(1) by (auto simp: room_def in_use_def)
  obtain g c1 d where w: "bread ROOTDEV (log_start l) c = Some (g, c1)" "buf_get g c1 = Some d" "length d = BSIZE"
    "\<And>d'. length d' = BSIZE \<Longrightarrow>
       \<exists>c2 c3 c'. buf_put g d' c1 = Some c2 \<and> bwrite (log_start l) d' c2 = Some c3 \<and> brelse g c3 = Some c' \<and>
         bc_ok c' \<and> refs c' = refs c \<and> content c' = (content c)(log_start l \<mapsto> d') \<and>
         disk c' = (disk c)(log_start l \<mapsto> d') \<and> bc_writes c' = bc_writes c @ [(log_start l, d')]"
    using bc.write_through[OF r(1) l(4,3) r(2)] r(3) by blast
  have g: "bg_block_number g = log_start l"
    using bread_ok[OF r(1) l(4,3) r(2)] r(3) w(1) by (auto simp: in_use_def holds_def)
  obtain h where h: "to_buffer_block (log_logheader l) d = Some h" "length h = BSIZE"
    using to_buffer_block_ok[OF l(2) w(3)] by blast
  from w(4)[OF h(2)] show ?thesis
    using w(1,2) g h l decode_encode[OF h(1) l(2)] by (auto simp: write_head_def)
qed

lemma set_n_simps [simp]:
  "log_start (set_n n l) = log_start l" "log_dev (set_n n l) = log_dev l" "log_size (set_n n l) = log_size l"
  "log_outstanding (set_n n l) = log_outstanding l" "log_committing (set_n n l) = log_committing l"
  "log_logheader (set_n n l) = (log_logheader l)\<lparr>lh_n := n\<rparr>" "log_region (set_n n l) = log_region l"
  by (simp_all add: set_n_def log_region_def)

lemma home_inj:
  assumes "log_placed l c"
  shows "inj_on (home l) {0..<lh_n (log_logheader l)}" "set (logged l) = home l ` {0..<lh_n (log_logheader l)}"
    "distinct (map (home l) [0..<lh_n (log_logheader l)])"
proof -
  have le: "lh_n (log_logheader l) \<le> length (lh_block_nums (log_logheader l))"
    using assms by (auto simp: log_placed_def header_ok_def)
  have e: "logged l = map (home l) [0..<lh_n (log_logheader l)]"
    unfolding logged_def using le by (auto intro: nth_equalityI)
  show "distinct (map (home l) [0..<lh_n (log_logheader l)])" using assms unfolding log_placed_def e by blast
  then show "inj_on (home l) {0..<lh_n (log_logheader l)}" by (simp add: distinct_map)
  show "set (logged l) = home l ` {0..<lh_n (log_logheader l)}" unfolding e by simp
qed

lemma commit_ok:
  assumes pl: "log_placed l c" and pn: "log_pinned l c" and rm: "room c" and n: "0 < lh_n (log_logheader l)"
  shows "\<exists>c' h1 h0. commit l c = Some (set_n 0 l, c') \<and> bc_ok c' \<and>
    refs c' = (\<lambda>n. if n \<in> set (logged l) then refs c n - 1 else refs c n) \<and>
    content c' = apply_writes (commit_writes l (content c) h1 h0) (content c) \<and>
    disk c' = apply_writes (commit_writes l (content c) h1 h0) (disk c) \<and>
    bc_writes c' = bc_writes c @ commit_writes l (content c) h1 h0 \<and>
    decode_header h1 = Some (log_logheader l) \<and> decode_header h0 = Some ((log_logheader l)\<lparr>lh_n := 0\<rparr>) \<and>
    length h0 = BSIZE"
proof -
  let ?n = "lh_n (log_logheader l)"
  let ?W1 = "map (\<lambda>i. (log_block l i, the (content c (home l i)))) [0..<?n]"
  let ?W3 = "map (\<lambda>i. (home l i, the (content c (home l i)))) [0..<?n]"
  obtain c1 where 1: "write_log l c = Some c1" "bc_ok c1" "refs c1 = refs c" "content c1 = apply_writes ?W1 (content c)"
    "disk c1 = apply_writes ?W1 (disk c)" "bc_writes c1 = bc_writes c @ ?W1"
    using write_log_from_ok[OF pl pn rm, of 0 ?n] by (auto simp: write_log_def)
  have cd: "content c1 m = disk c1 m" "disk c1 m \<noteq> None" if "m \<in> log_region l" for m
    using that pl unfolding 1(4,5) apply_writes_map_of
    by (auto simp: log_placed_def map_add_def split: option.split)
  have pl1: "log_placed l c1" using pl cd by (simp add: log_placed_def)
  have rm1: "room c1" using rm 1 by (simp add: room_def in_use_def)
  obtain h1 c2 where 2: "write_head l c1 = Some c2" "decode_header h1 = Some (log_logheader l)" "bc_ok c2" "refs c2 = refs c1"
     "content c2 = (content c1)(log_start l \<mapsto> h1)" "disk c2 = (disk c1)(log_start l \<mapsto> h1)"
     "bc_writes c2 = bc_writes c1 @ [(log_start l, h1)]"
    using write_head_ok[OF rm1 pl1] by blast
  have pl2: "log_placed l c2" using pl1 by (simp add: log_placed_def 2)
  have rm2: "room c2" using rm1 2 by (simp add: room_def in_use_def)
  have lb: "content c2 (log_block l i) = Some (the (content c (home l i)))" if "i < ?n" for i
    using apply_writes_in[of "log_block l" "[0..<?n]" i "\<lambda>i. the (content c (home l i))"] that
    by (simp add: 2(5) 1(4) inj_on_def)
  then have w3: "map (\<lambda>i. (home l i, the (content c2 (log_block l i)))) [0..<?n] = ?W3" by simp
  have pn2: "\<forall>i\<in>{0..<?n}. 0 < refs c2 (home l i)"
    using pn log_placedD(3)[OF pl] by (auto simp: log_pinned_def 2 1)
  obtain c3 where 3: "install_trans l c2 = Some c3" "bc_ok c3"
    "refs c3 = (\<lambda>n. if n \<in> set (logged l) then refs c2 n - 1 else refs c2 n)"
    "content c3 = apply_writes ?W3 (content c2)" "disk c3 = apply_writes ?W3 (disk c2)" "bc_writes c3 = bc_writes c2 @ ?W3"
    using install_from_ok[OF pl2, of 0 ?n] home_inj[OF pl] pn2 rm2 unfolding install_trans_def
    by (auto simp: w3)
  have nr: "apply_writes ?W3 f m = f m" if "m \<in> log_region l" for m f
    using that log_placedD(5)[OF pl] by (intro apply_writes_other) auto
  have pl3: "log_placed (set_n 0 l) c3"
    using pl2 by (auto simp: log_placed_def 3 nr header_ok_def logged_def)
  have "in_use c3 \<le> in_use c2" by (rule in_use_mono[OF 2(3)]) (simp add: 3)
  then have rm3: "room c3" using rm2 3 by (auto simp: room_def less_imp_diff_less)
  obtain h0 c4 where 4: "write_head (set_n 0 l) c3 = Some c4" "decode_header h0 = Some ((log_logheader l)\<lparr>lh_n := 0\<rparr>)"
     "length h0 = BSIZE" "bc_ok c4" "refs c4 = refs c3"
     "content c4 = (content c3)(log_start l \<mapsto> h0)" "disk c4 = (disk c3)(log_start l \<mapsto> h0)"
     "bc_writes c4 = bc_writes c3 @ [(log_start l, h0)]"
    using write_head_ok[OF rm3 pl3] by auto
  have "commit l c = Some (set_n 0 l, c4)" using n by (simp add: commit_def 1 2 3 4)
  then show ?thesis
    using 1 2 3 4 by (auto simp: commit_writes_def Let_def intro!: exI[of _ h1] exI[of _ h0])
qed

section \<open>Crashes\<close>

lemma replay_clear:
  "f start = Some b \<Longrightarrow> decode_header b = Some h \<Longrightarrow> lh_n h = 0 \<Longrightarrow> replay start f = f"
  by (simp add: replay_def)

lemma commit_crash_cases:
  assumes "k \<le> length (commit_writes l f h1 h0)"
  defines "n \<equiv> lh_n (log_logheader l)"
  defines "W1 \<equiv> map (\<lambda>i. (log_block l i, the (f (home l i)))) [0..<n]"
    and "W3 \<equiv> map (\<lambda>i. (home l i, the (f (home l i)))) [0..<n]"
  obtains (before) "take k (commit_writes l f h1 h0) = take k W1"
    | (committed) j where "take k (commit_writes l f h1 h0) = W1 @ [(log_start l, h1)] @ take j W3"
    | (finished) "take k (commit_writes l f h1 h0) = W1 @ [(log_start l, h1)] @ W3 @ [(log_start l, h0)]"
proof -
  have W: "commit_writes l f h1 h0 = W1 @ [(log_start l, h1)] @ W3 @ [(log_start l, h0)]"
    by (simp add: commit_writes_def Let_def W1_def W3_def n_def)
  have len: "length W1 = n" "length W3 = n" by (simp_all add: W1_def W3_def)
  consider "k \<le> n" | "n < k" "k \<le> 2 * n + 1" | "k = 2 * n + 2"
    using assms(1) len unfolding W by fastforce
  then show thesis
  proof cases
    case 1
    then show ?thesis using before len by (simp add: W)
  next
    case 2
    then obtain j where "k = n + Suc j" by (metis add_Suc_right less_imp_Suc_add)
    with 2 have "k = n + Suc j" "j \<le> n" by simp_all
    then show ?thesis using committed[of j] len by (simp add: W)
  next
    case 3
    then show ?thesis using finished len by (simp add: W)
  qed
qed

lemma commit_crash:
  assumes pl: "log_placed l c" and cl: "header_clear l c" and un: "\<And>m. m \<notin> set (logged l) \<Longrightarrow> content c m = disk c m"
    and sm: "\<And>m. m \<in> set (logged l) \<Longrightarrow> content c m \<noteq> None"
    and h1: "decode_header h1 = Some (log_logheader l)" and h0: "decode_header h0 = Some ((log_logheader l)\<lparr>lh_n := 0\<rparr>)"
    and k: "k \<le> length (commit_writes l (content c) h1 h0)"
  defines "crashed \<equiv> apply_writes (take k (commit_writes l (content c) h1 h0)) (disk c)"
  shows "(\<forall>m. m \<notin> log_region l \<longrightarrow> replay (log_start l) crashed m = disk c m) \<or>
         (\<forall>m. m \<notin> log_region l \<longrightarrow> replay (log_start l) crashed m = content c m)"
proof -
  let ?n = "lh_n (log_logheader l)" and ?s = "log_start l"
  let ?D = "\<lambda>i. the (content c (home l i))"
  let ?W1 = "map (\<lambda>i. (log_block l i, ?D i)) [0..<?n]" and ?W3 = "map (\<lambda>i. (home l i, ?D i)) [0..<?n]"
  note p = log_placedD[OF pl]
  have s: "?s \<in> log_region l" by (simp add: log_region_def)
  have w1: "apply_writes ?W1 f ?s = f ?s" "apply_writes (take j ?W1) f ?s = f ?s" for f j
    by (intro apply_writes_other; force dest: in_set_takeD)+
  have w1o: "apply_writes (take j ?W1) f m = f m" "apply_writes ?W1 f m = f m" if "m \<notin> log_region l" for f j m
    using that p(1) by (intro apply_writes_other; fastforce dest: in_set_takeD)+
  have w1i: "apply_writes ?W1 f (log_block l i) = Some (?D i)" if "i < ?n" for f i
    using apply_writes_in[of "log_block l" "[0..<?n]" i ?D] that by (simp add: inj_on_def)
  have w3r: "apply_writes ?W3 f m = f m" "apply_writes (take j ?W3) f m = f m" if "m \<in> log_region l" for f j m
    using that p(5) by (intro apply_writes_other; fastforce dest: in_set_takeD)+
  have new: "apply_writes ?W3 f m = content c m"
    if "\<And>m. m \<notin> log_region l \<Longrightarrow> m \<notin> set (logged l) \<Longrightarrow> f m = disk c m" "m \<notin> log_region l" for f m
  proof (cases "m \<in> set (logged l)")
    case True
    then obtain i where i: "i < ?n" "m = home l i" using home_inj(2)[OF pl] by auto
    then show ?thesis using apply_writes_in[of "home l" "[0..<?n]" i ?D f] home_inj(1)[OF pl] sm[OF True] by auto
  next
    case False
    then have "m \<notin> fst ` set ?W3" using home_inj(2)[OF pl] by force
    then show ?thesis using apply_writes_other[of m ?W3 f] that un[OF False] False by simp
  qed
  have pre: "apply_writes (take j ?W3) f m = f m" if "m \<notin> set (logged l)" for j f m
    using that p(3) by (intro apply_writes_other) (fastforce dest: in_set_takeD)
  show ?thesis
    using k
  proof (cases rule: commit_crash_cases)
    case before
    obtain b h where "disk c ?s = Some b" "decode_header b = Some h" "lh_n h = 0" using cl by (auto simp: header_clear_def)
    then have "replay ?s crashed = crashed"
      unfolding crashed_def before by (intro replay_clear) (simp_all add: w1)
    then show ?thesis unfolding crashed_def before by (simp add: w1o)
  next
    case (committed j)
    have c: "crashed = apply_writes (take j ?W3) ((apply_writes ?W1 (disk c))(?s \<mapsto> h1))"
      by (simp add: crashed_def committed)
    have cs: "crashed ?s = Some h1" unfolding c by (simp add: w3r(2)[OF s])
    have "crashed (?s + i + 1) = Some (?D i)" if "i < ?n" for i
      unfolding c using w3r(2)[OF p(1)[OF that]] w1i[OF that] by simp
    then have m: "map (\<lambda>i. (home l i, the (crashed (?s + i + 1)))) [0..<?n] = ?W3" by simp
    have r: "replay ?s crashed = apply_writes ?W3 crashed"
      unfolding replay_def cs bind.bind_lunit h1 option.case m ..
    have "crashed m = disk c m" if "m \<notin> log_region l" "m \<notin> set (logged l)" for m
      unfolding c pre[OF that(2)] using that(1) s by (auto simp: w1o)
    from new[OF this] show ?thesis unfolding r by blast
  next
    case finished
    have c: "crashed = (apply_writes ?W3 ((apply_writes ?W1 (disk c))(?s \<mapsto> h1)))(?s \<mapsto> h0)"
      by (simp add: crashed_def finished)
    have "replay ?s crashed = crashed" by (rule replay_clear[OF _ h0]) (simp_all add: c)
    moreover have "crashed m = content c m" if "m \<notin> log_region l" for m
    proof -
      have "crashed m = apply_writes ?W3 ((apply_writes ?W1 (disk c))(?s \<mapsto> h1)) m" using that s by (auto simp: c)
      also have "... = content c m"
        by (rule new[OF _ that]) (use s w1o(2) in auto)
      finally show ?thesis .
    qed
    ultimately show ?thesis by simp
  qed
qed

section \<open>The invariant of the log\<close>

lemma log_invD:
  assumes "log_inv H l c"
  shows "bc_ok c" "log_placed l c" "header_clear l c" "header_ok (log_logheader l)"
    "refs c n = (if n \<in> set (logged l) then 1 else 0) + H n"
    "m \<notin> set (logged l) \<Longrightarrow> content c m = disk c m" "finite {n. 0 < H n}" "H n < 2 ^ 30"
    "refs c n + 1 < 2 ^ 32"
proof -
  show r: "refs c n = (if n \<in> set (logged l) then 1 else 0) + H n" and h: "H n < 2 ^ 30" for n
    using assms unfolding log_inv_def by simp_all
  show "refs c n + 1 < 2 ^ 32" using r[of n] h[of n] by simp
qed (use assms in \<open>simp_all add: log_inv_def log_placed_def\<close>)

lemma logged_length: "header_ok (log_logheader l) \<Longrightarrow> length (logged l) = lh_n (log_logheader l)"
  by (simp add: logged_def header_ok_def)

lemma log_inv_room:
  assumes "log_inv H l c" "lh_n (log_logheader l) + card {n. 0 < H n} < NBUF"
  shows "in_use c < NBUF"
proof -
  note i = log_invD[OF assms(1)]
  have h: "header_ok (log_logheader l)" using i(2) by (simp add: log_placed_def)
  have "{n. 0 < refs c n} \<subseteq> set (logged l) \<union> {n. 0 < H n}" by (auto simp: i(5) split: if_splits)
  then have "in_use c \<le> card (set (logged l) \<union> {n. 0 < H n})"
    unfolding in_use_def using i(7) by (intro card_mono) auto
  also have "... \<le> card (set (logged l)) + card {n. 0 < H n}" by (rule card_Un_le)
  also have "... \<le> lh_n (log_logheader l) + card {n. 0 < H n}"
    using card_length[of "logged l"] logged_length[OF h] by simp
  finally show ?thesis using assms(2) by simp
qed

lemma log_inv_bread:
  assumes i: "log_inv H l c" and b: "disk c b \<noteq> None" "b < 2 ^ 29" and H: "H b + 1 < 2 ^ 30"
    and u: "lh_n (log_logheader l) + card {n. 0 < H n} < NBUF"
  shows "\<exists>g c'. bread ROOTDEV b c = Some (g, c') \<and> log_inv (H(b := H b + 1)) l c' \<and> holds c' g b \<and>
    content c' = content c \<and> disk c' = disk c \<and> (\<forall>g' m. holds c g' m \<longrightarrow> holds c' g' m)"
proof -
  note k = log_invD[OF i]
  obtain g c' where r: "bread ROOTDEV b c = Some (g, c')" "bc_ok c'" "holds c' g b"
    "refs c' = (refs c)(b := refs c b + 1)" "content c' = content c" "disk c' = disk c"
    "\<forall>g' m. holds c g' m \<longrightarrow> holds c' g' m"
    using bread_ok[OF k(1) b k(9)] log_inv_room[OF i u] by blast
  have "{n. 0 < (H(b := H b + 1)) n} = insert b {n. 0 < H n}" by auto
  then have "finite {n. 0 < (H(b := H b + 1)) n}" using k(7) by simp
  moreover have "log_placed l c'" "header_clear l c'"
    using k(2,3) by (simp_all add: log_placed_def header_clear_def r)
  moreover have "refs c' = (\<lambda>n. (if n \<in> set (logged l) then 1 else 0) + (H(b := H b + 1)) n)"
    by (auto simp: r(4) k(5))
  ultimately have "log_inv (H(b := H b + 1)) l c'" using i H r by (simp add: log_inv_def)
  with r show ?thesis by blast
qed

lemma log_inv_brelse:
  assumes i: "log_inv H l c" and h: "holds c g b" and H: "0 < H b"
  shows "\<exists>c'. brelse g c = Some c' \<and> log_inv (H(b := H b - 1)) l c' \<and> content c' = content c \<and> disk c' = disk c \<and>
    (\<forall>g' m. holds c g' m \<longrightarrow> m \<noteq> b \<or> 1 < H b \<longrightarrow> holds c' g' m)"
proof -
  note k = log_invD[OF i]
  have "content c b = disk c b" if "refs c b = 1" using k(5)[of b] k(6)[of b] that H by (auto split: if_splits)
  from brelse_ok[OF k(1) h this] obtain c' where r: "brelse g c = Some c'" "bc_ok c'"
    "refs c' = (refs c)(b := refs c b - 1)" "content c' = content c" "disk c' = disk c"
    "\<forall>g' m. holds c g' m \<longrightarrow> m \<noteq> b \<or> 1 < refs c b \<longrightarrow> holds c' g' m" by blast
  have "finite {n. 0 < (H(b := H b - 1)) n}"
    by (rule finite_subset[OF _ k(7)]) auto
  moreover have "log_placed l c'" "header_clear l c'"
    using k(2,3) by (simp_all add: log_placed_def header_clear_def r)
  moreover have "refs c' = (\<lambda>n. (if n \<in> set (logged l) then 1 else 0) + (H(b := H b - 1)) n)"
    using H by (auto simp: r(3) k(5))
  ultimately have "log_inv (H(b := H b - 1)) l c'" using i r k(8) by (auto simp: log_inv_def less_imp_diff_less)
  moreover have "\<forall>g' m. holds c g' m \<longrightarrow> m \<noteq> b \<or> 1 < H b \<longrightarrow> holds c' g' m"
    using r(6) k(5)[of b] by (auto split: if_splits)
  ultimately show ?thesis using r by blast
qed

text \<open>Changing a held buffer and putting it into the transaction.\<close>

lemma log_write_new:
  assumes "lh_n (log_logheader l) < LOGSIZE" "1 \<le> log_outstanding l" "length (lh_block_nums (log_logheader l)) = LOGSIZE"
  shows "log_write g l c =
    (let bns = (lh_block_nums (log_logheader l))[lh_n (log_logheader l) := bg_block_number g];
         l' = l\<lparr>log_logheader := (log_logheader l)\<lparr>lh_block_nums := bns\<rparr>\<rparr>
     in if bg_block_number g \<in> set (logged l) then Some (l', c)
        else do { c \<leftarrow> bpin g c; Some (set_n (lh_n (log_logheader l) + 1) l', c) })"
proof -
  let ?n = "lh_n (log_logheader l)" and ?b = "bg_block_number g"
  let ?bns = "(lh_block_nums (log_logheader l))[?n := ?b]"
  have t: "take ?n ?bns = logged l" by (simp add: logged_def)
  have a: "add_u32 ?n 1 = Some (?n + 1)" using assms(1) by (simp add: add_u32_def)
  have u: "upd_chk (lh_block_nums (log_logheader l)) ?n ?b = Some ?bns" "slice_chk ?bns 0 ?n = Some (logged l)"
    using assms by (simp_all add: upd_chk_def slice_chk_def t)
  show ?thesis
  proof (cases "?b \<in> set (logged l)")
    case True
    then have "position (\<lambda>x. x = ?b) (logged l) \<noteq> None" by (auto simp: position_None)
    with True assms u show ?thesis by (auto simp: log_write_def Let_def)
  next
    case False
    then have "position (\<lambda>x. x = ?b) (logged l) = None" by (auto simp: position_None)
    with False assms u a show ?thesis by (simp add: log_write_def Let_def)
  qed
qed

lemma log_inv_update:
  assumes i: "log_inv H l c" and h: "holds c g b" and d: "length d = BSIZE" and H: "0 < H b"
    and b: "b \<notin> log_region l" "b < 2 ^ 29" and n: "lh_n (log_logheader l) < LOGSIZE" and o1: "1 \<le> log_outstanding l"
  shows "\<exists>l' c1 c'. buf_put g d c = Some c1 \<and> log_write g l c1 = Some (l', c') \<and> log_inv H l' c' \<and>
    content c' = (content c)(b \<mapsto> d) \<and> disk c' = disk c \<and>
    logged l' = (if b \<in> set (logged l) then logged l else logged l @ [b]) \<and>
    log_start l' = log_start l \<and> log_outstanding l' = log_outstanding l \<and> log_size l' = log_size l \<and>
    log_committing l' = log_committing l \<and> (\<forall>g' m. holds c g' m \<longrightarrow> holds c' g' m)"
proof -
  note k = log_invD[OF i]
  let ?n = "lh_n (log_logheader l)"
  let ?bns = "(lh_block_nums (log_logheader l))[?n := b]"
  let ?l = "l\<lparr>log_logheader := (log_logheader l)\<lparr>lh_block_nums := ?bns\<rparr>\<rparr>"
  have hk: "header_ok (log_logheader l)" using k(2) by (simp add: log_placed_def)
  have gb: "bg_block_number g = b" using h by (simp add: holds_def)
  obtain c1 where p: "buf_put g d c = Some c1" "bc_ok c1" "refs c1 = refs c" "content c1 = (content c)(b \<mapsto> d)"
    "disk c1 = disk c" "\<forall>g' m. holds c g' m \<longrightarrow> holds c1 g' m"
    using buf_put_ok[OF k(1) h d] by blast
  note w = log_write_new[OF n o1, of g c1, unfolded gb Let_def]
  have hl: "length (lh_block_nums (log_logheader l)) = LOGSIZE" using hk by (simp add: header_ok_def)
  have bns: "\<forall>v \<in> set ?bns. v < 2 ^ 32"
    using hk b(2) set_update_subset_insert[of "lh_block_nums (log_logheader l)" ?n b] by (force simp: header_ok_def)
  have lg: "logged ?l = logged l" "logged (set_n (?n + 1) ?l) = logged l @ [b]"
    using n hl by (simp_all add: logged_def take_Suc_conv_app_nth flip: Suc_eq_plus1)
  have rg: "log_region ?l = log_region l" by (simp add: log_region_def)
  have ob: "content c1 m = disk c1 m \<and> disk c1 m \<noteq> None" if "m \<in> log_region l" for m
    using k(2) that b(1) by (auto simp: log_placed_def p)
  show ?thesis
  proof (cases "b \<in> set (logged l)")
    case True
    have "log_placed ?l c1" using k(2) ob bns by (auto simp: log_placed_def header_ok_def lg rg)
    moreover have "header_clear ?l c1" using k(3) by (simp add: header_clear_def p)
    ultimately have "log_inv H ?l c1" using i True by (auto simp: log_inv_def lg p)
    then show ?thesis using True p w[OF hl] lg by auto
  next
    case False
    have r1: "refs c1 b + 1 < 2 ^ 32" using k(9)[of b] by (simp add: p)
    from bpin_ok[OF p(2) _ r1] p(6) h obtain c2 where q: "bpin g c1 = Some c2" "bc_ok c2" "refs c2 = (refs c1)(b := refs c1 b + 1)"
      "content c2 = content c1" "disk c2 = disk c1" "\<forall>g' m. holds c1 g' m \<longrightarrow> holds c2 g' m" by blast
    let ?l' = "set_n (?n + 1) ?l"
    have "log_placed ?l' c2" using k(2) ob bns n b False unfolding log_placed_def lg(2)
      by (auto simp: header_ok_def rg q)
    moreover have "header_clear ?l' c2" using k(3) by (simp add: header_clear_def p q)
    moreover have "refs c2 = (\<lambda>n. (if n \<in> set (logged ?l') then 1 else 0) + H n)"
      using False unfolding lg(2) by (auto simp: q(3) p(3) k(5))
    ultimately have "log_inv H ?l' c2" using i q False unfolding log_inv_def lg(2) by (auto simp: p)
    then show ?thesis using False p w[OF hl] q lg(2) by auto
  qed
qed

lemma commit_inv:
  assumes i: "log_inv H l c" and u: "lh_n (log_logheader l) + card {n. 0 < H n} < NBUF" and n: "0 < lh_n (log_logheader l)"
  shows "\<exists>c' W. commit l c = Some (set_n 0 l, c') \<and> log_inv H (set_n 0 l) c' \<and> bc_writes c' = bc_writes c @ W \<and>
    disk c' = apply_writes W (disk c) \<and>
    (\<forall>m. m \<notin> log_region l \<longrightarrow> content c' m = content c m \<and> disk c' m = content c m) \<and>
    (\<forall>k \<le> length W. (\<forall>m. m \<notin> log_region l \<longrightarrow> replay (log_start l) (apply_writes (take k W) (disk c)) m = disk c m) \<or>
       (\<forall>m. m \<notin> log_region l \<longrightarrow> replay (log_start l) (apply_writes (take k W) (disk c)) m = content c m))"
proof -
  note k = log_invD[OF i]
  have rm: "room c" using k(1,9) log_inv_room[OF i u] by (simp add: room_def)
  have pn: "log_pinned l c" by (simp add: log_pinned_def k(5))
  obtain c' h1 h0 where r: "commit l c = Some (set_n 0 l, c')" "bc_ok c'"
    "refs c' = (\<lambda>n. if n \<in> set (logged l) then refs c n - 1 else refs c n)"
    "content c' = apply_writes (commit_writes l (content c) h1 h0) (content c)"
    "disk c' = apply_writes (commit_writes l (content c) h1 h0) (disk c)"
    "bc_writes c' = bc_writes c @ commit_writes l (content c) h1 h0"
    "decode_header h1 = Some (log_logheader l)" "decode_header h0 = Some ((log_logheader l)\<lparr>lh_n := 0\<rparr>)"
    using commit_ok[OF k(2) pn rm n] by blast
  let ?W = "commit_writes l (content c) h1 h0"
  have sm: "content c m \<noteq> None" if "m \<in> set (logged l)" for m
  proof -
    have "0 < refs c m" using that by (simp add: k(5))
    then obtain i where "slot_of (bc_internal c) m = Some i" using referenced_slot[OF k(1)] by blast
    from slot_cached[OF k(1) this] show ?thesis by auto
  qed
  note cr = commit_crash[OF k(2,3,6) sm r(7,8)]
  have ds: "disk c' (log_start l) = Some h0"
    by (simp add: r(5) commit_writes_def Let_def)
  have in_log: "m \<in> set (logged l) \<Longrightarrow> m \<in> fst ` set ?W" for m
    using home_inj(2)[OF k(2)] by (force simp: commit_writes_def Let_def)
  have cd: "content c' m = disk c' m" for m
  proof (cases "m \<in> fst ` set ?W")
    case True
    then have "map_of (rev ?W) m \<noteq> None" by (simp add: map_of_eq_None_iff)
    then show ?thesis unfolding r(4,5) apply_writes_map_of by (auto simp: map_add_def)
  next
    case False
    then show ?thesis using k(6)[of m] in_log[of m] unfolding r(4,5) by (auto simp: apply_writes_other)
  qed
  have new: "disk c' m = content c m" if "m \<notin> log_region l" for m
  proof -
    have "replay (log_start l) (disk c') = disk c'" using replay_clear[of "disk c'" "log_start l" h0] ds r(8) by simp
    moreover have "(\<forall>m. m \<notin> log_region l \<longrightarrow> disk c' m = disk c m) \<or> (\<forall>m. m \<notin> log_region l \<longrightarrow> disk c' m = content c m)"
      using cr[of "length ?W"] r(5) calculation by simp
    moreover have "disk c' m = Some (the (content c m))" if m: "m \<in> set (logged l)"
    proof -
      obtain j where j: "j < lh_n (log_logheader l)" "m = home l j" using home_inj(2)[OF k(2)] m by auto
      have "m \<noteq> log_start l" using k(2) m by (auto simp: log_placed_def log_region_def)
      then show ?thesis
        using apply_writes_in[of "home l" "[0..<lh_n (log_logheader l)]" j "\<lambda>i. the (content c (home l i))"] home_inj(1)[OF k(2)] j
        by (simp add: r(5) commit_writes_def Let_def)
    qed
    ultimately show ?thesis using that k(6)[of m] sm[of m] by (cases "m \<in> set (logged l)") auto
  qed
  have "log_placed (set_n 0 l) c'"
  proof -
    have "disk c' m \<noteq> None" if "m \<in> log_region l" for m
      using k(2) that unfolding r(5) apply_writes_map_of by (auto simp: log_placed_def map_add_def split: option.split)
    with k(2) cd show ?thesis by (auto simp: log_placed_def header_ok_def logged_def)
  qed
  moreover have "header_clear (set_n 0 l) c'" using ds r(8) by (simp add: header_clear_def)
  moreover have "refs c' = (\<lambda>n. (if n \<in> set (logged (set_n 0 l)) then 1 else 0) + H n)"
    by (auto simp: r(3) k(5) logged_def)
  ultimately have "log_inv H (set_n 0 l) c'" using i r(2) cd by (simp add: log_inv_def)
  moreover have "\<forall>m. m \<notin> log_region l \<longrightarrow> content c' m = content c m \<and> disk c' m = content c m"
    using new cd by simp
  ultimately show ?thesis using r(1,5,6) cr by blast
qed

lemma log_inv_cong:
  assumes "log_start l' = log_start l" "log_logheader l' = log_logheader l" "log_dev l' = log_dev l"
  shows "log_inv H l' c = log_inv H l c"
  using assms by (simp add: log_inv_def log_placed_def header_clear_def logged_def log_region_def)

lemma end_op_inv:
  assumes i: "log_inv H l c" and u: "lh_n (log_logheader l) + card {n. 0 < H n} < NBUF" and o1: "1 \<le> log_outstanding l"
    and nc: "\<not> log_committing l"
  shows "\<exists>l' c'. end_op l c = Some (l', c') \<and> log_inv H l' c' \<and> log_outstanding l' = log_outstanding l - 1 \<and>
    log_start l' = log_start l \<and> log_size l' = log_size l \<and> \<not> log_committing l' \<and>
    logged l' = (if log_outstanding l = 1 then [] else logged l) \<and>
    (\<forall>m. m \<notin> log_region l \<longrightarrow> content c' m = content c m) \<and>
    (log_outstanding l = 1 \<longrightarrow> (\<forall>m. m \<notin> log_region l \<longrightarrow> disk c' m = content c m))"
proof -
  note k = log_invD[OF i]
  have s: "sub_chk (log_outstanding l) 1 = Some (log_outstanding l - 1)" using o1 by (simp add: sub_chk_def)
  let ?l1 = "l\<lparr>log_outstanding := log_outstanding l - 1\<rparr>"
  show ?thesis
  proof (cases "log_outstanding l = 1")
    case False
    then have "end_op l c = Some (?l1, c)" using nc o1 by (simp add: end_op_def s)
    with i False nc log_inv_cong[of ?l1 l] show ?thesis by (simp add: logged_def)
  next
    case True
    let ?l2 = "?l1\<lparr>log_committing := True\<rparr>" and ?l3 = "?l1\<lparr>log_committing := False\<rparr>"
    show ?thesis
    proof (cases "0 < lh_n (log_logheader l)")
      case False
      then have "end_op l c = Some (?l3, c)" using nc True by (simp add: end_op_def sub_chk_def commit_def)
      with i True False k(6) log_inv_cong[of ?l3 l] show ?thesis by (simp add: logged_def)
    next
      case n: True
      have i2: "log_inv H ?l2 c" using i log_inv_cong[of ?l2 l] by simp
      obtain c' where r: "commit ?l2 c = Some (set_n 0 ?l2, c')" "log_inv H (set_n 0 ?l2) c'"
        "\<forall>m. m \<notin> log_region ?l2 \<longrightarrow> content c' m = content c m \<and> disk c' m = content c m"
        using commit_inv[OF i2] u n by auto
      have "end_op l c = Some ((set_n 0 ?l2)\<lparr>log_committing := False\<rparr>, c')"
        using nc True r(1) by (simp add: end_op_def sub_chk_def)
      with r(2,3) True log_inv_cong[of "(set_n 0 ?l2)\<lparr>log_committing := False\<rparr>" "set_n 0 ?l2" H c'] show ?thesis
        by (simp add: logged_def log_region_def)
    qed
  qed
qed

section \<open>Start-up and recovery\<close>

lemma quietD: "quiet c \<Longrightarrow> bc_ok c" "quiet c \<Longrightarrow> refs c n = 0" "quiet c \<Longrightarrow> content c n = disk c n"
  "quiet c \<Longrightarrow> card {n. 0 < refs c n} < NBUF" "quiet c \<Longrightarrow> room c"
  by (simp_all add: quiet_def clean room_def in_use_def)

lemma quiet_look:
  assumes "quiet c" "disk c n \<noteq> None" "n < 2 ^ 29"
  shows "\<exists>g c1 d c'. bread ROOTDEV n c = Some (g, c1) \<and> buf_get g c1 = Some d \<and> brelse g c1 = Some c' \<and>
    disk c n = Some d \<and> length d = BSIZE \<and> quiet c' \<and> disk c' = disk c \<and> bc_writes c' = bc_writes c"
  using bc.look[OF quietD(1)[OF assms(1)] assms(2,3)] quietD[OF assms(1)] by (fastforce simp: quiet_def)

lemma read_u32_at_bound: "read_u32_at b off = Some v \<Longrightarrow> v < 2 ^ 32"
  unfolding read_u32_at_def bind_eq_Some_conv using from_le_u32_bound by blast

lemma read_u32s_bound: "read_u32s b off k = Some vs \<Longrightarrow> length vs = k \<and> (\<forall>v \<in> set vs. v < 2 ^ 32)"
proof (induction k arbitrary: off vs)
  case (Suc k)
  then obtain w ws where "read_u32_at b off = Some w" "read_u32s b (off + 4) k = Some ws" "vs = w # ws"
    by (auto simp: panic_simps)
  with Suc.IH read_u32_at_bound show ?case by fastforce
qed simp

lemma read_head_ok:
  assumes "quiet c" "fresh_log l" "log_fits (log_start l) (disk c)" "disk c (log_start l) = Some b" "decode_header b = Some h"
  shows "\<exists>c'. read_head l c = Some (l\<lparr>log_logheader := h\<rparr>, c') \<and> quiet c' \<and> disk c' = disk c \<and> bc_writes c' = bc_writes c"
    "length (lh_block_nums h) = LOGSIZE" "\<forall>v \<in> set (lh_block_nums h). v < 2 ^ 32"
proof -
  have s: "log_start l < 2 ^ 29" using assms(3) by (simp add: log_fits_def)
  have f: "from_buffer_block (log_logheader l) b = Some h"
    using assms(2,5) by (auto simp: decode_header_def from_buffer_block_def fresh_log_def blank_header_def panic_simps)
  show "\<exists>c'. read_head l c = Some (l\<lparr>log_logheader := h\<rparr>, c') \<and> quiet c' \<and> disk c' = disk c \<and> bc_writes c' = bc_writes c"
    using quiet_look[OF assms(1) _ s] assms(2,4) f by (auto simp: read_head_def fresh_log_def)
  show "length (lh_block_nums h) = LOGSIZE" "\<forall>v \<in> set (lh_block_nums h). v < 2 ^ 32"
    using assms(5) read_u32s_bound[of b 4 LOGSIZE "lh_block_nums h"]
    by (auto simp: decode_header_def from_buffer_block_def blank_header_def panic_simps)
qed

lemma quiet_placed:
  assumes "quiet c" "fresh_log l" "log_fits (log_start l) (disk c)" "lh_n (log_logheader l) = 0"
    "\<forall>v \<in> set (lh_block_nums (log_logheader l)). v < 2 ^ 32"
  shows "log_placed l c"
  using assms quietD(3)[OF assms(1)]
  by (auto simp: log_placed_def fresh_log_def header_ok_def log_fits_def log_region_def logged_def)

lemma recover_clean:
  assumes "quiet c" "fresh_log l" "log_fits (log_start l) (disk c)" "disk c (log_start l) = Some b" "decode_header b = Some h" "lh_n h = 0"
  shows "\<exists>c'. recover_from_log l c = Some (l\<lparr>log_logheader := h\<rparr>, c') \<and> log_inv (\<lambda>_. 0) (l\<lparr>log_logheader := h\<rparr>) c' \<and>
    (\<forall>m. m \<noteq> log_start l \<longrightarrow> disk c' m = disk c m) \<and> (\<forall>m. content c' m = disk c' m)"
proof -
  let ?l = "l\<lparr>log_logheader := h\<rparr>"
  obtain c1 where 1: "read_head l c = Some (?l, c1)" "quiet c1" "disk c1 = disk c"
    and h: "length (lh_block_nums h) = LOGSIZE" "\<forall>v \<in> set (lh_block_nums h). v < 2 ^ 32"
    using read_head_ok[OF assms(1-5)] by blast
  have e: "set_n 0 ?l = ?l" using assms(6) by (simp add: set_n_def)
  have f: "fresh_log ?l" using assms(2) h by (simp add: fresh_log_def)
  have pl: "log_placed ?l c1"
    by (rule quiet_placed[OF 1(2) f]) (use assms h 1 in simp_all)
  obtain b' c2 where 2: "write_head ?l c1 = Some c2" "decode_header b' = Some h" "bc_ok c2" "refs c2 = refs c1"
     "content c2 = (content c1)(log_start l \<mapsto> b')" "disk c2 = (disk c1)(log_start l \<mapsto> b')"
    using write_head_ok[OF quietD(5)[OF 1(2)] pl] by auto
  have q: "quiet c2" using 1(2) 2 by (simp add: quiet_def)
  have "log_placed ?l c2"
    by (rule quiet_placed[OF q f]) (use assms h 1 2 in \<open>auto simp: log_fits_def\<close>)
  then have "log_inv (\<lambda>_. 0) ?l c2"
    using q 2 quietD[OF q] assms(6) by (auto simp: log_inv_def header_clear_def logged_def)
  moreover have "recover_from_log l c = Some (?l, c2)"
    using 1(1) 2(1) assms(6) by (simp add: recover_from_log_def install_trans_def e)
  ultimately show ?thesis using 2(6) 1(3) quietD(3)[OF q] by auto
qed

lemma fsinit_ok:
  assumes sb: "disk_block dev 1 = Some b" "superblock_from_bytes b = Some sb"
    and lf: "log_fits (sb_logstart sb) (disk_block dev)"
    and h: "disk_block dev (sb_logstart sb) = Some hb" "decode_header hb = Some hdr" "lh_n hdr = 0"
  shows "\<exists>s. fsinit ROOTDEV dev = Some s \<and> d_sb s = sb \<and> log_inv (\<lambda>_. 0) (d_log s) (d_bc s) \<and>
    log_start (d_log s) = sb_logstart sb \<and> log_outstanding (d_log s) = 0 \<and> \<not> log_committing (d_log s) \<and> logged (d_log s) = [] \<and>
    (\<forall>m. m \<noteq> sb_logstart sb \<longrightarrow> content (d_bc s) m = disk_block dev m)"
proof -
  let ?c = "BufferCache_new dev"
  have q: "quiet ?c" using new_ok by (simp add: quiet_def)
  obtain c1 where 1: "read_superblock ROOTDEV ?c = Some (sb, c1)" "quiet c1" "disk c1 = disk_block dev"
    using quiet_look[OF q, of 1] sb by (auto simp: read_superblock_def new_ok)
  let ?l = "\<lparr>log_start = sb_logstart sb, log_size = sb_nlog sb, log_outstanding = 0, log_committing = False, log_dev = ROOTDEV,
             log_logheader = \<lparr>lh_n = 123456, lh_block_nums = replicate LOGSIZE 123456\<rparr>\<rparr>"
  have f: "fresh_log ?l" by (simp add: fresh_log_def)
  obtain c2 where 2: "recover_from_log ?l c1 = Some (?l\<lparr>log_logheader := hdr\<rparr>, c2)" "log_inv (\<lambda>_. 0) (?l\<lparr>log_logheader := hdr\<rparr>) c2"
    "\<forall>m. m \<noteq> sb_logstart sb \<longrightarrow> disk c2 m = disk_block dev m" "\<forall>m. content c2 m = disk c2 m"
    using recover_clean[OF 1(2) f, of hb hdr] lf h 1(3) by auto
  have "fsinit ROOTDEV dev = Some \<lparr>d_bc = c2, d_sb = sb, d_log = ?l\<lparr>log_logheader := hdr\<rparr>\<rparr>"
    using 1(1) 2(1) by (simp add: fsinit_def LogInternal_new_def)
  with 2 h(3) show ?thesis by (simp add: logged_def)
qed

text \<open>
  Recovery of a committed transaction.  The block is referenced only by the guard of the loop, so
  \<open>unpin\<close> takes its last reference and the guard's drop subtracts one from zero.
\<close>

lemma release_unreferenced:
  assumes "bc_ok c" "slot_of (bc_internal c) n = Some (bg_index g)" "refs c n = 0"
  shows "brelse g c = None"
  using slot_cached[OF assms(1,2)] assms(3)
  by (auto simp: brelse_def release_internal_def nth_chk_def sub_chk_def)

lemma recovery_panic:
  assumes q: "quiet c" and f: "fresh_log l" "log_fits (log_start l) (disk c)"
    and h: "disk c (log_start l) = Some b" "decode_header b = Some h" "0 < lh_n h" "lh_n h \<le> LOGSIZE"
    and t: "lh_block_nums h ! 0 = t" "t \<noteq> log_start l + 1" "t < 2 ^ 29" "disk c t \<noteq> None"
  shows "recover_from_log l c = None"
proof -
  let ?l = "l\<lparr>log_logheader := h\<rparr>" and ?a = "log_start l + 1"
  obtain c1 where 1: "read_head l c = Some (?l, c1)" "quiet c1" "disk c1 = disk c"
    and hl: "length (lh_block_nums h) = LOGSIZE"
    using read_head_ok[OF q f h(1,2)] by blast
  have a: "?a < 2 ^ 29" "disk c1 ?a \<noteq> None" using f(2) by (auto simp: log_fits_def 1)
  note k = quietD[OF 1(2)]
  obtain g c2 where 2: "bread ROOTDEV ?a c1 = Some (g, c2)" "bc_ok c2" "holds c2 g ?a" "refs c2 = (refs c1)(?a := refs c1 ?a + 1)"
    "content c2 = content c1" "disk c2 = disk c1"
    using bread_ok[OF k(1) a(2,1)] k(2,4) by (auto simp: in_use_def)
  have "{n. 0 < refs c2 n} = {?a}" by (auto simp: 2(4) k(2))
  then have u: "in_use c2 < NBUF" by (simp add: in_use_def)
  obtain g' c3 where 3: "bread ROOTDEV t c2 = Some (g', c3)" "bc_ok c3" "holds c3 g' t" "refs c3 = (refs c2)(t := refs c2 t + 1)"
    "content c3 = content c2" "disk c3 = disk c2" "holds c3 g ?a"
    using bread_ok[OF 2(2), of t] t k(2) u 2(3,4,6) 1(3) by auto
  have i: "bg_index g' \<noteq> bg_index g" using holds_distinct[OF 3(2,3,7) t(2)] .
  obtain d where d: "buf_get g c3 = Some d" "length d = BSIZE" using buf_get_ok[OF 3(2,7)] by auto
  obtain c4 where 4: "buf_put g' d c3 = Some c4" "bc_ok c4" "refs c4 = refs c3" "content c4 = (content c3)(t \<mapsto> d)" "holds c4 g' t"
    using buf_put_ok[OF 3(2,3) d(2)] 3(3) by blast
  have tr: "refs c4 t = 1" using t(2) by (simp add: 4 3 2 k(2))
  obtain c5 where 5: "bwrite t d c4 = Some c5" "bc_ok c5" "refs c5 = refs c4" "content c5 = content c4" "disk c5 = (disk c4)(t \<mapsto> d)" "holds c5 g' t"
    using bwrite_ok[OF 4(2) _ d(2) t(3)] tr 4(5) by auto
  have "content c5 t = disk c5 t" by (simp add: 5 4)
  then obtain c6 where 6: "bunpin g' c5 = Some c6" "bc_ok c6" "refs c6 = (refs c5)(t := refs c5 t - 1)"
    using bunpin_ok[OF 5(2,6)] by blast
  have "slot_of (bc_internal c6) t = Some (bg_index g')"
  proof -
    have s5: "slot_of (bc_internal c5) t = Some (bg_index g')" using 5(6) by (simp add: holds_def)
    obtain e where e: "cached (bc_internal c5) t = Some (1, e)" "length e = BSIZE" "buf_reference_count (buffers (bc_internal c5) ! bg_index g') = 1"
      "buf_data (buffers (bc_internal c5) ! bg_index g') = e" "bg_index g' < length (buffers (bc_internal c5))"
      using slot_cached[OF 5(2) s5] tr 5(3) by auto
    have "c6 = c5\<lparr>bc_internal := with_slot (bg_index g') 0 e (bc_internal c5)\<rparr>"
      using 6(1) e by (auto simp: bunpin_def panic_simps)
    then show ?thesis using with_slot_ok(3)[OF bc_okD(1)[OF 5(2)] s5 e(2), of 0] s5 by simp
  qed
  then have 7: "brelse g' c6 = None" by (rule release_unreferenced[OF 6(2)]) (simp add: 6 5 tr)
  have gb: "bg_block_number g' = t" using 3(3) by (simp add: holds_def)
  have ad: "add_u32 (log_start l) 0 = Some (log_start l)" "add_u32 (log_start l) 1 = Some ?a" using a by (simp_all add: add_u32_def)
  have dv: "log_dev l = ROOTDEV" using f(1) by (simp add: fresh_log_def)
  have "nth_chk (lh_block_nums h) 0 = Some t" using t(1) hl by (simp add: nth_chk_def)
  then have "install_from ?l 0 (Suc m) c1 = None" for m
    using 2(1) 3(1) i d(1) 4(1) 5(1) 6(1) 7 gb ad dv by simp
  then have "install_trans ?l c1 = None" using h(3) by (cases "lh_n h") (simp_all add: install_trans_def del: install_from.simps)
  then show ?thesis by (simp add: recover_from_log_def 1(1))
qed

section \<open>Capacity\<close>

inductive_cases log_stepE: "log_step (l, c, ops) (l', c', ops')"

lemma sum_list_remaining: "sum_list (map (\<lambda>w. MAXOPBLOCKS - w) ops) \<le> MAXOPBLOCKS * length ops"
  by (induction ops) auto

lemma sum_list_update1:
  "i < length ops \<Longrightarrow> ops ! i < MAXOPBLOCKS \<Longrightarrow>
   sum_list (map (\<lambda>w. MAXOPBLOCKS - w) (ops[i := ops ! i + 1])) + 1 = sum_list (map (\<lambda>w. MAXOPBLOCKS - w) ops)"
proof (induction ops arbitrary: i)
  case (Cons w ops)
  then show ?case by (cases i) auto
qed simp

lemma sum_list_drop1: "sum_list (map (\<lambda>w. MAXOPBLOCKS - w) (take i ops @ drop (Suc i) ops)) \<le> sum_list (map (\<lambda>w. MAXOPBLOCKS - w) ops)"
proof (induction ops arbitrary: i)
  case (Cons w ops)
  then show ?case by (cases i) auto
qed simp

lemma log_write_log:
  assumes "log_write g l c = Some (l', c')"
  shows "log_outstanding l' = log_outstanding l" "log_committing l' = log_committing l"
    "length (lh_block_nums (log_logheader l')) = length (lh_block_nums (log_logheader l))"
    "lh_n (log_logheader l') \<le> lh_n (log_logheader l) + 1"
  using assms by (auto simp: log_write_def Let_def panic_simps split: option.splits if_splits)

lemma end_op_log:
  assumes "end_op l c = Some (l', c')"
  shows "log_outstanding l' = log_outstanding l - 1 \<and> 1 \<le> log_outstanding l \<and> \<not> log_committing l' \<and>
    length (lh_block_nums (log_logheader l')) = length (lh_block_nums (log_logheader l)) \<and>
    lh_n (log_logheader l') \<le> lh_n (log_logheader l) \<and> (log_outstanding l = 1 \<longrightarrow> lh_n (log_logheader l') = 0)"
  using assms by (auto simp: end_op_def commit_def Let_def panic_simps split: if_splits)

lemma capacity_step:
  assumes "log_step s s'" "capacity_ok s"
  shows "capacity_ok s'"
  using assms
proof (cases rule: log_step.cases)
  case (step_begin l l' c ops)
  then have "l' = l\<lparr>log_outstanding := log_outstanding l + 1\<rparr>"
    "lh_n (log_logheader l) + (log_outstanding l + 1) * MAXOPBLOCKS \<le> LOGSIZE"
    by (auto simp: try_begin_op_def panic_simps split: if_splits)
  with step_begin(1,2) assms(2) sum_list_remaining[of ops] show ?thesis by (auto simp: capacity_ok_def)
next
  case (step_refused l l' c ops)
  then have "l' = l" by (auto simp: try_begin_op_def panic_simps split: if_splits)
  with step_refused(1,2) assms(2) show ?thesis by (simp add: capacity_ok_def)
next
  case (step_write i ops g l c l' c')
  have "\<forall>w \<in> set (ops[i := ops ! i + 1]). w \<le> MAXOPBLOCKS"
    using assms(2) step_write(1,4) set_update_subset_insert[of ops i "ops ! i + 1"] by (force simp: capacity_ok_def)
  with step_write(1,2) assms(2) log_write_log[OF step_write(5)] sum_list_update1[OF step_write(3,4)] show ?thesis
    by (auto simp: capacity_ok_def)
next
  case (step_end i ops l c l' c')
  have w: "\<forall>w \<in> set (take i ops @ drop (Suc i) ops). w \<le> MAXOPBLOCKS"
    using assms(2) step_end(1) by (auto simp: capacity_ok_def dest: in_set_takeD in_set_dropD)
  show ?thesis
    using step_end(1,2,3) assms(2) end_op_log[OF step_end(4)] sum_list_drop1[of i ops] w
    by (auto simp: capacity_ok_def)
next
  case (step_cache l c ops c')
  with assms(2) show ?thesis by (simp add: capacity_ok_def)
qed

lemma capacity_reachable: "log_step\<^sup>*\<^sup>* s s' \<Longrightarrow> capacity_ok s \<Longrightarrow> capacity_ok s'"
  by (induction rule: rtranclp_induct) (auto intro: capacity_step)

lemma capacity_write:
  assumes "capacity_ok (l, c, ops)" "i < length ops" "ops ! i < MAXOPBLOCKS"
  shows "lh_n (log_logheader l) < LOGSIZE" "1 \<le> log_outstanding l"
  using assms sum_list_update1[OF assms(2,3)] by (auto simp: capacity_ok_def)

lemma log_write_total:
  assumes "lh_n (log_logheader l) < LOGSIZE" "1 \<le> log_outstanding l" "length (lh_block_nums (log_logheader l)) = LOGSIZE"
    "bpin g c \<noteq> None"
  shows "log_write g l c \<noteq> None"
  using assms(4) by (auto simp: log_write_new[OF assms(1-3)] Let_def)

text \<open>When every buffer is referenced, a block that is not cannot be read.\<close>

lemma bread_full:
  assumes ok: "bc_ok c" and u: "in_use c = NBUF" and r: "refs c n = 0"
  shows "bread ROOTDEV n c = None"
proof -
  let ?i = "bc_internal c" and ?bs = "buffers (bc_internal c)"
  note k = bc_okD[OF ok] internal_lru[OF bc_okD(1)[OF ok]]
  let ?R = "{n. 0 < refs c n}" and ?B = "{j. j < NBUF \<and> 0 < buf_reference_count (?bs ! j)}"
  let ?f = "\<lambda>n. the (slot_of ?i n)"
  have sl: "\<exists>j. slot_of ?i m = Some j \<and> j < NBUF \<and> 0 < buf_reference_count (?bs ! j) \<and> buf_block_number (?bs ! j) = m" if "0 < refs c m" for m
  proof -
    obtain j where j: "slot_of ?i m = Some j" using referenced_slot[OF ok \<open>0 < refs c m\<close>] by blast
    with slot_cached[OF ok j] k(2,3) that show ?thesis by (auto simp: slot_of_cached has_key_def)
  qed
  have inj: "inj_on ?f ?R"
  proof (rule inj_onI)
    fix a b assume "a \<in> ?R" "b \<in> ?R" "?f a = ?f b"
    then show "a = b" using sl[of a] sl[of b] by auto
  qed
  have "?f ` ?R \<subseteq> ?B"
  proof
    fix x assume "x \<in> ?f ` ?R"
    then obtain m where "0 < refs c m" "x = ?f m" by auto
    with sl[of m] show "x \<in> ?B" by auto
  qed
  from card_inj_on_le[OF inj this] u have "NBUF \<le> card ?B" by (simp add: in_use_def)
  moreover have "?B \<subseteq> {..<NBUF}" by auto
  ultimately have "?B = {..<NBUF}" using card_seteq[of "{..<NBUF}" ?B] by simp
  then have all: "0 < buf_reference_count (?bs ! j)" if "j < NBUF" for j using that by blast
  have s: "slot_of ?i n = None"
  proof (cases "slot_of ?i n")
    case (Some j)
    with slot_cached[OF ok Some] all[of j] r k(3) show ?thesis by auto
  qed
  note l = lru_orderD[OF k(8)]
  have 1: "iter_find (has_key n) ?bs (head ?i) (length ?bs) = Some None"
    using iter_find_linked[OF l(6), of "has_key n"] find_order[OF k(2), of "lru ?i" n] s l k
    by (simp add: slot_of_def)
  have lk: "linked (nx ?bs) (pv ?bs) (lru ?i)" and pvh: "as_usize (buf_prev (?bs ! head ?i)) = last (lru ?i)"
    using l(3,4,6) linked_append[of "lru ?i" "[hd (lru ?i)]"] by (simp_all add: pv_def)
  have fn: "find (\<lambda>i. buf_reference_count (?bs ! i) = 0) (rev (lru ?i)) = None"
    using all k(6) by (auto simp: find_None_iff)
  have 2: "recycle ?bs (buf_prev (?bs ! head ?i)) NBUF = Some None"
    using recycle_linked[OF lk _ l(3) pvh] fn l(2) k(10) by simp
  have "bget ROOTDEV n ?i = None"
    using 1 2 by (cases "nth_chk ?bs (head ?i)") (auto simp: bget_def has_key_def[abs_def] nth_chk_def split: if_splits)
  then show ?thesis by (simp add: bread_def)
qed

lemma commit_full:
  assumes i: "log_inv (\<lambda>_. 0) l c" and n: "lh_n (log_logheader l) = LOGSIZE"
  shows "commit l c = None"
proof -
  note k = log_invD[OF i]
  have t: "0 < lh_n (log_logheader l)" using n by simp
  note p = log_placedD[OF k(2) t]
  have "{m. 0 < refs c m} = set (logged l)" by (auto simp: k(5) split: if_splits)
  moreover have "distinct (logged l)" using k(2) by (simp add: log_placed_def)
  ultimately have u: "in_use c = NBUF"
    using distinct_card[of "logged l"] logged_length[OF k(4)] n by (simp add: in_use_def)
  have "refs c (log_block l 0) = 0" using p(1) k(2) by (auto simp: k(5) log_placed_def)
  from bread_full[OF k(1) u this] have b: "bread ROOTDEV (log_start l + 1) c = None" by simp
  have dv: "log_dev l = ROOTDEV" using k(2) by (simp add: log_placed_def)
  have "write_log_from l 0 (Suc m) c = None" for m
    using b p(7,8) dv by simp
  then have "write_log l c = None"
    using t by (cases "lh_n (log_logheader l)") (simp_all add: write_log_def del: write_log_from.simps)
  then show ?thesis using t by (simp add: commit_def)
qed

section \<open>A concrete disk\<close>

lemma from_le_u32_zero: "4 \<le> n \<Longrightarrow> from_le_u32 (replicate n 0) = Some 0"
  by (simp add: from_le_u32_def)

lemma read_zero: "off + 4 \<le> n \<Longrightarrow> read_u32_at (replicate n 0) off = Some 0"
  by (simp add: read_u32_at_def slice_chk_def from_le_u32_zero)

lemma read_u32s_const:
  "(\<And>i. i < k \<Longrightarrow> read_u32_at b (off + 4 * i) = Some v) \<Longrightarrow> read_u32s b off k = Some (replicate k v)"
proof (induction k arbitrary: off)
  case (Suc k)
  have "read_u32_at b (off + 4 + 4 * i) = Some v" if "i < k" for i
    using Suc.prems[of "Suc i"] that by (simp add: add.assoc)
  from Suc.IH[OF this] Suc.prems[of 0] show ?case by simp
qed simp

lemma read_zeros: "off + 4 * k \<le> n \<Longrightarrow> read_u32s (replicate n 0) off k = Some (replicate k 0)"
  by (rule read_u32s_const) (simp add: read_zero)

lemma zero_header: "decode_header (replicate BSIZE 0) = Some blank_header"
  by (simp add: decode_header_def from_buffer_block_def blank_header_def read_zero read_zeros)

lemma zero_superblock:
  "superblock_from_bytes (replicate BSIZE 0) =
     Some \<lparr>sb_size = 0, sb_nblocks = 0, sb_ninodes = 0, sb_nlog = 0, sb_logstart = 0, sb_inodestart = 0, sb_bmapstart = 0\<rparr>"
  by (simp add: superblock_from_bytes_def read_zero)

lemma zero_disk_block: "n < 64 \<Longrightarrow> disk_block zero_disk n = Some (replicate BSIZE 0)"
  by (simp add: disk_block_def membdev_read_def slice_chk_def zero_disk_def Let_def)

lemma zero_fsinit:
  obtains s where "fsinit ROOTDEV zero_disk = Some s" "log_inv (\<lambda>_. 0) (d_log s) (d_bc s)" "log_start (d_log s) = 0"
    "log_outstanding (d_log s) = 0" "\<not> log_committing (d_log s)" "logged (d_log s) = []"
    "\<forall>m. m \<noteq> 0 \<longrightarrow> content (d_bc s) m = disk_block zero_disk m"
  using fsinit_ok[OF zero_disk_block[of 1] zero_superblock, of "replicate BSIZE 0" blank_header] zero_header
  by (auto simp: zero_disk_block log_fits_def blank_header_def)

lemma zero_logged:
  "k \<le> LOGSIZE \<Longrightarrow> length d = BSIZE \<Longrightarrow> \<exists>l c. log_inv (\<lambda>_. 0) l c \<and> logged l = [31..<31 + k] \<and> log_start l = 0 \<and> log_outstanding l = 1 \<and>
     \<not> log_committing l \<and> (\<forall>m \<in> {31..<31 + k}. content c m = Some d) \<and>
     (\<forall>m \<in> {31..<64}. disk c m = Some (replicate BSIZE 0))"
proof (induction k)
  case 0
  obtain s where "fsinit ROOTDEV zero_disk = Some s" and s: "log_inv (\<lambda>_. 0) (d_log s) (d_bc s)" "log_start (d_log s) = 0"
    "log_outstanding (d_log s) = 0" "\<not> log_committing (d_log s)" "logged (d_log s) = []"
    "\<forall>m. m \<noteq> 0 \<longrightarrow> content (d_bc s) m = disk_block zero_disk m"
    by (rule zero_fsinit)
  let ?l = "(d_log s)\<lparr>log_outstanding := 1\<rparr>"
  have "log_inv (\<lambda>_. 0) ?l (d_bc s)"
    using s(1) log_inv_cong[of ?l "d_log s"] by simp
  moreover have "disk (d_bc s) m = Some (replicate BSIZE 0)" if "m \<in> {31..<64}" for m
    using log_invD(6)[OF s(1), of m] s(5,6) that zero_disk_block[of m] by simp
  ultimately show ?case using s by (intro exI[of _ ?l] exI[of _ "d_bc s"]) (simp add: logged_def)
next
  case (Suc k)
  then obtain l c where i: "log_inv (\<lambda>_. 0) l c" "logged l = [31..<31 + k]" "log_start l = 0" "log_outstanding l = 1"
    "\<not> log_committing l" "\<forall>m \<in> {31..<31 + k}. content c m = Some d"
    "\<forall>m \<in> {31..<64}. disk c m = Some (replicate BSIZE 0)" by auto
  have n: "lh_n (log_logheader l) = k" using logged_length[OF log_invD(4)[OF i(1)]] i(2) by simp
  let ?b = "31 + k"
  have b: "?b < 2 ^ 29" "disk c ?b \<noteq> None" "?b \<notin> log_region l" using Suc.prems i(3,7) by (auto simp: log_region_def)
  obtain g c1 where 1: "log_inv ((\<lambda>_. 0)(?b := 1)) l c1" "holds c1 g ?b" "content c1 = content c" "disk c1 = disk c"
    using log_inv_bread[OF i(1) b(2,1)] n Suc.prems by auto
  obtain l' c2 where 2: "log_inv ((\<lambda>_. 0)(?b := 1)) l' c2" "content c2 = (content c1)(?b \<mapsto> d)" "disk c2 = disk c1"
    "logged l' = logged l @ [?b]" "log_start l' = log_start l" "log_outstanding l' = log_outstanding l"
    "log_committing l' = log_committing l" "holds c2 g ?b"
    using log_inv_update[OF 1(1,2) Suc.prems(2)] b n Suc.prems i(2,4) 1(2) by auto
  obtain c3 where 3: "log_inv (((\<lambda>_. 0)(?b := 1))(?b := 0)) l' c3" "content c3 = content c2" "disk c3 = disk c2"
    using log_inv_brelse[OF 2(1,8)] by auto
  have "((\<lambda>_. 0)(?b := 1))(?b := 0) = (\<lambda>_. 0 :: nat)" by auto
  moreover have "[31..<31 + Suc k] = [31..<31 + k] @ [31 + k]" by (simp only: add_Suc_right upt_Suc_append le_add1)
  moreover have "{31..<31 + Suc k} = insert (31 + k) {31..<31 + k}" by auto
  ultimately show ?case unfolding \<open>[31..<31 + Suc k] = _\<close> \<open>{31..<31 + Suc k} = _\<close>
    using 1 2 3 i by (intro exI[of _ l'] exI[of _ c3]) auto
qed

lemma committed_header:
  "\<exists>h. disk_block committed_disk 0 \<bind> decode_header = Some h \<and> lh_n h = 1 \<and> lh_block_nums h ! 0 = 35"
proof -
  let ?b = "[1, 0, 0, 0, 35, 0, 0, 0] @ replicate 4088 (0 :: u8)"
  have d: "disk_block committed_disk 0 = Some ?b"
    by (simp add: disk_block_def membdev_read_def slice_chk_def committed_disk_def Let_def take_Cons')
  have r: "read_u32_at ?b 0 = Some 1" "read_u32_at ?b 4 = Some 35"
    by (simp_all add: read_u32_at_def slice_chk_def from_le_u32_def take_Cons' drop_Cons')
  have "drop (8 + off) (xs @ replicate 4088 (0 :: u8)) = replicate (4088 - off) 0" if "length xs = 8" for xs off
    using that by simp
  then have dr: "drop (8 + off) ?b = replicate (4088 - off) 0" for off by (simp del: append_Cons append_Nil)
  have z: "read_u32_at ?b (8 + off) = Some 0" if "off + 4 \<le> 4088" for off
    using that unfolding read_u32_at_def slice_chk_def dr by (simp add: from_le_u32_zero)
  have "read_u32s ?b 8 29 = Some (replicate 29 0)" by (rule read_u32s_const) (use z in auto)
  then have "read_u32s ?b 4 (Suc 29) = Some (35 # replicate 29 0)"
    unfolding read_u32s.simps r(2) by simp
  then have "read_u32s ?b 4 LOGSIZE = Some (35 # replicate 29 0)" by (simp only: Suc_numeral semiring_norm)
  with d r(1) show ?thesis by (simp add: decode_header_def from_buffer_block_def blank_header_def)
qed

lemma committed_disk_block: "n < 64 \<Longrightarrow> disk_block committed_disk n \<noteq> None"
  by (simp add: disk_block_def membdev_read_def slice_chk_def committed_disk_def Let_def)

section \<open>Properties\<close>





text \<open>C14.  Mounting a disk whose log is empty succeeds: the super block is the one on the disk, the
  log is empty and its invariant holds, and no block but the log's header is touched.\<close>

theorem fsinit_clean_disk:
  assumes "disk_block dev 1 = Some b" "superblock_from_bytes b = Some sb" "log_fits (sb_logstart sb) (disk_block dev)"
    "disk_block dev (sb_logstart sb) = Some hb" "decode_header hb = Some h" "lh_n h = 0"
  shows "\<exists>s. fsinit ROOTDEV dev = Some s \<and> d_sb s = sb \<and> log_inv (\<lambda>_. 0) (d_log s) (d_bc s) \<and>
    log_start (d_log s) = sb_logstart sb \<and> log_outstanding (d_log s) = 0 \<and> logged (d_log s) = [] \<and>
    (\<forall>m. m \<noteq> sb_logstart sb \<longrightarrow> content (d_bc s) m = disk_block dev m)"
  using fsinit_ok[OF assms] by blast

lemma fsinit_clean_disk_witness:
  "\<exists>s. fsinit ROOTDEV zero_disk = Some s \<and> log_inv (\<lambda>_. 0) (d_log s) (d_bc s) \<and>
     content (d_bc s) 40 = Some (replicate BSIZE 0)"
  using fsinit_clean_disk[OF zero_disk_block[of 1] zero_superblock, of "replicate BSIZE 0" blank_header] zero_header
  by (auto simp: zero_disk_block log_fits_def blank_header_def)

text \<open>C5.  Whatever the interleaving of operations, as long as each writes at most \<open>MAXOPBLOCKS\<close>
  blocks no write finds the transaction too big: the log admits at most three operations, and
  \<open>log_write\<close> returns whenever the buffer can be pinned.\<close>

theorem log_never_overflows:
  assumes "log_step\<^sup>*\<^sup>* (l0, c0, []) (l, c, ops)" "log_outstanding l0 = 0" "\<not> log_committing l0"
    "lh_n (log_logheader l0) = 0" "length (lh_block_nums (log_logheader l0)) = LOGSIZE"
    "i < length ops" "ops ! i < MAXOPBLOCKS" "bpin g c \<noteq> None"
  shows "log_write g l c \<noteq> None \<and> lh_n (log_logheader l) < LOGSIZE \<and> log_outstanding l = length ops"
proof -
  have k: "capacity_ok (l, c, ops)" by (rule capacity_reachable[OF assms(1)]) (simp add: capacity_ok_def assms)
  note w = capacity_write[OF k assms(6,7)]
  have "length (lh_block_nums (log_logheader l)) = LOGSIZE" "log_outstanding l = length ops"
    using k by (simp_all add: capacity_ok_def)
  with log_write_total[OF w(1,2) _ assms(8)] w show ?thesis by simp
qed

lemma log_never_overflows_witness:
  "\<exists>g l c. log_write g (l\<lparr>log_outstanding := 1\<rparr>) c \<noteq> None \<and> try_begin_op l = Some (True, l\<lparr>log_outstanding := 1\<rparr>)"
proof -
  obtain s where "fsinit ROOTDEV zero_disk = Some s" and s: "log_inv (\<lambda>_. 0) (d_log s) (d_bc s)" "log_start (d_log s) = 0"
    "log_outstanding (d_log s) = 0" "\<not> log_committing (d_log s)" "logged (d_log s) = []"
    "\<forall>m. m \<noteq> 0 \<longrightarrow> content (d_bc s) m = disk_block zero_disk m"
    by (rule zero_fsinit)
  let ?l = "d_log s"
  have h: "header_ok (log_logheader ?l)" by (rule log_invD(4)[OF s(1)])
  have n: "lh_n (log_logheader ?l) = 0" using logged_length[OF h] s(5) by simp
  have t: "try_begin_op ?l = Some (True, ?l\<lparr>log_outstanding := 1\<rparr>)"
    using s(3,4) n by (simp add: try_begin_op_def add_u32_def mul_u32_def)
  have "disk (d_bc s) 40 = content (d_bc s) 40" using log_invD(6)[OF s(1), of 40] s(5) by simp
  also have "... = Some (replicate BSIZE 0)" using s(6) zero_disk_block[of 40] by simp
  finally obtain g c1 where r: "log_inv ((\<lambda>_. 0)(40 := 1)) ?l c1" "holds c1 g 40"
    using log_inv_bread[OF s(1), of 40] n by auto
  have p: "bpin g c1 \<noteq> None" using bpin_ok[OF log_invD(1)[OF r(1)] r(2) log_invD(9)[OF r(1)]] by auto
  have st: "log_step\<^sup>*\<^sup>* (?l, d_bc s, []) (?l\<lparr>log_outstanding := 1\<rparr>, c1, [0])"
    using step_begin[OF t, of c1 "[]"] step_cache[of ?l "d_bc s" "[]" c1] by (meson r_into_rtranclp rtranclp.rtrancl_into_rtrancl)
  have "log_write g (?l\<lparr>log_outstanding := 1\<rparr>) c1 \<noteq> None"
    using log_never_overflows[OF st s(3,4) n _ _ _ p, of 0] h by (simp add: header_ok_def)
  with t show ?thesis by blast
qed

text \<open>C15.  Recovery of a disk with a committed but uninstalled transaction panics in a build that
  checks arithmetic: \<open>install_trans\<close> unpins a block that recovery never pinned, so the drop of the
  block's guard takes one from a reference count of zero.\<close>

theorem recovery_underflows:
  assumes "quiet c" "fresh_log l" "log_fits (log_start l) (disk c)" "disk c (log_start l) = Some b"
    "decode_header b = Some h" "0 < lh_n h" "lh_n h \<le> LOGSIZE" "lh_block_nums h ! 0 = t" "t \<noteq> log_start l + 1"
    "t < 2 ^ 29" "disk c t \<noteq> None"
  shows "recover_from_log l c = None"
  by (rule recovery_panic[OF assms])

lemma recovery_underflows_witness:
  "recover_from_log \<lparr>log_start = 0, log_size = 31, log_outstanding = 0, log_committing = False, log_dev = ROOTDEV,
     log_logheader = blank_header\<rparr> (BufferCache_new committed_disk) = None"
proof -
  obtain b h where h: "disk_block committed_disk 0 = Some b" "decode_header b = Some h" "lh_n h = 1" "lh_block_nums h ! 0 = 35"
    using committed_header by (auto simp: bind_eq_Some_conv)
  have "quiet (BufferCache_new committed_disk)" using new_ok by (simp add: quiet_def)
  from recovery_underflows[OF this, of _ b h 35] h show ?thesis
    using committed_disk_block by (auto simp: fresh_log_def blank_header_def log_fits_def new_ok)
qed

text \<open>The log may fill up with as many blocks as the cache has buffers; committing such a
  transaction panics, because no buffer is left for the log's own block.\<close>

theorem commit_full_log_panics:
  assumes "log_inv (\<lambda>_. 0) l c" "lh_n (log_logheader l) = LOGSIZE"
  shows "commit l c = None"
  by (rule commit_full[OF assms])

lemma commit_full_log_panics_witness:
  "\<exists>l c. log_inv (\<lambda>_. 0) l c \<and> lh_n (log_logheader l) = LOGSIZE \<and> commit l c = None"
proof -
  obtain l c where i: "log_inv (\<lambda>_. 0) l c" "logged l = [31..<31 + LOGSIZE]" using zero_logged[of LOGSIZE "replicate BSIZE 9"] by auto
  have n: "lh_n (log_logheader l) = LOGSIZE" using logged_length[OF log_invD(4)[OF i(1)]] i(2) by simp
  from commit_full_log_panics[OF i(1) n] n i(1) show ?thesis by blast
qed

end
