(* ===== verification/Fsblock.thy ===== *)
theory Fsblock
  imports Fslog_Spec
begin

text \<open>
  The block allocator of the xv6 file system,
  \<^verbatim>\<open>src/domains/usr/xv6/kernel/fs/src/block.rs\<close>: a bitmap on the disk, changed through the log.
\<close>

abbreviation BPB :: nat where "BPB \<equiv> 32768"

text \<open>The buffer operations on the state of the mounted file system.\<close>

definition ds_bread :: "nat \<Rightarrow> nat \<Rightarrow> dstate \<Rightarrow> (buffer_guard \<times> dstate) option" where
  "ds_bread device n s = do { (g, c) \<leftarrow> bread device n (d_bc s); Some (g, s\<lparr>d_bc := c\<rparr>) }"

definition ds_get :: "buffer_guard \<Rightarrow> dstate \<Rightarrow> bytes option" where
  "ds_get g s = buf_get g (d_bc s)"

definition ds_put :: "buffer_guard \<Rightarrow> bytes \<Rightarrow> dstate \<Rightarrow> dstate option" where
  "ds_put g d s = do { c \<leftarrow> buf_put g d (d_bc s); Some (s\<lparr>d_bc := c\<rparr>) }"

definition ds_brelse :: "buffer_guard \<Rightarrow> dstate \<Rightarrow> dstate option" where
  "ds_brelse g s = do { c \<leftarrow> brelse g (d_bc s); Some (s\<lparr>d_bc := c\<rparr>) }"

definition block_to_bitmap_block :: "nat \<Rightarrow> super_block \<Rightarrow> nat option" where
  "block_to_bitmap_block block_number sb = add_u32 (block_number div BPB) (sb_bmapstart sb)"

definition bit_mask :: "nat \<Rightarrow> u8" where
  "bit_mask bi = push_bit (bi mod 8) 1"

definition block_free :: "nat \<Rightarrow> nat \<Rightarrow> dstate \<Rightarrow> dstate option" where
  "block_free device block s =
     do { bb \<leftarrow> block_to_bitmap_block block (d_sb s);
          (bguard, s) \<leftarrow> ds_bread device bb s;
          buffer \<leftarrow> ds_get bguard s;
          let bi = block mod BPB;
          let m = bit_mask bi;
          x \<leftarrow> nth_chk buffer (bi div 8);
          assert_that (x AND m \<noteq> 0);
          s \<leftarrow> ds_put bguard (buffer[bi div 8 := x AND NOT m]) s;
          s \<leftarrow> trans_write bguard s;
          ds_brelse bguard s }"

definition block_zero :: "nat \<Rightarrow> nat \<Rightarrow> dstate \<Rightarrow> dstate option" where
  "block_zero device block_number s =
     do { (bguard, s) \<leftarrow> ds_bread device block_number s;
          buffer \<leftarrow> ds_get bguard s;
          s \<leftarrow> ds_put bguard (map (\<lambda>v. 0) buffer) s;
          s \<leftarrow> trans_write bguard s;
          ds_brelse bguard s }"

text \<open>The inner loop of \<open>alloc\<close>, with \<open>k\<close> bits of the block left: the first clear bit.\<close>

fun scan_bitmap :: "bytes \<Rightarrow> nat \<Rightarrow> nat \<Rightarrow> nat \<Rightarrow> nat \<Rightarrow> nat option option" where
  "scan_bitmap buffer b sz bi 0 = Some None"
| "scan_bitmap buffer b sz bi (Suc k) =
     do { t \<leftarrow> add_u32 b bi;
          if t < sz then
            do { x \<leftarrow> nth_chk buffer (bi div 8);
                 if x AND bit_mask bi = 0 then Some (Some bi)
                 else scan_bitmap buffer b sz (bi + 1) k }
          else Some None }"

text \<open>The outer loop, over the first blocks covered by the bitmap blocks still to be tried.\<close>

fun alloc_from :: "nat \<Rightarrow> nat list \<Rightarrow> dstate \<Rightarrow> (nat option \<times> dstate) option" where
  "alloc_from device [] s = Some (None, s)"
| "alloc_from device (b # bs) s =
     do { bb \<leftarrow> block_to_bitmap_block b (d_sb s);
          (bguard, s) \<leftarrow> ds_bread device bb s;
          buffer \<leftarrow> ds_get bguard s;
          found \<leftarrow> scan_bitmap buffer b (sb_size (d_sb s)) 0 BPB;
          case found of
            Some bi \<Rightarrow>
              do { s \<leftarrow> ds_put bguard (buffer[bi div 8 := (buffer ! (bi div 8)) OR bit_mask bi]) s;
                   s \<leftarrow> trans_write bguard s;
                   n \<leftarrow> add_u32 b bi;
                   s \<leftarrow> block_zero device n s;
                   s \<leftarrow> ds_brelse bguard s;
                   Some (Some n, s) }
          | None \<Rightarrow>
              do { s \<leftarrow> ds_brelse bguard s;
                   alloc_from device bs s } }"

definition block_alloc :: "nat \<Rightarrow> dstate \<Rightarrow> (nat option \<times> dstate) option" where
  "block_alloc device s =
     alloc_from device (map (\<lambda>k. k * BPB) [0..<(sb_size (d_sb s) + BPB - 1) div BPB]) s"

section \<open>Invariants and the abstract bitmap\<close>

definition ds_inv :: "(nat \<Rightarrow> nat) \<Rightarrow> dstate \<Rightarrow> bool" where
  "ds_inv H s \<longleftrightarrow> log_inv H (d_log s) (d_bc s) \<and> log_start (d_log s) = sb_logstart (d_sb s) \<and>
     1 \<le> log_outstanding (d_log s) \<and> \<not> log_committing (d_log s)"

abbreviation nlog :: "dstate \<Rightarrow> nat" where
  "nlog s \<equiv> lh_n (log_logheader (d_log s))"

abbreviation fcont :: "dstate \<Rightarrow> nat \<Rightarrow> bytes option" where
  "fcont s \<equiv> content (d_bc s)"

text \<open>The part of the state no operation inside a transaction changes.\<close>

definition ds_frame :: "dstate \<Rightarrow> dstate \<Rightarrow> bool" where
  "ds_frame s s' \<longleftrightarrow> d_sb s' = d_sb s \<and> disk (d_bc s') = disk (d_bc s) \<and>
     log_start (d_log s') = log_start (d_log s) \<and> log_outstanding (d_log s') = log_outstanding (d_log s)"

definition keeps :: "(nat \<Rightarrow> bool) \<Rightarrow> dstate \<Rightarrow> dstate \<Rightarrow> bool" where
  "keeps P s s' \<longleftrightarrow> (\<forall>g m. P m \<longrightarrow> holds (d_bc s) g m \<longrightarrow> holds (d_bc s') g m)"

definition bm_bit :: "bytes \<Rightarrow> nat \<Rightarrow> bool" where
  "bm_bit d bi \<longleftrightarrow> bit (d ! (bi div 8)) (bi mod 8)"

definition bitmap_block :: "super_block \<Rightarrow> nat \<Rightarrow> nat" where
  "bitmap_block sb n = sb_bmapstart sb + n div BPB"

definition allocated :: "dstate \<Rightarrow> nat \<Rightarrow> bool" where
  "allocated s n = (case fcont s (bitmap_block (d_sb s) n) of None \<Rightarrow> False | Some d \<Rightarrow> bm_bit d (n mod BPB))"

text \<open>Bitmap blocks are on the disk and outside the log, and a block that is free is a data block.\<close>

definition bitmap_ok :: "dstate \<Rightarrow> bool" where
  "bitmap_ok s \<longleftrightarrow> sb_size (d_sb s) < 2 ^ 32 \<and>
     (\<forall>n < sb_size (d_sb s). bitmap_block (d_sb s) n < 2 ^ 29 \<and> bitmap_block (d_sb s) n \<notin> log_region (d_log s) \<and>
        disk (d_bc s) (bitmap_block (d_sb s) n) \<noteq> None) \<and>
     (\<forall>n < sb_size (d_sb s). \<not> allocated s n \<longrightarrow> n < 2 ^ 29 \<and> n \<notin> log_region (d_log s) \<and> disk (d_bc s) n \<noteq> None \<and>
        n \<notin> bitmap_block (d_sb s) ` {..<sb_size (d_sb s)})"

definition alloc_result :: "dstate \<Rightarrow> nat option \<Rightarrow> dstate \<Rightarrow> bool" where
  "alloc_result s r s' = (case r of
     None \<Rightarrow> fcont s' = fcont s
   | Some n \<Rightarrow> n < sb_size (d_sb s) \<and> \<not> allocated s n \<and> (\<forall>m < sb_size (d_sb s). allocated s' m \<longleftrightarrow> m = n \<or> allocated s m) \<and>
       fcont s' n = Some (replicate BSIZE 0) \<and>
       (\<forall>b. b \<noteq> n \<longrightarrow> b \<noteq> bitmap_block (d_sb s) n \<longrightarrow> fcont s' b = fcont s b))"

definition room_for :: "nat \<Rightarrow> (nat \<Rightarrow> nat) \<Rightarrow> dstate \<Rightarrow> bool" where
  "room_for k H s \<longleftrightarrow> nlog s + k \<le> LOGSIZE \<and> nlog s + card {n. 0 < H n} + k < NBUF \<and> (\<forall>n. H n + k < 2 ^ 30)"

section \<open>The mounted file system inside a transaction\<close>

lemma ds_frame_refl [simp]: "ds_frame s s"
  by (simp add: ds_frame_def)

lemma ds_frame_trans [trans]: "ds_frame s s' \<Longrightarrow> ds_frame s' s'' \<Longrightarrow> ds_frame s s''"
  by (simp add: ds_frame_def)

lemma ds_frameD: "ds_frame s s' \<Longrightarrow> d_sb s' = d_sb s" "ds_frame s s' \<Longrightarrow> disk (d_bc s') = disk (d_bc s)"
  "ds_frame s s' \<Longrightarrow> log_region (d_log s') = log_region (d_log s)"
  by (simp_all add: ds_frame_def log_region_def)

lemma keepsD: "keeps P s s' \<Longrightarrow> P m \<Longrightarrow> holds (d_bc s) g m \<Longrightarrow> holds (d_bc s') g m"
  by (simp add: keeps_def)

lemma keeps_trans: "keeps P s s' \<Longrightarrow> keeps Q s' s'' \<Longrightarrow> (\<And>m. R m \<Longrightarrow> P m \<and> Q m) \<Longrightarrow> keeps R s s''"
  unfolding keeps_def by blast

lemma ds_invD:
  assumes "ds_inv H s"
  shows "log_inv H (d_log s) (d_bc s)" "bc_ok (d_bc s)" "1 \<le> log_outstanding (d_log s)"
    "log_start (d_log s) = sb_logstart (d_sb s)" "length (logged (d_log s)) = nlog s"
    "m \<notin> set (logged (d_log s)) \<Longrightarrow> fcont s m = disk (d_bc s) m"
  using assms log_invD[of H "d_log s" "d_bc s"] by (auto simp: ds_inv_def logged_length)

lemma ds_bread_ok:
  assumes i: "ds_inv H s" and b: "disk (d_bc s) b \<noteq> None" "b < 2 ^ 29" "H b + 1 < 2 ^ 30"
    and u: "nlog s + card {n. 0 < H n} < NBUF"
  shows "\<exists>g s'. ds_bread ROOTDEV b s = Some (g, s') \<and> ds_inv (H(b := H b + 1)) s' \<and> holds (d_bc s') g b \<and>
    fcont s' = fcont s \<and> d_log s' = d_log s \<and> ds_frame s s' \<and> keeps (\<lambda>_. True) s s'"
proof -
  obtain g c where "bread ROOTDEV b (d_bc s) = Some (g, c)" "log_inv (H(b := H b + 1)) (d_log s) c" "holds c g b"
    "content c = fcont s" "disk c = disk (d_bc s)" "\<forall>g' m. holds (d_bc s) g' m \<longrightarrow> holds c g' m"
    using log_inv_bread[OF ds_invD(1)[OF i] b u] by blast
  then show ?thesis using i by (simp add: ds_bread_def ds_inv_def ds_frame_def keeps_def)
qed

lemma ds_get_ok:
  assumes "ds_inv H s" "holds (d_bc s) g b"
  shows "\<exists>d. ds_get g s = Some d \<and> fcont s b = Some d \<and> length d = BSIZE"
  using buf_get_ok[OF ds_invD(2)[OF assms(1)] assms(2)] by (auto simp: ds_get_def)

lemma ds_brelse_ok:
  assumes i: "ds_inv H s" and h: "holds (d_bc s) g b" and H: "0 < H b"
  shows "\<exists>s'. ds_brelse g s = Some s' \<and> ds_inv (H(b := H b - 1)) s' \<and> fcont s' = fcont s \<and> d_log s' = d_log s \<and>
    ds_frame s s' \<and> keeps (\<lambda>m. m \<noteq> b \<or> 1 < H b) s s'"
proof -
  obtain c where "brelse g (d_bc s) = Some c" "log_inv (H(b := H b - 1)) (d_log s) c" "content c = fcont s"
    "disk c = disk (d_bc s)" "\<forall>g' m. holds (d_bc s) g' m \<longrightarrow> m \<noteq> b \<or> 1 < H b \<longrightarrow> holds c g' m"
    using log_inv_brelse[OF ds_invD(1)[OF i] h H] by blast
  then show ?thesis using i by (simp add: ds_brelse_def ds_inv_def ds_frame_def keeps_def)
qed

lemma ds_update_ok:
  assumes i: "ds_inv H s" and h: "holds (d_bc s) g b" and d: "length d = BSIZE" and H: "0 < H b"
    and b: "b \<notin> log_region (d_log s)" "b < 2 ^ 29" and n: "nlog s < LOGSIZE"
  shows "\<exists>s1 s'. ds_put g d s = Some s1 \<and> trans_write g s1 = Some s' \<and> ds_inv H s' \<and>
    fcont s' = (fcont s)(b \<mapsto> d) \<and> nlog s' \<le> nlog s + 1 \<and>
    logged (d_log s') = (if b \<in> set (logged (d_log s)) then logged (d_log s) else logged (d_log s) @ [b]) \<and>
    ds_frame s s' \<and> keeps (\<lambda>_. True) s s'"
proof -
  obtain l' c1 c' where r: "buf_put g d (d_bc s) = Some c1" "log_write g (d_log s) c1 = Some (l', c')" "log_inv H l' c'"
    "content c' = (fcont s)(b \<mapsto> d)" "disk c' = disk (d_bc s)"
    "logged l' = (if b \<in> set (logged (d_log s)) then logged (d_log s) else logged (d_log s) @ [b])"
    "log_start l' = log_start (d_log s)" "log_outstanding l' = log_outstanding (d_log s)"
    "log_committing l' = log_committing (d_log s)" "\<forall>g' m. holds (d_bc s) g' m \<longrightarrow> holds c' g' m"
    using log_inv_update[OF ds_invD(1)[OF i] h d H b n ds_invD(3)[OF i]] by blast
  have "lh_n (log_logheader l') = length (logged l')" using logged_length[OF log_invD(4)[OF r(3)]] by simp
  also have "... \<le> nlog s + 1" using r(6) ds_invD(5)[OF i] by simp
  finally show ?thesis
    using r i by (simp add: ds_put_def trans_write_def ds_inv_def ds_frame_def keeps_def)
qed

text \<open>A block is read, replaced and logged, and its buffer released.\<close>

lemma ds_rewrite_ok:
  assumes i: "ds_inv H s" and b: "disk (d_bc s) b \<noteq> None" "b < 2 ^ 29" "H b + 1 < 2 ^ 30" "b \<notin> log_region (d_log s)"
    and u: "nlog s + card {n. 0 < H n} < NBUF" and n: "nlog s < LOGSIZE"
  shows "\<exists>g s1 d. ds_bread ROOTDEV b s = Some (g, s1) \<and> ds_get g s1 = Some d \<and> fcont s b = Some d \<and> length d = BSIZE \<and>
    d_sb s1 = d_sb s \<and>
    (\<forall>d'. length d' = BSIZE \<longrightarrow> (\<exists>s2 s3 s'. ds_put g d' s1 = Some s2 \<and> trans_write g s2 = Some s3 \<and> ds_brelse g s3 = Some s' \<and>
       ds_inv H s' \<and> fcont s' = (fcont s)(b \<mapsto> d') \<and> nlog s' \<le> nlog s + 1 \<and>
       set (logged (d_log s')) = insert b (set (logged (d_log s))) \<and> ds_frame s s' \<and> keeps (\<lambda>m. m \<noteq> b \<or> 0 < H b) s s'))"
proof -
  obtain g s1 where 1: "ds_bread ROOTDEV b s = Some (g, s1)" "ds_inv (H(b := H b + 1)) s1" "holds (d_bc s1) g b"
    "fcont s1 = fcont s" "d_log s1 = d_log s" "ds_frame s s1" "keeps (\<lambda>_. True) s s1"
    using ds_bread_ok[OF i b(1-3) u] by blast
  obtain d where d: "ds_get g s1 = Some d" "fcont s b = Some d" "length d = BSIZE"
    using ds_get_ok[OF 1(2,3)] 1(4) by auto
  have "\<exists>s2 s3 s'. ds_put g d' s1 = Some s2 \<and> trans_write g s2 = Some s3 \<and> ds_brelse g s3 = Some s' \<and>
       ds_inv H s' \<and> fcont s' = (fcont s)(b \<mapsto> d') \<and> nlog s' \<le> nlog s + 1 \<and>
       set (logged (d_log s')) = insert b (set (logged (d_log s))) \<and> ds_frame s s' \<and> keeps (\<lambda>m. m \<noteq> b \<or> 0 < H b) s s'"
    if l: "length d' = BSIZE" for d'
  proof -
    obtain s2 s3 where 3: "ds_put g d' s1 = Some s2" "trans_write g s2 = Some s3" "ds_inv (H(b := H b + 1)) s3"
      "fcont s3 = (fcont s1)(b \<mapsto> d')" "nlog s3 \<le> nlog s1 + 1"
      "logged (d_log s3) = (if b \<in> set (logged (d_log s1)) then logged (d_log s1) else logged (d_log s1) @ [b])"
      "ds_frame s1 s3" "keeps (\<lambda>_. True) s1 s3"
      using ds_update_ok[OF 1(2,3) l] b n 1(5) by auto
    have h3: "holds (d_bc s3) g b" using keepsD[OF 3(8) _ 1(3)] by simp
    obtain s' where 4: "ds_brelse g s3 = Some s'" "ds_inv ((H(b := H b + 1))(b := H b)) s'" "fcont s' = fcont s3" "d_log s' = d_log s3"
      "ds_frame s3 s'" "keeps (\<lambda>m. m \<noteq> b \<or> 0 < H b) s3 s'"
      using ds_brelse_ok[OF 3(3) h3] by auto
    have "(H(b := H b + 1))(b := H b) = H" by simp
    moreover have "keeps (\<lambda>m. m \<noteq> b \<or> 0 < H b) s s'" using 1(7) 3(8) 4(6) by (simp add: keeps_def)
    moreover have "ds_frame s s'" using 1(6) 3(7) 4(5) ds_frame_trans by blast
    moreover have "set (logged (d_log s')) = insert b (set (logged (d_log s)))"
      unfolding 4(4) 3(6) 1(5) by auto
    ultimately show ?thesis using 3 4 1 by auto
  qed
  with 1 d show ?thesis by (auto simp: ds_frame_def)
qed

section \<open>The bitmap\<close>

lemma bit_bit_mask: "bit (bit_mask bi) k \<longleftrightarrow> k = bi mod 8"
  by (auto simp: bit_mask_def bit_simps)

lemma mask_test: "x AND bit_mask bi = 0 \<longleftrightarrow> \<not> bit x (bi mod 8)"
proof -
  have "x AND bit_mask bi = 0 \<longleftrightarrow> (\<forall>k. \<not> bit (x AND bit_mask bi) k)"
    by (metis bit_0_eq bit_eq_iff bot_apply bot_bool_def)
  then show ?thesis by (auto simp: bit_and_iff bit_bit_mask)
qed

lemma bm_test: "d ! (bi div 8) AND bit_mask bi = 0 \<longleftrightarrow> \<not> bm_bit d bi"
  by (simp add: mask_test bm_bit_def)

lemma bm_index: "length d = BSIZE \<Longrightarrow> bi < BPB \<Longrightarrow> bi div 8 < length d"
  by (simp add: less_mult_imp_div_less)

lemma bm_same: "mi div 8 = bi div 8 \<Longrightarrow> mi mod 8 = bi mod 8 \<longleftrightarrow> mi = (bi :: nat)"
  by (metis div_mult_mod_eq)

lemma bm_set:
  assumes "length d = BSIZE" "bi < BPB"
  shows "bm_bit (d[bi div 8 := d ! (bi div 8) OR bit_mask bi]) mi \<longleftrightarrow> mi = bi \<or> bm_bit d mi"
proof (cases "mi div 8 = bi div 8")
  case True
  then show ?thesis
    using bm_index[OF assms] bm_same[OF True] by (auto simp: bm_bit_def bit_or_iff bit_bit_mask)
next
  case False
  then show ?thesis by (auto simp: bm_bit_def)
qed

lemma bm_clear:
  assumes "length d = BSIZE" "bi < BPB"
  shows "bm_bit (d[bi div 8 := d ! (bi div 8) AND NOT (bit_mask bi)]) mi \<longleftrightarrow> mi \<noteq> bi \<and> bm_bit d mi"
proof (cases "mi div 8 = bi div 8")
  case True
  have "bit (NOT (bit_mask bi)) (mi mod 8) \<longleftrightarrow> mi mod 8 \<noteq> bi mod 8"
    by (simp add: bit_not_iff bit_bit_mask possible_bit_word)
  then show ?thesis
    using True bm_index[OF assms] bm_same[OF True] by (auto simp: bm_bit_def bit_and_iff)
next
  case False
  then show ?thesis by (auto simp: bm_bit_def)
qed

lemma scan_bitmap_ok:
  assumes "length d = BSIZE" "b + BPB \<le> 2 ^ 32" "bi + k = BPB"
  shows "\<exists>r. scan_bitmap d b sz bi k = Some r \<and>
    (case r of Some j \<Rightarrow> bi \<le> j \<and> j < BPB \<and> b + j < sz \<and> \<not> bm_bit d j \<and> (\<forall>i \<in> {bi..<j}. bm_bit d i)
     | None \<Rightarrow> \<forall>i \<in> {bi..<BPB}. b + i < sz \<longrightarrow> bm_bit d i)"
  using assms(3)
proof (induction k arbitrary: bi)
  case 0
  then show ?case by simp
next
  case (Suc k)
  then have bi: "bi < BPB" by simp
  have a: "add_u32 b bi = Some (b + bi)" using bi assms(2) by (simp add: add_u32_def)
  have x: "nth_chk d (bi div 8) = Some (d ! (bi div 8))" using bm_index[OF assms(1) bi] by (simp add: nth_chk_def)
  consider "sz \<le> b + bi" | "b + bi < sz" "\<not> bm_bit d bi" | "b + bi < sz" "bm_bit d bi" by linarith
  then show ?case
  proof cases
    case 1
    then show ?thesis using a by auto
  next
    case 2
    then show ?thesis using a x bi by (auto simp: bm_test)
  next
    case 3
    from Suc.prems have "bi + 1 + k = BPB" by simp
    from Suc.IH[OF this] obtain r where r: "scan_bitmap d b sz (bi + 1) k = Some r"
      "case r of Some j \<Rightarrow> bi + 1 \<le> j \<and> j < BPB \<and> b + j < sz \<and> \<not> bm_bit d j \<and> (\<forall>i \<in> {bi + 1..<j}. bm_bit d i)
     | None \<Rightarrow> \<forall>i \<in> {bi + 1..<BPB}. b + i < sz \<longrightarrow> bm_bit d i" by blast
    have s: "{bi..<j} = insert bi {bi + 1..<j}" if "bi < j" for j using that by auto
    show ?thesis
      using r 3 a x s[OF bi] by (cases r) (auto simp: bm_test s)
  qed
qed

lemma allocated_cong: "fcont s' = fcont s \<Longrightarrow> d_sb s' = d_sb s \<Longrightarrow> allocated s' n = allocated s n"
  by (simp add: allocated_def)

lemma bitmap_block_bb:
  assumes "bitmap_ok s" "n < sb_size (d_sb s)"
  shows "block_to_bitmap_block n (d_sb s) = Some (bitmap_block (d_sb s) n)"
proof -
  have "bitmap_block (d_sb s) n < 2 ^ 29" using assms by (simp add: bitmap_ok_def)
  then show ?thesis by (simp add: block_to_bitmap_block_def bitmap_block_def add_u32_def add.commute)
qed

lemma block_free_ok:
  assumes i: "ds_inv H s" and b: "bitmap_ok s" and n: "n < sb_size (d_sb s)" and al: "allocated s n"
    and H: "H (bitmap_block (d_sb s) n) + 1 < 2 ^ 30" and u: "nlog s + card {n. 0 < H n} < NBUF" "nlog s < LOGSIZE"
  shows "\<exists>s'. block_free ROOTDEV n s = Some s' \<and> ds_inv H s' \<and> ds_frame s s' \<and> nlog s' \<le> nlog s + 1 \<and>
    (\<forall>m. allocated s' m \<longleftrightarrow> m \<noteq> n \<and> allocated s m) \<and>
    (\<forall>b. b \<noteq> bitmap_block (d_sb s) n \<longrightarrow> fcont s' b = fcont s b) \<and>
    keeps (\<lambda>m. m \<noteq> bitmap_block (d_sb s) n \<or> 0 < H (bitmap_block (d_sb s) n)) s s'"
proof -
  let ?bb = "bitmap_block (d_sb s) n" and ?bi = "n mod BPB"
  have bb: "?bb < 2 ^ 29" "?bb \<notin> log_region (d_log s)" "disk (d_bc s) ?bb \<noteq> None"
    using b n by (simp_all add: bitmap_ok_def)
  obtain g s1 d where 1: "ds_bread ROOTDEV ?bb s = Some (g, s1)" "ds_get g s1 = Some d" "fcont s ?bb = Some d" "length d = BSIZE"
    and w: "\<And>d'. length d' = BSIZE \<Longrightarrow> \<exists>s2 s3 s'. ds_put g d' s1 = Some s2 \<and> trans_write g s2 = Some s3 \<and> ds_brelse g s3 = Some s' \<and>
       ds_inv H s' \<and> fcont s' = (fcont s)(?bb \<mapsto> d') \<and> nlog s' \<le> nlog s + 1 \<and>
       set (logged (d_log s')) = insert ?bb (set (logged (d_log s))) \<and> ds_frame s s' \<and> keeps (\<lambda>m. m \<noteq> ?bb \<or> 0 < H ?bb) s s'"
    using ds_rewrite_ok[OF i bb(3,1) H bb(2) u] by blast
  have bi: "?bi < BPB" by simp
  have al': "bm_bit d ?bi" using al 1(3) by (simp add: allocated_def)
  let ?d = "d[?bi div 8 := d ! (?bi div 8) AND NOT (bit_mask ?bi)]"
  obtain s2 s3 s' where 2: "ds_put g ?d s1 = Some s2" "trans_write g s2 = Some s3" "ds_brelse g s3 = Some s'"
       "ds_inv H s'" "fcont s' = (fcont s)(?bb \<mapsto> ?d)" "nlog s' \<le> nlog s + 1" "ds_frame s s'"
       "keeps (\<lambda>m. m \<noteq> ?bb \<or> 0 < H ?bb) s s'"
    using w[of ?d] 1(4) by auto
  have "nth_chk d (?bi div 8) = Some (d ! (?bi div 8))" using bm_index[OF 1(4) bi] by (simp add: nth_chk_def)
  then have run: "block_free ROOTDEV n s = Some s'"
    using bitmap_block_bb[OF b n] 1 2 al' by (simp add: block_free_def bm_test)
  have "allocated s' m \<longleftrightarrow> m \<noteq> n \<and> allocated s m" for m
  proof (cases "bitmap_block (d_sb s) m = ?bb")
    case True
    then have "m div BPB = n div BPB" by (simp add: bitmap_block_def)
    then have "m mod BPB = ?bi \<longleftrightarrow> m = n" by (metis div_mult_mod_eq)
    with True show ?thesis
      using bm_clear[OF 1(4) bi, of "m mod BPB"] ds_frameD(1)[OF 2(7)] 1(3) by (simp add: allocated_def 2(5))
  next
    case False
    then show ?thesis using ds_frameD(1)[OF 2(7)] by (auto simp: allocated_def 2(5))
  qed
  with run 2 show ?thesis by simp
qed

lemma block_free_twice:
  assumes i: "ds_inv H s" and b: "bitmap_ok s" and n: "n < sb_size (d_sb s)" and al: "\<not> allocated s n"
    and H: "H (bitmap_block (d_sb s) n) + 1 < 2 ^ 30" and u: "nlog s + card {n. 0 < H n} < NBUF"
  shows "block_free ROOTDEV n s = None"
proof -
  let ?bb = "bitmap_block (d_sb s) n" and ?bi = "n mod BPB"
  have bb: "?bb < 2 ^ 29" "disk (d_bc s) ?bb \<noteq> None" using b n by (simp_all add: bitmap_ok_def)
  obtain g s1 where 1: "ds_bread ROOTDEV ?bb s = Some (g, s1)" "ds_inv (H(?bb := H ?bb + 1)) s1" "holds (d_bc s1) g ?bb"
    "fcont s1 = fcont s" using ds_bread_ok[OF i bb(2,1) H u] by blast
  obtain d where d: "ds_get g s1 = Some d" "fcont s ?bb = Some d" "length d = BSIZE"
    using ds_get_ok[OF 1(2,3)] 1(4) by auto
  have "\<not> bm_bit d ?bi" using al d(2) by (simp add: allocated_def)
  moreover have "nth_chk d (?bi div 8) = Some (d ! (?bi div 8))"
    using bm_index[OF d(3), of ?bi] by (simp add: nth_chk_def)
  ultimately show ?thesis using bitmap_block_bb[OF b n] 1(1) d(1) by (simp add: block_free_def bm_test)
qed

lemma block_zero_ok:
  assumes i: "ds_inv H s" and b: "disk (d_bc s) b \<noteq> None" "b < 2 ^ 29" "H b + 1 < 2 ^ 30" "b \<notin> log_region (d_log s)"
    and u: "nlog s + card {n. 0 < H n} < NBUF" "nlog s < LOGSIZE"
  shows "\<exists>s'. block_zero ROOTDEV b s = Some s' \<and> ds_inv H s' \<and> fcont s' = (fcont s)(b \<mapsto> replicate BSIZE 0) \<and>
    nlog s' \<le> nlog s + 1 \<and> ds_frame s s' \<and> keeps (\<lambda>m. m \<noteq> b \<or> 0 < H b) s s'"
proof -
  obtain g s1 d where 1: "ds_bread ROOTDEV b s = Some (g, s1)" "ds_get g s1 = Some d" "length d = BSIZE"
    and w: "\<And>d'. length d' = BSIZE \<Longrightarrow> \<exists>s2 s3 s'. ds_put g d' s1 = Some s2 \<and> trans_write g s2 = Some s3 \<and> ds_brelse g s3 = Some s' \<and>
       ds_inv H s' \<and> fcont s' = (fcont s)(b \<mapsto> d') \<and> nlog s' \<le> nlog s + 1 \<and>
       set (logged (d_log s')) = insert b (set (logged (d_log s))) \<and> ds_frame s s' \<and> keeps (\<lambda>m. m \<noteq> b \<or> 0 < H b) s s'"
    using ds_rewrite_ok[OF i b u] by blast
  have z: "map (\<lambda>v. 0) d = replicate BSIZE 0" using 1(3) by (simp add: map_replicate_const)
  obtain s2 s3 s' where 2: "ds_put g (replicate BSIZE 0) s1 = Some s2" "trans_write g s2 = Some s3" "ds_brelse g s3 = Some s'"
       "ds_inv H s'" "fcont s' = (fcont s)(b \<mapsto> replicate BSIZE 0)" "nlog s' \<le> nlog s + 1" "ds_frame s s'"
       "keeps (\<lambda>m. m \<noteq> b \<or> 0 < H b) s s'"
    using w[of "replicate BSIZE 0"] by auto
  have "block_zero ROOTDEV b s = Some s'" unfolding block_zero_def by (simp add: 1 2 z)
  with 2 show ?thesis by blast
qed

lemma room_forD:
  assumes "room_for k H s" "0 < k"
  shows "nlog s + card {n. 0 < H n} < NBUF" "nlog s < LOGSIZE" "H b + 1 < 2 ^ 30"
proof -
  have "H b + k < 2 ^ 30" using assms(1) by (simp add: room_for_def)
  then show "H b + 1 < 2 ^ 30" using assms(2) by linarith
qed (use assms in \<open>auto simp: room_for_def\<close>)

lemma card_hold:
  fixes H :: "nat \<Rightarrow> nat"
  assumes f: "finite {n. 0 < H n}"
  shows "card {n. 0 < (H(b := H b + 1)) n} \<le> card {n. 0 < H n} + 1"
proof -
  have "{n. 0 < (H(b := H b + 1)) n} = insert b {n. 0 < H n}" by auto
  with card_insert_if[OF f, of b] show ?thesis by simp
qed

lemma mark_and_zero:
  assumes i: "ds_inv H s" and b: "bitmap_ok s" and n: "n < sb_size (d_sb s)" "\<not> allocated s n" and u: "room_for 2 H s"
    and g: "ds_bread ROOTDEV (bitmap_block (d_sb s) n) s = Some (g, s1)" "ds_get g s1 = Some d"
  shows "\<exists>s2 s3 s4 s'. ds_put g (d[n mod BPB div 8 := d ! (n mod BPB div 8) OR bit_mask (n mod BPB)]) s1 = Some s2 \<and>
    trans_write g s2 = Some s3 \<and> block_zero ROOTDEV n s3 = Some s4 \<and> ds_brelse g s4 = Some s' \<and>
    ds_inv H s' \<and> ds_frame s s' \<and> nlog s' \<le> nlog s + 2 \<and> alloc_result s (Some n) s' \<and> keeps (\<lambda>m. 0 < H m) s s'"
proof -
  let ?bb = "bitmap_block (d_sb s) n" and ?bi = "n mod BPB"
  define H' where "H' = H(?bb := H ?bb + 1)"
  let ?d = "d[?bi div 8 := d ! (?bi div 8) OR bit_mask ?bi]"
  have bb: "?bb < 2 ^ 29" "?bb \<notin> log_region (d_log s)" "disk (d_bc s) ?bb \<noteq> None"
    and nn: "n < 2 ^ 29" "n \<notin> log_region (d_log s)" "disk (d_bc s) n \<noteq> None" "n \<noteq> ?bb" "\<And>m. m < sb_size (d_sb s) \<Longrightarrow> bitmap_block (d_sb s) m \<noteq> n"
    using b n by (auto simp: bitmap_ok_def)
  note rm = room_forD[OF u]
  obtain s1' g' where 1: "ds_bread ROOTDEV ?bb s = Some (g', s1')" "ds_inv H' s1'" "holds (d_bc s1') g' ?bb" "fcont s1' = fcont s"
    "d_log s1' = d_log s" "ds_frame s s1'" "keeps (\<lambda>_. True) s s1'"
    using ds_bread_ok[OF i bb(3,1)] rm unfolding H'_def by auto
  have e: "g' = g" "s1' = s1" using 1(1) g(1) by simp_all
  note 1 = 1[unfolded e]
  have d: "fcont s ?bb = Some d" "length d = BSIZE" using ds_get_ok[OF 1(2,3)] 1(4) g(2) by auto
  have Hb: "0 < H' ?bb" and Hr: "H'(?bb := H' ?bb - 1) = H" and H1: "1 < H' ?bb \<longleftrightarrow> 0 < H ?bb" by (auto simp: H'_def)
  obtain s2 s3 where 3: "ds_put g ?d s1 = Some s2" "trans_write g s2 = Some s3" "ds_inv H' s3"
    "fcont s3 = (fcont s1)(?bb \<mapsto> ?d)" "nlog s3 \<le> nlog s1 + 1" "ds_frame s1 s3" "keeps (\<lambda>_. True) s1 s3"
    using ds_update_ok[OF 1(2,3), of ?d] d(2) bb 1(5) rm Hb by auto
  have f3: "ds_frame s s3" using ds_frame_trans[OF 1(6) 3(6)] .
  have cd: "card {n. 0 < H' n} \<le> card {n. 0 < H n} + 1" unfolding H'_def by (rule card_hold[OF log_invD(7)[OF ds_invD(1)[OF i]]])
  have Hn: "H' n + 1 < 2 ^ 30" using nn(4) rm(3)[of n] by (simp add: H'_def)
  have "disk (d_bc s3) n \<noteq> None" "n \<notin> log_region (d_log s3)" using nn ds_frameD[OF f3] by simp_all
  then obtain s4 where 4: "block_zero ROOTDEV n s3 = Some s4" "ds_inv H' s4" "fcont s4 = (fcont s3)(n \<mapsto> replicate BSIZE 0)"
    "nlog s4 \<le> nlog s3 + 1" "ds_frame s3 s4" "keeps (\<lambda>m. m \<noteq> n \<or> 0 < H' n) s3 s4"
    using block_zero_ok[OF 3(3) _ nn(1) Hn] u cd 3(5) 1(5) by (auto simp: room_for_def)
  have "holds (d_bc s4) g ?bb" using keepsD[OF 4(6)] keepsD[OF 3(7) _ 1(3)] nn(4) by simp
  then obtain s' where 5: "ds_brelse g s4 = Some s'" "ds_inv H s'" "fcont s' = fcont s4" "d_log s' = d_log s4"
    "ds_frame s4 s'" "keeps (\<lambda>m. m \<noteq> ?bb \<or> 0 < H ?bb) s4 s'"
    using ds_brelse_ok[OF 4(2) _ Hb] unfolding Hr H1 by auto
  have f: "ds_frame s s'" using ds_frame_trans[OF ds_frame_trans[OF f3 4(5)] 5(5)] .
  have c': "fcont s' = (fcont s)(?bb \<mapsto> ?d, n \<mapsto> replicate BSIZE 0)" by (simp add: 5 4 3 1)
  have al: "allocated s' m \<longleftrightarrow> m = n \<or> allocated s m" if m: "m < sb_size (d_sb s)" for m
  proof (cases "bitmap_block (d_sb s) m = ?bb")
    case True
    then have "m div BPB = n div BPB" by (simp add: bitmap_block_def)
    then have "m mod BPB = ?bi \<longleftrightarrow> m = n" by (metis div_mult_mod_eq)
    with True nn(4) show ?thesis
      using bm_set[OF d(2), of ?bi "m mod BPB"] ds_frameD(1)[OF f] d(1) by (auto simp: allocated_def c')
  next
    case False
    with nn(5)[OF m] ds_frameD(1)[OF f] show ?thesis by (auto simp: allocated_def c')
  qed
  have "keeps (\<lambda>m. 0 < H m) s s'"
  proof (rule keeps_trans[OF keeps_trans[OF keeps_trans[OF 1(7) 3(7)] 4(6)] 5(6)])
    show "(m \<noteq> n \<or> 0 < H' n) \<and> (m \<noteq> ?bb \<or> 0 < H ?bb)" if "0 < H m" for m
      using that by (auto simp: H'_def)
  qed auto
  then show ?thesis using 3 4 5 1 f al c' n nn(4) by (auto simp: alloc_result_def)
qed

text \<open>Trying one bitmap block.\<close>

lemma alloc_from_ok:
  assumes "ds_inv H s" "bitmap_ok s" "room_for 2 H s" "\<forall>b \<in> set bs. b < sb_size (d_sb s) \<and> b mod BPB = 0"
  shows "\<exists>r s'. alloc_from ROOTDEV bs s = Some (r, s') \<and> ds_inv H s' \<and> ds_frame s s' \<and> nlog s' \<le> nlog s + 2 \<and>
    alloc_result s r s' \<and> keeps (\<lambda>m. 0 < H m) s s' \<and>
    (r = None \<longrightarrow> (\<forall>b \<in> set bs. \<forall>i < BPB. b + i < sb_size (d_sb s) \<longrightarrow> allocated s (b + i))) \<and>
    (\<forall>n. r = Some n \<longrightarrow> (\<exists>us b vs i. bs = us @ b # vs \<and> n = b + i \<and> i < BPB \<and> (\<forall>j < i. allocated s (b + j)) \<and>
       (\<forall>a \<in> set us. \<forall>j < BPB. a + j < sb_size (d_sb s) \<longrightarrow> allocated s (a + j))))"
  using assms
proof (induction bs arbitrary: s)
  case Nil
  then show ?case by (auto simp: alloc_result_def keeps_def)
next
  case (Cons b bs)
  let ?bb = "bitmap_block (d_sb s) b"
  have b: "b < sb_size (d_sb s)" "b mod BPB = 0" using Cons.prems(4) by auto
  have bb: "?bb < 2 ^ 29" "disk (d_bc s) ?bb \<noteq> None" "sb_size (d_sb s) < 2 ^ 32"
    using Cons.prems(2) b by (simp_all add: bitmap_ok_def)
  note rm = room_forD[OF Cons.prems(3)]
  obtain g s1 where 1: "ds_bread ROOTDEV ?bb s = Some (g, s1)" "ds_inv (H(?bb := H ?bb + 1)) s1" "holds (d_bc s1) g ?bb"
    "fcont s1 = fcont s" "d_log s1 = d_log s" "ds_frame s s1" "keeps (\<lambda>_. True) s s1"
    using ds_bread_ok[OF Cons.prems(1) bb(2,1)] rm by auto
  obtain d where d: "ds_get g s1 = Some d" "fcont s ?bb = Some d" "length d = BSIZE"
    using ds_get_ok[OF 1(2,3)] 1(4) by auto
  have "b + BPB \<le> 2 ^ 32"
  proof -
    obtain q where "b = BPB * q" using b(2) by (metis mod_0_imp_dvd dvdE)
    with b(1) bb(3) show ?thesis by simp
  qed
  from scan_bitmap_ok[OF d(3) this, of 0 BPB "sb_size (d_sb s)"] obtain r where
    r: "scan_bitmap d b (sb_size (d_sb s)) 0 BPB = Some r"
    "case r of Some j \<Rightarrow> 0 \<le> j \<and> j < BPB \<and> b + j < sb_size (d_sb s) \<and> \<not> bm_bit d j \<and> (\<forall>i \<in> {0..<j}. bm_bit d i)
     | None \<Rightarrow> \<forall>i \<in> {0..<BPB}. b + i < sb_size (d_sb s) \<longrightarrow> bm_bit d i" by auto
  have idx: "bitmap_block (d_sb s) (b + i) = ?bb" "(b + i) mod BPB = i" if "i < BPB" for i
  proof -
    obtain q where "b = BPB * q" using b(2) by (metis mod_0_imp_dvd dvdE)
    then show "bitmap_block (d_sb s) (b + i) = ?bb" "(b + i) mod BPB = i" using that by (simp_all add: bitmap_block_def)
  qed
  have al: "allocated s (b + i) \<longleftrightarrow> bm_bit d i" if "i < BPB" for i
    using d(2) idx[OF that] by (simp add: allocated_def)
  have sb: "d_sb s1 = d_sb s" using ds_frameD(1)[OF 1(6)] .
  show ?case
  proof (cases r)
    case (Some i)
    with r have i: "i < BPB" "b + i < sb_size (d_sb s)" "\<not> allocated s (b + i)" "\<forall>j < i. allocated s (b + j)"
      using al by auto
    have g': "ds_bread ROOTDEV (bitmap_block (d_sb s) (b + i)) s = Some (g, s1)" using 1(1) idx[OF i(1)] by simp
    obtain s2 s3 s4 s' where m: "ds_put g (d[i div 8 := d ! (i div 8) OR bit_mask i]) s1 = Some s2"
      "trans_write g s2 = Some s3" "block_zero ROOTDEV (b + i) s3 = Some s4" "ds_brelse g s4 = Some s'"
      "ds_inv H s'" "ds_frame s s'" "nlog s' \<le> nlog s + 2" "alloc_result s (Some (b + i)) s'" "keeps (\<lambda>m. 0 < H m) s s'"
      using mark_and_zero[OF Cons.prems(1,2) i(2,3) Cons.prems(3) g' d(1)] unfolding idx(2)[OF i(1)] by blast
    have "add_u32 b i = Some (b + i)" using i(2) bb(3) by (simp add: add_u32_def)
    then have "alloc_from ROOTDEV (b # bs) s = Some (Some (b + i), s')"
      using bitmap_block_bb[OF Cons.prems(2) b(1)] 1(1) d(1) r(1) Some m sb by simp
    moreover have "\<exists>us b' vs i'. b # bs = us @ b' # vs \<and> b + i = b' + i' \<and> i' < BPB \<and> (\<forall>j < i'. allocated s (b' + j)) \<and>
       (\<forall>a \<in> set us. \<forall>j < BPB. a + j < sb_size (d_sb s) \<longrightarrow> allocated s (a + j))"
      using i by (intro exI[of _ "[]"] exI[of _ b] exI[of _ bs] exI[of _ i]) simp
    ultimately show ?thesis using m by auto
  next
    case None
    obtain s2 where 2: "ds_brelse g s1 = Some s2" "ds_inv H s2" "fcont s2 = fcont s1" "d_log s2 = d_log s1"
      "ds_frame s1 s2" "keeps (\<lambda>m. m \<noteq> ?bb \<or> 0 < H ?bb) s1 s2"
      using ds_brelse_ok[OF 1(2,3)] by auto
    have f2: "ds_frame s s2" using ds_frame_trans[OF 1(6) 2(5)] .
    have c2: "fcont s2 = fcont s" "d_log s2 = d_log s" "d_sb s2 = d_sb s" using 1 2 ds_frameD(1)[OF f2] by simp_all
    have al2: "allocated s2 n = allocated s n" for n by (rule allocated_cong[OF c2(1,3)])
    have "bitmap_ok s2" using Cons.prems(2) by (simp add: bitmap_ok_def c2 al2 ds_frameD(2)[OF f2])
    moreover have "room_for 2 H s2" using Cons.prems(3) by (simp add: room_for_def c2)
    moreover have "\<forall>b \<in> set bs. b < sb_size (d_sb s2) \<and> b mod BPB = 0" using Cons.prems(4) by (simp add: c2)
    ultimately obtain r' s' where i: "alloc_from ROOTDEV bs s2 = Some (r', s')" "ds_inv H s'" "ds_frame s2 s'"
      "nlog s' \<le> nlog s2 + 2" "alloc_result s2 r' s'" "keeps (\<lambda>m. 0 < H m) s2 s'"
      "r' = None \<longrightarrow> (\<forall>b \<in> set bs. \<forall>i < BPB. b + i < sb_size (d_sb s) \<longrightarrow> allocated s (b + i))"
      "\<forall>n. r' = Some n \<longrightarrow> (\<exists>us b vs i. bs = us @ b # vs \<and> n = b + i \<and> i < BPB \<and> (\<forall>j < i. allocated s (b + j)) \<and>
       (\<forall>a \<in> set us. \<forall>j < BPB. a + j < sb_size (d_sb s) \<longrightarrow> allocated s (a + j)))"
      using Cons.IH[OF 2(2)] unfolding al2 c2 by blast
    have run: "alloc_from ROOTDEV (b # bs) s = Some (r', s')"
      using bitmap_block_bb[OF Cons.prems(2) b(1)] 1(1) d(1) r(1) None 2(1) i(1) sb by simp
    have nb: "\<forall>i < BPB. b + i < sb_size (d_sb s) \<longrightarrow> allocated s (b + i)" using r(2) None al by auto
    have "alloc_result s r' s'" using i(5) by (cases r') (simp_all add: alloc_result_def al2 c2)
    moreover have "keeps (\<lambda>m. 0 < H m) s s2" by (rule keeps_trans[OF 1(7) 2(6)]) auto
    then have "keeps (\<lambda>m. 0 < H m) s s'" by (rule keeps_trans[OF _ i(6)]) auto
    moreover have "\<exists>us b' vs i'. b # bs = us @ b' # vs \<and> n = b' + i' \<and> i' < BPB \<and> (\<forall>j < i'. allocated s (b' + j)) \<and>
       (\<forall>a \<in> set us. \<forall>j < BPB. a + j < sb_size (d_sb s) \<longrightarrow> allocated s (a + j))" if n: "r' = Some n" for n
    proof -
      obtain us b' vs i' where "bs = us @ b' # vs" "n = b' + i'" "i' < BPB" "\<forall>j < i'. allocated s (b' + j)"
       "\<forall>a \<in> set us. \<forall>j < BPB. a + j < sb_size (d_sb s) \<longrightarrow> allocated s (a + j)" using i(8) n by blast
      then show ?thesis using nb by (intro exI[of _ "b # us"] exI[of _ b'] exI[of _ vs] exI[of _ i']) simp
    qed
    moreover have "nlog s' \<le> nlog s + 2" using i(4) c2(2) by simp
    ultimately show ?thesis
      using run i(2,7) nb ds_frame_trans[OF f2 i(3)] by auto
  qed
qed

lemma upt_map_split:
  assumes "map f [0..<n] = us @ b # vs"
  shows "us = map f [0..<length us]" "b = f (length us)" "length us < n"
proof -
  have l: "length us < n" using arg_cong[OF assms, of length] by simp
  then show "length us < n" .
  have "(map f [0..<n]) ! length us = b" unfolding assms by simp
  then show "b = f (length us)" using l by simp
  have "take (length us) (map f [0..<n]) = us" unfolding assms by simp
  then show "us = map f [0..<length us]" using l by (simp add: take_map)
qed

lemma block_alloc_ok:
  assumes i: "ds_inv H s" "bitmap_ok s" "room_for 2 H s"
  shows "\<exists>r s'. block_alloc ROOTDEV s = Some (r, s') \<and> ds_inv H s' \<and> ds_frame s s' \<and> nlog s' \<le> nlog s + 2 \<and>
    alloc_result s r s' \<and> keeps (\<lambda>m. 0 < H m) s s' \<and>
    (r = None \<longrightarrow> (\<forall>n < sb_size (d_sb s). allocated s n)) \<and> (\<forall>n. r = Some n \<longrightarrow> (\<forall>m < n. allocated s m))"
proof -
  let ?z = "sb_size (d_sb s)" and ?k = "(sb_size (d_sb s) + BPB - 1) div BPB"
  let ?bs = "map (\<lambda>k. k * BPB) [0..<?k]"
  have q: "n div BPB < ?k" if "n < ?z" for n
  proof -
    have "n div BPB + 1 = (n + BPB) div BPB" by simp
    also have "... \<le> ?k" using that by (intro div_le_mono) simp
    finally show ?thesis by simp
  qed
  have "\<forall>b \<in> set ?bs. b < ?z \<and> b mod BPB = 0"
  proof
    fix b assume "b \<in> set ?bs"
    then obtain k where k: "b = k * BPB" "k < ?k" by auto
    then have "(k + 1) * BPB \<le> ?z + BPB - 1" by (metis Suc_eq_plus1 Suc_leI less_eq_div_iff_mult_less_eq zero_less_numeral)
    with k show "b < ?z \<and> b mod BPB = 0" by simp
  qed
  from alloc_from_ok[OF i this] obtain r s' where r: "block_alloc ROOTDEV s = Some (r, s')" "ds_inv H s'" "ds_frame s s'" "nlog s' \<le> nlog s + 2"
    "alloc_result s r s'" "keeps (\<lambda>m. 0 < H m) s s'"
    "r = None \<longrightarrow> (\<forall>b \<in> set ?bs. \<forall>i < BPB. b + i < ?z \<longrightarrow> allocated s (b + i))"
    "\<forall>n. r = Some n \<longrightarrow> (\<exists>us b vs i. ?bs = us @ b # vs \<and> n = b + i \<and> i < BPB \<and> (\<forall>j < i. allocated s (b + j)) \<and>
       (\<forall>a \<in> set us. \<forall>j < BPB. a + j < ?z \<longrightarrow> allocated s (a + j)))"
    unfolding block_alloc_def by blast
  have all: "allocated s n" if "r = None" "n < ?z" for n
  proof -
    have "n div BPB * BPB \<in> set ?bs" using q[OF that(2)] by simp
    moreover have "n mod BPB < BPB" "n div BPB * BPB + n mod BPB = n" by simp_all
    ultimately show ?thesis using r(7) that by metis
  qed
  have first: "allocated s m" if n: "r = Some n" and m: "m < n" for n m
  proof -
    obtain us b vs i where u: "?bs = us @ b # vs" "n = b + i" "i < BPB" "\<forall>j < i. allocated s (b + j)"
       "\<forall>a \<in> set us. \<forall>j < BPB. a + j < ?z \<longrightarrow> allocated s (a + j)" using r(8) n by blast
    have nz: "n < ?z" using r(5) n by (simp add: alloc_result_def)
    note us = upt_map_split[OF u(1)]
    show ?thesis
    proof (cases "m < b")
      case True
      then have "m div BPB < length us" using us(2) by (simp add: less_mult_imp_div_less)
      then have "m div BPB * BPB \<in> set us" by (subst us(1)) simp
      moreover have "m mod BPB < BPB" "m div BPB * BPB + m mod BPB = m" by simp_all
      ultimately show ?thesis using u(5) m nz by (metis less_trans)
    next
      case False
      then show ?thesis using u(4)[rule_format, of "m - b"] m u(2) by simp
    qed
  qed
  show ?thesis using r(1-6) all first by auto
qed

section \<open>Properties\<close>

text \<open>A mounted disk whose blocks 0 to 31 are in use: the log, and the bitmap in block 31.\<close>

lemma sample_mounted:
  "\<exists>s. ds_inv (\<lambda>_. 0) s \<and> bitmap_ok s \<and> room_for 2 (\<lambda>_. 0) s \<and> sb_size (d_sb s) = 40 \<and> sb_bmapstart (d_sb s) = 31 \<and>
     (\<forall>n < 40. allocated s n \<longleftrightarrow> n < 32) \<and> sb_inodestart (d_sb s) = 32 \<and> nlog s = 1"
proof -
  let ?d = "replicate 4 255 @ replicate (BSIZE - 4) 0 :: bytes"
  obtain l c where i: "log_inv (\<lambda>_. 0) l c" "logged l = [31..<31 + 1]" "log_start l = 0" "log_outstanding l = 1" "\<not> log_committing l"
    "content c 31 = Some ?d" "\<And>m. m \<in> {31..<64} \<Longrightarrow> disk c m = Some (replicate BSIZE 0)"
    using zero_logged[of 1 ?d] by auto
  define s where "s = \<lparr>d_bc = c, d_sb = \<lparr>sb_size = 40, sb_nblocks = 8, sb_ninodes = 0, sb_nlog = 31, sb_logstart = 0,
     sb_inodestart = 32, sb_bmapstart = 31\<rparr>, d_log = l\<rparr>"
  have al: "allocated s n \<longleftrightarrow> n < 32" if "n < 40" for n
  proof (cases "n < 32")
    case True
    then have "?d ! (n div 8) = 255" by (simp add: nth_append less_mult_imp_div_less)
    moreover have "bit (255 :: u8) (n mod 8)"
    proof -
      have e: "(255 :: u8) = - 1" by (simp add: One_nat_def)
      show ?thesis unfolding e bit_minus_1_iff by (simp add: possible_bit_word)
    qed
    ultimately show ?thesis using True that by (simp add: allocated_def s_def bitmap_block_def i(6) bm_bit_def)
  next
    case False
    have "4 \<le> n div 8" using False div_le_mono[of 32 n 8] by simp
    moreover have "n div 8 < BSIZE" using that by (simp add: less_mult_imp_div_less)
    ultimately have "?d ! (n div 8) = 0" by (simp add: nth_append)
    then show ?thesis using False that by (simp add: allocated_def s_def bitmap_block_def i(6) bm_bit_def)
  qed
  have n: "nlog s = 1" using logged_length[OF log_invD(4)[OF i(1)]] i(2) by (simp add: s_def)
  have "ds_inv (\<lambda>_. 0) s" using i by (simp add: ds_inv_def s_def)
  moreover have "bitmap_ok s"
  proof -
    have "n \<notin> {0..30}" "disk c n \<noteq> None" "n \<noteq> 31" if "n < 40" "\<not> allocated s n" for n
      using al[OF that(1)] that i(7)[of n] by auto
    then show ?thesis
      using i(3,7) unfolding bitmap_ok_def log_region_def by (auto simp: s_def bitmap_block_def)
  qed
  moreover have "room_for 2 (\<lambda>_. 0) s" by (simp add: room_for_def n)
  ultimately show ?thesis using al n by (intro exI[of _ s]) (simp add: s_def)
qed

text \<open>C4.  Allocating a block never panics within the log's budget.  If it returns a block, that is
  the lowest free one; it is marked, its content is zero, every other bit of the bitmap and every
  other block is unchanged.  If it returns none, every block is in use and nothing has changed.\<close>

theorem block_alloc_first_fit:
  assumes "ds_inv H s" "bitmap_ok s" "room_for 2 H s"
  shows "\<exists>r s'. block_alloc ROOTDEV s = Some (r, s') \<and> ds_inv H s' \<and> nlog s' \<le> nlog s + 2 \<and>
    (case r of
       None \<Rightarrow> (\<forall>n < sb_size (d_sb s). allocated s n) \<and> fcont s' = fcont s
     | Some n \<Rightarrow> n < sb_size (d_sb s) \<and> \<not> allocated s n \<and> (\<forall>m < n. allocated s m) \<and>
         (\<forall>m < sb_size (d_sb s). allocated s' m \<longleftrightarrow> m = n \<or> allocated s m) \<and>
         fcont s' n = Some (replicate BSIZE 0) \<and>
         (\<forall>b. b \<noteq> n \<longrightarrow> b \<noteq> bitmap_block (d_sb s) n \<longrightarrow> fcont s' b = fcont s b))"
proof -
  obtain r s' where r: "block_alloc ROOTDEV s = Some (r, s')" "ds_inv H s'" "nlog s' \<le> nlog s + 2" "alloc_result s r s'"
    "r = None \<longrightarrow> (\<forall>n < sb_size (d_sb s). allocated s n)" "\<forall>n. r = Some n \<longrightarrow> (\<forall>m < n. allocated s m)"
    using block_alloc_ok[OF assms] by blast
  then show ?thesis by (cases r) (auto simp: alloc_result_def)
qed

lemma block_alloc_first_fit_witness:
  "\<exists>s s'. block_alloc ROOTDEV s = Some (Some 32, s') \<and> \<not> allocated s 32 \<and> allocated s' 32 \<and>
     fcont s' 32 = Some (replicate BSIZE 0)"
proof -
  obtain s where s: "ds_inv (\<lambda>_. 0) s" "bitmap_ok s" "room_for 2 (\<lambda>_. 0) s" "sb_size (d_sb s) = 40"
    "\<forall>n < 40. allocated s n \<longleftrightarrow> n < 32" using sample_mounted by blast
  obtain r s' where r: "block_alloc ROOTDEV s = Some (r, s')"
    "case r of
       None \<Rightarrow> (\<forall>n < sb_size (d_sb s). allocated s n) \<and> fcont s' = fcont s
     | Some n \<Rightarrow> n < sb_size (d_sb s) \<and> \<not> allocated s n \<and> (\<forall>m < n. allocated s m) \<and>
         (\<forall>m < sb_size (d_sb s). allocated s' m \<longleftrightarrow> m = n \<or> allocated s m) \<and>
         fcont s' n = Some (replicate BSIZE 0) \<and>
         (\<forall>b. b \<noteq> n \<longrightarrow> b \<noteq> bitmap_block (d_sb s) n \<longrightarrow> fcont s' b = fcont s b)"
    using block_alloc_first_fit[OF s(1-3)] by blast
  have "r = Some 32"
  proof (cases r)
    case None
    with r(2) s(4) have "allocated s 33" by simp
    with s(5) show ?thesis by simp
  next
    case (Some n)
    then have "n < 40" "\<not> n < 32" "\<forall>m < n. allocated s m" using r(2) s(4,5) by auto
    moreover have "\<not> allocated s 32" using s(5) by simp
    ultimately have "n = 32" by (metis linorder_neqE_nat)
    with Some show ?thesis by simp
  qed
  with r s(4,5) show ?thesis by (intro exI[of _ s] exI[of _ s']) simp
qed

text \<open>C9.  Freeing a block clears its bit and no other, and leaves every other block as it is;
  freeing a block that is free panics.\<close>

theorem block_free_correct:
  assumes "ds_inv H s" "bitmap_ok s" "n < sb_size (d_sb s)" "room_for 1 H s"
  shows "if allocated s n then
      \<exists>s'. block_free ROOTDEV n s = Some s' \<and> ds_inv H s' \<and> (\<forall>m. allocated s' m \<longleftrightarrow> m \<noteq> n \<and> allocated s m) \<and>
        (\<forall>b. b \<noteq> bitmap_block (d_sb s) n \<longrightarrow> fcont s' b = fcont s b)
    else block_free ROOTDEV n s = None"
proof -
  note rm = room_forD[OF assms(4)]
  show ?thesis
    using block_free_ok[OF assms(1-3) _ rm(3,1,2)] block_free_twice[OF assms(1-3) _ rm(3,1)] by auto
qed

lemma block_free_correct_witness:
  "\<exists>s s'. block_free ROOTDEV 31 s = Some s' \<and> \<not> allocated s' 31 \<and> allocated s' 30 \<and> block_free ROOTDEV 33 s = None"
proof -
  obtain s where s: "ds_inv (\<lambda>_. 0) s" "bitmap_ok s" "room_for 2 (\<lambda>_. 0) s" "sb_size (d_sb s) = 40"
    "\<forall>n < 40. allocated s n \<longleftrightarrow> n < 32" using sample_mounted by blast
  have r: "room_for 1 (\<lambda>_. 0) s" using s(3) by (simp add: room_for_def)
  obtain s' where "block_free ROOTDEV 31 s = Some s'" "\<forall>m. allocated s' m \<longleftrightarrow> m \<noteq> 31 \<and> allocated s m"
    using block_free_correct[OF s(1,2) _ r, of 31] s(4,5) by auto
  moreover have "block_free ROOTDEV 33 s = None" using block_free_correct[OF s(1,2) _ r, of 33] s(4,5) by simp
  ultimately show ?thesis using s(5) by (intro exI[of _ s] exI[of _ s']) simp
qed

end
