(* ===== verification/Vfs.thy ===== *)
theory Vfs
  imports Redleaf_Base
begin

text \<open>
  The vocabulary of the file-system interface: error codes (\<^verbatim>\<open>src/interface/src/error.rs\<close>), file
  types and modes (\<^verbatim>\<open>src/interface/src/vfs/file.rs\<close>), directory entries
  (\<^verbatim>\<open>src/interface/src/vfs/directory.rs\<close>), and C strings
  (\<^verbatim>\<open>src/domains/usr/xv6/lib/utils/src/cstr.rs\<close>).  A \<open>&str\<close> is its UTF-8 bytes.
\<close>

datatype error_kind =
    FileNotFound | PermissionDenied | ConnectionRefused | ConnectionReset | ConnectionAborted
  | NotConnected | AddrInUse | AddrNotAvailable | BrokenPipe | FileAlreadyExists | WouldBlock
  | InvalidInput | InvalidData | TimedOut | WriteZero | Interrupted | Other | UnexpectedEof
  | FormatError | TooManyOpenedFiles | InvalidCTTSId | InvalidFileDescriptor | InvalidMajor
  | ICacheExhausted | OutOfINode | InvalidFileType | DirectoryExhausted | UnsupportedOperation
  | UninitializedDevice | RpcError | Utf8Error | InvalidParameter | InvalidPciClass
  | InvalidPciDeviceID

type_synonym 'a fs_result = "error_kind + 'a"

datatype inode_file_type = Unitialized | Directory | File | Device

record file_stat =
  st_device :: nat
  st_inum :: nat
  st_file_type :: inode_file_type
  st_nlink :: int
  st_size :: nat

record file_mode =
  mode_read :: bool
  mode_write :: bool
  mode_create :: bool

abbreviation DIRSIZ :: nat where "DIRSIZ \<equiv> 14"
abbreviation SIZE_OF_DIRENT :: nat where "SIZE_OF_DIRENT \<equiv> 16"

record dirent =
  de_inum :: nat
  de_name :: bytes

definition file_type_of_u16 :: "nat \<Rightarrow> inode_file_type option" where
  "file_type_of_u16 n =
     (if n = 0 then Some Unitialized else if n = 1 then Some Directory
      else if n = 2 then Some File else if n = 3 then Some Device else None)"

fun file_type_as_u16 :: "inode_file_type \<Rightarrow> nat" where
  "file_type_as_u16 Unitialized = 0"
| "file_type_as_u16 Directory = 1"
| "file_type_as_u16 File = 2"
| "file_type_as_u16 Device = 3"

definition dirent_from_bytes :: "bytes \<Rightarrow> dirent option" where
  "dirent_from_bytes arr =
     do { h \<leftarrow> slice_chk arr 0 2;
          inum \<leftarrow> from_le_u16 h;
          name \<leftarrow> slice_chk arr 2 (2 + DIRSIZ);
          Some \<lparr>de_inum = inum, de_name = name\<rparr> }"

text \<open>\<open>copy_from_slice\<close> panics unless the lengths agree.\<close>

definition dirent_as_bytes :: "dirent \<Rightarrow> bytes option" where
  "dirent_as_bytes d =
     do { assert_that (length (de_name d) = SIZE_OF_DIRENT - 2);
          Some (to_le_u16 (de_inum d) @ de_name d) }"

section \<open>UTF-8 and C strings\<close>

definition cont_byte :: "u8 \<Rightarrow> bool" where
  "cont_byte b \<longleftrightarrow> 128 \<le> unat b \<and> unat b < 192"

text \<open>The check of \<open>String::from_utf8\<close>: no overlong forms, no surrogates, nothing above U+10FFFF.\<close>

fun valid_utf8 :: "bytes \<Rightarrow> bool" where
  "valid_utf8 [] = True"
| "valid_utf8 (a # bs) =
     (if unat a < 128 then valid_utf8 bs
      else if 194 \<le> unat a \<and> unat a < 224 then
        (case bs of b # r \<Rightarrow> cont_byte b \<and> valid_utf8 r | _ \<Rightarrow> False)
      else if 224 \<le> unat a \<and> unat a < 240 then
        (case bs of
           b # c # r \<Rightarrow> cont_byte b \<and> cont_byte c \<and> (unat a = 224 \<longrightarrow> 160 \<le> unat b) \<and>
             (unat a = 237 \<longrightarrow> unat b < 160) \<and> valid_utf8 r
         | _ \<Rightarrow> False)
      else if 240 \<le> unat a \<and> unat a < 245 then
        (case bs of
           b # c # d # r \<Rightarrow> cont_byte b \<and> cont_byte c \<and> cont_byte d \<and> (unat a = 240 \<longrightarrow> 144 \<le> unat b) \<and>
             (unat a = 244 \<longrightarrow> unat b < 144) \<and> valid_utf8 r
         | _ \<Rightarrow> False)
      else False)"

definition cstr_to_string :: "bytes \<Rightarrow> error_kind + bytes" where
  "cstr_to_string cstr =
     (let s = (case position (\<lambda>c. c = 0) cstr of Some n \<Rightarrow> take n cstr | None \<Rightarrow> cstr)
      in if valid_utf8 s then Inr s else Inl Utf8Error)"

section \<open>Lemmas\<close>

lemma file_type_round_trip [simp]: "file_type_of_u16 (file_type_as_u16 t) = Some t"
  by (cases t) (simp_all add: file_type_of_u16_def)

lemma file_type_as_u16_bound: "file_type_as_u16 t < 4"
  by (cases t) simp_all

lemma dirent_round_trip:
  assumes "dirent_as_bytes d = Some b" "de_inum d < 2 ^ 16"
  shows "dirent_from_bytes b = Some d" "length b = SIZE_OF_DIRENT"
proof -
  have l: "length (de_name d) = 14" and b: "b = to_le_u16 (de_inum d) @ de_name d"
    using assms(1) by (auto simp: dirent_as_bytes_def panic_simps)
  show "length b = SIZE_OF_DIRENT" by (simp add: b l)
  have "from_le_u16 (to_le_u16 (de_inum d)) = Some (de_inum d)"
    using from_to_le_u16[OF assms(2), of "[]"] by simp
  then show "dirent_from_bytes b = Some d"
    by (simp add: dirent_from_bytes_def slice_chk_def b l)
qed

lemma position_append_hit: "\<forall>x \<in> set xs. \<not> p x \<Longrightarrow> p y \<Longrightarrow> position p (xs @ y # ys) = Some (length xs)"
  by (induction xs) auto

lemma cstr_padded:
  assumes "0 \<notin> set name" "valid_utf8 name"
  shows "cstr_to_string (name @ replicate k 0) = Inr name"
proof (cases k)
  case 0
  then have "position (\<lambda>c. c = 0) name = None" using assms(1) by (auto simp: position_None)
  with 0 assms(2) show ?thesis by (simp add: cstr_to_string_def)
next
  case (Suc j)
  then have "position (\<lambda>c. c = 0) (name @ replicate k 0) = Some (length name)"
    using assms(1) position_append_hit[of name "\<lambda>c. c = 0" 0 "replicate j 0"] by auto
  with assms(2) show ?thesis by (simp add: cstr_to_string_def)
qed

end
