(* ===== verification/Inode.thy ===== *)
theory Inode
  imports Fsblock Vfs
begin

text \<open>
  Inodes of the xv6 file system, \<^verbatim>\<open>src/domains/usr/xv6/kernel/fs/src/icache/inode.rs\<close>.

  The state is the mounted disk (\<open>dstate\<close>) together with the in-memory inodes.  An \<open>Arc<INode>\<close> is the
  index of its slot in the inode cache; \<open>in_refs\<close> is its strong count, \<open>in_locked\<close> whether its data
  is locked.  Locking an inode that is locked has no result (the thread would spin on itself).  An
  \<open>INodeDataGuard\<close> is the index of the locked slot, on whose data its methods work in place.  The
  spin lock around a buffer's bytes is not represented: buffers are only locked while one of the
  functions below uses them.
\<close>

abbreviation NDIRECT :: nat where "NDIRECT \<equiv> 12"
abbreviation NINDIRECT :: nat where "NINDIRECT \<equiv> 1024"
abbreviation DINODE_SIZE :: nat where "DINODE_SIZE \<equiv> 64"
abbreviation IPB :: nat where "IPB \<equiv> 64"

record inode_data =
  i_file_type :: inode_file_type
  i_major :: int
  i_minor :: int
  i_nlink :: int
  i_size :: nat
  i_addresses :: "nat list"

record mem_inode =
  in_device :: nat
  in_inum :: nat
  in_valid :: bool
  in_locked :: bool
  in_refs :: nat
  in_data :: inode_data

text \<open>\<open>fs_cwd\<close> is the calling thread's working directory, absent until it is first used.\<close>

record fstate =
  fs_d :: dstate
  fs_inodes :: "mem_inode list"
  fs_cwd :: "nat option"

section \<open>The on-disk inode\<close>

definition INodeData_new :: inode_data where
  "INodeData_new =
     \<lparr>i_file_type = Unitialized, i_major = 0, i_minor = 0, i_nlink = 0, i_size = 0,
      i_addresses = replicate (NDIRECT + 1) 0\<rparr>"

definition read_u16_at :: "bytes \<Rightarrow> nat \<Rightarrow> nat option" where
  "read_u16_at b off = slice_chk b off (off + 2) \<bind> from_le_u16"

definition read_i16_at :: "bytes \<Rightarrow> nat \<Rightarrow> int option" where
  "read_i16_at b off = slice_chk b off (off + 2) \<bind> from_le_i16"

definition copy_from_bytes :: "inode_data \<Rightarrow> bytes \<Rightarrow> inode_data option" where
  "copy_from_bytes self b =
     do { t \<leftarrow> read_u16_at b 0;
          file_type \<leftarrow> file_type_of_u16 t;
          major \<leftarrow> read_i16_at b 2;
          minor \<leftarrow> read_i16_at b 4;
          nlink \<leftarrow> read_i16_at b 6;
          sz \<leftarrow> read_u32_at b 8;
          addresses \<leftarrow> read_u32s b 12 (length (i_addresses self));
          Some \<lparr>i_file_type = file_type, i_major = major, i_minor = minor, i_nlink = nlink, i_size = sz,
                i_addresses = addresses\<rparr> }"

definition inode_from_bytes :: "bytes \<Rightarrow> inode_data option" where
  "inode_from_bytes b = copy_from_bytes INodeData_new b"

definition to_bytes :: "inode_data \<Rightarrow> bytes \<Rightarrow> bytes option" where
  "to_bytes self b =
     do { b \<leftarrow> splice_chk b 0 (to_le_u16 (file_type_as_u16 (i_file_type self)));
          b \<leftarrow> splice_chk b 2 (to_le_i16 (i_major self));
          b \<leftarrow> splice_chk b 4 (to_le_i16 (i_minor self));
          b \<leftarrow> splice_chk b 6 (to_le_i16 (i_nlink self));
          b \<leftarrow> write_u32_at b 8 (i_size self);
          write_u32s b 12 (i_addresses self) }"

section \<open>Access to the in-memory inodes\<close>

definition inode_at :: "nat \<Rightarrow> fstate \<Rightarrow> mem_inode option" where
  "inode_at i s = nth_chk (fs_inodes s) i"

definition modify_inode :: "nat \<Rightarrow> (mem_inode \<Rightarrow> mem_inode) \<Rightarrow> fstate \<Rightarrow> fstate option" where
  "modify_inode i f s =
     do { xs \<leftarrow> modify_chk (fs_inodes s) i f; Some (s\<lparr>fs_inodes := xs\<rparr>) }"

definition modify_data :: "nat \<Rightarrow> (inode_data \<Rightarrow> inode_data) \<Rightarrow> fstate \<Rightarrow> fstate option" where
  "modify_data i f s = modify_inode i (\<lambda>n. n\<lparr>in_data := f (in_data n)\<rparr>) s"

definition on_disk :: "(dstate \<Rightarrow> ('a \<times> dstate) option) \<Rightarrow> fstate \<Rightarrow> ('a \<times> fstate) option" where
  "on_disk f s = do { (x, d) \<leftarrow> f (fs_d s); Some (x, s\<lparr>fs_d := d\<rparr>) }"

definition upd_disk :: "(dstate \<Rightarrow> dstate option) \<Rightarrow> fstate \<Rightarrow> fstate option" where
  "upd_disk f s = do { d \<leftarrow> f (fs_d s); Some (s\<lparr>fs_d := d\<rparr>) }"

definition block_num_for_node :: "nat \<Rightarrow> super_block \<Rightarrow> nat option" where
  "block_num_for_node inum sb = add_u32 (inum div IPB) (sb_inodestart sb)"

definition inode_lock :: "nat \<Rightarrow> fstate \<Rightarrow> fstate option" where
  "inode_lock i s =
     do { n \<leftarrow> inode_at i s;
          assert_that (\<not> in_locked n);
          s \<leftarrow> modify_inode i (\<lambda>n. n\<lparr>in_locked := True\<rparr>) s;
          if in_valid n then Some s
          else
            do { b \<leftarrow> block_num_for_node (in_inum n) (d_sb (fs_d s));
                 (bguard, s) \<leftarrow> on_disk (ds_bread (in_device n) b) s;
                 buffer \<leftarrow> ds_get bguard (fs_d s);
                 let off = in_inum n mod IPB * DINODE_SIZE;
                 sl \<leftarrow> slice_chk buffer off (off + DINODE_SIZE);
                 data \<leftarrow> copy_from_bytes (in_data n) sl;
                 s \<leftarrow> modify_inode i (\<lambda>n. n\<lparr>in_data := data, in_valid := True\<rparr>) s;
                 assert_that (i_file_type data \<noteq> Unitialized);
                 upd_disk (ds_brelse bguard) s } }"

definition inode_unlock :: "nat \<Rightarrow> fstate \<Rightarrow> fstate option" where
  "inode_unlock i s = modify_inode i (\<lambda>n. n\<lparr>in_locked := False\<rparr>) s"

section \<open>Methods of the locked inode\<close>

definition inode_update :: "nat \<Rightarrow> fstate \<Rightarrow> fstate option" where
  "inode_update i s =
     do { n \<leftarrow> inode_at i s;
          b \<leftarrow> block_num_for_node (in_inum n) (d_sb (fs_d s));
          (bguard, s) \<leftarrow> on_disk (ds_bread (in_device n) b) s;
          buffer \<leftarrow> ds_get bguard (fs_d s);
          let off = in_inum n mod IPB * DINODE_SIZE;
          sl \<leftarrow> slice_chk buffer off (off + DINODE_SIZE);
          sl \<leftarrow> to_bytes (in_data n) sl;
          buffer \<leftarrow> splice_chk buffer off sl;
          s \<leftarrow> upd_disk (ds_put bguard buffer) s;
          s \<leftarrow> upd_disk (trans_write bguard) s;
          upd_disk (ds_brelse bguard) s }"

text \<open>\<open>for i in 0..NDIRECT\<close>, with \<open>k\<close> iterations left.\<close>

fun truncate_direct :: "nat \<Rightarrow> nat \<Rightarrow> nat \<Rightarrow> fstate \<Rightarrow> fstate option" where
  "truncate_direct i j 0 s = Some s"
| "truncate_direct i j (Suc k) s =
     do { n \<leftarrow> inode_at i s;
          a \<leftarrow> nth_chk (i_addresses (in_data n)) j;
          s \<leftarrow> (if a \<noteq> 0 then
                  do { s \<leftarrow> upd_disk (block_free (in_device n) a) s;
                       modify_data i (\<lambda>d. d\<lparr>i_addresses := (i_addresses d)[j := 0]\<rparr>) s }
                else Some s);
          truncate_direct i (j + 1) k s }"

text \<open>The loop over the entries of the table block; \<open>u32::from_ne_bytes\<close> is little endian on x86.\<close>

fun free_entries :: "nat \<Rightarrow> nat list \<Rightarrow> fstate \<Rightarrow> fstate option" where
  "free_entries device [] s = Some s"
| "free_entries device (b # bs) s =
     do { s \<leftarrow> (if b \<noteq> 0 then upd_disk (block_free device b) s else Some s);
          free_entries device bs s }"

definition inode_truncate :: "nat \<Rightarrow> fstate \<Rightarrow> fstate option" where
  "inode_truncate i s =
     do { s \<leftarrow> truncate_direct i 0 NDIRECT s;
          n \<leftarrow> inode_at i s;
          a \<leftarrow> nth_chk (i_addresses (in_data n)) NDIRECT;
          s \<leftarrow> (if a \<noteq> 0 then
                  do { (bguard, s) \<leftarrow> on_disk (ds_bread (in_device n) a) s;
                       buffer \<leftarrow> ds_get bguard (fs_d s);
                       entries \<leftarrow> read_u32s buffer 0 NINDIRECT;
                       s \<leftarrow> free_entries (in_device n) entries s;
                       s \<leftarrow> modify_data i (\<lambda>d. d\<lparr>i_addresses := (i_addresses d)[NDIRECT := 0]\<rparr>) s;
                       upd_disk (ds_brelse bguard) s }
                else Some s);
          s \<leftarrow> modify_data i (\<lambda>d. d\<lparr>i_size := 0\<rparr>) s;
          inode_update i s }"

definition inode_stat :: "nat \<Rightarrow> fstate \<Rightarrow> file_stat option" where
  "inode_stat i s =
     do { n \<leftarrow> inode_at i s;
          Some \<lparr>st_device = in_device n, st_inum = in_inum n, st_file_type = i_file_type (in_data n),
                st_nlink = i_nlink (in_data n), st_size = i_size (in_data n)\<rparr> }"

text \<open>\<open>block::alloc(..).expect(..)\<close>\<close>

definition alloc_expect :: "nat \<Rightarrow> fstate \<Rightarrow> (nat \<times> fstate) option" where
  "alloc_expect device s =
     do { (r, s) \<leftarrow> on_disk (block_alloc device) s;
          a \<leftarrow> r;
          Some (a, s) }"

text \<open>
  \<open>block_map\<close>.  The two guards on the table blocks live until the function returns; a block that is
  missing from a table is allocated and the table logged, but the table is not changed.
\<close>

definition table_entry :: "nat \<Rightarrow> nat \<Rightarrow> nat \<Rightarrow> fstate \<Rightarrow> ((nat \<times> buffer_guard) \<times> fstate) option" where
  "table_entry device address table_index s =
     do { (bguard, s) \<leftarrow> on_disk (ds_bread device address) s;
          buffer \<leftarrow> ds_get bguard (fs_d s);
          a \<leftarrow> read_u32_at buffer (table_index * 4);
          if a = 0 then
            do { (a, s) \<leftarrow> alloc_expect device s;
                 s \<leftarrow> upd_disk (trans_write bguard) s;
                 Some ((a, bguard), s) }
          else Some ((a, bguard), s) }"

definition block_map :: "nat \<Rightarrow> nat \<Rightarrow> fstate \<Rightarrow> (nat \<times> fstate) option" where
  "block_map i block_number s =
     do { n \<leftarrow> inode_at i s;
          if block_number < NDIRECT then
            do { address \<leftarrow> nth_chk (i_addresses (in_data n)) block_number;
                 if address = 0 then
                   do { (address, s) \<leftarrow> alloc_expect (in_device n) s;
                        s \<leftarrow> modify_data i (\<lambda>d. d\<lparr>i_addresses := (i_addresses d)[block_number := address]\<rparr>) s;
                        Some (address, s) }
                 else Some (address, s) }
          else
            do { let block_number = block_number - NDIRECT;
                 assert_that (block_number < NINDIRECT * NINDIRECT);
                 address \<leftarrow> nth_chk (i_addresses (in_data n)) NDIRECT;
                 (address, s) \<leftarrow>
                   (if address = 0 then
                      do { (address, s) \<leftarrow> alloc_expect (in_device n) s;
                           s \<leftarrow> modify_data i (\<lambda>d. d\<lparr>i_addresses := (i_addresses d)[NDIRECT := address]\<rparr>) s;
                           Some (address, s) }
                    else Some (address, s));
                 let table_index = block_number div NINDIRECT;
                 ((address, g1), s) \<leftarrow> table_entry (in_device n) address table_index s;
                 ((address, g2), s) \<leftarrow>
                   table_entry (in_device n) address (block_number - NINDIRECT * table_index) s;
                 s \<leftarrow> upd_disk (ds_brelse g2) s;
                 s \<leftarrow> upd_disk (ds_brelse g1) s;
                 Some (address, s) } }"

text \<open>
  The loop of \<open>read\<close>: \<open>tot\<close> bytes of \<open>want\<close> have been copied, \<open>buf\<close> is the caller's buffer.
\<close>

function read_loop :: "nat \<Rightarrow> nat \<Rightarrow> nat \<Rightarrow> nat \<Rightarrow> nat \<Rightarrow> bytes \<Rightarrow> fstate \<Rightarrow> (bytes \<times> fstate) option" where
  "read_loop i want tot offset user_offset buf s =
     (if tot < want then
        do { (b, s) \<leftarrow> block_map i (offset div BSIZE mod 2 ^ 32) s;
             n \<leftarrow> inode_at i s;
             (bguard, s) \<leftarrow> on_disk (ds_bread (in_device n) b) s;
             buffer \<leftarrow> ds_get bguard (fs_d s);
             let start = offset mod BSIZE;
             let bytes_read = min (want - tot) (BSIZE - start);
             sl \<leftarrow> slice_chk buffer start (start + bytes_read);
             buf \<leftarrow> splice_chk buf user_offset sl;
             s \<leftarrow> upd_disk (ds_brelse bguard) s;
             read_loop i want (tot + bytes_read) (offset + bytes_read) (user_offset + bytes_read) buf s }
      else Some (buf, s))"
  by pat_completeness auto
termination
  by (relation "measure (\<lambda>(i, want, tot, offset, user_offset, buf, s). want - tot)") auto

definition inode_read :: "nat \<Rightarrow> bytes \<Rightarrow> nat \<Rightarrow> fstate \<Rightarrow> ((nat fs_result \<times> bytes) \<times> fstate) option" where
  "inode_read i user_buffer offset s =
     do { n \<leftarrow> inode_at i s;
          e \<leftarrow> add_usize offset (length user_buffer);
          bytes_to_read \<leftarrow> (if e > i_size (in_data n) then sub_chk (i_size (in_data n)) offset
                          else Some (length user_buffer));
          (buf, s) \<leftarrow> read_loop i bytes_to_read 0 offset 0 user_buffer s;
          Some ((Inr bytes_to_read, buf), s) }"

text \<open>The loop of \<open>write\<close>; it also returns the offset reached.\<close>

function write_loop :: "nat \<Rightarrow> bytes \<Rightarrow> nat \<Rightarrow> nat \<Rightarrow> nat \<Rightarrow> fstate \<Rightarrow> (nat \<times> fstate) option" where
  "write_loop i user_buffer tot offset user_offset s =
     (if tot < length user_buffer then
        do { (b, s) \<leftarrow> block_map i (offset div BSIZE mod 2 ^ 32) s;
             n \<leftarrow> inode_at i s;
             (bguard, s) \<leftarrow> on_disk (ds_bread (in_device n) b) s;
             buffer \<leftarrow> ds_get bguard (fs_d s);
             let start = offset mod BSIZE;
             let bytes_written = min (length user_buffer - tot) (BSIZE - start);
             sl \<leftarrow> slice_chk user_buffer user_offset (user_offset + bytes_written);
             buffer \<leftarrow> splice_chk buffer start sl;
             s \<leftarrow> upd_disk (ds_put bguard buffer) s;
             s \<leftarrow> upd_disk (trans_write bguard) s;
             offset' \<leftarrow> add_usize offset bytes_written;
             s \<leftarrow> upd_disk (ds_brelse bguard) s;
             write_loop i user_buffer (tot + bytes_written) offset' (user_offset + bytes_written) s }
      else Some (offset, s))"
  by pat_completeness auto
termination
  by (relation "measure (\<lambda>(i, user_buffer, tot, offset, user_offset, s). length user_buffer - tot)") auto

definition inode_write :: "nat \<Rightarrow> bytes \<Rightarrow> nat \<Rightarrow> fstate \<Rightarrow> (nat fs_result \<times> fstate) option" where
  "inode_write i user_buffer offset s =
     do { (offset, s) \<leftarrow> write_loop i user_buffer 0 offset 0 s;
          s \<leftarrow> (if 0 < length user_buffer then
                  do { s \<leftarrow> modify_data i (\<lambda>d. d\<lparr>i_size := max (offset mod 2 ^ 32) (i_size d)\<rparr>) s;
                       inode_update i s }
                else Some s);
          Some (Inr (length user_buffer), s) }"

section \<open>Directories\<close>

text \<open>\<open>(0..size).step_by(SIZE_OF_DIRENT)\<close>\<close>

definition dirent_offsets :: "nat \<Rightarrow> nat list" where
  "dirent_offsets sz = map (\<lambda>k. k * SIZE_OF_DIRENT) [0..<(sz + SIZE_OF_DIRENT - 1) div SIZE_OF_DIRENT]"

text \<open>One entry: \<open>self.read(trans, &mut [0; 16], offset).unwrap()\<close>, decoded.\<close>

definition read_dirent :: "nat \<Rightarrow> nat \<Rightarrow> fstate \<Rightarrow> (dirent \<times> fstate) option" where
  "read_dirent i offset s =
     do { ((r, buf), s) \<leftarrow> inode_read i (replicate SIZE_OF_DIRENT 0) offset s;
          case r of Inl e \<Rightarrow> None | Inr k \<Rightarrow> do { de \<leftarrow> dirent_from_bytes buf; Some (de, s) } }"

text \<open>The search of \<open>dirlookup\<close>: the offset and inode number of the entry with the name.\<close>

fun dir_find :: "nat \<Rightarrow> bytes \<Rightarrow> nat list \<Rightarrow> fstate \<Rightarrow> ((nat \<times> nat) option \<times> fstate) option" where
  "dir_find i name [] s = Some (None, s)"
| "dir_find i name (offset # offs) s =
     do { (de, s) \<leftarrow> read_dirent i offset s;
          if de_inum de = 0 then dir_find i name offs s
          else
            (case cstr_to_string (de_name de) of
               Inl e \<Rightarrow> None
             | Inr dn \<Rightarrow>
                 if dn = name then Some (Some (offset, de_inum de), s)
                 else dir_find i name offs s) }"

fun dir_all_empty :: "nat \<Rightarrow> nat list \<Rightarrow> fstate \<Rightarrow> (bool \<times> fstate) option" where
  "dir_all_empty i [] s = Some (True, s)"
| "dir_all_empty i (offset # offs) s =
     do { (de, s) \<leftarrow> read_dirent i offset s;
          if de_inum de \<noteq> 0 then Some (False, s) else dir_all_empty i offs s }"

definition is_dirempty :: "nat \<Rightarrow> fstate \<Rightarrow> (bool fs_result \<times> fstate) option" where
  "is_dirempty i s =
     do { n \<leftarrow> inode_at i s;
          assert_that (i_file_type (in_data n) = Directory);
          (r, s) \<leftarrow> dir_all_empty i (drop 2 (dirent_offsets (i_size (in_data n)))) s;
          Some (Inr r, s) }"

text \<open>
  The search of \<open>dirlink\<close> for an empty entry; the offset is 0 when there is none.  The buffer of
  the entry is not cleared between reads.
\<close>

fun dir_find_empty :: "nat \<Rightarrow> nat list \<Rightarrow> bytes \<Rightarrow> fstate \<Rightarrow> (nat fs_result \<times> fstate) option" where
  "dir_find_empty i [] buffer s = Some (Inr 0, s)"
| "dir_find_empty i (offset # offs) buffer s =
     do { ((r, buffer), s) \<leftarrow> inode_read i buffer offset s;
          case r of
            Inl e \<Rightarrow> Some (Inl e, s)
          | Inr k \<Rightarrow>
              do { de \<leftarrow> dirent_from_bytes buffer;
                   if de_inum de = 0 then Some (Inr offset, s) else dir_find_empty i offs buffer s } }"

end
