(* ===== verification/Icache.thy ===== *)
theory Icache
  imports Inode
begin

text \<open>
  The inode cache and path resolution, \<^verbatim>\<open>src/domains/usr/xv6/kernel/fs/src/icache/icache.rs\<close>, with
  the directory operations of \<^verbatim>\<open>icache/inode.rs\<close> that use the cache, the thread's working directory
  (\<^verbatim>\<open>cwd.rs\<close>), and transactions as the system calls open and close them.

  A value of type \<^typ>\<open>'a fs_result\<close> is the Rust \<open>Result\<close>.  Guards and references are dropped where Rust
  drops them, in the reverse order of their declaration; dropping a reference is \<open>arc_drop\<close>, which
  is not \<open>ICache::put\<close>.  \<open>begin_trans\<close> has no result when the caller would sleep.
\<close>

abbreviation NINODE :: nat where "NINODE \<equiv> 50"
abbreviation (input) ROOTINO :: nat where "ROOTINO \<equiv> 1"

definition add_i16 :: "int \<Rightarrow> int \<Rightarrow> int option" where
  "add_i16 a b = (if - 32768 \<le> a + b \<and> a + b < 32768 then Some (a + b) else None)"

section \<open>References and transactions\<close>

definition arc_clone :: "nat \<Rightarrow> fstate \<Rightarrow> fstate option" where
  "arc_clone i s = modify_inode i (\<lambda>n. n\<lparr>in_refs := in_refs n + 1\<rparr>) s"

definition arc_drop :: "nat \<Rightarrow> fstate \<Rightarrow> fstate option" where
  "arc_drop i s =
     do { n \<leftarrow> inode_at i s;
          r \<leftarrow> sub_chk (in_refs n) 1;
          modify_inode i (\<lambda>n. n\<lparr>in_refs := r\<rparr>) s }"

definition begin_trans :: "fstate \<Rightarrow> fstate option" where
  "begin_trans s =
     do { (r, s) \<leftarrow> on_disk begin_op s; assert_that r; Some s }"

definition end_transaction :: "fstate \<Rightarrow> fstate option" where
  "end_transaction s = upd_disk end_trans s"

section \<open>The cache\<close>

definition INode_new :: mem_inode where
  "INode_new = \<lparr>in_device = 0, in_inum = 0, in_valid = False, in_locked = False, in_refs = 1,
                in_data = INodeData_new\<rparr>"

definition ICache_new :: "mem_inode list" where
  "ICache_new = replicate NINODE INode_new"

definition icache_get :: "nat \<Rightarrow> nat \<Rightarrow> fstate \<Rightarrow> (nat fs_result \<times> fstate) option" where
  "icache_get device inum s =
     (case position (\<lambda>n. in_refs n = 1 \<and> in_device n = device \<and> in_inum n = inum) (fs_inodes s) of
        Some i \<Rightarrow> do { s \<leftarrow> arc_clone i s; Some (Inr i, s) }
      | None \<Rightarrow>
          (case position (\<lambda>n. in_refs n = 1) (fs_inodes s) of
             None \<Rightarrow> Some (Inl ICacheExhausted, s)
           | Some i \<Rightarrow>
               do { s \<leftarrow> modify_inode i (\<lambda>n. n\<lparr>in_device := device, in_inum := inum, in_valid := False\<rparr>) s;
                    s \<leftarrow> arc_clone i s;
                    Some (Inr i, s) }))"

definition icache_put :: "nat \<Rightarrow> fstate \<Rightarrow> fstate option" where
  "icache_put i s =
     do { n \<leftarrow> inode_at i s;
          s \<leftarrow> (if in_refs n = 2 \<and> in_valid n then
                  do { s \<leftarrow> inode_lock i s;
                       n \<leftarrow> inode_at i s;
                       s \<leftarrow> (if i_nlink (in_data n) = 0 then
                               do { s \<leftarrow> inode_truncate i s;
                                    s \<leftarrow> modify_data i (\<lambda>d. d\<lparr>i_file_type := Unitialized\<rparr>) s;
                                    s \<leftarrow> inode_update i s;
                                    modify_inode i (\<lambda>n. n\<lparr>in_valid := False\<rparr>) s }
                             else Some s);
                       inode_unlock i s }
                else Some s);
          arc_drop i s }"

text \<open>The loop of \<open>alloc\<close> over the inode numbers left.\<close>

fun inode_alloc_from :: "nat \<Rightarrow> inode_file_type \<Rightarrow> nat list \<Rightarrow> fstate \<Rightarrow> (nat fs_result \<times> fstate) option" where
  "inode_alloc_from device ft [] s = Some (Inl OutOfINode, s)"
| "inode_alloc_from device ft (inum # inums) s =
     do { b \<leftarrow> block_num_for_node inum (d_sb (fs_d s));
          (bguard, s) \<leftarrow> on_disk (ds_bread device b) s;
          buffer \<leftarrow> ds_get bguard (fs_d s);
          let off = inum mod IPB * DINODE_SIZE;
          sl \<leftarrow> slice_chk buffer off (off + DINODE_SIZE);
          dinode \<leftarrow> inode_from_bytes sl;
          if i_file_type dinode = Unitialized then
            do { sl \<leftarrow> to_bytes (INodeData_new\<lparr>i_file_type := ft\<rparr>) sl;
                 buffer \<leftarrow> splice_chk buffer off sl;
                 s \<leftarrow> upd_disk (ds_put bguard buffer) s;
                 s \<leftarrow> upd_disk (trans_write bguard) s;
                 (r, s) \<leftarrow> icache_get device inum s;
                 s \<leftarrow> upd_disk (ds_brelse bguard) s;
                 Some (r, s) }
          else
            do { s \<leftarrow> upd_disk (ds_brelse bguard) s;
                 inode_alloc_from device ft inums s } }"

definition inode_alloc :: "nat \<Rightarrow> inode_file_type \<Rightarrow> fstate \<Rightarrow> (nat fs_result \<times> fstate) option" where
  "inode_alloc device ft s =
     inode_alloc_from device ft [1..<sb_ninodes (d_sb (fs_d s)) mod 2 ^ 16] s"

section \<open>Directories\<close>

definition dirlookup :: "nat \<Rightarrow> bytes \<Rightarrow> fstate \<Rightarrow> ((nat \<times> nat) fs_result \<times> fstate) option" where
  "dirlookup i name s =
     do { n \<leftarrow> inode_at i s;
          assert_that (i_file_type (in_data n) = Directory);
          (found, s) \<leftarrow> dir_find i name (dirent_offsets (i_size (in_data n))) s;
          case found of
            None \<Rightarrow> Some (Inl FileNotFound, s)
          | Some (offset, inum) \<Rightarrow>
              do { (r, s) \<leftarrow> icache_get (in_device n) inum s;
                   case r of
                     Inl e \<Rightarrow> Some (Inl e, s)
                   | Inr j \<Rightarrow> Some (Inr (offset, j), s) } }"

definition dirlink :: "nat \<Rightarrow> bytes \<Rightarrow> nat \<Rightarrow> fstate \<Rightarrow> (unit fs_result \<times> fstate) option" where
  "dirlink i name inum s =
     do { (r, s) \<leftarrow> dirlookup i name s;
          case r of
            Inr (offset, j) \<Rightarrow> do { s \<leftarrow> icache_put j s; Some (Inl FileAlreadyExists, s) }
          | Inl e \<Rightarrow>
              do { n \<leftarrow> inode_at i s;
                   (r, s) \<leftarrow> dir_find_empty i (dirent_offsets (i_size (in_data n)))
                              (replicate SIZE_OF_DIRENT 0) s;
                   case r of
                     Inl e \<Rightarrow> Some (Inl e, s)
                   | Inr empty_offset \<Rightarrow>
                       do { let cloned_name = name @ replicate (DIRSIZ - length name) 0;
                            buffer \<leftarrow> dirent_as_bytes \<lparr>de_inum = inum, de_name = cloned_name\<rparr>;
                            (r, s) \<leftarrow> inode_write i buffer empty_offset s;
                            case r of
                              Inl e \<Rightarrow> Some (Inl e, s)
                            | Inr k \<Rightarrow> Some (Inr (), s) } } }"

section \<open>Paths\<close>

fun split_slash :: "bytes \<Rightarrow> bytes list" where
  "split_slash [] = [[]]"
| "split_slash (c # cs) =
     (if c = 47 then [] # split_slash cs
      else (case split_slash cs of w # ws \<Rightarrow> (c # w) # ws | [] \<Rightarrow> [[c]]))"

definition path_components :: "bytes \<Rightarrow> bytes list" where
  "path_components path = filter (\<lambda>n. n \<noteq> []) (split_slash path)"

fun namex_loop :: "bool \<Rightarrow> bytes \<Rightarrow> bytes list \<Rightarrow> nat \<Rightarrow> fstate \<Rightarrow> ((nat \<times> bytes) fs_result \<times> fstate) option" where
  "namex_loop parent lst [] inode s =
     (if parent then do { s \<leftarrow> icache_put inode s; Some (Inl FileNotFound, s) }
      else Some (Inr (inode, lst), s))"
| "namex_loop parent lst (component # rest) inode s =
     do { s \<leftarrow> inode_lock inode s;
          n \<leftarrow> inode_at inode s;
          if i_file_type (in_data n) \<noteq> Directory then
            do { s \<leftarrow> inode_unlock inode s;
                 s \<leftarrow> icache_put inode s;
                 Some (Inl InvalidFileType, s) }
          else if parent \<and> rest = [] then
            do { s \<leftarrow> inode_unlock inode s; Some (Inr (inode, component), s) }
          else
            do { (next, s) \<leftarrow> dirlookup inode component s;
                 s \<leftarrow> inode_unlock inode s;
                 s \<leftarrow> icache_put inode s;
                 case next of
                   Inr (_, next) \<Rightarrow> namex_loop parent lst rest next s
                 | Inl e \<Rightarrow> Some (Inl e, s) } }"

definition namex_from :: "nat \<Rightarrow> bytes \<Rightarrow> bool \<Rightarrow> fstate \<Rightarrow> ((nat \<times> bytes) fs_result \<times> fstate) option" where
  "namex_from inode path parent s =
     (let components = path_components path
      in namex_loop parent (if components = [] then [] else last components) components inode s)"

text \<open>
  \<open>CWD.with(|cwd| cwd.clone())\<close>: the thread's working directory, initialised by
  \<open>ICache::namei(&mut begin_transaction(), "/").unwrap()\<close>, whose path has no components.
\<close>

definition cwd_clone :: "fstate \<Rightarrow> (nat \<times> fstate) option" where
  "cwd_clone s =
     do { (i, s) \<leftarrow>
            (case fs_cwd s of
               Some i \<Rightarrow> Some (i, s)
             | None \<Rightarrow>
                 do { s \<leftarrow> begin_trans s;
                      (r, s) \<leftarrow> icache_get ROOTDEV ROOTINO s;
                      case r of
                        Inl e \<Rightarrow> None
                      | Inr i \<Rightarrow>
                          do { s \<leftarrow> end_transaction s; Some (i, s\<lparr>fs_cwd := Some i\<rparr>) } });
          s \<leftarrow> arc_clone i s;
          Some (i, s) }"

definition namex :: "bytes \<Rightarrow> bool \<Rightarrow> fstate \<Rightarrow> ((nat \<times> bytes) fs_result \<times> fstate) option" where
  "namex path parent s =
     (if path \<noteq> [] \<and> hd path = 47 then
        do { (r, s) \<leftarrow> icache_get ROOTDEV ROOTINO s;
             case r of
               Inl e \<Rightarrow> Some (Inl e, s)
             | Inr inode \<Rightarrow> namex_from inode path parent s }
      else
        do { (inode, s) \<leftarrow> cwd_clone s; namex_from inode path parent s })"

definition namei :: "bytes \<Rightarrow> fstate \<Rightarrow> (nat fs_result \<times> fstate) option" where
  "namei path s =
     do { (r, s) \<leftarrow> namex path False s;
          Some (map_sum id fst r, s) }"

definition nameiparent :: "bytes \<Rightarrow> fstate \<Rightarrow> ((nat \<times> bytes) fs_result \<times> fstate) option" where
  "nameiparent path s = namex path True s"

section \<open>Creating files\<close>

text \<open>The guards and references of \<open>create\<close> dropped on an early return after the child exists.\<close>

definition create_abort :: "nat \<Rightarrow> nat \<Rightarrow> fstate \<Rightarrow> fstate option" where
  "create_abort dirnode inode s =
     do { s \<leftarrow> inode_unlock inode s;
          s \<leftarrow> arc_drop inode s;
          s \<leftarrow> inode_unlock dirnode s;
          arc_drop dirnode s }"

definition create_existing :: "inode_file_type \<Rightarrow> nat \<Rightarrow> nat \<Rightarrow> fstate \<Rightarrow> (nat fs_result \<times> fstate) option" where
  "create_existing ft dirnode inode s =
     do { s \<leftarrow> inode_lock inode s;
          n \<leftarrow> inode_at inode s;
          if ft = File \<and> i_file_type (in_data n) = File then
            do { s \<leftarrow> arc_clone inode s;
                 s \<leftarrow> create_abort dirnode inode s;
                 Some (Inr inode, s) }
          else
            do { s \<leftarrow> create_abort dirnode inode s; Some (Inl InvalidFileType, s) } }"

text \<open>The entries \<open>.\<close> and \<open>..\<close> of a new directory.\<close>

definition create_dots :: "nat \<Rightarrow> nat \<Rightarrow> fstate \<Rightarrow> (unit fs_result \<times> fstate) option" where
  "create_dots dirnode inode s =
     do { dn \<leftarrow> inode_at dirnode s;
          nl \<leftarrow> add_i16 (i_nlink (in_data dn)) 1;
          s \<leftarrow> modify_data dirnode (\<lambda>d. d\<lparr>i_nlink := nl\<rparr>) s;
          s \<leftarrow> inode_update dirnode s;
          n \<leftarrow> inode_at inode s;
          (r, s) \<leftarrow> dirlink inode [46] (in_inum n) s;
          case r of
            Inl e \<Rightarrow> Some (Inl e, s)
          | Inr _ \<Rightarrow> dirlink inode [46, 46] (in_inum dn) s }"

definition create :: "bytes \<Rightarrow> inode_file_type \<Rightarrow> int \<Rightarrow> int \<Rightarrow> fstate \<Rightarrow> (nat fs_result \<times> fstate) option" where
  "create path ft major minor s =
     do { (r, s) \<leftarrow> nameiparent path s;
          case r of
            Inl e \<Rightarrow> Some (Inl e, s)
          | Inr (dirnode, name) \<Rightarrow>
              do { s \<leftarrow> inode_lock dirnode s;
                   (r, s) \<leftarrow> dirlookup dirnode name s;
                   case r of
                     Inr (_, inode) \<Rightarrow> create_existing ft dirnode inode s
                   | Inl _ \<Rightarrow>
                       do { dn \<leftarrow> inode_at dirnode s;
                            (r, s) \<leftarrow> inode_alloc (in_device dn) ft s;
                            case r of
                              Inl _ \<Rightarrow> None
                            | Inr inode \<Rightarrow>
                                do { s \<leftarrow> inode_lock inode s;
                                     s \<leftarrow> modify_data inode
                                           (\<lambda>d. d\<lparr>i_major := major, i_minor := minor, i_nlink := 1\<rparr>) s;
                                     s \<leftarrow> inode_update inode s;
                                     (r, s) \<leftarrow> (if ft = Directory then create_dots dirnode inode s
                                              else Some (Inr (), s));
                                     (r, s) \<leftarrow>
                                       (case r of
                                          Inl e \<Rightarrow> Some (Inl e, s)
                                        | Inr _ \<Rightarrow>
                                            do { n \<leftarrow> inode_at inode s;
                                                 dirlink dirnode name (in_inum n) s });
                                     case r of
                                       Inl e \<Rightarrow>
                                         do { s \<leftarrow> create_abort dirnode inode s; Some (Inl e, s) }
                                     | Inr _ \<Rightarrow>
                                         do { s \<leftarrow> inode_unlock inode s;
                                              s \<leftarrow> inode_unlock dirnode s;
                                              s \<leftarrow> arc_drop dirnode s;
                                              Some (Inr inode, s) } } } } }"

end
