(* ===== verification/Queues.thy ===== *)
theory Queues
  imports Redleaf_Base
begin

text \<open>
  Bounded first-in-first-out queues.  The locale \<open>fifo\<close> states what such a queue promises and what
  follows for whole sequences of operations; it is interpreted on the kernel's circular buffer
  (\<^verbatim>\<open>src/kernel/src/cb.rs\<close>) here, and on the file system's pipe and the shared heap's deque in their
  own theories.
\<close>

fun push_all :: "('a \<Rightarrow> 'q \<Rightarrow> 'q option) \<Rightarrow> 'a list \<Rightarrow> 'q \<Rightarrow> 'q option" where
  "push_all push [] q = Some q"
| "push_all push (x # xs) q = do { q \<leftarrow> push x q; push_all push xs q }"

fun pop_many :: "('q \<Rightarrow> ('a \<times> 'q) option) \<Rightarrow> nat \<Rightarrow> 'q \<Rightarrow> ('a list \<times> 'q) option" where
  "pop_many pop 0 q = Some ([], q)"
| "pop_many pop (Suc n) q = do { (x, q) \<leftarrow> pop q; (xs, q) \<leftarrow> pop_many pop n q; Some (x # xs, q) }"

section \<open>The circular buffer\<close>

datatype cb_error = QueueIsFull | QueueIsEmpty | InvalidAccess

record 'a circular_buffer =
  cb_buf :: "'a list"
  cb_head :: nat
  cb_tail :: nat
  cb_size :: nat

abbreviation INITIAL_CAPACITY :: nat where "INITIAL_CAPACITY \<equiv> 8"

definition is_queue_full :: "'a circular_buffer \<Rightarrow> bool option" where
  "is_queue_full c =
     do { m \<leftarrow> sub_chk (cb_size c) 1; Some ((cb_tail c + 1) AND m = cb_head c) }"

definition is_queue_empty :: "'a circular_buffer \<Rightarrow> bool" where
  "is_queue_empty c \<longleftrightarrow> cb_tail c = cb_head c"

definition cb_new_with_size :: "'a \<Rightarrow> nat \<Rightarrow> 'a circular_buffer" where
  "cb_new_with_size dflt n = \<lparr>cb_buf = replicate n dflt, cb_head = 0, cb_tail = 0, cb_size = n\<rparr>"

definition cb_new :: "'a \<Rightarrow> 'a circular_buffer" where
  "cb_new dflt = cb_new_with_size dflt INITIAL_CAPACITY"

definition cb_push :: "'a \<Rightarrow> 'a circular_buffer \<Rightarrow> ((cb_error + unit) \<times> 'a circular_buffer) option" where
  "cb_push val c =
     do { full \<leftarrow> is_queue_full c;
          if full then Some (Inl QueueIsFull, c)
          else if cb_tail c < length (cb_buf c) then
            do { m \<leftarrow> sub_chk (cb_size c) 1;
                 Some (Inr (), c\<lparr>cb_buf := (cb_buf c)[cb_tail c := val],
                                 cb_tail := (cb_tail c + 1) AND m\<rparr>) }
          else Some (Inr (), c) }"

definition cb_pop :: "'a circular_buffer \<Rightarrow> ((cb_error + 'a) \<times> 'a circular_buffer) option" where
  "cb_pop c =
     (if is_queue_empty c then Some (Inl QueueIsEmpty, c)
      else if cb_head c < length (cb_buf c) then
        do { m \<leftarrow> sub_chk (cb_size c) 1;
             Some (Inr (cb_buf c ! cb_head c), c\<lparr>cb_head := (cb_head c + 1) AND m\<rparr>) }
      else Some (Inl InvalidAccess, c))"

text \<open>The elements in order, and the shape the code relies on: a capacity that is a power of two.\<close>

definition cb_items :: "'a circular_buffer \<Rightarrow> 'a list" where
  "cb_items c = map (\<lambda>k. cb_buf c ! ((cb_head c + k) mod cb_size c))
     [0..<(cb_tail c + cb_size c - cb_head c) mod cb_size c]"

definition cb_ok :: "'a circular_buffer \<Rightarrow> bool" where
  "cb_ok c \<longleftrightarrow> (\<exists>k. cb_size c = 2 ^ k) \<and> length (cb_buf c) = cb_size c \<and> cb_head c < cb_size c \<and> cb_tail c < cb_size c"

definition cb_enq :: "'a \<Rightarrow> 'a circular_buffer \<Rightarrow> 'a circular_buffer option" where
  "cb_enq x c = (case cb_push x c of Some (Inr u, c') \<Rightarrow> Some c' | _ \<Rightarrow> None)"

definition cb_deq :: "'a circular_buffer \<Rightarrow> ('a \<times> 'a circular_buffer) option" where
  "cb_deq c = (case cb_pop c of Some (Inr x, c') \<Rightarrow> Some (x, c') | _ \<Rightarrow> None)"

section \<open>The contract of a bounded queue\<close>

locale fifo =
  fixes push :: "'a \<Rightarrow> 'q \<Rightarrow> 'q option"
    and pop :: "'q \<Rightarrow> ('a \<times> 'q) option"
    and items :: "'q \<Rightarrow> 'a list"
    and ok :: "'q \<Rightarrow> bool"
    and cap :: "'q \<Rightarrow> nat"
  assumes push_ok: "ok q \<Longrightarrow> length (items q) < cap q \<Longrightarrow>
      \<exists>q'. push x q = Some q' \<and> ok q' \<and> items q' = items q @ [x] \<and> cap q' = cap q"
    and push_full: "ok q \<Longrightarrow> cap q \<le> length (items q) \<Longrightarrow> push x q = None"
    and pop_ok: "ok q \<Longrightarrow> items q = x # xs \<Longrightarrow>
      \<exists>q'. pop q = Some (x, q') \<and> ok q' \<and> items q' = xs"
    and pop_empty: "ok q \<Longrightarrow> items q = [] \<Longrightarrow> pop q = None"
    and items_cap: "ok q \<Longrightarrow> length (items q) \<le> cap q"
begin

lemma push_all_ok:
  "ok q \<Longrightarrow> length (items q) + length xs \<le> cap q \<Longrightarrow>
   \<exists>q'. push_all push xs q = Some q' \<and> ok q' \<and> items q' = items q @ xs \<and> cap q' = cap q"
proof (induction xs arbitrary: q)
  case (Cons x xs)
  then obtain q1 where 1: "push x q = Some q1" "ok q1" "items q1 = items q @ [x]" "cap q1 = cap q"
    using push_ok[of q x] by auto
  with Cons.IH[of q1] Cons.prems show ?case by auto
qed simp

lemma push_all_full:
  "ok q \<Longrightarrow> cap q < length (items q) + length xs \<Longrightarrow> push_all push xs q = None"
proof (induction xs arbitrary: q)
  case Nil
  then show ?case using items_cap[of q] by simp
next
  case (Cons x xs)
  show ?case
  proof (cases "length (items q) < cap q")
    case True
    then obtain q1 where 1: "push x q = Some q1" "ok q1" "items q1 = items q @ [x]" "cap q1 = cap q"
      using push_ok[of q x] Cons.prems by auto
    with Cons.IH[of q1] Cons.prems show ?thesis by simp
  next
    case False
    then show ?thesis using push_full[of q x] Cons.prems by simp
  qed
qed

lemma pop_many_ok:
  "ok q \<Longrightarrow> n \<le> length (items q) \<Longrightarrow>
   \<exists>q'. pop_many pop n q = Some (take n (items q), q') \<and> ok q' \<and> items q' = drop n (items q)"
proof (induction n arbitrary: q)
  case (Suc n)
  then obtain x xs where q: "items q = x # xs" by (cases "items q") auto
  then obtain q1 where 1: "pop q = Some (x, q1)" "ok q1" "items q1 = xs"
    using pop_ok[of q x xs] Suc.prems by auto
  with Suc.IH[of q1] Suc.prems q show ?case by auto
qed simp

text \<open>What goes in comes out, in the same order, after what was there before.\<close>

lemma fifo_order:
  assumes "ok q" "length (items q) + length xs \<le> cap q"
  shows "\<exists>q1 q2. push_all push xs q = Some q1 \<and>
    pop_many pop (length (items q) + length xs) q1 = Some (items q @ xs, q2) \<and> ok q2 \<and> items q2 = []"
proof -
  obtain q1 where 1: "push_all push xs q = Some q1" "ok q1" "items q1 = items q @ xs"
    using push_all_ok[OF assms] by blast
  with pop_many_ok[of q1 "length (items q) + length xs"] show ?thesis by auto
qed

end

section \<open>The circular buffer implements it\<close>

lemma ring_length_push:
  assumes "h < n" "t < n" "(t + n - h) mod n < n - 1"
  shows "((t + 1) mod n + n - h) mod n = (t + n - h) mod n + (1 :: nat)"
proof -
  have "((t + 1) mod n + n - h) mod n = (t + 1 + n - h) mod n"
  proof (cases "t + 1 = n")
    case True
    then show ?thesis using assms(1) by (simp add: mod_if)
  qed (use assms in simp)
  also have "... = ((t + n - h) mod n + 1) mod n"
  proof -
    have "t + 1 + n - h = t + n - h + 1" using assms(1) by simp
    then show ?thesis by (metis mod_add_left_eq)
  qed
  also have "... = (t + n - h) mod n + 1" using assms(3) by simp
  finally show ?thesis .
qed

lemma ring_length_pop:
  assumes "h < n" "t < n" "0 < (t + n - h) mod n"
  shows "(t + n - (h + 1) mod n) mod n + 1 = (t + n - h) mod (n :: nat)"
proof (cases "h + 1 = n")
  case True
  then have e: "t + n - h = t + 1" by linarith
  have "t + 1 < n" using assms(2,3) unfolding e by (cases "t + 1 = n") auto
  then show ?thesis unfolding e using True by simp
next
  case False
  then have h: "(h + 1) mod n = h + 1" using assms(1) by simp
  define d where "d = t + n - (h + 1)"
  have "t + n - h = d + 1" using assms(1) by (simp add: d_def)
  then have "0 < (d + 1) mod n" "(t + n - h) mod n = (d + 1) mod n" using assms(3) by simp_all
  moreover have "(d + 1) mod n = (if d mod n + 1 = n then 0 else d mod n + 1)"
    using mod_Suc[of d n] unfolding Suc_eq_plus1 .
  ultimately show ?thesis unfolding h d_def[symmetric] by (auto split: if_splits)
qed

lemma cb_items_length: "cb_ok c \<Longrightarrow> length (cb_items c) = (cb_tail c + cb_size c - cb_head c) mod cb_size c"
  by (simp add: cb_items_def)

lemma cb_mask:
  assumes "cb_ok c"
  shows "sub_chk (cb_size c) 1 = Some (cb_size c - 1)" "n AND (cb_size c - 1) = n mod cb_size c" "0 < cb_size c"
proof -
  obtain k where "cb_size c = 2 ^ k" using assms by (auto simp: cb_ok_def)
  then show "sub_chk (cb_size c) 1 = Some (cb_size c - 1)" "n AND (cb_size c - 1) = n mod cb_size c" "0 < cb_size c"
    by (simp_all add: sub_chk_def and_pow2_mod)
qed

lemma cb_full_iff:
  assumes "cb_ok c"
  shows "(cb_tail c + 1) mod cb_size c = cb_head c \<longleftrightarrow> length (cb_items c) = cb_size c - 1"
proof -
  let ?n = "cb_size c" and ?t = "cb_tail c" and ?h = "cb_head c"
  have b: "?h < ?n" "?t < ?n" using assms by (auto simp: cb_ok_def)
  have "(?t + ?n - ?h) mod ?n = (if ?h \<le> ?t then ?t - ?h else ?t + ?n - ?h)"
    using b by (auto simp: mod_if)
  moreover have "(?t + 1) mod ?n = (if ?t + 1 = ?n then 0 else ?t + 1)" using b by (auto simp: mod_if)
  ultimately show ?thesis using b unfolding cb_items_length[OF assms] by (auto split: if_splits)
qed

lemma cb_enq_ok:
  assumes ok: "cb_ok c" and l: "length (cb_items c) < cb_size c - 1"
  shows "\<exists>c'. cb_enq x c = Some c' \<and> cb_ok c' \<and> cb_items c' = cb_items c @ [x] \<and> cb_size c' = cb_size c"
proof -
  let ?n = "cb_size c" and ?t = "cb_tail c" and ?h = "cb_head c"
  define c' where "c' = c\<lparr>cb_buf := (cb_buf c)[?t := x], cb_tail := (?t + 1) mod ?n\<rparr>"
  have b: "?h < ?n" "?t < ?n" "length (cb_buf c) = ?n" using ok by (auto simp: cb_ok_def)
  have "(?t + 1) mod ?n \<noteq> ?h" using cb_full_iff[OF ok] l by simp
  then have e: "cb_enq x c = Some c'"
    using b cb_mask[OF ok] by (simp add: cb_enq_def cb_push_def is_queue_full_def c'_def)
  have ok': "cb_ok c'" using ok cb_mask(3)[OF ok] by (auto simp: cb_ok_def c'_def)
  let ?l = "(?t + ?n - ?h) mod ?n"
  have len: "?l < ?n - 1" using l unfolding cb_items_length[OF ok] .
  have l': "(cb_tail c' + ?n - ?h) mod ?n = ?l + 1"
    using ring_length_push[OF b(1,2) len] by (simp add: c'_def)
  have "(?h + ?l) mod ?n = ?t"
    using b mod_add_right_eq[of ?h "?t + ?n - ?h" ?n] by simp
  moreover have "(?h + k) mod ?n \<noteq> ?t" if "k < ?l" for k
  proof
    assume "(?h + k) mod ?n = ?t"
    with \<open>(?h + ?l) mod ?n = ?t\<close> have "(?h + k) mod ?n = (?h + ?l) mod ?n" by simp
    from mod_add_less[OF this that] len show False by simp
  qed
  ultimately have "cb_items c' = cb_items c @ [x]"
    unfolding cb_items_def using l' b
    by (simp add: c'_def flip: Suc_eq_plus1) (metis atLeastLessThan_iff nth_list_update_neq)
  with e ok' show ?thesis by (auto simp: c'_def)
qed

lemma cb_deq_ok:
  assumes ok: "cb_ok c" and i: "cb_items c = x # xs"
  shows "\<exists>c'. cb_deq c = Some (x, c') \<and> cb_ok c' \<and> cb_items c' = xs \<and> cb_size c' = cb_size c"
proof -
  let ?n = "cb_size c" and ?t = "cb_tail c" and ?h = "cb_head c"
  define c' where "c' = c\<lparr>cb_head := (?h + 1) mod ?n\<rparr>"
  have b: "?h < ?n" "?t < ?n" "length (cb_buf c) = ?n" using ok by (auto simp: cb_ok_def)
  let ?l = "(?t + ?n - ?h) mod ?n"
  have len: "?l = length xs + 1" using cb_items_length[OF ok] i by simp
  then have ne: "?t \<noteq> ?h" by auto
  have f: "cb_items c = map (\<lambda>k. cb_buf c ! ((?h + k) mod ?n)) (0 # [1..<?l])"
    unfolding cb_items_def using len by (simp add: upt_conv_Cons One_nat_def del: upt_Suc)
  then have x: "x = cb_buf c ! ?h" and xs: "xs = map (\<lambda>k. cb_buf c ! ((?h + k) mod ?n)) [1..<?l]"
    using i b by simp_all
  have d: "cb_deq c = Some (x, c')"
    using b ne cb_mask[OF ok] x by (simp add: cb_deq_def cb_pop_def is_queue_empty_def c'_def)
  have ok': "cb_ok c'" using ok cb_mask(3)[OF ok] by (auto simp: cb_ok_def c'_def)
  have l': "(?t + ?n - cb_head c') mod ?n + 1 = ?l"
    using ring_length_pop[OF b(1,2)] len by (simp add: c'_def)
  have r: "map Suc [0..<length xs] = [1..<?l]"
    using len by (simp add: map_Suc_upt One_nat_def)
  have "cb_items c' = map (\<lambda>k. cb_buf c ! (((?h + 1) mod ?n + k) mod ?n)) [0..<length xs]"
    unfolding cb_items_def using l' len by (simp add: c'_def)
  also have "... = map (\<lambda>k. cb_buf c ! ((?h + k) mod ?n)) (map Suc [0..<length xs])"
    by (simp add: mod_add_left_eq One_nat_def)
  also have "... = xs" by (simp only: r xs[symmetric])
  finally show ?thesis using d ok' by (auto simp: c'_def)
qed

interpretation cb: fifo cb_enq cb_deq cb_items cb_ok "\<lambda>c. cb_size c - 1"
proof (unfold_locales, goal_cases)
  case (1 q x)
  then show ?case using cb_enq_ok[of q x] by auto
next
  case (2 q x)
  have "length (cb_items q) < cb_size q" using cb_mask(3)[OF 2(1)] by (simp add: cb_items_def)
  then have "(cb_tail q + 1) mod cb_size q = cb_head q" using 2 cb_full_iff[OF 2(1)] by simp
  then show ?case using cb_mask[OF 2(1)] by (simp add: cb_enq_def cb_push_def is_queue_full_def)
next
  case (3 q x xs)
  then show ?case using cb_deq_ok[of q x xs] by auto
next
  case (4 q)
  then have "(cb_tail q + cb_size q - cb_head q) mod cb_size q = 0" using cb_items_length[of q] by simp
  then have "cb_tail q = cb_head q" using 4(1) by (auto simp: cb_ok_def mod_if split: if_splits)
  then show ?case by (simp add: cb_deq_def cb_pop_def is_queue_empty_def)
next
  case (5 q)
  have "length (cb_items q) < cb_size q" using cb_mask(3)[OF 5] by (simp add: cb_items_def)
  then show ?case by simp
qed

text \<open>The kernel's circular buffer is a queue: whatever fits is accepted, and comes out in the
  order it went in, after what was there before.\<close>

theorem circular_buffer_fifo:
  assumes "cb_ok c" "length (cb_items c) + length xs < cb_size c"
  shows "\<exists>c1 c2. push_all cb_enq xs c = Some c1 \<and>
    pop_many cb_deq (length (cb_items c) + length xs) c1 = Some (cb_items c @ xs, c2) \<and>
    cb_ok c2 \<and> cb_items c2 = []"
  using cb.fifo_order[of c xs] assms by simp

lemma circular_buffer_fifo_witness:
  "\<exists>c1 c2. push_all cb_enq [1, 2, 3] (cb_new (0 :: nat)) = Some c1 \<and>
     pop_many cb_deq 3 c1 = Some ([1, 2, 3], c2) \<and> cb_ok c2 \<and> cb_items c2 = []"
proof -
  have "cb_ok (cb_new (0 :: nat))"
    by (auto simp: cb_ok_def cb_new_def cb_new_with_size_def intro: exI[of _ 3])
  moreover have i: "cb_items (cb_new (0 :: nat)) = []" and n: "cb_size (cb_new (0 :: nat)) = 8"
    by (simp_all add: cb_items_def cb_new_def cb_new_with_size_def)
  moreover have l: "length (cb_items (cb_new (0 :: nat))) + length [1, 2, 3 :: nat] = 3"
    by (simp add: i numeral_3_eq_3)
  ultimately show ?thesis
    using circular_buffer_fifo[of "cb_new (0 :: nat)" "[1, 2, 3]"] unfolding l by (simp only: i n) simp
qed

end
