(* ===== verification/Pipe.thy ===== *)
theory Pipe
  imports Queues Vfs
begin

text \<open>
  Pipes, \<^verbatim>\<open>src/domains/usr/xv6/kernel/fs/src/pipe.rs\<close>.

  The bytes of a pipe are guarded by one mutex, which \<open>write\<close> and \<open>read\<close> give up only inside
  \<open>CondVar::sleep_until\<close>.  Each operation is therefore a sequence of atomic segments, one for every
  time it holds the mutex: \<open>write_segment\<close> and \<open>read_segment\<close> run one of them and say whether the
  call returned or will be back for the mutex (\<open>Again\<close>, in \<open>sleep_until\<close>).  \<open>pp_read_wakes\<close> and \<open>pp_write_wakes\<close> count the calls of
  \<open>wakeup\<close> on the two condition variables.
\<close>

abbreviation PIPESIZE :: nat where "PIPESIZE \<equiv> 512"

record pipe_internal =
  pi_data :: bytes
  pi_nread :: nat
  pi_nwrite :: nat
  pi_readopen :: bool
  pi_writeopen :: bool

record pipe =
  pp_int :: pipe_internal
  pp_read_wakes :: nat
  pp_write_wakes :: nat

datatype write_state = Entering | Writing bytes

datatype ('r, 's) segment = Returned 'r | Again 's

definition PipeInternal_new :: pipe_internal where
  "PipeInternal_new = \<lparr>pi_data = replicate PIPESIZE 0, pi_nread = 0, pi_nwrite = 0,
                       pi_readopen = True, pi_writeopen = True\<rparr>"

definition Pipe_new :: pipe where
  "Pipe_new = \<lparr>pp_int = PipeInternal_new, pp_read_wakes = 0, pp_write_wakes = 0\<rparr>"

definition wake_readers :: "pipe \<Rightarrow> pipe" where
  "wake_readers p = p\<lparr>pp_read_wakes := pp_read_wakes p + 1\<rparr>"

definition wake_writers :: "pipe \<Rightarrow> pipe" where
  "wake_writers p = p\<lparr>pp_write_wakes := pp_write_wakes p + 1\<rparr>"

definition pipe_close :: "bool \<Rightarrow> pipe \<Rightarrow> pipe" where
  "pipe_close writable p =
     (if writable then wake_readers (p\<lparr>pp_int := (pp_int p)\<lparr>pi_writeopen := False\<rparr>\<rparr>)
      else wake_writers (p\<lparr>pp_int := (pp_int p)\<lparr>pi_readopen := False\<rparr>\<rparr>))"

section \<open>Writing\<close>

definition write_pred :: "pipe_internal \<Rightarrow> bool option" where
  "write_pred p =
     (if \<not> pi_readopen p then Some True
      else do { lim \<leftarrow> add_usize (pi_nread p) PIPESIZE; Some (pi_nwrite p < lim) })"

text \<open>The copy of one byte into the buffer.\<close>

definition put_byte :: "u8 \<Rightarrow> pipe_internal \<Rightarrow> pipe_internal option" where
  "put_byte c p =
     do { d \<leftarrow> upd_chk (pi_data p) (pi_nwrite p mod PIPESIZE) c;
          n \<leftarrow> add_usize (pi_nwrite p) 1;
          Some (p\<lparr>pi_data := d, pi_nwrite := n\<rparr>) }"

text \<open>
  The loop over the bytes, up to the end or to the point where it sleeps.  An iteration starts with
  the test for a full buffer; after it has slept it goes on at \<open>write_byte\<close>.
\<close>

fun write_bytes :: "nat \<Rightarrow> bytes \<Rightarrow> pipe \<Rightarrow> ((nat fs_result, write_state) segment \<times> pipe) option" where
  "write_bytes len [] p = Some (Returned (Inr len), wake_readers p)"
| "write_bytes len (c # cs) p =
     do { lim \<leftarrow> add_usize (pi_nread (pp_int p)) PIPESIZE;
          if pi_nwrite (pp_int p) = lim then Some (Again (Writing (c # cs)), p)
          else do { i \<leftarrow> put_byte c (pp_int p); write_bytes len cs (p\<lparr>pp_int := i\<rparr>) } }"

definition write_byte :: "nat \<Rightarrow> u8 \<Rightarrow> bytes \<Rightarrow> pipe \<Rightarrow> ((nat fs_result, write_state) segment \<times> pipe) option" where
  "write_byte len c cs p =
     do { broken \<leftarrow> (if \<not> pi_readopen (pp_int p) then
                      do { lim \<leftarrow> add_usize (pi_nread (pp_int p)) PIPESIZE;
                           Some (pi_nwrite (pp_int p) = lim) }
                    else Some False);
          if broken then Some (Returned (Inl BrokenPipe), p)
          else do { i \<leftarrow> put_byte c (pp_int p); write_bytes len cs (p\<lparr>pp_int := i\<rparr>) } }"

definition write_segment :: "bytes \<Rightarrow> write_state \<Rightarrow> pipe \<Rightarrow> ((nat fs_result, write_state) segment \<times> pipe) option" where
  "write_segment data st p =
     do { ready \<leftarrow> write_pred (pp_int p);
          if \<not> ready then Some (Again st, wake_readers p)
          else
            (case st of
               Entering \<Rightarrow>
                 if \<not> pi_readopen (pp_int p) then Some (Returned (Inl BrokenPipe), p)
                 else write_bytes (length data) data p
             | Writing [] \<Rightarrow> write_bytes (length data) [] p
             | Writing (c # cs) \<Rightarrow> write_byte (length data) c cs p) }"

section \<open>Reading\<close>

definition read_pred :: "pipe_internal \<Rightarrow> bool" where
  "read_pred p \<longleftrightarrow> \<not> pi_writeopen p \<or> pi_nread p \<noteq> pi_nwrite p"

definition get_byte :: "pipe_internal \<Rightarrow> (u8 \<times> pipe_internal) option" where
  "get_byte p =
     do { c \<leftarrow> nth_chk (pi_data p) (pi_nread p mod PIPESIZE);
          n \<leftarrow> add_usize (pi_nread p) 1;
          Some (c, p\<lparr>pi_nread := n\<rparr>) }"

text \<open>The bytes copied to a buffer with \<open>k\<close> places left.\<close>

fun read_bytes :: "nat \<Rightarrow> pipe_internal \<Rightarrow> (bytes \<times> pipe_internal) option" where
  "read_bytes 0 p = Some ([], p)"
| "read_bytes (Suc k) p =
     (if pi_nread p = pi_nwrite p then Some ([], p)
      else do { (c, p) \<leftarrow> get_byte p; (cs, p) \<leftarrow> read_bytes k p; Some (c # cs, p) })"

definition read_segment :: "bytes \<Rightarrow> pipe \<Rightarrow> ((nat fs_result \<times> bytes, unit) segment \<times> pipe) option" where
  "read_segment buf p =
     (if \<not> read_pred (pp_int p) then Some (Again (), p)
      else do { (cs, i) \<leftarrow> read_bytes (length buf) (pp_int p);
                Some (Returned (Inr (length cs), cs @ drop (length cs) buf), wake_writers (p\<lparr>pp_int := i\<rparr>)) })"

section \<open>Runs of a pipe\<close>

text \<open>
  Any number of threads use the pipe.  \<open>py_writers t\<close> is the write call thread \<open>t\<close> is in, if any;
  readers have no state to keep between segments.  \<open>py_sent\<close> collects the bytes in the order in
  which they entered the buffer, \<open>py_received\<close> the bytes readers were given.
\<close>

record pipe_sys =
  py_pipe :: pipe
  py_writers :: "nat \<Rightarrow> (bytes \<times> write_state) option"
  py_sent :: bytes
  py_received :: bytes

definition rest_of :: "bytes \<Rightarrow> write_state \<Rightarrow> bytes" where
  "rest_of data st = (case st of Entering \<Rightarrow> data | Writing rest \<Rightarrow> rest)"

text \<open>The bytes a segment moved: those that were left before it and are not left after it.\<close>

definition moved :: "bytes \<Rightarrow> write_state \<Rightarrow> (nat fs_result, write_state) segment \<Rightarrow> bytes" where
  "moved data st r =
     (let rest = rest_of data st
      in case r of
           Returned (Inr n) \<Rightarrow> rest
         | Returned (Inl e) \<Rightarrow> []
         | Again st' \<Rightarrow> take (length rest - length (rest_of data st')) rest)"

definition pipe_sys_init :: pipe_sys where
  "pipe_sys_init = \<lparr>py_pipe = Pipe_new, py_writers = Map.empty, py_sent = [], py_received = []\<rparr>"

inductive pipe_step :: "pipe_sys \<Rightarrow> pipe_sys \<Rightarrow> bool" where
  call_write: "py_writers s t = None \<Longrightarrow>
     pipe_step s (s\<lparr>py_writers := (py_writers s)(t \<mapsto> (data, Entering))\<rparr>)"
| write_sleeps: "py_writers s t = Some (data, st) \<Longrightarrow> write_segment data st (py_pipe s) = Some (Again st', p) \<Longrightarrow>
     pipe_step s (s\<lparr>py_pipe := p, py_writers := (py_writers s)(t \<mapsto> (data, st')),
                    py_sent := py_sent s @ moved data st (Again st')\<rparr>)"
| write_returns: "py_writers s t = Some (data, st) \<Longrightarrow> write_segment data st (py_pipe s) = Some (Returned r, p) \<Longrightarrow>
     pipe_step s (s\<lparr>py_pipe := p, py_writers := (py_writers s)(t := None),
                    py_sent := py_sent s @ moved data st (Returned r)\<rparr>)"
| read_returns: "read_segment buf (py_pipe s) = Some (Returned (Inr n, buf'), p) \<Longrightarrow>
     pipe_step s (s\<lparr>py_pipe := p, py_received := py_received s @ take n buf'\<rparr>)"
| closes: "pipe_step s (s\<lparr>py_pipe := pipe_close writable (py_pipe s)\<rparr>)"

inductive_cases pipe_stepE: "pipe_step s s'"

section \<open>The queue behind the pipe\<close>

definition pending :: "pipe_internal \<Rightarrow> bytes" where
  "pending p = map (\<lambda>i. pi_data p ! (i mod PIPESIZE)) [pi_nread p..<pi_nwrite p]"

definition pipe_ok :: "pipe_internal \<Rightarrow> bool" where
  "pipe_ok p \<longleftrightarrow> length (pi_data p) = PIPESIZE \<and> pi_nread p \<le> pi_nwrite p \<and>
     pi_nwrite p \<le> pi_nread p + PIPESIZE \<and> pi_nwrite p < 2 ^ 64"

definition pipe_enq :: "u8 \<Rightarrow> pipe_internal \<Rightarrow> pipe_internal option" where
  "pipe_enq c p =
     do { lim \<leftarrow> add_usize (pi_nread p) PIPESIZE;
          if pi_nwrite p = lim then None else put_byte c p }"

definition pipe_deq :: "pipe_internal \<Rightarrow> (u8 \<times> pipe_internal) option" where
  "pipe_deq p = (if pi_nread p = pi_nwrite p then None else get_byte p)"

text \<open>512, until the counters come within 512 of the end of their range.\<close>

definition pipe_cap :: "pipe_internal \<Rightarrow> nat" where
  "pipe_cap p = (if pi_nread p + PIPESIZE < 2 ^ 64 then PIPESIZE else pi_nwrite p - pi_nread p)"

section \<open>Lemmas\<close>

lemma length_pending [simp]: "length (pending p) = pi_nwrite p - pi_nread p"
  by (simp add: pending_def)

lemma pending_put:
  assumes "pipe_ok p" "pi_nwrite p < pi_nread p + PIPESIZE"
  shows "pending (p\<lparr>pi_data := (pi_data p)[pi_nwrite p mod PIPESIZE := c], pi_nwrite := pi_nwrite p + 1\<rparr>)
    = pending p @ [c]"
proof -
  let ?n = "pi_nwrite p" and ?r = "pi_nread p"
  have b: "length (pi_data p) = PIPESIZE" "?r \<le> ?n" using assms(1) by (auto simp: pipe_ok_def)
  have "?n mod PIPESIZE \<noteq> i mod PIPESIZE" if "?r \<le> i" "i < ?n" for i
  proof
    assume "?n mod PIPESIZE = i mod PIPESIZE"
    then have "PIPESIZE dvd ?n - i" using that by (metis less_imp_le mod_eq_dvd_iff_nat)
    then have "PIPESIZE \<le> ?n - i" using that by (intro dvd_imp_le) auto
    then show False using assms(2) that by simp
  qed
  then show ?thesis
    using b by (auto simp: pending_def upt_Suc_append simp flip: Suc_eq_plus1)
qed

lemma pending_get:
  assumes "pi_nread p < pi_nwrite p"
  shows "pending p = pi_data p ! (pi_nread p mod PIPESIZE) # pending (p\<lparr>pi_nread := pi_nread p + 1\<rparr>)"
  using assms by (simp add: pending_def upt_conv_Cons flip: Suc_eq_plus1)

interpretation pipeq: fifo pipe_enq pipe_deq pending pipe_ok pipe_cap
proof (unfold_locales, goal_cases)
  case (1 q x)
  then have b: "pi_nread q + PIPESIZE < 2 ^ 64" "pi_nwrite q < pi_nread q + PIPESIZE"
    by (auto simp: pipe_cap_def pipe_ok_def split: if_splits)
  let ?q = "q\<lparr>pi_data := (pi_data q)[pi_nwrite q mod PIPESIZE := x], pi_nwrite := pi_nwrite q + 1\<rparr>"
  have "pipe_enq x q = Some ?q"
    using 1(1) b by (auto simp: pipe_enq_def put_byte_def pipe_ok_def panic_simps)
  moreover have "pipe_ok ?q" "pipe_cap ?q = pipe_cap q"
    using 1(1) b by (auto simp: pipe_ok_def pipe_cap_def)
  ultimately show ?case using pending_put[OF 1(1) b(2)] by blast
next
  case (2 q x)
  then show ?case
    by (auto simp: pipe_cap_def pipe_ok_def pipe_enq_def add_usize_def split: if_splits)
next
  case (3 q x xs)
  then have b: "pi_nread q < pi_nwrite q"
    using length_pending[of q] by (metis length_greater_0_conv list.distinct(1) zero_less_diff)
  let ?q = "q\<lparr>pi_nread := pi_nread q + 1\<rparr>"
  have "pipe_deq q = Some (pi_data q ! (pi_nread q mod PIPESIZE), ?q)"
    using 3(1) b by (auto simp: pipe_deq_def get_byte_def pipe_ok_def panic_simps)
  moreover have "pipe_ok ?q" using 3(1) b by (auto simp: pipe_ok_def)
  ultimately show ?case using pending_get[OF b] 3(2) by auto
next
  case (4 q)
  then have "pi_nread q = pi_nwrite q" using length_pending[of q] by (auto simp: pipe_ok_def)
  then show ?case by (simp add: pipe_deq_def)
next
  case (5 q)
  then show ?case by (auto simp: pipe_ok_def pipe_cap_def)
qed

lemma put_byte_enq:
  "pi_nwrite p \<noteq> pi_nread p + PIPESIZE \<Longrightarrow> pi_nread p + PIPESIZE < 2 ^ 64 \<Longrightarrow> put_byte c p = pipe_enq c p"
  by (simp add: pipe_enq_def add_usize_def)

lemma put_byte_spec:
  assumes "pipe_ok p" "put_byte c p = Some p'" "pi_nwrite p \<noteq> pi_nread p + PIPESIZE"
  shows "pipe_ok p'" "pending p' = pending p @ [c]" "pi_nread p' = pi_nread p"
    "pi_readopen p' = pi_readopen p" "pi_writeopen p' = pi_writeopen p"
proof -
  have p': "p' = p\<lparr>pi_data := (pi_data p)[pi_nwrite p mod PIPESIZE := c], pi_nwrite := pi_nwrite p + 1\<rparr>"
    and b: "pi_nwrite p + 1 < 2 ^ 64"
    using assms(2) by (auto simp: put_byte_def panic_simps)
  have l: "pi_nwrite p < pi_nread p + PIPESIZE" using assms(1,3) by (simp add: pipe_ok_def)
  show "pending p' = pending p @ [c]" unfolding p' by (rule pending_put[OF assms(1) l])
  show "pipe_ok p'" using assms(1) l b by (simp add: p' pipe_ok_def)
  show "pi_nread p' = pi_nread p" "pi_readopen p' = pi_readopen p" "pi_writeopen p' = pi_writeopen p"
    by (simp_all add: p')
qed

lemma wake_simps [simp]:
  "pp_int (wake_readers p) = pp_int p" "pp_int (wake_writers p) = pp_int p"
  by (simp_all add: wake_readers_def wake_writers_def)

text \<open>What a segment leaves alone.\<close>

definition same_ends :: "pipe \<Rightarrow> pipe \<Rightarrow> bool" where
  "same_ends p p' \<longleftrightarrow> pi_nread (pp_int p') = pi_nread (pp_int p) \<and>
     pi_readopen (pp_int p') = pi_readopen (pp_int p) \<and> pi_writeopen (pp_int p') = pi_writeopen (pp_int p)"

lemma write_bytes_spec:
  "pipe_ok (pp_int p) \<Longrightarrow> write_bytes len bs p = Some (r, p') \<Longrightarrow>
   pipe_ok (pp_int p') \<and> same_ends p p' \<and>
   (\<exists>ws rest. bs = ws @ rest \<and> pending (pp_int p') = pending (pp_int p) @ ws \<and>
     (rest = [] \<and> r = Returned (Inr len) \<or>
      rest \<noteq> [] \<and> r = Again (Writing rest) \<and> pi_nwrite (pp_int p') = pi_nread (pp_int p') + PIPESIZE))"
proof (induction bs arbitrary: p)
  case Nil
  then show ?case by (auto simp: same_ends_def)
next
  case (Cons c cs)
  show ?case
  proof (cases "pi_nwrite (pp_int p) = pi_nread (pp_int p) + PIPESIZE")
    case True
    then have "r = Again (Writing (c # cs))" "p' = p"
      using Cons.prems by (auto simp: panic_simps)
    then show ?thesis using Cons.prems(1) True by (auto simp: same_ends_def)
  next
    case False
    then obtain i where i: "put_byte c (pp_int p) = Some i"
      and w: "write_bytes len cs (p\<lparr>pp_int := i\<rparr>) = Some (r, p')"
      using Cons.prems(2) by (auto simp: panic_simps)
    note sp = put_byte_spec[OF Cons.prems(1) i False]
    from Cons.IH[OF _ w] sp(1) obtain ws rest where
      ih: "pipe_ok (pp_int p')" "same_ends (p\<lparr>pp_int := i\<rparr>) p'" "cs = ws @ rest"
        "pending (pp_int p') = pending i @ ws"
        "rest = [] \<and> r = Returned (Inr len) \<or>
         rest \<noteq> [] \<and> r = Again (Writing rest) \<and> pi_nwrite (pp_int p') = pi_nread (pp_int p') + PIPESIZE"
      by auto
    have "same_ends p p'" using ih(2) sp(3-5) by (simp add: same_ends_def)
    moreover have "c # cs = (c # ws) @ rest" "pending (pp_int p') = pending (pp_int p) @ (c # ws)"
      using ih(3,4) sp(2) by simp_all
    ultimately show ?thesis using ih(1,5) by blast
  qed
qed

lemma write_bytes_total:
  "pipe_ok (pp_int p) \<Longrightarrow> pi_nread (pp_int p) + PIPESIZE < 2 ^ 64 \<Longrightarrow> \<exists>r p'. write_bytes len bs p = Some (r, p')"
proof (induction bs arbitrary: p)
  case (Cons c cs)
  show ?case
  proof (cases "pi_nwrite (pp_int p) = pi_nread (pp_int p) + PIPESIZE")
    case True
    then show ?thesis using Cons.prems by (simp add: add_usize_def)
  next
    case False
    then have "length (pending (pp_int p)) < pipe_cap (pp_int p)"
      using Cons.prems by (auto simp: pipe_cap_def pipe_ok_def)
    then obtain i where i: "put_byte c (pp_int p) = Some i"
      using pipeq.push_ok[of "pp_int p" c] Cons.prems put_byte_enq[OF False] by auto
    note sp = put_byte_spec[OF Cons.prems(1) i False]
    obtain r p' where "write_bytes len cs (p\<lparr>pp_int := i\<rparr>) = Some (r, p')"
      using Cons.IH[of "p\<lparr>pp_int := i\<rparr>"] sp(1,3) Cons.prems(2) by auto
    then show ?thesis using i False Cons.prems(2) by (simp add: add_usize_def)
  qed
qed simp

lemma read_bytes_spec:
  "pipe_ok p \<Longrightarrow> \<exists>p'. read_bytes k p = Some (take k (pending p), p') \<and> pipe_ok p' \<and> pending p' = drop k (pending p) \<and>
     pi_nread p' = pi_nread p + min k (length (pending p)) \<and> pi_nwrite p' = pi_nwrite p \<and>
     pi_readopen p' = pi_readopen p \<and> pi_writeopen p' = pi_writeopen p"
proof (induction k arbitrary: p)
  case (Suc k)
  show ?case
  proof (cases "pi_nread p = pi_nwrite p")
    case True
    then show ?thesis using Suc.prems by (simp add: pending_def)
  next
    case False
    then have l: "pi_nread p < pi_nwrite p" using Suc.prems by (simp add: pipe_ok_def)
    let ?p = "p\<lparr>pi_nread := pi_nread p + 1\<rparr>"
    have g: "get_byte p = Some (pi_data p ! (pi_nread p mod PIPESIZE), ?p)"
      using Suc.prems l by (auto simp: get_byte_def pipe_ok_def panic_simps)
    have "pipe_ok ?p" using Suc.prems l by (auto simp: pipe_ok_def)
    from Suc.IH[OF this] obtain p' where
      ih: "read_bytes k ?p = Some (take k (pending ?p), p')" "pipe_ok p'" "pending p' = drop k (pending ?p)"
        "pi_nread p' = pi_nread p + 1 + min k (pi_nwrite p - (pi_nread p + 1))" "pi_nwrite p' = pi_nwrite p"
        "pi_readopen p' = pi_readopen p" "pi_writeopen p' = pi_writeopen p"
      by auto
    have "pi_nread p' = pi_nread p + min (Suc k) (pi_nwrite p - pi_nread p)" using ih(4) l by simp
    then show ?thesis using ih g False pending_get[OF l] by simp
  qed
qed simp

lemma write_pred_full:
  "write_pred p = Some ready \<Longrightarrow> ready \<longleftrightarrow> \<not> pi_readopen p \<or> pi_nwrite p < pi_nread p + PIPESIZE"
  by (auto simp: write_pred_def panic_simps split: if_splits)

text \<open>
  Every segment of a write appends to the queue exactly the bytes that it takes off the caller's
  list.
\<close>

lemma write_segment_spec:
  assumes ok: "pipe_ok (pp_int p)" and w: "write_segment data st p = Some (r, p')"
  shows "pipe_ok (pp_int p') \<and> pending (pp_int p') = pending (pp_int p) @ moved data st r \<and> same_ends p p'"
proof -
  obtain ready where rd: "write_pred (pp_int p) = Some ready"
    using w by (auto simp: write_segment_def panic_simps)
  note w' = w[unfolded write_segment_def rd bind.bind_lunit]
  have bytes: "pipe_ok (pp_int p') \<and> pending (pp_int p') = pending (pp_int p) @ ws @ moved data st' r \<and> same_ends p p'"
    if "write_bytes (length data) (rest_of data st') q = Some (r, p')" "pipe_ok (pp_int q)"
      "pending (pp_int q) = pending (pp_int p) @ ws" "same_ends p q" for q ws st'
    using write_bytes_spec[OF that(2,1)] that(3,4)
    by (auto simp: moved_def rest_of_def same_ends_def Let_def split: write_state.splits)
  show ?thesis
  proof (cases ready)
    case False
    then have "r = Again st" "p' = wake_readers p" using w' by auto
    then show ?thesis using ok by (simp add: moved_def same_ends_def)
  next
    case True
    show ?thesis
    proof (cases st)
      case Entering
      show ?thesis
      proof (cases "pi_readopen (pp_int p)")
        case True
        then have "write_bytes (length data) (rest_of data st) p = Some (r, p')"
          using w' \<open>ready\<close> Entering by (simp add: rest_of_def)
        from bytes[OF this ok, of "[]"] show ?thesis by (simp add: same_ends_def)
      next
        case False
        then have "r = Returned (Inl BrokenPipe)" "p' = p" using w' \<open>ready\<close> Entering by auto
        then show ?thesis using ok by (simp add: moved_def same_ends_def)
      qed
    next
      case (Writing bs)
      show ?thesis
      proof (cases bs)
        case Nil
        then have "write_bytes (length data) (rest_of data st) p = Some (r, p')"
          using w' \<open>ready\<close> Writing by (simp add: rest_of_def)
        from bytes[OF this ok, of "[]"] show ?thesis by (simp add: same_ends_def)
      next
        case (Cons c cs)
        then have w1: "write_byte (length data) c cs p = Some (r, p')" using w' \<open>ready\<close> Writing by simp
        show ?thesis
        proof (cases "r = Returned (Inl BrokenPipe) \<and> p' = p")
          case True
          then show ?thesis using ok by (simp add: moved_def same_ends_def)
        next
          case False
          then have ne: "pi_nwrite (pp_int p) \<noteq> pi_nread (pp_int p) + PIPESIZE"
            and "\<exists>i. put_byte c (pp_int p) = Some i \<and> write_bytes (length data) cs (p\<lparr>pp_int := i\<rparr>) = Some (r, p')"
            using w1 write_pred_full[OF rd] \<open>ready\<close>
            by (auto simp: write_byte_def panic_simps split: if_splits)
          then obtain i where i: "put_byte c (pp_int p) = Some i"
            and wb: "write_bytes (length data) (rest_of data (Writing cs)) (p\<lparr>pp_int := i\<rparr>) = Some (r, p')"
            by (auto simp: rest_of_def)
          note sp = put_byte_spec[OF ok i ne]
          from bytes[OF wb, of "[c]"] sp
          have "pipe_ok (pp_int p') \<and> pending (pp_int p') = pending (pp_int p) @ [c] @ moved data (Writing cs) r \<and> same_ends p p'"
            by (simp add: same_ends_def)
          moreover have "[c] @ moved data (Writing cs) r = moved data st r"
            using write_bytes_spec[OF _ wb] sp(1)
            by (auto simp: moved_def rest_of_def Writing Cons)
          ultimately show ?thesis by simp
        qed
      qed
    qed
  qed
qed

lemma again_full:
  assumes ok: "pipe_ok (pp_int p)" and w: "write_segment data st p = Some (Again st', p')"
  shows "pi_nwrite (pp_int p') = pi_nread (pp_int p') + PIPESIZE"
proof -
  obtain ready where rd: "write_pred (pp_int p) = Some ready"
    using w by (auto simp: write_segment_def panic_simps)
  note w' = w[unfolded write_segment_def rd bind.bind_lunit]
  have b: "pi_nwrite (pp_int p') = pi_nread (pp_int p') + PIPESIZE"
    if "write_bytes len bs q = Some (Again st', p')" "pipe_ok (pp_int q)" for len bs q
    using write_bytes_spec[OF that(2,1)] by auto
  show ?thesis
  proof (cases ready)
    case False
    then show ?thesis using w' write_pred_full[OF rd] ok by (auto simp: pipe_ok_def)
  next
    case True
    show ?thesis
    proof (cases "\<exists>c cs. st = Writing (c # cs)")
      case True
      then obtain c cs where "write_byte (length data) c cs p = Some (Again st', p')"
        using w' \<open>ready\<close> by auto
      then obtain i where i: "put_byte c (pp_int p) = Some i" "write_bytes (length data) cs (p\<lparr>pp_int := i\<rparr>) = Some (Again st', p')"
        and ne: "pi_nwrite (pp_int p) \<noteq> pi_nread (pp_int p) + PIPESIZE"
        using write_pred_full[OF rd] \<open>ready\<close> by (auto simp: write_byte_def panic_simps split: if_splits)
      show ?thesis using b[OF i(2)] put_byte_spec(1)[OF ok i(1) ne] by simp
    next
      case False
      then have "\<exists>bs. write_bytes (length data) bs p = Some (Again st', p')"
        using w' \<open>ready\<close> by (auto split: write_state.splits list.splits if_splits)
      then show ?thesis using b ok by blast
    qed
  qed
qed

definition pipe_sys_ok :: "pipe_sys \<Rightarrow> bool" where
  "pipe_sys_ok s \<longleftrightarrow> pipe_ok (pp_int (py_pipe s)) \<and> py_sent s = py_received s @ pending (pp_int (py_pipe s))"

lemma pipe_close_spec:
  "pipe_ok (pp_int p) \<Longrightarrow> pipe_ok (pp_int (pipe_close w p)) \<and> pending (pp_int (pipe_close w p)) = pending (pp_int p)"
  by (simp add: pipe_close_def pipe_ok_def pending_def)

lemma read_segment_spec:
  assumes "pipe_ok (pp_int p)" "read_pred (pp_int p)"
  shows "\<exists>p'. read_segment buf p = Some (Returned (Inr (min (length buf) (length (pending (pp_int p)))),
      take (length buf) (pending (pp_int p)) @ drop (length (pending (pp_int p))) buf), p') \<and>
    pipe_ok (pp_int p') \<and> pending (pp_int p') = drop (length buf) (pending (pp_int p)) \<and>
    pi_nread (pp_int p') = pi_nread (pp_int p) + min (length buf) (length (pending (pp_int p))) \<and>
    pp_write_wakes p' = pp_write_wakes p + 1"
proof -
  obtain i where i: "read_bytes (length buf) (pp_int p) = Some (take (length buf) (pending (pp_int p)), i)" "pipe_ok i"
    "pending i = drop (length buf) (pending (pp_int p))"
    "pi_nread i = pi_nread (pp_int p) + min (length buf) (length (pending (pp_int p)))"
    using read_bytes_spec[OF assms(1), of "length buf"] by blast
  have d: "drop (min n (length buf)) buf = drop n buf" for n by (simp add: min_def)
  show ?thesis using assms(2) i by (simp add: read_segment_def wake_writers_def d)
qed

lemma pipe_step_ok:
  assumes "pipe_step s s'" "pipe_sys_ok s"
  shows "pipe_sys_ok s'"
  using assms
proof (cases rule: pipe_step.cases)
  case (write_sleeps t data st st' p)
  then show ?thesis using assms(2) write_segment_spec by (fastforce simp: pipe_sys_ok_def)
next
  case (write_returns t data st r p)
  then show ?thesis using assms(2) write_segment_spec by (fastforce simp: pipe_sys_ok_def)
next
  case (read_returns buf n buf' p)
  let ?i = "pp_int (py_pipe s)"
  have ok: "pipe_ok ?i" using assms(2) by (simp add: pipe_sys_ok_def)
  have "read_pred ?i" using read_returns(2) by (auto simp: read_segment_def split: if_splits)
  from read_segment_spec[OF ok this, of buf] read_returns(2)
  have "pipe_ok (pp_int p)" "pending (pp_int p) = drop (length buf) (pending ?i)"
    "take n buf' = take (length buf) (pending ?i)"
    by (auto simp: min_def)
  then show ?thesis using assms(2) read_returns(1) by (simp add: pipe_sys_ok_def)
next
  case (closes writable)
  then show ?thesis using assms(2) pipe_close_spec by (simp add: pipe_sys_ok_def)
qed (simp add: pipe_sys_ok_def)

lemma pipe_run_ok: "pipe_step\<^sup>*\<^sup>* pipe_sys_init s \<Longrightarrow> pipe_sys_ok s"
proof (induction rule: rtranclp_induct)
  case base
  then show ?case
    by (simp add: pipe_sys_ok_def pipe_sys_init_def Pipe_new_def PipeInternal_new_def pipe_ok_def pending_def)
next
  case (step s s')
  then show ?case using pipe_step_ok by blast
qed

section \<open>Properties\<close>

text \<open>C16.  However reads, writes and closes interleave, no byte of a pipe is lost, duplicated or
  reordered: what the readers have received, followed by what is in the buffer, is what the writers
  have put in, in that order; and the buffer never holds more than its 512 bytes.\<close>

theorem pipe_no_loss:
  assumes "pipe_step\<^sup>*\<^sup>* pipe_sys_init s"
  shows "py_sent s = py_received s @ pending (pp_int (py_pipe s)) \<and>
    length (pending (pp_int (py_pipe s))) \<le> PIPESIZE"
  using pipe_run_ok[OF assms] by (auto simp: pipe_sys_ok_def pipe_ok_def)

lemma pipe_no_loss_witness:
  "\<exists>s. pipe_step\<^sup>*\<^sup>* pipe_sys_init s \<and> py_received s = [1, 2] \<and> pending (pp_int (py_pipe s)) = [3] \<and>
    py_sent s = [1, 2, 3]"
proof -
  let ?s1 = "pipe_sys_init\<lparr>py_writers := [0 \<mapsto> ([1, 2, 3], Entering)]\<rparr>"
  obtain i where i: "write_segment [1, 2, 3] Entering (py_pipe ?s1) = Some (Returned (Inr 3), i)"
    by (simp add: write_segment_def write_pred_def pipe_sys_init_def Pipe_new_def PipeInternal_new_def
        put_byte_def add_usize_def upd_chk_def numeral_3_eq_3)
  let ?s2 = "?s1\<lparr>py_pipe := i, py_writers := Map.empty, py_sent := [1, 2, 3]\<rparr>"
  have s1: "pipe_step pipe_sys_init ?s1"
    using call_write[of pipe_sys_init 0 "[1, 2, 3]"] by (simp add: pipe_sys_init_def)
  have s2: "pipe_step ?s1 ?s2"
    using write_returns[OF _ i, of 0] by (simp add: pipe_sys_init_def moved_def rest_of_def)
  from s1 s2 have r2: "pipe_step\<^sup>*\<^sup>* pipe_sys_init ?s2" by (meson converse_rtranclp_into_rtranclp rtranclp.rtrancl_refl)
  have p: "pending (pp_int i) = [1, 2, 3]" and ok: "pipe_ok (pp_int i)"
    using pipe_run_ok[OF r2] by (simp_all add: pipe_sys_ok_def pipe_sys_init_def)
  then have "read_pred (pp_int i)" unfolding read_pred_def by (auto simp: pending_def)
  from read_segment_spec[OF ok this, of "[0, 0]"] p obtain j where
    j: "read_segment [0, 0] i = Some (Returned (Inr 2, [1, 2]), j)" "pending (pp_int j) = [3]"
    by (auto simp: numeral_2_eq_2)
  let ?s3 = "?s2\<lparr>py_pipe := j, py_received := [1, 2]\<rparr>"
  have "pipe_step ?s2 ?s3"
    using read_returns[of "[0, 0]" ?s2 2 "[1, 2]" j] j(1) by (simp add: pipe_sys_init_def)
  with r2 have r3: "pipe_step\<^sup>*\<^sup>* pipe_sys_init ?s3" by simp
  show ?thesis using pipe_no_loss[OF r3] r3 j(2) by (intro exI[of _ ?s3]) simp
qed

text \<open>C20.  A pipe never blocks both of its ends.  A write that has to wait has left the pipe full;
  the next read then returns as many bytes as its buffer takes, wakes a writer, and leaves the pipe
  in a state in which the writer's condition holds.\<close>

theorem pipe_never_stuck:
  assumes "pipe_ok (pp_int p)" "pi_nread (pp_int p) + 2 * PIPESIZE < 2 ^ 64"
    and "write_segment data st p = Some (Again st', p')" "0 < length buf"
  shows "\<exists>n buf' p''. read_segment buf p' = Some (Returned (Inr n, buf'), p'') \<and>
    n = min (length buf) PIPESIZE \<and> pp_write_wakes p'' = pp_write_wakes p' + 1 \<and>
    write_pred (pp_int p'') = Some True"
proof -
  have sp: "pipe_ok (pp_int p')" "same_ends p p'"
    using write_segment_spec[OF assms(1,3)] by simp_all
  have full: "pi_nwrite (pp_int p') = pi_nread (pp_int p') + PIPESIZE"
    using again_full[OF assms(1,3)] .
  then have "read_pred (pp_int p')" by (simp add: read_pred_def)
  from read_segment_spec[OF sp(1) this, of buf] full obtain p'' buf' where
    r: "read_segment buf p' = Some (Returned (Inr (min (length buf) PIPESIZE), buf'), p'')"
      "pipe_ok (pp_int p'')" "pending (pp_int p'') = drop (length buf) (pending (pp_int p'))"
      "pi_nread (pp_int p'') = pi_nread (pp_int p') + min (length buf) PIPESIZE"
      "pp_write_wakes p'' = pp_write_wakes p' + 1"
    by auto
  have "length (pending (pp_int p'')) < PIPESIZE" using r(3) full assms(4) by simp
  then have "write_pred (pp_int p'') = Some True"
    using r(2,4) sp(2) assms(2) by (auto simp: write_pred_def same_ends_def add_usize_def pipe_ok_def)
  with r(1,5) show ?thesis by blast
qed

lemma pipe_never_stuck_witness:
  "\<exists>p p'. write_segment [5] Entering p = Some (Again Entering, p') \<and>
    (\<exists>n buf' p''. read_segment [0, 0, 0] p' = Some (Returned (Inr n, buf'), p'') \<and> n = 3 \<and>
      write_pred (pp_int p'') = Some True)"
proof -
  define i where "i = PipeInternal_new\<lparr>pi_data := replicate PIPESIZE 7, pi_nwrite := PIPESIZE\<rparr>"
  let ?p = "\<lparr>pp_int = i, pp_read_wakes = 0, pp_write_wakes = 0\<rparr>"
  have ok: "pipe_ok (pp_int ?p)" "pi_nread (pp_int ?p) + 2 * PIPESIZE < 2 ^ 64"
    by (simp_all add: i_def pipe_ok_def PipeInternal_new_def)
  have w: "write_segment [5] Entering ?p = Some (Again Entering, wake_readers ?p)"
    by (simp add: write_segment_def write_pred_def i_def PipeInternal_new_def add_usize_def)
  have b: "0 < length [0, 0, 0 :: u8]" and m: "min (length [0, 0, 0 :: u8]) PIPESIZE = 3" by simp_all
  show ?thesis using pipe_never_stuck[OF ok w b] w unfolding m by blast
qed

end
