(* ===== verification/Console.thy ===== *)
theory Console
  imports Redleaf_Base
begin

text \<open>
  The console device of the file system, \<^verbatim>\<open>src/domains/usr/xv6/kernel/fs/src/console_device.rs\<close>.

  The keyboard (\<open>sys_readch_kbd\<close> and the \<open>pc_keyboard\<close> package) is the list of the results its calls
  will give; a read that exhausts it is still waiting and has no result.  \<open>con_out\<close> is what was
  printed, one character code a byte.
\<close>

datatype key_event =
    KbdError            \<comment> \<open>\<open>Err(_)\<close>\<close>
  | NoKey               \<comment> \<open>\<open>Ok(None)\<close>\<close>
  | Unicode nat         \<comment> \<open>\<open>Ok(Some(DecodedKey::Unicode(c)))\<close>\<close>
  | RawKey nat          \<comment> \<open>\<open>Ok(Some(DecodedKey::RawKey(k)))\<close>\<close>

record console =
  con_buffer :: bytes
  con_reached_eol :: bool
  con_kbd :: "key_event list"
  con_out :: bytes

definition ConsoleDeviceInternal_new :: "key_event list \<Rightarrow> console" where
  "ConsoleDeviceInternal_new kbd = \<lparr>con_buffer = [], con_reached_eol = False, con_kbd = kbd, con_out = []\<rparr>"

text \<open>\<open>char::is_control\<close>: the Unicode category Cc.\<close>

definition is_control :: "nat \<Rightarrow> bool" where
  "is_control c \<longleftrightarrow> c < 32 \<or> 127 \<le> c \<and> c < 160"

definition console_write :: "bytes \<Rightarrow> console \<Rightarrow> nat \<times> console" where
  "console_write d c = (length d, c\<lparr>con_out := con_out c @ d\<rparr>)"

text \<open>The loop, on the keys to come; \<open>key as u8\<close> keeps the low byte.\<close>

fun populate :: "key_event list \<Rightarrow> console \<Rightarrow> console option" where
  "populate [] c = None"
| "populate (KbdError # ks) c = populate ks c"
| "populate (NoKey # ks) c = populate ks c"
| "populate (RawKey k # ks) c = populate ks c"
| "populate (Unicode key # ks) c =
     (let b = (of_nat key :: u8)
      in if \<not> is_control key then populate ks (c\<lparr>con_buffer := con_buffer c @ [b]\<rparr>)
         else if b = 8 then
           (if con_buffer c = [] then populate ks c
            else populate ks (snd (console_write [b] (c\<lparr>con_buffer := butlast (con_buffer c)\<rparr>))))
         else if b = 10 then
           (let c = snd (console_write [b] c)
            in Some (c\<lparr>con_buffer := con_buffer c @ [b], con_reached_eol := True, con_kbd := ks\<rparr>))
         else populate ks c)"

definition populate_buffer_until_eol :: "console \<Rightarrow> console option" where
  "populate_buffer_until_eol c = populate (con_kbd c) c"

text \<open>The loop over the caller's buffer: \<open>i\<close> bytes have been copied, \<open>k\<close> places are left.\<close>

fun take_bytes :: "nat \<Rightarrow> nat \<Rightarrow> console \<Rightarrow> bytes \<times> nat \<times> console" where
  "take_bytes i 0 c = ([], i, if con_buffer c = [] then c\<lparr>con_reached_eol := False\<rparr> else c)"
| "take_bytes i (Suc k) c =
     (case con_buffer c of
        b # bs \<Rightarrow>
          (let (d, n, c) = take_bytes (i + 1) k (c\<lparr>con_buffer := bs\<rparr>) in (b # d, n, c))
      | [] \<Rightarrow> ([], i + 1, c\<lparr>con_reached_eol := False\<rparr>))"

definition console_read :: "bytes \<Rightarrow> console \<Rightarrow> ((nat \<times> bytes) \<times> console) option" where
  "console_read data c =
     do { c \<leftarrow> (if con_reached_eol c then Some c else populate_buffer_until_eol c);
          let (d, n, c) = take_bytes 0 (length data) c;
          Some ((n, d @ drop (length d) data), c) }"

text \<open>What a line editor makes of the keys before the end of the line, after \<open>acc\<close>.\<close>

fun edit_line :: "bytes \<Rightarrow> key_event list \<Rightarrow> bytes" where
  "edit_line acc [] = acc"
| "edit_line acc (Unicode key # ks) =
     edit_line (if \<not> is_control key then acc @ [of_nat key]
                else if (of_nat key :: u8) = 8 then butlast acc else acc) ks"
| "edit_line acc (_ # ks) = edit_line acc ks"

definition ends_line :: "key_event \<Rightarrow> bool" where
  "ends_line k = (case k of Unicode key \<Rightarrow> is_control key \<and> (of_nat key :: u8) = 10 | _ \<Rightarrow> False)"

section \<open>Lemmas\<close>

lemma populate_line:
  assumes "\<forall>k \<in> set ks. \<not> ends_line k" "ends_line e"
  shows "\<exists>out. populate (ks @ e # rest) c =
    Some (c\<lparr>con_buffer := edit_line (con_buffer c) ks @ [10], con_reached_eol := True, con_kbd := rest, con_out := out\<rparr>)"
  using assms(1)
proof (induction ks arbitrary: c)
  case Nil
  from assms(2) obtain key where "e = Unicode key" "is_control key" "(of_nat key :: u8) = 10"
    by (auto simp: ends_line_def split: key_event.splits)
  then show ?case by (cases c) (auto simp: Let_def console_write_def)
next
  case (Cons k ks)
  show ?case
  proof (cases k)
    case (Unicode key)
    have ne: "\<not> (is_control key \<and> (of_nat key :: u8) = 10)" using Cons.prems by (auto simp: ends_line_def Unicode)
    let ?a = "c\<lparr>con_buffer := con_buffer c @ [of_nat key]\<rparr>"
    let ?b = "c\<lparr>con_buffer := butlast (con_buffer c), con_out := con_out c @ [8]\<rparr>"
    show ?thesis
      using Cons.IH[of ?a] Cons.IH[of ?b] Cons.IH[of c] Cons.prems ne
      by (cases c) (auto simp: Unicode Let_def console_write_def)
  qed (use Cons in auto)
qed

lemma take_bytes_spec:
  "take_bytes i k c =
     (take k (con_buffer c),
      (if length (con_buffer c) < k then i + length (con_buffer c) + 1 else i + k),
      c\<lparr>con_buffer := drop k (con_buffer c), con_reached_eol := con_reached_eol c \<and> k < length (con_buffer c)\<rparr>)"
proof (induction k arbitrary: i c)
  case 0
  then show ?case by (cases "con_buffer c") auto
next
  case (Suc k)
  then show ?case by (cases "con_buffer c") auto
qed

section \<open>Properties\<close>



text \<open>The number a console read returns is one too many whenever the line is shorter than the
  buffer.\<close>

theorem console_read_overcounts:
  assumes "con_reached_eol c" "length (con_buffer c) < length data"
  shows "\<exists>c'. console_read data c =
    Some ((length (con_buffer c) + 1, con_buffer c @ drop (length (con_buffer c)) data), c')"
  using assms by (simp add: console_read_def take_bytes_spec)

lemma console_read_overcounts_witness:
  "\<exists>c'. console_read [0, 0, 0, 0] \<lparr>con_buffer = [97, 10], con_reached_eol = True, con_kbd = [], con_out = []\<rparr> =
    Some ((3, [97, 10, 0, 0]), c')"
  using console_read_overcounts[of "\<lparr>con_buffer = [97, 10], con_reached_eol = True, con_kbd = [], con_out = []\<rparr>"
      "[0, 0, 0, 0]"] by simp

end
