(* ===== verification/Sysfile.thy ===== *)
theory Sysfile
  imports Icache Pipe Console
begin

text \<open>
  Open files and the system calls on them: \<^verbatim>\<open>opened_file.rs\<close>, \<^verbatim>\<open>sysfile.rs\<close> and
  \<^verbatim>\<open>cross_thread_temp_store.rs\<close> of \<^verbatim>\<open>src/domains/usr/xv6/kernel/fs/src\<close>.

  An \<open>Arc<OpenedFile>\<close> is the index of the file in \<open>ss_files\<close>, with its strong count in \<open>of_refs\<close>; an
  \<open>Arc<Pipe>\<close> is an index into \<open>ss_pipes\<close>.  \<open>ss_tables\<close> and \<open>ss_cwds\<close> are the thread-local descriptor
  tables and working directories; an operation is given the thread that calls it.  Files are dropped
  where Rust drops them.  An operation that panics, or that would have to sleep until another thread
  acts, has no result.
\<close>

abbreviation NFILE :: nat where "NFILE \<equiv> 100"
abbreviation NDEV :: int where "NDEV \<equiv> 10"
abbreviation MAX_WRITE :: nat where "MAX_WRITE \<equiv> 7 * BSIZE"

datatype open_file_type =
    OPipe nat
  | OINode nat nat
  | ODevice nat nat

record opened_file =
  of_type :: open_file_type
  of_readable :: bool
  of_writable :: bool
  of_refs :: nat

type_synonym fd_table = "nat option list"

record sstate =
  ss_fs :: fstate
  ss_cwds :: "nat option list"
  ss_tables :: "fd_table list"
  ss_ctts :: "fd_table option list"
  ss_files :: "opened_file list"
  ss_pipes :: "pipe list"
  ss_console :: console

text \<open>Running a file-system operation with the calling thread's working directory.\<close>

definition on_fs :: "nat \<Rightarrow> (fstate \<Rightarrow> ('a \<times> fstate) option) \<Rightarrow> sstate \<Rightarrow> ('a \<times> sstate) option" where
  "on_fs t f s =
     do { cwd \<leftarrow> nth_chk (ss_cwds s) t;
          (x, fs) \<leftarrow> f ((ss_fs s)\<lparr>fs_cwd := cwd\<rparr>);
          Some (x, s\<lparr>ss_fs := fs, ss_cwds := (ss_cwds s)[t := fs_cwd fs]\<rparr>) }"

definition upd_fs :: "nat \<Rightarrow> (fstate \<Rightarrow> fstate option) \<Rightarrow> sstate \<Rightarrow> sstate option" where
  "upd_fs t f s = do { (u, s) \<leftarrow> on_fs t (\<lambda>fs. do { fs \<leftarrow> f fs; Some ((), fs) }) s; Some s }"

definition file_at :: "nat \<Rightarrow> sstate \<Rightarrow> opened_file option" where
  "file_at f s = nth_chk (ss_files s) f"

definition modify_file :: "nat \<Rightarrow> (opened_file \<Rightarrow> opened_file) \<Rightarrow> sstate \<Rightarrow> sstate option" where
  "modify_file f g s = do { fs \<leftarrow> modify_chk (ss_files s) f g; Some (s\<lparr>ss_files := fs\<rparr>) }"

definition table_of :: "nat \<Rightarrow> sstate \<Rightarrow> fd_table option" where
  "table_of t s = nth_chk (ss_tables s) t"

definition set_table :: "nat \<Rightarrow> fd_table \<Rightarrow> sstate \<Rightarrow> sstate option" where
  "set_table t tab s = do { ts \<leftarrow> upd_chk (ss_tables s) t tab; Some (s\<lparr>ss_tables := ts\<rparr>) }"

section \<open>Open files\<close>

definition OpenedFile_new :: "open_file_type \<Rightarrow> bool \<Rightarrow> bool \<Rightarrow> sstate \<Rightarrow> nat \<times> sstate" where
  "OpenedFile_new ft r w s =
     (length (ss_files s),
      s\<lparr>ss_files := ss_files s @ [\<lparr>of_type = ft, of_readable = r, of_writable = w, of_refs = 1\<rparr>]\<rparr>)"

text \<open>
  \<open>Drop for OpenedFile\<close>, and then the fields.  \<open>ICache::put\<close> is given a clone of the reference that
  the file itself still holds.
\<close>

definition drop_inode :: "nat \<Rightarrow> fstate \<Rightarrow> fstate option" where
  "drop_inode i s =
     do { s \<leftarrow> begin_trans s;
          s \<leftarrow> arc_clone i s;
          s \<leftarrow> icache_put i s;
          s \<leftarrow> end_transaction s;
          arc_drop i s }"

definition OpenedFile_drop :: "nat \<Rightarrow> nat \<Rightarrow> sstate \<Rightarrow> sstate option" where
  "OpenedFile_drop t f s =
     do { x \<leftarrow> file_at f s;
          case of_type x of
            OPipe p \<Rightarrow>
              do { ps \<leftarrow> modify_chk (ss_pipes s) p (pipe_close (of_writable x)); Some (s\<lparr>ss_pipes := ps\<rparr>) }
          | OINode i off \<Rightarrow> upd_fs t (drop_inode i) s
          | ODevice i major \<Rightarrow> upd_fs t (drop_inode i) s }"

definition file_clone :: "nat \<Rightarrow> sstate \<Rightarrow> sstate option" where
  "file_clone f s = modify_file f (\<lambda>x. x\<lparr>of_refs := of_refs x + 1\<rparr>) s"

definition file_drop :: "nat \<Rightarrow> nat \<Rightarrow> sstate \<Rightarrow> sstate option" where
  "file_drop t f s =
     do { x \<leftarrow> file_at f s;
          r \<leftarrow> sub_chk (of_refs x) 1;
          s \<leftarrow> modify_file f (\<lambda>x. x\<lparr>of_refs := r\<rparr>) s;
          if r = 0 then OpenedFile_drop t f s else Some s }"

definition file_seek :: "nat \<Rightarrow> nat \<Rightarrow> nat \<Rightarrow> sstate \<Rightarrow> (unit fs_result \<times> sstate) option" where
  "file_seek t f new_offset s =
     do { x \<leftarrow> file_at f s;
          case of_type x of
            OINode i off \<Rightarrow>
              do { s \<leftarrow> upd_fs t (inode_lock i) s;
                   s \<leftarrow> modify_file f (\<lambda>x. x\<lparr>of_type := OINode i new_offset\<rparr>) s;
                   s \<leftarrow> upd_fs t (inode_unlock i) s;
                   Some (Inr (), s) }
          | _ \<Rightarrow> Some (Inl UnsupportedOperation, s) }"

definition stat_inode :: "nat \<Rightarrow> fstate \<Rightarrow> (file_stat \<times> fstate) option" where
  "stat_inode i s =
     do { s \<leftarrow> inode_lock i s; st \<leftarrow> inode_stat i s; s \<leftarrow> inode_unlock i s; Some (st, s) }"

definition file_stat_of :: "nat \<Rightarrow> nat \<Rightarrow> sstate \<Rightarrow> (file_stat fs_result \<times> sstate) option" where
  "file_stat_of t f s =
     do { x \<leftarrow> file_at f s;
          case of_type x of
            OINode i off \<Rightarrow> do { (st, s) \<leftarrow> on_fs t (stat_inode i) s; Some (Inr st, s) }
          | ODevice i major \<Rightarrow> do { (st, s) \<leftarrow> on_fs t (stat_inode i) s; Some (Inr st, s) }
          | OPipe p \<Rightarrow> Some (Inl InvalidFileType, s) }"

text \<open>The inode branch of \<open>read\<close>.\<close>

definition read_inode :: "nat \<Rightarrow> bytes \<Rightarrow> nat \<Rightarrow> fstate \<Rightarrow> ((nat fs_result \<times> bytes) \<times> fstate) option" where
  "read_inode i buf off s =
     do { s \<leftarrow> inode_lock i s;
          s \<leftarrow> begin_trans s;
          (r, s) \<leftarrow> inode_read i buf off s;
          s \<leftarrow> end_transaction s;
          s \<leftarrow> inode_unlock i s;
          Some (r, s) }"

text \<open>\<open>DEVICES\<close> has nothing at 0 and the console at 1.\<close>

definition file_read :: "nat \<Rightarrow> nat \<Rightarrow> bytes \<Rightarrow> sstate \<Rightarrow> ((nat fs_result \<times> bytes) \<times> sstate) option" where
  "file_read t f buf s =
     do { x \<leftarrow> file_at f s;
          if \<not> of_readable x then Some ((Inl PermissionDenied, buf), s)
          else
            (case of_type x of
               OINode i off \<Rightarrow>
                 do { ((r, buf), s) \<leftarrow> on_fs t (read_inode i buf off) s;
                      case r of
                        Inl e \<Rightarrow> Some ((Inl e, buf), s)
                      | Inr n \<Rightarrow>
                          do { s \<leftarrow> modify_file f (\<lambda>x. x\<lparr>of_type := OINode i ((off + n) mod 2 ^ 64)\<rparr>) s;
                               Some ((Inr n, buf), s) } }
             | ODevice i major \<Rightarrow>
                 if major = 1 then
                   do { ((n, buf), c) \<leftarrow> console_read buf (ss_console s);
                        Some ((Inr (length buf), buf), s\<lparr>ss_console := c\<rparr>) }
                 else Some ((Inl InvalidMajor, buf), s)
             | OPipe p \<Rightarrow>
                 do { pp \<leftarrow> nth_chk (ss_pipes s) p;
                      (r, pp) \<leftarrow> read_segment buf pp;
                      case r of
                        Again u \<Rightarrow> None
                      | Returned r \<Rightarrow> Some (r, s\<lparr>ss_pipes := (ss_pipes s)[p := pp]\<rparr>) }) }"

text \<open>One round of the inode branch of \<open>write\<close>, and the loop.\<close>

definition write_inode :: "nat \<Rightarrow> bytes \<Rightarrow> nat \<Rightarrow> fstate \<Rightarrow> (nat fs_result \<times> fstate) option" where
  "write_inode i buf off s =
     do { s \<leftarrow> begin_trans s;
          s \<leftarrow> inode_lock i s;
          (r, s) \<leftarrow> inode_write i buf off s;
          s \<leftarrow> inode_unlock i s;
          s \<leftarrow> end_transaction s;
          Some (r, s) }"

lemma inode_write_returns: "inode_write i buf off s = Some (r, s') \<Longrightarrow> r = Inr (length buf)"
  by (auto simp: inode_write_def panic_simps)

lemma on_fs_Some:
  "on_fs t f s = Some (x, s') \<Longrightarrow> \<exists>fs fs'. f fs = Some (x, fs')"
  by (auto simp: on_fs_def panic_simps)

lemma write_inode_returns: "on_fs t (write_inode i buf off) s = Some (r, s') \<Longrightarrow> r = Inr (length buf)"
  by (drule on_fs_Some) (auto simp: write_inode_def panic_simps dest: inode_write_returns)

function file_write_loop :: "nat \<Rightarrow> nat \<Rightarrow> bytes \<Rightarrow> nat \<Rightarrow> sstate \<Rightarrow> (nat fs_result \<times> sstate) option" where
  "file_write_loop t f buf k s =
     (if k < length buf then
        do { x \<leftarrow> file_at f s;
             (i, off) \<leftarrow> (case of_type x of OINode i off \<Rightarrow> Some (i, off) | _ \<Rightarrow> None);
             sl \<leftarrow> slice_chk buf k (k + min (length buf - k) MAX_WRITE);
             (r, s) \<leftarrow> on_fs t (write_inode i sl off) s;
             case r of
               Inl e \<Rightarrow> Some (Inl e, s)
             | Inr n \<Rightarrow>
                 do { s \<leftarrow> modify_file f (\<lambda>x. x\<lparr>of_type := OINode i ((off + n) mod 2 ^ 64)\<rparr>) s;
                      file_write_loop t f buf (k + n) s } }
      else do { assert_that (k = length buf); Some (Inr k, s) })"
  by pat_completeness auto
termination
  by (relation "measure (\<lambda>(t, f, buf, k, s). length buf - k)")
     (auto simp: panic_simps dest!: write_inode_returns)

definition file_write :: "nat \<Rightarrow> nat \<Rightarrow> bytes \<Rightarrow> sstate \<Rightarrow> (nat fs_result \<times> sstate) option" where
  "file_write t f buf s =
     do { x \<leftarrow> file_at f s;
          if \<not> of_writable x then Some (Inl PermissionDenied, s)
          else
            (case of_type x of
               OINode i off \<Rightarrow> file_write_loop t f buf 0 s
             | ODevice i major \<Rightarrow>
                 if major = 1 then
                   Some (Inr (length buf), s\<lparr>ss_console := snd (console_write buf (ss_console s))\<rparr>)
                 else Some (Inl InvalidMajor, s)
             | OPipe p \<Rightarrow>
                 do { pp \<leftarrow> nth_chk (ss_pipes s) p;
                      (r, pp) \<leftarrow> write_segment buf Entering pp;
                      case r of
                        Again st \<Rightarrow> None
                      | Returned r \<Rightarrow> Some (r, s\<lparr>ss_pipes := (ss_pipes s)[p := pp]\<rparr>) }) }"

section \<open>Descriptors\<close>

text \<open>\<open>fdtable.get_mut(fd).ok_or(..)?.as_mut().ok_or(..)?\<close>\<close>

definition fd_lookup :: "nat \<Rightarrow> nat \<Rightarrow> sstate \<Rightarrow> nat fs_result option" where
  "fd_lookup t fd s =
     do { tab \<leftarrow> table_of t s;
          Some (case nth_chk tab fd of Some (Some f) \<Rightarrow> Inr f | _ \<Rightarrow> Inl InvalidFileDescriptor) }"

definition fdalloc :: "nat \<Rightarrow> nat \<Rightarrow> sstate \<Rightarrow> (nat fs_result \<times> sstate) option" where
  "fdalloc t f s =
     do { tab \<leftarrow> table_of t s;
          case position (\<lambda>x. x = None) tab of
            None \<Rightarrow> do { s \<leftarrow> file_drop t f s; Some (Inl TooManyOpenedFiles, s) }
          | Some fd \<Rightarrow> do { s \<leftarrow> set_table t (tab[fd := Some f]) s; Some (Inr fd, s) } }"

definition sys_dup :: "nat \<Rightarrow> nat \<Rightarrow> sstate \<Rightarrow> (nat fs_result \<times> sstate) option" where
  "sys_dup t fd s =
     do { r \<leftarrow> fd_lookup t fd s;
          case r of
            Inl e \<Rightarrow> Some (Inl e, s)
          | Inr f \<Rightarrow> do { s \<leftarrow> file_clone f s; fdalloc t f s } }"

definition sys_read :: "nat \<Rightarrow> nat \<Rightarrow> bytes \<Rightarrow> sstate \<Rightarrow> ((nat fs_result \<times> bytes) \<times> sstate) option" where
  "sys_read t fd buffer s =
     do { r \<leftarrow> fd_lookup t fd s;
          case r of Inl e \<Rightarrow> Some ((Inl e, buffer), s) | Inr f \<Rightarrow> file_read t f buffer s }"

definition sys_write :: "nat \<Rightarrow> nat \<Rightarrow> bytes \<Rightarrow> sstate \<Rightarrow> (nat fs_result \<times> sstate) option" where
  "sys_write t fd buffer s =
     do { r \<leftarrow> fd_lookup t fd s;
          case r of Inl e \<Rightarrow> Some (Inl e, s) | Inr f \<Rightarrow> file_write t f buffer s }"

definition sys_close :: "nat \<Rightarrow> nat \<Rightarrow> sstate \<Rightarrow> (unit fs_result \<times> sstate) option" where
  "sys_close t fd s =
     do { r \<leftarrow> fd_lookup t fd s;
          case r of
            Inl e \<Rightarrow> Some (Inl e, s)
          | Inr f \<Rightarrow>
              do { tab \<leftarrow> table_of t s;
                   s \<leftarrow> set_table t (tab[fd := None]) s;
                   s \<leftarrow> file_drop t f s;
                   Some (Inr (), s) } }"

definition sys_seek :: "nat \<Rightarrow> nat \<Rightarrow> nat \<Rightarrow> sstate \<Rightarrow> (unit fs_result \<times> sstate) option" where
  "sys_seek t fd offset s =
     do { r \<leftarrow> fd_lookup t fd s;
          case r of Inl e \<Rightarrow> Some (Inl e, s) | Inr f \<Rightarrow> file_seek t f offset s }"

definition sys_fstat :: "nat \<Rightarrow> nat \<Rightarrow> sstate \<Rightarrow> (file_stat fs_result \<times> sstate) option" where
  "sys_fstat t fd s =
     do { r \<leftarrow> fd_lookup t fd s;
          case r of Inl e \<Rightarrow> Some (Inl e, s) | Inr f \<Rightarrow> file_stat_of t f s }"

definition pipealloc :: "sstate \<Rightarrow> (nat \<times> nat) \<times> sstate" where
  "pipealloc s =
     (let p = length (ss_pipes s);
          s = s\<lparr>ss_pipes := ss_pipes s @ [Pipe_new]\<rparr>;
          (f0, s) = OpenedFile_new (OPipe p) True False s;
          (f1, s) = OpenedFile_new (OPipe p) False True s
      in ((f0, f1), s))"

definition sys_pipe :: "nat \<Rightarrow> sstate \<Rightarrow> ((nat \<times> nat) fs_result \<times> sstate) option" where
  "sys_pipe t s =
     do { let ((rf, wf), s) = pipealloc s;
          (r0, s) \<leftarrow> fdalloc t rf s;
          case r0 of
            Inl e \<Rightarrow> do { s \<leftarrow> file_drop t wf s; Some (Inl e, s) }
          | Inr fd0 \<Rightarrow>
              do { (r1, s) \<leftarrow> fdalloc t wf s;
                   case r1 of
                     Inr fd1 \<Rightarrow> Some (Inr (fd0, fd1), s)
                   | Inl e \<Rightarrow>
                       do { tab \<leftarrow> table_of t s;
                            s \<leftarrow> set_table t (tab[fd0 := None]) s;
                            s \<leftarrow> file_drop t rf s;
                            Some (Inl e, s) } } }"

section \<open>Paths\<close>

text \<open>\<open>data.nlink += d; update\<close> on a locked inode.\<close>

definition add_nlink :: "nat \<Rightarrow> int \<Rightarrow> fstate \<Rightarrow> fstate option" where
  "add_nlink i d s =
     do { n \<leftarrow> inode_at i s;
          nl \<leftarrow> add_i16 (i_nlink (in_data n)) d;
          s \<leftarrow> modify_data i (\<lambda>x. x\<lparr>i_nlink := nl\<rparr>) s;
          inode_update i s }"

text \<open>\<open>drop(guard); ICache::put(&mut trans, inode)\<close>\<close>

definition unlock_put :: "nat \<Rightarrow> fstate \<Rightarrow> fstate option" where
  "unlock_put i s = do { s \<leftarrow> inode_unlock i s; icache_put i s }"

definition link_target :: "bytes \<Rightarrow> nat \<Rightarrow> fstate \<Rightarrow> (unit fs_result \<times> fstate) option" where
  "link_target new_path i s =
     do { (r, s) \<leftarrow> nameiparent new_path s;
          case r of
            Inl e \<Rightarrow> do { s \<leftarrow> arc_drop i s; Some (Inl e, s) }
          | Inr (parent, name) \<Rightarrow>
              do { s \<leftarrow> inode_lock parent s;
                   n \<leftarrow> inode_at i s;
                   (r, s) \<leftarrow> dirlink parent name (in_inum n) s;
                   s \<leftarrow> unlock_put parent s;
                   case r of
                     Inl e \<Rightarrow>
                       do { s \<leftarrow> inode_lock i s;
                            s \<leftarrow> add_nlink i (- 1) s;
                            s \<leftarrow> unlock_put i s;
                            Some (Inl e, s) }
                   | Inr u \<Rightarrow> do { s \<leftarrow> icache_put i s; Some (Inr (), s) } } }"

text \<open>A transaction around an operation; every return of the system calls below drops it last.\<close>

definition in_trans :: "(fstate \<Rightarrow> ('a \<times> fstate) option) \<Rightarrow> fstate \<Rightarrow> ('a \<times> fstate) option" where
  "in_trans f s =
     do { s \<leftarrow> begin_trans s; (x, s) \<leftarrow> f s; s \<leftarrow> end_transaction s; Some (x, s) }"

definition sys_link :: "nat \<Rightarrow> bytes \<Rightarrow> bytes \<Rightarrow> sstate \<Rightarrow> (unit fs_result \<times> sstate) option" where
  "sys_link t old_path new_path = on_fs t (in_trans (\<lambda>s.
     do { (r, s) \<leftarrow> namei old_path s;
          case r of
            Inl e \<Rightarrow> Some (Inl e, s)
          | Inr i \<Rightarrow>
              do { s \<leftarrow> inode_lock i s;
                   n \<leftarrow> inode_at i s;
                   if i_file_type (in_data n) = Directory then
                     do { s \<leftarrow> unlock_put i s; Some (Inl InvalidParameter, s) }
                   else
                     do { s \<leftarrow> add_nlink i 1 s;
                          s \<leftarrow> inode_unlock i s;
                          link_target new_path i s } } }))"

text \<open>The part of \<open>unlink\<close> after the entry was found, at \<open>offset\<close> of the locked directory \<open>parent\<close>.\<close>

definition unlink_entry :: "nat \<Rightarrow> nat \<Rightarrow> nat \<Rightarrow> fstate \<Rightarrow> (unit fs_result \<times> fstate) option" where
  "unlink_entry parent offset i s =
     do { s \<leftarrow> inode_lock i s;
          n \<leftarrow> inode_at i s;
          assert_that (1 \<le> i_nlink (in_data n));
          (r, s) \<leftarrow> (if i_file_type (in_data n) = Directory then is_dirempty i s else Some (Inr True, s));
          case r of
            Inl e \<Rightarrow>
              do { s \<leftarrow> inode_unlock i s;
                   s \<leftarrow> arc_drop i s;
                   s \<leftarrow> inode_unlock parent s;
                   s \<leftarrow> arc_drop parent s;
                   Some (Inl e, s) }
          | Inr dir_empty \<Rightarrow>
              if \<not> dir_empty then
                do { s \<leftarrow> unlock_put i s;
                     s \<leftarrow> unlock_put parent s;
                     Some (Inl InvalidParameter, s) }
              else
                do { (r, s) \<leftarrow> inode_write parent (replicate SIZE_OF_DIRENT 0) offset s;
                     case r of
                       Inl e \<Rightarrow> None
                     | Inr k \<Rightarrow>
                         do { s \<leftarrow> (if i_file_type (in_data n) = Directory then add_nlink parent (- 1) s else Some s);
                              s \<leftarrow> inode_unlock parent s;
                              s \<leftarrow> add_nlink i (- 1) s;
                              s \<leftarrow> unlock_put i s;
                              s \<leftarrow> arc_drop parent s;
                              Some (Inr (), s) } } }"

definition sys_unlink :: "nat \<Rightarrow> bytes \<Rightarrow> sstate \<Rightarrow> (unit fs_result \<times> sstate) option" where
  "sys_unlink t path = on_fs t (in_trans (\<lambda>s.
     do { (r, s) \<leftarrow> nameiparent path s;
          case r of
            Inl e \<Rightarrow> Some (Inl e, s)
          | Inr (parent, name) \<Rightarrow>
              do { s \<leftarrow> inode_lock parent s;
                   if name = [46] \<or> name = [46, 46] then
                     do { s \<leftarrow> unlock_put parent s; Some (Inl InvalidParameter, s) }
                   else
                     do { (r, s) \<leftarrow> dirlookup parent name s;
                          case r of
                            Inl e \<Rightarrow> do { s \<leftarrow> unlock_put parent s; Some (Inl e, s) }
                          | Inr (offset, i) \<Rightarrow> unlink_entry parent offset i s } } }))"

definition create_node :: "nat \<Rightarrow> bytes \<Rightarrow> inode_file_type \<Rightarrow> int \<Rightarrow> int \<Rightarrow> sstate \<Rightarrow> (unit fs_result \<times> sstate) option" where
  "create_node t path ft major minor = on_fs t (in_trans (\<lambda>s.
     do { (r, s) \<leftarrow> create path ft major minor s;
          case r of
            Inl e \<Rightarrow> Some (Inl e, s)
          | Inr i \<Rightarrow> do { s \<leftarrow> icache_put i s; Some (Inr (), s) } }))"

definition sys_mknod :: "nat \<Rightarrow> bytes \<Rightarrow> int \<Rightarrow> int \<Rightarrow> sstate \<Rightarrow> (unit fs_result \<times> sstate) option" where
  "sys_mknod t path major minor = create_node t path Device major minor"

definition sys_mkdir :: "nat \<Rightarrow> bytes \<Rightarrow> sstate \<Rightarrow> (unit fs_result \<times> sstate) option" where
  "sys_mkdir t path = create_node t path Directory 0 0"

text \<open>The inode that \<open>open\<close> is about, referenced and not locked.\<close>

definition open_inode :: "bytes \<Rightarrow> file_mode \<Rightarrow> fstate \<Rightarrow> (nat fs_result \<times> fstate) option" where
  "open_inode path mode s =
     (if mode_create mode then create path File 0 0 s
      else
        do { (r, s) \<leftarrow> namei path s;
             case r of
               Inl e \<Rightarrow> Some (Inl e, s)
             | Inr i \<Rightarrow>
                 do { s \<leftarrow> inode_lock i s;
                      n \<leftarrow> inode_at i s;
                      s \<leftarrow> inode_unlock i s;
                      if i_file_type (in_data n) = Directory \<and> (\<not> mode_read mode \<or> mode_write mode) then
                        do { s \<leftarrow> icache_put i s; Some (Inl PermissionDenied, s) }
                      else Some (Inr i, s) } })"

text \<open>
  The rest of \<open>open\<close>.  The file is built while the inode is locked; when there is no free descriptor,
  the file is dropped before the inode's guard, the inode and the transaction are.
\<close>

definition open_file :: "nat \<Rightarrow> file_mode \<Rightarrow> nat \<Rightarrow> sstate \<Rightarrow> (nat fs_result \<times> sstate) option" where
  "open_file t mode i s =
     do { s \<leftarrow> upd_fs t (inode_lock i) s;
          n \<leftarrow> inode_at i (ss_fs s);
          let d = in_data n;
          if i_file_type d = Device \<and> (i_major d < 0 \<or> NDEV \<le> i_major d) then
            do { s \<leftarrow> upd_fs t (unlock_put i) s; Some (Inl InvalidMajor, s) }
          else
            do { s \<leftarrow> upd_fs t (arc_clone i) s;
                 let ft = (if i_file_type d = Device then ODevice i (as_usize (i_major d)) else OINode i 0);
                 let (f, s) = OpenedFile_new ft (mode_read mode) (mode_write mode) s;
                 (fd, s) \<leftarrow> fdalloc t f s;
                 s \<leftarrow> upd_fs t (inode_unlock i) s;
                 s \<leftarrow> upd_fs t (arc_drop i) s;
                 Some (fd, s) } }"

definition sys_open :: "nat \<Rightarrow> bytes \<Rightarrow> file_mode \<Rightarrow> sstate \<Rightarrow> (nat fs_result \<times> sstate) option" where
  "sys_open t path mode s =
     do { s \<leftarrow> upd_fs t begin_trans s;
          (r, s) \<leftarrow> on_fs t (open_inode path mode) s;
          (r, s) \<leftarrow> (case r of Inl e \<Rightarrow> Some (Inl e, s) | Inr i \<Rightarrow> open_file t mode i s);
          s \<leftarrow> upd_fs t end_transaction s;
          Some (r, s) }"

section \<open>Handing descriptors to another thread\<close>

definition ctts_get :: "nat \<Rightarrow> sstate \<Rightarrow> fd_table option \<times> sstate" where
  "ctts_get key s =
     (case nth_chk (ss_ctts s) key of
        None \<Rightarrow> (None, s)
      | Some x \<Rightarrow> (x, s\<lparr>ss_ctts := (ss_ctts s)[key := None]\<rparr>))"

definition ctts_put :: "fd_table \<Rightarrow> sstate \<Rightarrow> nat \<times> sstate" where
  "ctts_put v s =
     (case position (\<lambda>x. x = None) (ss_ctts s) of
        Some key \<Rightarrow> (key, s\<lparr>ss_ctts := (ss_ctts s)[key := Some v]\<rparr>)
      | None \<Rightarrow> (length (ss_ctts s), s\<lparr>ss_ctts := ss_ctts s @ [Some v]\<rparr>))"

fun drop_all :: "nat \<Rightarrow> fd_table \<Rightarrow> sstate \<Rightarrow> sstate option" where
  "drop_all t [] s = Some s"
| "drop_all t (None # fs) s = drop_all t fs s"
| "drop_all t (Some f # fs) s = do { s \<leftarrow> file_drop t f s; drop_all t fs s }"

text \<open>The new table, entry by entry; on a descriptor out of range, the entries cloned so far.\<close>

fun clone_fds :: "fd_table \<Rightarrow> nat option list \<Rightarrow> sstate \<Rightarrow> ((bool \<times> fd_table) \<times> sstate) option" where
  "clone_fds tab [] s = Some ((True, []), s)"
| "clone_fds tab (None # fds) s =
     do { ((ok, new), s) \<leftarrow> clone_fds tab fds s; Some ((ok, None # new), s) }"
| "clone_fds tab (Some fd # fds) s =
     (case nth_chk tab fd of
        None \<Rightarrow> Some ((False, []), s)
      | Some x \<Rightarrow>
          do { s \<leftarrow> (case x of None \<Rightarrow> Some s | Some f \<Rightarrow> file_clone f s);
               ((ok, new), s) \<leftarrow> clone_fds tab fds s;
               Some ((ok, x # new), s) })"

definition sys_save_threadlocal :: "nat \<Rightarrow> nat option list \<Rightarrow> sstate \<Rightarrow> (nat fs_result \<times> sstate) option" where
  "sys_save_threadlocal t fds s =
     do { tab \<leftarrow> table_of t s;
          ((ok, new), s) \<leftarrow> clone_fds tab fds s;
          if ok then (let (key, s) = ctts_put new s in Some (Inr key, s))
          else do { s \<leftarrow> drop_all t new s; Some (Inl InvalidFileDescriptor, s) } }"

definition sys_set_threadlocal :: "nat \<Rightarrow> nat \<Rightarrow> sstate \<Rightarrow> (unit fs_result \<times> sstate) option" where
  "sys_set_threadlocal t key s =
     (case ctts_get key s of
        (None, s) \<Rightarrow> Some (Inl InvalidCTTSId, s)
      | (Some fdtable, s) \<Rightarrow>
          do { tab \<leftarrow> table_of t s;
               assert_that (\<forall>x \<in> set (take (length fdtable) tab). x = None);
               s \<leftarrow> set_table t (take (length tab) fdtable @ drop (length fdtable) tab) s;
               Some (Inr (), s) })"

text \<open>\<open>FD_TABLE.drop()\<close>: the thread's table is removed from the map, so it would start afresh.\<close>

definition sys_thread_exit :: "nat \<Rightarrow> sstate \<Rightarrow> sstate option" where
  "sys_thread_exit t s =
     do { tab \<leftarrow> table_of t s;
          s \<leftarrow> set_table t (replicate NFILE None) s;
          drop_all t tab s }"

section \<open>The interface of the domain\<close>

text \<open>
  \<open>impl VFS for Rv6FS\<close> in \<^verbatim>\<open>lib.rs\<close>: paths arrive as bytes and are checked to be UTF-8; \<open>read\<close> and
  \<open>write\<close> hand the buffer back only on success.
\<close>

definition with_str :: "bytes \<Rightarrow> (sstate \<Rightarrow> ('a fs_result \<times> sstate) option) \<Rightarrow> sstate \<Rightarrow> ('a fs_result \<times> sstate) option" where
  "with_str path f s = (if valid_utf8 path then f s else Some (Inl Utf8Error, s))"

definition vfs_open :: "nat \<Rightarrow> bytes \<Rightarrow> file_mode \<Rightarrow> sstate \<Rightarrow> ((nat \<times> bytes) fs_result \<times> sstate) option" where
  "vfs_open t path mode = with_str path (\<lambda>s.
     do { (r, s) \<leftarrow> sys_open t path mode s; Some (map_sum (\<lambda>e. e) (\<lambda>fd. (fd, path)) r, s) })"

definition vfs_read :: "nat \<Rightarrow> nat \<Rightarrow> bytes \<Rightarrow> sstate \<Rightarrow> ((nat \<times> bytes) fs_result \<times> sstate) option" where
  "vfs_read t fd buffer s =
     do { ((r, buffer), s) \<leftarrow> sys_read t fd buffer s; Some (map_sum (\<lambda>e. e) (\<lambda>n. (n, buffer)) r, s) }"

definition vfs_write :: "nat \<Rightarrow> nat \<Rightarrow> bytes \<Rightarrow> sstate \<Rightarrow> ((nat \<times> bytes) fs_result \<times> sstate) option" where
  "vfs_write t fd buffer s =
     do { (r, s) \<leftarrow> sys_write t fd buffer s; Some (map_sum (\<lambda>e. e) (\<lambda>n. (n, buffer)) r, s) }"

definition vfs_mknod :: "nat \<Rightarrow> bytes \<Rightarrow> int \<Rightarrow> int \<Rightarrow> sstate \<Rightarrow> (unit fs_result \<times> sstate) option" where
  "vfs_mknod t path major minor = with_str path (sys_mknod t path major minor)"

definition vfs_link :: "nat \<Rightarrow> bytes \<Rightarrow> bytes \<Rightarrow> sstate \<Rightarrow> (unit fs_result \<times> sstate) option" where
  "vfs_link t old_path new_path = with_str old_path (with_str new_path (sys_link t old_path new_path))"

definition vfs_unlink :: "nat \<Rightarrow> bytes \<Rightarrow> sstate \<Rightarrow> (unit fs_result \<times> sstate) option" where
  "vfs_unlink t path = with_str path (sys_unlink t path)"

definition vfs_mkdir :: "nat \<Rightarrow> bytes \<Rightarrow> sstate \<Rightarrow> (unit fs_result \<times> sstate) option" where
  "vfs_mkdir t path = with_str path (sys_mkdir t path)"

end
