(* ===== verification/Sysfile_Spec.thy ===== *)
theory Sysfile_Spec
  imports Sysfile
begin

text \<open>
  What the descriptor tables promise: the strong count of every open file is the number of table
  entries that name it, in any thread's table or in transit between threads, and the two ends of a
  pipe are open as long as, and no longer than, some descriptor names them.
\<close>

section \<open>The invariant\<close>

definition fd_refs :: "nat \<Rightarrow> fd_table \<Rightarrow> nat" where
  "fd_refs f tab = length (filter (\<lambda>x. x = Some f) tab)"

definition transit_refs :: "nat \<Rightarrow> fd_table option \<Rightarrow> nat" where
  "transit_refs f x = (case x of None \<Rightarrow> 0 | Some tab \<Rightarrow> fd_refs f tab)"

definition handles :: "sstate \<Rightarrow> nat \<Rightarrow> nat" where
  "handles s f = sum_list (map (fd_refs f) (ss_tables s)) + sum_list (map (transit_refs f) (ss_ctts s))"

definition is_end :: "nat \<Rightarrow> bool \<Rightarrow> opened_file \<Rightarrow> bool" where
  "is_end p w x \<longleftrightarrow> of_type x = OPipe p \<and> of_writable x = w"

definition live_end :: "opened_file list \<Rightarrow> nat \<Rightarrow> bool \<Rightarrow> bool" where
  "live_end fs p w \<longleftrightarrow> (\<exists>x \<in> set fs. is_end p w x \<and> 0 < of_refs x)"

definition end_open :: "bool \<Rightarrow> pipe \<Rightarrow> bool" where
  "end_open w p = (if w then pi_writeopen (pp_int p) else pi_readopen (pp_int p))"

definition pipes_inv :: "opened_file list \<Rightarrow> pipe list \<Rightarrow> bool" where
  "pipes_inv fs ps \<longleftrightarrow>
     (\<forall>f < length fs. \<forall>p. of_type (fs ! f) = OPipe p \<longrightarrow> p < length ps) \<and>
     (\<forall>f < length fs. \<forall>g < length fs. \<forall>p w. is_end p w (fs ! f) \<longrightarrow> is_end p w (fs ! g) \<longrightarrow> f = g) \<and>
     (\<forall>p < length ps. pipe_ok (pp_int (ps ! p)) \<and> (\<forall>w. end_open w (ps ! p) \<longleftrightarrow> live_end fs p w))"

text \<open>\<open>H f\<close> references to the file \<open>f\<close> are held by the operation that is running.\<close>

definition refs_inv :: "(nat \<Rightarrow> nat) \<Rightarrow> sstate \<Rightarrow> bool" where
  "refs_inv H s \<longleftrightarrow>
     (\<forall>f. H f + handles s f = (if f < length (ss_files s) then of_refs (ss_files s ! f) else 0))"

definition files_inv :: "(nat \<Rightarrow> nat) \<Rightarrow> sstate \<Rightarrow> bool" where
  "files_inv H s \<longleftrightarrow> refs_inv H s \<and> pipes_inv (ss_files s) (ss_pipes s)"

text \<open>Descriptor tables are arrays of \<open>NFILE\<close> entries.\<close>

definition len_inv :: "sstate \<Rightarrow> bool" where
  "len_inv s \<longleftrightarrow> (\<forall>tab \<in> set (ss_tables s). length tab = NFILE) \<and>
     (\<forall>tab. Some tab \<in> set (ss_ctts s) \<longrightarrow> length tab = NFILE)"

abbreviation none_held :: "nat \<Rightarrow> nat" where "none_held \<equiv> \<lambda>_. 0"

definition same_handles :: "sstate \<Rightarrow> sstate \<Rightarrow> bool" where
  "same_handles s s' \<longleftrightarrow> ss_tables s' = ss_tables s \<and> ss_ctts s' = ss_ctts s"

section \<open>Reachable states\<close>

definition fresh_state :: "sstate \<Rightarrow> bool" where
  "fresh_state s \<longleftrightarrow> ss_files s = [] \<and> ss_pipes s = [] \<and> ss_ctts s = [] \<and>
     (\<forall>tab \<in> set (ss_tables s). tab = replicate NFILE None)"

inductive sys_step :: "sstate \<Rightarrow> sstate \<Rightarrow> bool" where
  dup: "sys_dup t fd s = Some (r1, s') \<Longrightarrow> sys_step s s'"
| reads: "sys_read t fd buf s = Some (r2, s') \<Longrightarrow> sys_step s s'"
| writes: "sys_write t fd buf s = Some (r1, s') \<Longrightarrow> sys_step s s'"
| closes: "sys_close t fd s = Some (r3, s') \<Longrightarrow> sys_step s s'"
| seek: "sys_seek t fd off s = Some (r3, s') \<Longrightarrow> sys_step s s'"
| fstat: "sys_fstat t fd s = Some (r4, s') \<Longrightarrow> sys_step s s'"
| link: "sys_link t old new s = Some (r3, s') \<Longrightarrow> sys_step s s'"
| unlink: "sys_unlink t path s = Some (r3, s') \<Longrightarrow> sys_step s s'"
| mknod: "sys_mknod t path major minor s = Some (r3, s') \<Longrightarrow> sys_step s s'"
| mkdir: "sys_mkdir t path s = Some (r3, s') \<Longrightarrow> sys_step s s'"
| opens: "sys_open t path mode s = Some (r1, s') \<Longrightarrow> sys_step s s'"
| pipe: "sys_pipe t s = Some (r5, s') \<Longrightarrow> sys_step s s'"
| save: "length fds = NFILE \<Longrightarrow> sys_save_threadlocal t fds s = Some (r1, s') \<Longrightarrow> sys_step s s'"
| sets: "sys_set_threadlocal t key s = Some (r3, s') \<Longrightarrow> sys_step s s'"
| exits: "sys_thread_exit t s = Some s' \<Longrightarrow> sys_step s s'"

inductive_cases sys_stepE: "sys_step s s'"

section \<open>Counting\<close>

lemma none_held_upd [simp]: "none_held(f := 0) = none_held"
  by auto

lemma sum_list_update_add:
  fixes g :: "'a \<Rightarrow> nat"
  shows "k < length xs \<Longrightarrow> sum_list (map g (xs[k := x])) + g (xs ! k) = sum_list (map g xs) + g x"
proof (induction xs arbitrary: k)
  case (Cons y ys)
  show ?case
  proof (cases k)
    case (Suc j)
    then show ?thesis using Cons by simp
  qed simp
qed simp

lemma fd_refs_simps [simp]:
  "fd_refs f [] = 0" "fd_refs f (x # tab) = (if x = Some f then 1 else 0) + fd_refs f tab"
  "fd_refs f (tab1 @ tab2) = fd_refs f tab1 + fd_refs f tab2" "fd_refs f (replicate n None) = 0"
  by (simp_all add: fd_refs_def)

lemma fd_refs_update:
  "k < length tab \<Longrightarrow> fd_refs f (tab[k := x]) + (if tab ! k = Some f then 1 else 0) = fd_refs f tab + (if x = Some f then 1 else 0)"
proof (induction tab arbitrary: k)
  case (Cons y ys)
  show ?case
  proof (cases k)
    case (Suc j)
    then show ?thesis using Cons.IH[of j] Cons.prems by simp
  qed simp
qed simp

lemma handles_set_table:
  assumes "set_table t tab s = Some s'" "table_of t s = Some old"
  shows "handles s' f + fd_refs f old = handles s f + fd_refs f tab"
    "ss_files s' = ss_files s" "ss_pipes s' = ss_pipes s"
  using assms sum_list_update_add[of t "ss_tables s" "fd_refs f" tab]
  by (auto simp: set_table_def table_of_def handles_def panic_simps)

lemma same_handles_eq: "same_handles s s' \<Longrightarrow> handles s' = handles s"
  by (auto simp: same_handles_def handles_def)

lemma on_fs_frame:
  "on_fs t f s = Some (x, s') \<Longrightarrow>
   ss_files s' = ss_files s \<and> ss_pipes s' = ss_pipes s \<and> ss_tables s' = ss_tables s \<and> ss_ctts s' = ss_ctts s"
  by (auto simp: on_fs_def panic_simps)

lemma files_inv_cong:
  "ss_files s' = ss_files s \<and> ss_pipes s' = ss_pipes s \<and> ss_tables s' = ss_tables s \<and> ss_ctts s' = ss_ctts s \<Longrightarrow>
   files_inv H s' = files_inv H s"
  by (simp add: files_inv_def refs_inv_def handles_def)

text \<open>Moving references between tables and the running operation.\<close>

lemma files_inv_move:
  assumes "files_inv H s" "ss_files s' = ss_files s" "ss_pipes s' = ss_pipes s"
    and "\<And>f. H' f + handles s' f = H f + handles s f"
  shows "files_inv H' s'"
  using assms(1) unfolding files_inv_def refs_inv_def assms(2-4) .

lemma files_inv_on_fs: "on_fs t f s = Some (x, s') \<Longrightarrow> files_inv H s' = files_inv H s"
  by (drule on_fs_frame) (rule files_inv_cong)

lemma files_inv_upd_fs: "upd_fs t f s = Some s' \<Longrightarrow> files_inv H s' = files_inv H s"
  using files_inv_on_fs[of t "\<lambda>fs. do { fs \<leftarrow> f fs; Some ((), fs) }" s "()" s' H]
  by (auto simp: upd_fs_def panic_simps)

section \<open>Pipes\<close>

lemma live_end_nth:
  "live_end fs p w \<longleftrightarrow> (\<exists>g < length fs. is_end p w (fs ! g) \<and> 0 < of_refs (fs ! g))"
  unfolding live_end_def by (metis in_set_conv_nth)

lemma live_end_update:
  assumes "f < length fs" "of_type x = of_type (fs ! f)" "of_writable x = of_writable (fs ! f)"
    and "0 < of_refs x \<longleftrightarrow> 0 < of_refs (fs ! f)"
  shows "live_end (fs[f := x]) p w = live_end fs p w"
proof -
  have "is_end p w (fs[f := x] ! g) \<and> 0 < of_refs (fs[f := x] ! g) \<longleftrightarrow> is_end p w (fs ! g) \<and> 0 < of_refs (fs ! g)"
    if "g < length fs" for g
    using assms that by (auto simp: is_end_def nth_list_update)
  then show ?thesis by (auto simp: live_end_nth)
qed

lemma pipes_inv_update:
  assumes "pipes_inv fs ps" "f < length fs" "of_type x = of_type (fs ! f)" "of_writable x = of_writable (fs ! f)"
    and "0 < of_refs x \<longleftrightarrow> 0 < of_refs (fs ! f)"
  shows "pipes_inv (fs[f := x]) ps"
proof -
  have e: "is_end p w (fs[f := x] ! g) = is_end p w (fs ! g)" "of_type (fs[f := x] ! g) = of_type (fs ! g)"
    if "g < length fs" for p w g
    using assms(2-4) that by (auto simp: is_end_def nth_list_update)
  show ?thesis
    using assms(1) e live_end_update[OF assms(2-5)] unfolding pipes_inv_def by simp
qed

lemma pipes_inv_pipe:
  assumes "pipes_inv fs ps" "pipe_ok (pp_int q)" "\<forall>w. end_open w q = end_open w (ps ! p)" "p < length ps"
  shows "pipes_inv fs (ps[p := q])"
  using assms unfolding pipes_inv_def by (auto simp: nth_list_update)

lemma pipes_inv_other_type:
  assumes "pipes_inv fs ps" "f < length fs" "\<forall>p. of_type x \<noteq> OPipe p" "\<forall>p. of_type (fs ! f) \<noteq> OPipe p"
  shows "pipes_inv (fs[f := x]) ps"
proof -
  have e: "is_end p w (fs[f := x] ! g) \<longleftrightarrow> g \<noteq> f \<and> is_end p w (fs ! g)"
    "of_type (fs[f := x] ! g) = OPipe p \<longleftrightarrow> g \<noteq> f \<and> of_type (fs ! g) = OPipe p"
    if "g < length fs" for p w g
    using assms(2-4) that by (auto simp: is_end_def nth_list_update)
  have "is_end p w (fs[f := x] ! g) \<and> 0 < of_refs (fs[f := x] ! g) \<longleftrightarrow> is_end p w (fs ! g) \<and> 0 < of_refs (fs ! g)"
    if "g < length fs" for g p w
    using e(1)[OF that] assms(4) that by (cases "g = f") (auto simp: is_end_def)
  then have "live_end (fs[f := x]) p w = live_end fs p w" for p w by (auto simp: live_end_nth)
  then show ?thesis using assms(1) e unfolding pipes_inv_def by simp blast
qed

lemma live_end_append:
  "live_end (fs @ [x]) p w \<longleftrightarrow> live_end fs p w \<or> is_end p w x \<and> 0 < of_refs x"
  by (auto simp: live_end_def)

lemma live_end_bound: "pipes_inv fs ps \<Longrightarrow> length ps \<le> p \<Longrightarrow> \<not> live_end fs p w"
  unfolding pipes_inv_def live_end_def is_end_def by (metis in_set_conv_nth not_le)

section \<open>References\<close>

lemma file_clone_inv:
  assumes "files_inv H s" "file_clone f s = Some s'" "0 < of_refs (ss_files s ! f)"
  shows "files_inv (H(f := H f + 1)) s'"
proof -
  have b: "f < length (ss_files s)"
    and s': "s' = s\<lparr>ss_files := (ss_files s)[f := (ss_files s ! f)\<lparr>of_refs := of_refs (ss_files s ! f) + 1\<rparr>]\<rparr>"
    using assms(2) by (auto simp: file_clone_def modify_file_def panic_simps)
  have "pipes_inv (ss_files s') (ss_pipes s')"
    using assms(1,3) b by (auto simp: files_inv_def s' intro!: pipes_inv_update)
  moreover have "refs_inv (H(f := H f + 1)) s'"
    using assms(1) b unfolding files_inv_def refs_inv_def s' handles_def
    by (auto simp: nth_list_update)
  ultimately show ?thesis by (simp add: files_inv_def)
qed

text \<open>Closing the last reference to an end of a pipe.\<close>

lemma pipes_inv_close:
  assumes "pipes_inv fs ps" "f < length fs" "is_end p w (fs ! f)"
    and x: "of_type x = of_type (fs ! f)" "of_writable x = of_writable (fs ! f)" "of_refs x = 0"
  shows "pipes_inv (fs[f := x]) (ps[p := pipe_close w (ps ! p)])"
proof -
  have p: "p < length ps" using assms(1-3) by (auto simp: pipes_inv_def is_end_def)
  have e: "is_end q v (fs[f := x] ! g) = is_end q v (fs ! g)" "of_type (fs[f := x] ! g) = of_type (fs ! g)"
    if "g < length fs" for q v g
    using x that assms(2) by (auto simp: is_end_def nth_list_update)
  have "live_end (fs[f := x]) q v \<longleftrightarrow> live_end fs q v \<and> \<not> (q = p \<and> v = w)" for q v
  proof -
    have "is_end q v (fs[f := x] ! g) \<and> 0 < of_refs (fs[f := x] ! g) \<longleftrightarrow>
      is_end q v (fs ! g) \<and> 0 < of_refs (fs ! g) \<and> \<not> (q = p \<and> v = w)" if "g < length fs" for g
    proof (cases "g = f")
      case True
      then show ?thesis using assms(2,3) x by (auto simp: is_end_def)
    next
      case False
      then have "\<not> is_end p w (fs ! g)" using assms(1-3) that unfolding pipes_inv_def by metis
      then show ?thesis using False by (cases "q = p \<and> v = w") auto
    qed
    then show ?thesis by (auto simp: live_end_nth)
  qed
  moreover have "end_open v (pipe_close w q) \<longleftrightarrow> end_open v q \<and> v \<noteq> w" for v q
    by (auto simp: end_open_def pipe_close_def)
  ultimately show ?thesis
    using assms(1) e p pipe_close_spec unfolding pipes_inv_def by (auto simp: nth_list_update)
qed

lemma file_drop_inv:
  assumes inv: "files_inv H s" and h: "0 < H f" and d: "file_drop t f s = Some s'"
  shows "files_inv (H(f := H f - 1)) s'"
proof -
  have b: "f < length (ss_files s)" using d by (auto simp: file_drop_def file_at_def panic_simps)
  define x where "x = ss_files s ! f"
  define y where "y = x\<lparr>of_refs := of_refs x - 1\<rparr>"
  define s1 where "s1 = s\<lparr>ss_files := (ss_files s)[f := y]\<rparr>"
  have r: "H f + handles s f = of_refs x" using inv b by (simp add: files_inv_def refs_inv_def x_def)
  have d': "(if of_refs x = 1 then OpenedFile_drop t f s1 else Some s1) = Some s'"
    using d h r by (auto simp: file_drop_def file_at_def modify_file_def panic_simps x_def y_def s1_def
        simp del: One_nat_def split: if_splits)
  have refs: "refs_inv (H(f := H f - 1)) s1"
    using inv b h r unfolding files_inv_def refs_inv_def s1_def handles_def y_def x_def
    by (auto simp: nth_list_update)
  have y: "of_type y = of_type (ss_files s ! f)" "of_writable y = of_writable (ss_files s ! f)"
    by (simp_all add: y_def x_def)
  have pinv: "pipes_inv (ss_files s) (ss_pipes s)" using inv by (simp add: files_inv_def)
  show ?thesis
  proof (cases "of_refs x = 1")
    case False
    then have "0 < of_refs y \<longleftrightarrow> 0 < of_refs (ss_files s ! f)" using r h by (simp add: y_def x_def)
    then have "pipes_inv (ss_files s1) (ss_pipes s1)"
      using pipes_inv_update[OF pinv b y] by (simp add: s1_def)
    then show ?thesis using refs d' False by (simp add: files_inv_def)
  next
    case True
    then have y0: "of_refs y = 0" by (simp add: y_def)
    have at: "file_at f s1 = Some y" using b by (simp add: file_at_def s1_def nth_chk_def)
    show ?thesis
    proof (cases "of_type x")
      case (OPipe p)
      have e: "is_end p (of_writable x) (ss_files s ! f)" using OPipe by (simp add: is_end_def x_def)
      have s': "s' = s1\<lparr>ss_pipes := (ss_pipes s)[p := pipe_close (of_writable x) (ss_pipes s ! p)]\<rparr>"
        using d' True at OPipe by (auto simp: OpenedFile_drop_def panic_simps y_def s1_def)
      then show ?thesis using refs pipes_inv_close[OF pinv b e y y0]
        by (simp add: files_inv_def refs_inv_def handles_def s1_def)
    next
      case (OINode i off)
      have "pipes_inv (ss_files s1) (ss_pipes s1)"
        using pipes_inv_other_type[OF pinv b, of y] y OINode by (simp add: s1_def x_def)
      moreover have "upd_fs t (drop_inode i) s1 = Some s'"
        using d' True at OINode by (simp add: OpenedFile_drop_def y_def)
      ultimately show ?thesis using refs files_inv_upd_fs[of t "drop_inode i" s1 s'] by (simp add: files_inv_def)
    next
      case (ODevice i major)
      have "pipes_inv (ss_files s1) (ss_pipes s1)"
        using pipes_inv_other_type[OF pinv b, of y] y ODevice by (simp add: s1_def x_def)
      moreover have "upd_fs t (drop_inode i) s1 = Some s'"
        using d' True at ODevice by (simp add: OpenedFile_drop_def y_def)
      ultimately show ?thesis using refs files_inv_upd_fs[of t "drop_inode i" s1 s'] by (simp add: files_inv_def)
    qed
  qed
qed

lemma set_table_inv:
  assumes "files_inv H s" "table_of t s = Some old" "set_table t tab s = Some s'"
    and "\<And>f. H' f + fd_refs f tab = H f + fd_refs f old"
  shows "files_inv H' s'"
proof -
  note st = handles_set_table[OF assms(3,2)]
  have "H' f + handles s' f = H f + handles s f" for f using assms(4)[of f] st(1)[of f] by simp
  then show ?thesis by (rule files_inv_move[OF assms(1) st(2,3)])
qed

lemma fdalloc_inv:
  assumes "files_inv H s" "0 < H f" "fdalloc t f s = Some (r, s')"
  shows "files_inv (H(f := H f - 1)) s'"
proof -
  obtain tab where tab: "table_of t s = Some tab" using assms(3) by (auto simp: fdalloc_def panic_simps)
  show ?thesis
  proof (cases "position (\<lambda>x. x = None) tab")
    case None
    then show ?thesis using assms tab file_drop_inv by (auto simp: fdalloc_def panic_simps)
  next
    case (Some fd)
    then have fd: "fd < length tab" "tab ! fd = None" by (auto simp: position_Some)
    have "set_table t (tab[fd := Some f]) s = Some s'"
      using assms(3) tab Some by (auto simp: fdalloc_def panic_simps)
    then show ?thesis
    proof (rule set_table_inv[OF assms(1) tab])
      show "(H(f := H f - 1)) g + fd_refs g (tab[fd := Some f]) = H g + fd_refs g tab" for g
        using fd_refs_update[OF fd(1), of g "Some f"] fd(2) assms(2) by auto
    qed
  qed
qed

lemma fd_refs_pos: "fd < length tab \<Longrightarrow> tab ! fd = Some f \<Longrightarrow> 0 < fd_refs f tab"
  by (auto simp: fd_refs_def length_greater_0_conv filter_empty_conv in_set_conv_nth)

lemma handles_ge: "table_of t s = Some tab \<Longrightarrow> fd_refs f tab \<le> handles s f"
proof -
  assume "table_of t s = Some tab"
  then have "fd_refs f tab \<in> set (map (fd_refs f) (ss_tables s))" by (auto simp: table_of_def panic_simps)
  then show ?thesis using member_le_sum_list by (fastforce simp: handles_def)
qed

lemma fd_lookup_Some:
  assumes "fd_lookup t fd s = Some (Inr f)"
  obtains tab where "table_of t s = Some tab" "fd < length tab" "tab ! fd = Some f"
  using assms by (auto simp: fd_lookup_def panic_simps split: option.splits)

lemma fd_lookup_live:
  assumes "files_inv H s" "fd_lookup t fd s = Some (Inr f)"
  shows "f < length (ss_files s)" "0 < of_refs (ss_files s ! f)"
proof -
  obtain tab where "table_of t s = Some tab" "fd < length tab" "tab ! fd = Some f"
    using assms(2) by (rule fd_lookup_Some)
  then have "0 < handles s f" using handles_ge[of t s tab f] fd_refs_pos[of fd tab f] by simp
  moreover have "H f + handles s f = (if f < length (ss_files s) then of_refs (ss_files s ! f) else 0)"
    using assms(1) by (simp add: files_inv_def refs_inv_def)
  ultimately show "f < length (ss_files s)" "0 < of_refs (ss_files s ! f)" by (auto split: if_splits)
qed

text \<open>Taking an entry out of a table leaves the operation with its reference.\<close>

lemma take_entry_inv:
  assumes "files_inv none_held s" "table_of t s = Some tab" "fd < length tab" "tab ! fd = Some f"
    and "set_table t (tab[fd := None]) s = Some s'"
  shows "files_inv (none_held(f := 1)) s'"
proof (rule set_table_inv[OF assms(1,2,5)])
  show "(none_held(f := 1)) g + fd_refs g (tab[fd := None]) = 0 + fd_refs g tab" for g
    using fd_refs_update[OF assms(3), of g None] assms(4) by auto
qed

lemma sys_dup_inv: "files_inv none_held s \<Longrightarrow> sys_dup t fd s = Some (r, s') \<Longrightarrow> files_inv none_held s'"
proof -
  assume inv: "files_inv none_held s" and d: "sys_dup t fd s = Some (r, s')"
  then obtain l where l: "fd_lookup t fd s = Some l" by (auto simp: sys_dup_def panic_simps)
  show ?thesis
  proof (cases l)
    case (Inr f)
    then obtain s1 where s1: "file_clone f s = Some s1" "fdalloc t f s1 = Some (r, s')"
      using d l by (auto simp: sys_dup_def panic_simps)
    have "files_inv (none_held(f := 1)) s1"
      using file_clone_inv[OF inv s1(1)] fd_lookup_live(2)[OF inv] l Inr by simp
    from fdalloc_inv[OF this _ s1(2)] show ?thesis by simp
  qed (use inv d l in \<open>auto simp: sys_dup_def\<close>)
qed

lemma sys_close_inv: "files_inv none_held s \<Longrightarrow> sys_close t fd s = Some (r, s') \<Longrightarrow> files_inv none_held s'"
proof -
  assume inv: "files_inv none_held s" and d: "sys_close t fd s = Some (r, s')"
  then obtain l where l: "fd_lookup t fd s = Some l" by (auto simp: sys_close_def panic_simps)
  show ?thesis
  proof (cases l)
    case (Inr f)
    then obtain tab where tab: "table_of t s = Some tab" "fd < length tab" "tab ! fd = Some f"
      using l fd_lookup_Some by blast
    then obtain s1 where s1: "set_table t (tab[fd := None]) s = Some s1" "file_drop t f s1 = Some s'"
      using d l Inr by (auto simp: sys_close_def panic_simps)
    have "files_inv (none_held(f := 1)) s1"
      by (rule take_entry_inv[OF inv tab s1(1)])
    from file_drop_inv[OF this _ s1(2)] show ?thesis by simp
  qed (use inv d l in \<open>auto simp: sys_close_def\<close>)
qed

section \<open>New files\<close>

lemma refs_inv_new:
  assumes "refs_inv H s" "same_handles s s'" "ss_files s' = ss_files s @ [x]" "of_refs x = 1"
  shows "refs_inv (H(length (ss_files s) := 1)) s'"
proof -
  have r: "H f + handles s f = (if f < length (ss_files s) then of_refs (ss_files s ! f) else 0)" for f
    using assms(1) by (simp add: refs_inv_def)
  have lt: "H f + handles s f = of_refs (ss_files s ! f)" if "f < length (ss_files s)" for f
    using r[of f] that by simp
  have ge: "H f = 0 \<and> handles s f = 0" if "length (ss_files s) \<le> f" for f
    using r[of f] that by simp
  show ?thesis
    unfolding refs_inv_def same_handles_eq[OF assms(2)] assms(3)
  proof (intro allI)
    fix f
    consider "f < length (ss_files s)" | "f = length (ss_files s)" | "length (ss_files s) < f" by linarith
    then show "(H(length (ss_files s) := 1)) f + handles s f =
        (if f < length (ss_files s @ [x]) then of_refs ((ss_files s @ [x]) ! f) else 0)"
      using lt[of f] ge[of f] assms(4) by cases (simp_all add: nth_append)
  qed
qed

lemma pipes_inv_new_other:
  assumes "pipes_inv fs ps" "\<forall>p. of_type x \<noteq> OPipe p"
  shows "pipes_inv (fs @ [x]) ps"
proof -
  have "live_end (fs @ [x]) p w = live_end fs p w" for p w using assms(2) by (simp add: live_end_append is_end_def)
  then show ?thesis
    using assms unfolding pipes_inv_def by (auto simp: nth_append less_Suc_eq is_end_def)
qed

lemma OpenedFile_new_inv:
  assumes "files_inv H s" "OpenedFile_new ft r w s = (f, s')" "\<forall>p. ft \<noteq> OPipe p"
  shows "files_inv (H(f := 1)) s'"
proof -
  have f: "f = length (ss_files s)"
    and s': "s' = s\<lparr>ss_files := ss_files s @ [\<lparr>of_type = ft, of_readable = r, of_writable = w, of_refs = 1\<rparr>]\<rparr>"
    using assms(2) by (auto simp: OpenedFile_new_def)
  have "refs_inv (H(f := 1)) s'"
    unfolding f by (rule refs_inv_new[of H s]) (use assms(1) in \<open>auto simp: files_inv_def s' same_handles_def\<close>)
  moreover have "pipes_inv (ss_files s') (ss_pipes s')"
    using pipes_inv_new_other assms(1,3) by (simp add: s' files_inv_def)
  ultimately show ?thesis by (simp add: files_inv_def)
qed

lemma pipes_inv_new_pipe:
  assumes "pipes_inv fs ps" "is_end (length ps) False x" "is_end (length ps) True y" "of_refs x = 1" "of_refs y = 1"
  shows "pipes_inv (fs @ [x, y]) (ps @ [Pipe_new])"
proof -
  have l: "live_end (fs @ [x, y]) p w \<longleftrightarrow> live_end fs p w \<or> p = length ps" for p w
    using live_end_append[of "fs @ [x]" y p w] live_end_append[of fs x p w] assms(2-5)
    by (cases w) (auto simp: is_end_def)
  have old: "p < length ps" if "f < length fs" "of_type (fs ! f) = OPipe p" for f p
    using assms(1) that by (auto simp: pipes_inv_def)
  have n: "\<not> live_end fs (length ps) w" for w using live_end_bound[OF assms(1)] by simp
  have new: "pipe_ok (pp_int Pipe_new)" "end_open w Pipe_new" for w
    by (simp_all add: Pipe_new_def PipeInternal_new_def pipe_ok_def end_open_def)
  have ix: "f < length fs \<or> f = length fs \<or> f = length fs + 1" if "f < length (fs @ [x, y])" for f
    using that by auto
  have at: "(fs @ [x, y]) ! length fs = x" "(fs @ [x, y]) ! (length fs + 1) = y"
    "f < length fs \<Longrightarrow> (fs @ [x, y]) ! f = fs ! f" for f
    by (simp_all add: nth_append)
  show ?thesis
    unfolding pipes_inv_def
  proof (intro conjI allI impI)
    fix f p assume "f < length (fs @ [x, y])" "of_type ((fs @ [x, y]) ! f) = OPipe p"
    then show "p < length (ps @ [Pipe_new])" using ix[of f] at old assms(2,3) by (fastforce simp: is_end_def)
  next
    fix f g p w assume "f < length (fs @ [x, y])" "g < length (fs @ [x, y])"
      "is_end p w ((fs @ [x, y]) ! f)" "is_end p w ((fs @ [x, y]) ! g)"
    then show "f = g"
      using ix[of f] ix[of g] at old assms(1-3) unfolding pipes_inv_def
      by (auto simp: is_end_def)
  next
    fix p assume "p < length (ps @ [Pipe_new])"
    then show "pipe_ok (pp_int ((ps @ [Pipe_new]) ! p))"
      using assms(1) new(1) by (auto simp: pipes_inv_def nth_append less_Suc_eq)
  next
    fix p w assume "p < length (ps @ [Pipe_new])"
    then show "end_open w ((ps @ [Pipe_new]) ! p) = live_end (fs @ [x, y]) p w"
      unfolding l using assms(1) new(2) n by (auto simp: pipes_inv_def nth_append less_Suc_eq)
  qed
qed

lemma pipealloc_inv:
  assumes "files_inv H s" "pipealloc s = ((f0, f1), s')"
  shows "files_inv (H(f0 := 1, f1 := 1)) s'" "f0 \<noteq> f1"
proof -
  define x where "x = \<lparr>of_type = OPipe (length (ss_pipes s)), of_readable = True, of_writable = False, of_refs = 1\<rparr>"
  define y where "y = \<lparr>of_type = OPipe (length (ss_pipes s)), of_readable = False, of_writable = True, of_refs = 1\<rparr>"
  define s1 where "s1 = s\<lparr>ss_pipes := ss_pipes s @ [Pipe_new], ss_files := ss_files s @ [x]\<rparr>"
  have f: "f0 = length (ss_files s)" "f1 = length (ss_files s1)" and s': "s' = s1\<lparr>ss_files := ss_files s1 @ [y]\<rparr>"
    using assms(2) by (auto simp: pipealloc_def OpenedFile_new_def Let_def s1_def x_def y_def)
  show "f0 \<noteq> f1" by (simp add: f s1_def)
  have "refs_inv (H(f0 := 1)) s1"
    unfolding f by (rule refs_inv_new[of H s _ x]) (use assms(1) in \<open>auto simp: files_inv_def s1_def same_handles_def x_def\<close>)
  then have "refs_inv (H(f0 := 1, f1 := 1)) s'"
    unfolding f(2) by (rule refs_inv_new[of _ s1 _ y]) (auto simp: s' same_handles_def y_def)
  moreover have "pipes_inv (ss_files s') (ss_pipes s')"
    using pipes_inv_new_pipe[of "ss_files s" "ss_pipes s" x y] assms(1)
    by (simp add: files_inv_def s' s1_def x_def y_def is_end_def)
  ultimately show "files_inv (H(f0 := 1, f1 := 1)) s'" by (simp add: files_inv_def)
qed

lemma fdalloc_table:
  assumes "fdalloc t f s = Some (Inr fd, s')"
  obtains tab where "table_of t s' = Some tab" "fd < length tab" "tab ! fd = Some f"
proof -
  obtain old where old: "table_of t s = Some old" "position (\<lambda>x. x = None) old = Some fd"
      "set_table t (old[fd := Some f]) s = Some s'"
    using assms by (auto simp: fdalloc_def panic_simps split: option.splits)
  then have "table_of t s' = Some (old[fd := Some f])"
    by (auto simp: set_table_def table_of_def panic_simps)
  then show thesis using that[of "old[fd := Some f]"] old(2) by (simp add: position_Some)
qed

lemma fdalloc_keeps_entry:
  assumes "fdalloc t g s = Some (Inl e, s')" "table_of t s = Some tab"
  shows "table_of t s' = Some tab"
proof -
  have "file_drop t g s = Some s'" using assms by (auto simp: fdalloc_def panic_simps split: option.splits)
  then have "ss_tables s' = ss_tables s"
    by (auto simp: file_drop_def file_at_def modify_file_def OpenedFile_drop_def upd_fs_def panic_simps
        split: if_splits open_file_type.splits dest!: on_fs_frame)
  then show ?thesis using assms(2) by (simp add: table_of_def)
qed

lemma sys_pipe_inv: "files_inv none_held s \<Longrightarrow> sys_pipe t s = Some (r, s') \<Longrightarrow> files_inv none_held s'"
proof -
  assume inv: "files_inv none_held s" and d: "sys_pipe t s = Some (r, s')"
  obtain rf wf s1 where pa: "pipealloc s = ((rf, wf), s1)" by (metis prod.exhaust)
  note i1 = pipealloc_inv[OF inv pa]
  obtain r0 s2 where r0: "fdalloc t rf s1 = Some (r0, s2)" using d pa by (auto simp: sys_pipe_def panic_simps)
  have i2: "files_inv (none_held(wf := 1)) s2"
    using fdalloc_inv[OF i1(1) _ r0] i1(2) by (simp add: fun_upd_twist)
  show ?thesis
  proof (cases r0)
    case (Inl e)
    then have "file_drop t wf s2 = Some s'" using d pa r0 by (auto simp: sys_pipe_def panic_simps)
    from file_drop_inv[OF i2 _ this] show ?thesis by simp
  next
    case (Inr fd0)
    obtain r1 s3 where r1: "fdalloc t wf s2 = Some (r1, s3)" using d pa r0 Inr by (auto simp: sys_pipe_def panic_simps)
    have i3: "files_inv none_held s3" using fdalloc_inv[OF i2 _ r1] by simp
    show ?thesis
    proof (cases r1)
      case (Inr fd1)
      then show ?thesis using d pa r0 r1 i3 \<open>r0 = Inr fd0\<close> by (auto simp: sys_pipe_def)
    next
      case (Inl e)
      obtain tab where "table_of t s2 = Some tab" and tab: "fd0 < length tab" "tab ! fd0 = Some rf"
        using r0 \<open>r0 = Inr fd0\<close> fdalloc_table by metis
      then have tb: "table_of t s3 = Some tab" using fdalloc_keeps_entry r1 Inl by blast
      then obtain s4 where s4: "set_table t (tab[fd0 := None]) s3 = Some s4" "file_drop t rf s4 = Some s'"
        using d pa r0 r1 Inl \<open>r0 = Inr fd0\<close> by (auto simp: sys_pipe_def panic_simps)
      have "files_inv (none_held(rf := 1)) s4"
        by (rule take_entry_inv[OF i3 tb tab s4(1)])
      from file_drop_inv[OF this _ s4(2)] show ?thesis by simp
    qed
  qed
qed

section \<open>Table sizes\<close>

lemma file_clone_frame: "file_clone f s = Some s' \<Longrightarrow> same_handles s s'"
  by (auto simp: file_clone_def modify_file_def same_handles_def panic_simps)

lemma file_drop_frame: "file_drop t f s = Some s' \<Longrightarrow> same_handles s s'"
  by (auto simp: file_drop_def file_at_def modify_file_def OpenedFile_drop_def upd_fs_def same_handles_def panic_simps
      split: if_splits open_file_type.splits dest!: on_fs_frame)

lemma len_inv_same: "same_handles s s' \<Longrightarrow> len_inv s \<Longrightarrow> len_inv s'"
  by (simp add: len_inv_def same_handles_def)

lemma len_inv_set: "len_inv s \<Longrightarrow> set_table t tab s = Some s' \<Longrightarrow> length tab = NFILE \<Longrightarrow> len_inv s'"
  by (auto simp: len_inv_def set_table_def panic_simps dest!: set_update_subset_insert[THEN subsetD])

lemma table_len: "len_inv s \<Longrightarrow> table_of t s = Some tab \<Longrightarrow> length tab = NFILE"
  by (auto simp: len_inv_def table_of_def panic_simps)

lemma on_fs_same: "on_fs t f s = Some (x, s') \<Longrightarrow> same_handles s s'"
  by (drule on_fs_frame) (simp add: same_handles_def)

lemma upd_fs_same: "upd_fs t f s = Some s' \<Longrightarrow> same_handles s s'"
  by (auto simp: upd_fs_def panic_simps intro: on_fs_same)

lemma modify_file_same: "modify_file f g s = Some s' \<Longrightarrow> same_handles s s'"
  by (auto simp: modify_file_def same_handles_def panic_simps)

lemma same_handles_trans: "same_handles s s' \<Longrightarrow> same_handles s' s'' \<Longrightarrow> same_handles s s''"
  by (simp add: same_handles_def)

lemma fdalloc_len: "len_inv s \<Longrightarrow> fdalloc t f s = Some (r, s') \<Longrightarrow> len_inv s'"
proof -
  assume l: "len_inv s" and d: "fdalloc t f s = Some (r, s')"
  then obtain tab where tab: "table_of t s = Some tab" by (auto simp: fdalloc_def panic_simps)
  show ?thesis
  proof (cases "position (\<lambda>x. x = None) tab")
    case None
    then show ?thesis using l d tab len_inv_same[OF file_drop_frame] by (auto simp: fdalloc_def panic_simps)
  next
    case (Some fd)
    then show ?thesis using l d tab len_inv_set[OF l] table_len[OF l tab] by (auto simp: fdalloc_def panic_simps)
  qed
qed

lemma OpenedFile_new_same: "OpenedFile_new ft r w s = (f, s') \<Longrightarrow> same_handles s s'"
  by (auto simp: OpenedFile_new_def same_handles_def)

section \<open>Reading and writing\<close>

lemma set_offset_inv:
  assumes "files_inv H s" "file_at f s = Some x" "of_type x = OINode i off"
    and "modify_file f (\<lambda>x. x\<lparr>of_type := OINode i off'\<rparr>) s = Some s'"
  shows "files_inv H s'"
proof -
  have b: "f < length (ss_files s)" "ss_files s ! f = x" using assms(2) by (auto simp: file_at_def panic_simps)
  have s': "s' = s\<lparr>ss_files := (ss_files s)[f := x\<lparr>of_type := OINode i off'\<rparr>]\<rparr>"
    using assms(4) b by (auto simp: modify_file_def panic_simps)
  have "pipes_inv (ss_files s') (ss_pipes s')"
    using pipes_inv_other_type[of "ss_files s" "ss_pipes s" f "x\<lparr>of_type := OINode i off'\<rparr>"] assms(1,3) b
    by (simp add: files_inv_def s')
  then show ?thesis
    using assms(1) b by (auto simp: files_inv_def refs_inv_def handles_def s' nth_list_update)
qed

lemma pipe_update_inv:
  assumes "files_inv H s" "p < length (ss_pipes s)" "pipe_ok (pp_int q)" "\<forall>w. end_open w q = end_open w (ss_pipes s ! p)"
  shows "files_inv H (s\<lparr>ss_pipes := (ss_pipes s)[p := q]\<rparr>)"
  using assms pipes_inv_pipe[of "ss_files s" "ss_pipes s" q p]
  by (auto simp: files_inv_def refs_inv_def handles_def)

lemma files_inv_pipe_ok: "files_inv H s \<Longrightarrow> p < length (ss_pipes s) \<Longrightarrow> pipe_ok (pp_int (ss_pipes s ! p))"
  by (simp add: files_inv_def pipes_inv_def)

lemma write_segment_keeps:
  assumes "pipe_ok (pp_int p)" "write_segment buf st p = Some (r, p')"
  shows "pipe_ok (pp_int p')" "end_open w p' = end_open w p"
  using write_segment_spec[OF assms] by (simp_all add: same_ends_def end_open_def)

lemma read_segment_keeps:
  assumes "pipe_ok (pp_int p)" "read_segment buf p = Some (r, p')"
  shows "pipe_ok (pp_int p')" "end_open w p' = end_open w p"
proof (atomize (full), cases "read_pred (pp_int p)")
  case True
  obtain i where "read_bytes (length buf) (pp_int p) = Some (take (length buf) (pending (pp_int p)), i)" "pipe_ok i"
    "pi_readopen i = pi_readopen (pp_int p)" "pi_writeopen i = pi_writeopen (pp_int p)"
    using read_bytes_spec[OF assms(1), of "length buf"] by blast
  then show "pipe_ok (pp_int p') \<and> end_open w p' = end_open w p"
    using assms(2) True by (auto simp: read_segment_def end_open_def)
next
  case False
  then show "pipe_ok (pp_int p') \<and> end_open w p' = end_open w p"
    using assms by (auto simp: read_segment_def)
qed

lemma files_inv_console [simp]: "files_inv H (s\<lparr>ss_console := c\<rparr>) = files_inv H s"
  by (rule files_inv_cong) simp

lemma on_fs_file_at: "on_fs t g s = Some (x, s') \<Longrightarrow> file_at f s' = file_at f s"
  by (drule on_fs_frame) (simp add: file_at_def)

lemma file_read_inv:
  assumes "files_inv H s" "file_read t f buf s = Some (r, s')"
  shows "files_inv H s'"
proof -
  obtain x where x: "file_at f s = Some x" using assms(2) by (auto simp: file_read_def panic_simps)
  note d = assms(2)[unfolded file_read_def x bind.bind_lunit]
  show ?thesis
  proof (cases "of_readable x")
    case True
    show ?thesis
    proof (cases "of_type x")
      case (OPipe p)
      then obtain pp r1 where p: "p < length (ss_pipes s)" "read_segment buf (ss_pipes s ! p) = Some (r1, pp)"
        using d True by (auto simp: panic_simps)
      then have s': "s' = s\<lparr>ss_pipes := (ss_pipes s)[p := pp]\<rparr>"
        using d True OPipe by (cases r1) (auto simp: panic_simps)
      show ?thesis
        using pipe_update_inv[OF assms(1) p(1)] read_segment_keeps[OF files_inv_pipe_ok[OF assms(1) p(1)] p(2)]
        by (simp add: s')
    next
      case (OINode i off)
      then obtain r1 b1 s1 where o: "on_fs t (read_inode i buf off) s = Some ((r1, b1), s1)"
        and c: "(case r1 of Inl e \<Rightarrow> Some ((Inl e, b1), s1)
             | Inr n \<Rightarrow> modify_file f (\<lambda>x. x\<lparr>of_type := OINode i ((off + n) mod 2 ^ 64)\<rparr>) s1 \<bind> (\<lambda>s. Some ((Inr n, b1), s))) = Some (r, s')"
        using d True by (auto simp: panic_simps)
      have i1: "files_inv H s1" using files_inv_on_fs[OF o] assms(1) by simp
      have x1: "file_at f s1 = Some x" using on_fs_file_at[OF o] x by simp
      show ?thesis using c i1 set_offset_inv[OF i1 x1 OINode] by (auto simp: panic_simps split: sum.splits)
    next
      case (ODevice i major)
      then show ?thesis using d True assms(1) by (auto simp: panic_simps split: if_splits)
    qed
  qed (use d assms(1) in simp)
qed

lemma file_write_loop_inv:
  "file_write_loop t f buf k s = Some (r, s') \<Longrightarrow> files_inv H s \<Longrightarrow> files_inv H s'"
proof (induction t f buf k s rule: file_write_loop.induct)
  case (1 t f buf k s)
  show ?case
  proof (cases "k < length buf")
    case True
    note d = "1.prems"(1)[unfolded file_write_loop.simps[of t f buf k s]]
    obtain x where fx: "file_at f s = Some x" using d True by (auto simp: bind_eq_Some_conv)
    obtain i off where x: "file_at f s = Some x" "of_type x = OINode i off"
      using d True fx by (cases "of_type x") auto
    obtain sl r1 s1 where sl: "slice_chk buf k (k + min (length buf - k) MAX_WRITE) = Some sl"
      and o: "on_fs t (write_inode i sl off) s = Some (r1, s1)"
      using d True x by (auto simp: bind_eq_Some_conv)
    have r1: "r1 = Inr (length sl)" using write_inode_returns[OF o] .
    obtain s2 where s2: "modify_file f (\<lambda>x. x\<lparr>of_type := OINode i ((off + length sl) mod 2 ^ 64)\<rparr>) s1 = Some s2"
      and w: "file_write_loop t f buf (k + length sl) s2 = Some (r, s')"
      using d True x sl o r1 by (auto simp: bind_eq_Some_conv)
    have i1: "files_inv H s1" using files_inv_on_fs[OF o] "1.prems"(2) by simp
    have x1: "file_at f s1 = Some x" using on_fs_file_at[OF o] x by simp
    have i2: "files_inv H s2" by (rule set_offset_inv[OF i1 x1 x(2) s2])
    show ?thesis
      by (rule "1.IH"[OF True x(1) _ _ sl o _ r1 s2 w i2]) (simp_all add: x(2))
  next
    case False
    then show ?thesis using 1 by (auto simp: panic_simps)
  qed
qed

lemma file_write_inv:
  assumes "files_inv H s" "file_write t f buf s = Some (r, s')"
  shows "files_inv H s'"
proof -
  obtain x where x: "file_at f s = Some x" using assms(2) by (auto simp: file_write_def panic_simps)
  note d = assms(2)[unfolded file_write_def x bind.bind_lunit]
  show ?thesis
  proof (cases "of_writable x")
    case True
    show ?thesis
    proof (cases "of_type x")
      case (OPipe p)
      then obtain pp r1 where p: "p < length (ss_pipes s)" "write_segment buf Entering (ss_pipes s ! p) = Some (r1, pp)"
        using d True by (auto simp: panic_simps)
      then have s': "s' = s\<lparr>ss_pipes := (ss_pipes s)[p := pp]\<rparr>"
        using d True OPipe by (cases r1) (auto simp: panic_simps)
      show ?thesis
        using pipe_update_inv[OF assms(1) p(1)] write_segment_keeps[OF files_inv_pipe_ok[OF assms(1) p(1)] p(2)]
        by (simp add: s')
    next
      case (OINode i off)
      then have "file_write_loop t f buf 0 s = Some (r, s')" using d True by (simp del: file_write_loop.simps)
      then show ?thesis using file_write_loop_inv assms(1) by blast
    next
      case (ODevice i major)
      then show ?thesis using d True assms(1) by (auto split: if_splits)
    qed
  qed (use d assms(1) in simp)
qed

lemma file_seek_inv:
  assumes "files_inv H s" "file_seek t f n s = Some (r, s')"
  shows "files_inv H s'"
proof -
  obtain x where x: "file_at f s = Some x" using assms(2) by (auto simp: file_seek_def panic_simps)
  show ?thesis
  proof (cases "of_type x")
    case (OINode i off)
    then obtain s1 s2 where s1: "upd_fs t (inode_lock i) s = Some s1"
      and s2: "modify_file f (\<lambda>x. x\<lparr>of_type := OINode i n\<rparr>) s1 = Some s2" "upd_fs t (inode_unlock i) s2 = Some s'"
      using assms(2) x by (auto simp: file_seek_def bind_eq_Some_conv)
    have i1: "files_inv H s1" using files_inv_upd_fs[OF s1] assms(1) by simp
    have x1: "file_at f s1 = Some x" using s1 x on_fs_file_at by (fastforce simp: upd_fs_def panic_simps)
    show ?thesis using files_inv_upd_fs[OF s2(2)] set_offset_inv[OF i1 x1 OINode s2(1)] by simp
  qed (use assms x in \<open>auto simp: file_seek_def\<close>)
qed

lemma file_stat_inv:
  assumes "files_inv H s" "file_stat_of t f s = Some (r, s')"
  shows "files_inv H s'"
proof -
  obtain x where x: "file_at f s = Some x" using assms(2) by (auto simp: file_stat_of_def panic_simps)
  show ?thesis
    using assms x files_inv_on_fs by (cases "of_type x") (fastforce simp: file_stat_of_def panic_simps)+
qed

lemma fd_op_inv:
  assumes "files_inv H s" "do { r \<leftarrow> fd_lookup t fd s; case r of Inl e \<Rightarrow> Some (g e, s) | Inr f \<Rightarrow> op f s } = Some (r', s')"
    and "\<And>f r s'. op f s = Some (r, s') \<Longrightarrow> files_inv H s'"
  shows "files_inv H s'"
proof -
  obtain l where l: "fd_lookup t fd s = Some l" using assms(2) by (auto simp: bind_eq_Some_conv)
  show ?thesis using assms l by (cases l) auto
qed

lemma sys_read_inv: "files_inv H s \<Longrightarrow> sys_read t fd buf s = Some (r, s') \<Longrightarrow> files_inv H s'"
  unfolding sys_read_def by (rule fd_op_inv) (auto intro: file_read_inv)

lemma sys_write_inv: "files_inv H s \<Longrightarrow> sys_write t fd buf s = Some (r, s') \<Longrightarrow> files_inv H s'"
  unfolding sys_write_def by (rule fd_op_inv) (auto intro: file_write_inv)

lemma sys_seek_inv: "files_inv H s \<Longrightarrow> sys_seek t fd off s = Some (r, s') \<Longrightarrow> files_inv H s'"
  unfolding sys_seek_def by (rule fd_op_inv) (auto intro: file_seek_inv)

lemma sys_fstat_inv: "files_inv H s \<Longrightarrow> sys_fstat t fd s = Some (r, s') \<Longrightarrow> files_inv H s'"
  unfolding sys_fstat_def by (rule fd_op_inv) (auto intro: file_stat_inv)

lemma open_file_inv:
  assumes "files_inv none_held s" "open_file t mode i s = Some (r, s')"
  shows "files_inv none_held s'" "len_inv s \<Longrightarrow> len_inv s'"
proof -
  obtain s1 n where s1: "upd_fs t (inode_lock i) s = Some s1" and n: "inode_at i (ss_fs s1) = Some n"
    using assms(2) by (auto simp: open_file_def bind_eq_Some_conv)
  note f1 = files_inv_upd_fs[OF s1] len_inv_same[OF upd_fs_same[OF s1]]
  have "files_inv none_held s' \<and> (len_inv s \<longrightarrow> len_inv s')"
  proof (cases "i_file_type (in_data n) = Device \<and> (i_major (in_data n) < 0 \<or> NDEV \<le> i_major (in_data n))")
    case True
    then have s2: "upd_fs t (unlock_put i) s1 = Some s'"
      using assms(2) s1 n by (auto simp: open_file_def bind_eq_Some_conv Let_def)
    then show ?thesis using assms(1) f1 files_inv_upd_fs[OF s2] len_inv_same[OF upd_fs_same[OF s2]] by simp
  next
    case False
    define ft where "ft = (if i_file_type (in_data n) = Device then ODevice i (as_usize (i_major (in_data n))) else OINode i 0)"
    obtain s2 where s2: "upd_fs t (arc_clone i) s1 = Some s2"
      using assms(2) s1 n False by (auto simp: open_file_def bind_eq_Some_conv Let_def)
    obtain f s3 where f: "OpenedFile_new ft (mode_read mode) (mode_write mode) s2 = (f, s3)" by force
    obtain s4 s5 where s4: "fdalloc t f s3 = Some (r, s4)"
      and s5: "upd_fs t (inode_unlock i) s4 = Some s5" "upd_fs t (arc_drop i) s5 = Some s'"
      using assms(2) s1 s2 n False f unfolding open_file_def ft_def by (auto simp: bind_eq_Some_conv Let_def)
    note f2 = files_inv_upd_fs[OF s2] files_inv_upd_fs[OF s5(1)] files_inv_upd_fs[OF s5(2)]
    have "files_inv (none_held(f := 1)) s3"
      by (rule OpenedFile_new_inv[OF _ f]) (use assms(1) f1 f2 in \<open>auto simp: ft_def\<close>)
    from fdalloc_inv[OF this _ s4] have "files_inv none_held s4" by simp
    moreover have "len_inv s \<longrightarrow> len_inv s'"
      using f1(2) len_inv_same[OF upd_fs_same[OF s2]] len_inv_same[OF OpenedFile_new_same[OF f]] fdalloc_len[OF _ s4]
        len_inv_same[OF upd_fs_same[OF s5(1)]] len_inv_same[OF upd_fs_same[OF s5(2)]] by blast
    ultimately show ?thesis using f2 by simp
  qed
  then show "files_inv none_held s'" "len_inv s \<Longrightarrow> len_inv s'" by simp_all
qed

lemma sys_open_inv:
  assumes "files_inv none_held s" "sys_open t path mode s = Some (r, s')"
  shows "files_inv none_held s'" "len_inv s \<Longrightarrow> len_inv s'"
proof -
  obtain s1 r1 s2 s3 where s1: "upd_fs t begin_trans s = Some s1" "on_fs t (open_inode path mode) s1 = Some (r1, s2)"
    and m: "(case r1 of Inl e \<Rightarrow> Some (Inl e, s2) | Inr i \<Rightarrow> open_file t mode i s2) = Some (r, s3)"
    and s3: "upd_fs t end_transaction s3 = Some s'"
    using assms(2) unfolding sys_open_def by (auto simp: bind_eq_Some_conv)
  have i2: "files_inv none_held s2" using assms(1) files_inv_upd_fs[OF s1(1)] files_inv_on_fs[OF s1(2)] by simp
  have "files_inv none_held s3 \<and> (len_inv s2 \<longrightarrow> len_inv s3)"
    using m i2 open_file_inv[OF i2] by (cases r1) auto
  then show "files_inv none_held s'" "len_inv s \<Longrightarrow> len_inv s'"
    using files_inv_upd_fs[OF s3] len_inv_same[OF upd_fs_same[OF s3]] len_inv_same[OF upd_fs_same[OF s1(1)]]
      len_inv_same[OF on_fs_same[OF s1(2)]] by blast+
qed

section \<open>Handing over descriptors\<close>

lemma drop_all_inv:
  "files_inv (\<lambda>f. H f + fd_refs f tab) s \<Longrightarrow> drop_all t tab s = Some s' \<Longrightarrow> files_inv H s' \<and> same_handles s s'"
proof (induction t tab s rule: drop_all.induct)
  case (3 t f fs s)
  then obtain s1 where s1: "file_drop t f s = Some s1" "drop_all t fs s1 = Some s'" by (auto simp: panic_simps)
  have "files_inv ((\<lambda>g. H g + fd_refs g (Some f # fs))(f := H f + fd_refs f (Some f # fs) - 1)) s1"
    using file_drop_inv[OF "3.prems"(1) _ s1(1)] by simp
  moreover have "(\<lambda>g. H g + fd_refs g (Some f # fs))(f := H f + fd_refs f (Some f # fs) - 1) = (\<lambda>g. H g + fd_refs g fs)"
    by auto
  ultimately show ?case
    using "3.IH"[OF s1(1) _ s1(2)] file_drop_frame[OF s1(1)] by (auto simp: same_handles_def)
qed (auto simp: same_handles_def)

lemma table_entry_live:
  assumes "files_inv H s" "table_of t s = Some tab" "fd < length tab" "tab ! fd = Some f"
  shows "0 < of_refs (ss_files s ! f)"
proof -
  have "fd_lookup t fd s = Some (Inr f)" using assms(2-4) by (simp add: fd_lookup_def nth_chk_def)
  then show ?thesis using fd_lookup_live(2)[OF assms(1)] by simp
qed

lemma clone_fds_inv:
  "files_inv H s \<Longrightarrow> table_of t s = Some tab \<Longrightarrow> clone_fds tab fds s = Some ((ok, new), s') \<Longrightarrow>
   files_inv (\<lambda>f. H f + fd_refs f new) s' \<and> same_handles s s' \<and> (ok \<longrightarrow> length new = length fds)"
proof (induction fds arbitrary: H s new)
  case (Cons x fds)
  show ?case
  proof (cases x)
    case None
    then show ?thesis using Cons by (fastforce simp: panic_simps)
  next
    case (Some fd)
    show ?thesis
    proof (cases "fd < length tab")
      case False
      then show ?thesis using Cons.prems Some by (auto simp: nth_chk_def same_handles_def)
    next
      case True
      then obtain s1 new1 where s1: "(case tab ! fd of None \<Rightarrow> Some s | Some f \<Rightarrow> file_clone f s) = Some s1"
        and n: "clone_fds tab fds s1 = Some ((ok, new1), s')" "new = tab ! fd # new1"
        using Cons.prems(3) Some by (auto simp: nth_chk_def bind_eq_Some_conv)
      define H1 where "H1 = (\<lambda>f. H f + (if tab ! fd = Some f then 1 else 0))"
      have st: "files_inv H1 s1 \<and> same_handles s s1"
      proof (cases "tab ! fd")
        case None
        then show ?thesis using s1 Cons.prems(1) by (simp add: H1_def same_handles_def)
      next
        case (Some f)
        then have c: "file_clone f s = Some s1" using s1 by simp
        have "H(f := H f + 1) = H1" by (auto simp: H1_def Some)
        then show ?thesis
          using file_clone_inv[OF Cons.prems(1) c table_entry_live[OF Cons.prems(1,2) True Some]] file_clone_frame[OF c] by simp
      qed
      moreover have "table_of t s1 = Some tab" using st Cons.prems(2) by (simp add: table_of_def same_handles_def)
      ultimately have "files_inv (\<lambda>f. H1 f + fd_refs f new1) s' \<and> same_handles s1 s' \<and> (ok \<longrightarrow> length new1 = length fds)"
        using Cons.IH[OF _ _ n(1)] by blast
      moreover have "(\<lambda>f. H1 f + fd_refs f new1) = (\<lambda>f. H f + fd_refs f new)" by (auto simp: H1_def n(2))
      ultimately show ?thesis using st n(2) by (auto simp: same_handles_def)
    qed
  qed
qed (auto simp: same_handles_def)

lemma ctts_put_inv:
  assumes "files_inv (\<lambda>f. H f + fd_refs f new) s" "ctts_put new s = (key, s')"
  shows "files_inv H s'"
proof -
  have "handles s' f = handles s f + fd_refs f new" for f
  proof (cases "position (\<lambda>x. x = None) (ss_ctts s)")
    case None
    then show ?thesis using assms(2) by (auto simp: ctts_put_def handles_def transit_refs_def)
  next
    case (Some k)
    then have "k < length (ss_ctts s)" "ss_ctts s ! k = None" by (auto simp: position_Some)
    then show ?thesis using assms(2) Some sum_list_update_add[of k "ss_ctts s" "transit_refs f" "Some new"]
      by (auto simp: ctts_put_def handles_def transit_refs_def)
  qed
  moreover have "ss_files s' = ss_files s" "ss_pipes s' = ss_pipes s"
    using assms(2) by (auto simp: ctts_put_def split: option.splits)
  ultimately show ?thesis by (intro files_inv_move[OF assms(1)]) simp_all
qed

lemma ctts_get_inv:
  assumes "files_inv H s" "ctts_get key s = (Some tab, s')"
  shows "files_inv (\<lambda>f. H f + fd_refs f tab) s'" "ss_tables s' = ss_tables s" "Some tab \<in> set (ss_ctts s)"
    "set (ss_ctts s') \<subseteq> insert None (set (ss_ctts s))"
proof -
  have k: "key < length (ss_ctts s)" "ss_ctts s ! key = Some tab" and s': "s' = s\<lparr>ss_ctts := (ss_ctts s)[key := None]\<rparr>"
    using assms(2) by (auto simp: ctts_get_def panic_simps split: option.splits)
  have "handles s' f + fd_refs f tab = handles s f" for f
    using sum_list_update_add[OF k(1), of "transit_refs f" None] by (simp add: handles_def s' transit_refs_def k(2))
  then have "H f + fd_refs f tab + handles s' f = H f + handles s f" for f by (metis add.assoc add.commute)
  then show "files_inv (\<lambda>f. H f + fd_refs f tab) s'"
    by (intro files_inv_move[OF assms(1)]) (simp_all add: s')
  show "ss_tables s' = ss_tables s" "set (ss_ctts s') \<subseteq> insert None (set (ss_ctts s))"
    by (simp_all add: s' set_update_subset_insert)
  show "Some tab \<in> set (ss_ctts s)" using k by (metis nth_mem)
qed

lemma sys_save_inv:
  assumes "files_inv none_held s" "sys_save_threadlocal t fds s = Some (r, s')"
  shows "files_inv none_held s'"
proof -
  obtain tab ok new s1 where tab: "table_of t s = Some tab" and c: "clone_fds tab fds s = Some ((ok, new), s1)"
    using assms(2) by (auto simp: sys_save_threadlocal_def bind_eq_Some_conv)
  have i: "files_inv (\<lambda>f. 0 + fd_refs f new) s1" using clone_fds_inv[OF assms(1) tab c] by simp
  show ?thesis
  proof (cases ok)
    case True
    then show ?thesis
      using assms(2) tab c ctts_put_inv[OF i] by (auto simp: sys_save_threadlocal_def split: prod.splits)
  next
    case False
    then show ?thesis
      using assms(2) tab c drop_all_inv[OF i] by (auto simp: sys_save_threadlocal_def bind_eq_Some_conv)
  qed
qed

lemma fd_refs_all_None: "\<forall>x \<in> set tab. x = None \<Longrightarrow> fd_refs f tab = 0"
  by (induction tab) auto

lemma sys_set_inv:
  assumes "files_inv none_held s" "len_inv s" "sys_set_threadlocal t key s = Some (r, s')"
  shows "files_inv none_held s'"
proof (cases "fst (ctts_get key s)")
  case None
  have "(ss_ctts s)[key := None] = ss_ctts s" if "key < length (ss_ctts s)" "ss_ctts s ! key = None"
    using that by (metis list_update_id)
  then have "snd (ctts_get key s) = s" using None by (auto simp: ctts_get_def nth_chk_def)
  then have "s' = s" using assms(3) None by (auto simp: sys_set_threadlocal_def split: prod.splits option.splits)
  then show ?thesis using assms(1) by simp
next
  case (Some new)
  then obtain s1 where g: "ctts_get key s = (Some new, s1)" by (cases "ctts_get key s") auto
  note i = ctts_get_inv[OF assms(1) g]
  obtain tab where tab: "table_of t s1 = Some tab" "\<forall>x \<in> set (take (length new) tab). x = None"
    "set_table t (take (length tab) new @ drop (length new) tab) s1 = Some s'"
    using assms(3) g by (auto simp: sys_set_threadlocal_def panic_simps)
  have l: "length new = NFILE" "length tab = NFILE"
    using assms(2) i(2,3) tab(1) by (auto simp: len_inv_def table_of_def panic_simps)
  then have "fd_refs f tab = 0" for f using tab(2) fd_refs_all_None by simp
  then show ?thesis
    using l by (intro set_table_inv[OF i(1) tab(1,3)]) simp
qed

lemma sys_exit_inv:
  assumes "files_inv none_held s" "sys_thread_exit t s = Some s'"
  shows "files_inv none_held s'"
proof -
  obtain tab s1 where tab: "table_of t s = Some tab" and s1: "set_table t (replicate NFILE None) s = Some s1"
    "drop_all t tab s1 = Some s'"
    using assms(2) by (auto simp: sys_thread_exit_def bind_eq_Some_conv)
  have "files_inv (\<lambda>f. 0 + fd_refs f tab) s1" by (rule set_table_inv[OF assms(1) tab s1(1)]) simp
  from drop_all_inv[OF this s1(2)] show ?thesis by simp
qed

lemma file_write_loop_same: "file_write_loop t f buf k s = Some (r, s') \<Longrightarrow> same_handles s s'"
proof (induction t f buf k s rule: file_write_loop.induct)
  case (1 t f buf k s)
  show ?case
  proof (cases "k < length buf")
    case True
    note d = "1.prems"[unfolded file_write_loop.simps[of t f buf k s]]
    obtain x where fx: "file_at f s = Some x" using d True by (auto simp: bind_eq_Some_conv)
    obtain i off where x: "of_type x = OINode i off" using d True fx by (cases "of_type x") auto
    obtain sl r1 s1 where sl: "slice_chk buf k (k + min (length buf - k) MAX_WRITE) = Some sl"
      and o: "on_fs t (write_inode i sl off) s = Some (r1, s1)"
      using d True fx x by (auto simp: bind_eq_Some_conv)
    have r1: "r1 = Inr (length sl)" using write_inode_returns[OF o] .
    obtain s2 where s2: "modify_file f (\<lambda>x. x\<lparr>of_type := OINode i ((off + length sl) mod 2 ^ 64)\<rparr>) s1 = Some s2"
      and w: "file_write_loop t f buf (k + length sl) s2 = Some (r, s')"
      using d True fx x sl o r1 by (auto simp: bind_eq_Some_conv)
    have "same_handles s2 s'"
      by (rule "1.IH"[OF True fx _ _ sl o _ r1 s2 w]) (simp_all add: x)
    then show ?thesis using on_fs_same[OF o] modify_file_same[OF s2] same_handles_trans by blast
  next
    case False
    then show ?thesis using 1 by (auto simp: panic_simps same_handles_def)
  qed
qed

lemma same_handles_refl [simp]: "same_handles s s" "same_handles s (s\<lparr>ss_pipes := ps\<rparr>)" "same_handles s (s\<lparr>ss_console := c\<rparr>)"
  by (simp_all add: same_handles_def)

lemma file_read_same: "file_read t f buf s = Some (r, s') \<Longrightarrow> same_handles s s'"
proof -
  assume a: "file_read t f buf s = Some (r, s')"
  then obtain x where x: "file_at f s = Some x" by (auto simp: file_read_def panic_simps)
  note d = a[unfolded file_read_def x bind.bind_lunit]
  show ?thesis
  proof (cases "of_readable x")
    case True
    show ?thesis
    proof (cases "of_type x")
      case (OPipe p)
      then obtain pp r1 where "read_segment buf (ss_pipes s ! p) = Some (r1, pp)" "p < length (ss_pipes s)"
        using d True by (auto simp: panic_simps)
      then show ?thesis using d True OPipe by (cases r1) (auto simp: panic_simps)
    next
      case (OINode i off)
      then obtain r1 b1 s1 where o: "on_fs t (read_inode i buf off) s = Some ((r1, b1), s1)"
        using d True by (auto simp: panic_simps)
      show ?thesis
        using d True OINode o on_fs_same[OF o] modify_file_same[of f _ s1 s'] same_handles_trans[of s s1 s']
        by (cases r1) (auto simp: panic_simps)
    next
      case (ODevice i m)
      then show ?thesis using d True by (auto simp: panic_simps split: if_splits)
    qed
  qed (use d in simp)
qed

lemma file_write_same: "file_write t f buf s = Some (r, s') \<Longrightarrow> same_handles s s'"
proof -
  assume a: "file_write t f buf s = Some (r, s')"
  then obtain x where x: "file_at f s = Some x" by (auto simp: file_write_def panic_simps)
  note d = a[unfolded file_write_def x bind.bind_lunit]
  show ?thesis
  proof (cases "of_writable x")
    case True
    show ?thesis
    proof (cases "of_type x")
      case (OPipe p)
      then obtain pp r1 where "write_segment buf Entering (ss_pipes s ! p) = Some (r1, pp)" "p < length (ss_pipes s)"
        using d True by (auto simp: panic_simps)
      then show ?thesis using d True OPipe by (cases r1) (auto simp: panic_simps)
    next
      case (OINode i off)
      then show ?thesis using d True file_write_loop_same by (auto simp del: file_write_loop.simps)
    next
      case (ODevice i m)
      then show ?thesis using d True by (auto split: if_splits)
    qed
  qed (use d in simp)
qed

lemma fd_op_same:
  assumes "do { r \<leftarrow> fd_lookup t fd s; case r of Inl e \<Rightarrow> Some (g e, s) | Inr f \<Rightarrow> op f s } = Some (r', s')"
    and "\<And>f r s'. op f s = Some (r, s') \<Longrightarrow> same_handles s s'"
  shows "same_handles s s'"
proof -
  obtain l where l: "fd_lookup t fd s = Some l" using assms(1) by (auto simp: bind_eq_Some_conv)
  show ?thesis using assms l by (cases l) auto
qed

lemma file_seek_same: "file_seek t f n s = Some (r, s') \<Longrightarrow> same_handles s s'"
proof -
  assume a: "file_seek t f n s = Some (r, s')"
  then obtain x where x: "file_at f s = Some x" by (auto simp: file_seek_def panic_simps)
  show ?thesis
  proof (cases "of_type x")
    case (OINode i off)
    then obtain s1 s2 where s: "upd_fs t (inode_lock i) s = Some s1"
      "modify_file f (\<lambda>x. x\<lparr>of_type := OINode i n\<rparr>) s1 = Some s2" "upd_fs t (inode_unlock i) s2 = Some s'"
      using a x by (auto simp: file_seek_def bind_eq_Some_conv)
    show ?thesis
      using upd_fs_same[OF s(1)] modify_file_same[OF s(2)] upd_fs_same[OF s(3)] by (simp add: same_handles_def)
  qed (use a x in \<open>auto simp: file_seek_def\<close>)
qed

lemma file_stat_same: "file_stat_of t f s = Some (r, s') \<Longrightarrow> same_handles s s'"
proof -
  assume a: "file_stat_of t f s = Some (r, s')"
  then obtain x where x: "file_at f s = Some x" by (auto simp: file_stat_of_def panic_simps)
  show ?thesis using a x on_fs_same by (cases "of_type x") (fastforce simp: file_stat_of_def panic_simps)+
qed

lemma io_same:
  "sys_read t fd buf s = Some (r2, s') \<Longrightarrow> same_handles s s'"
  "sys_write t fd buf s = Some (r1, s') \<Longrightarrow> same_handles s s'"
  "sys_seek t fd off s = Some (r3, s') \<Longrightarrow> same_handles s s'"
  "sys_fstat t fd s = Some (r4, s') \<Longrightarrow> same_handles s s'"
  unfolding sys_read_def sys_write_def sys_seek_def sys_fstat_def
  by (erule fd_op_same, erule file_read_same file_write_same file_seek_same file_stat_same)+


lemma sys_dup_len: "len_inv s \<Longrightarrow> sys_dup t fd s = Some (r, s') \<Longrightarrow> len_inv s'"
proof -
  assume l: "len_inv s" and d: "sys_dup t fd s = Some (r, s')"
  then obtain x where x: "fd_lookup t fd s = Some x" by (auto simp: sys_dup_def bind_eq_Some_conv)
  show ?thesis
  proof (cases x)
    case (Inr f)
    then obtain s1 where s1: "file_clone f s = Some s1" "fdalloc t f s1 = Some (r, s')"
      using d x by (auto simp: sys_dup_def bind_eq_Some_conv)
    show ?thesis using fdalloc_len[OF len_inv_same[OF file_clone_frame[OF s1(1)] l] s1(2)] .
  qed (use l d x in \<open>auto simp: sys_dup_def\<close>)
qed

lemma sys_close_len: "len_inv s \<Longrightarrow> sys_close t fd s = Some (r, s') \<Longrightarrow> len_inv s'"
proof -
  assume l: "len_inv s" and d: "sys_close t fd s = Some (r, s')"
  then obtain x where x: "fd_lookup t fd s = Some x" by (auto simp: sys_close_def bind_eq_Some_conv)
  show ?thesis
  proof (cases x)
    case (Inr f)
    then obtain tab s1 where tab: "table_of t s = Some tab" "set_table t (tab[fd := None]) s = Some s1"
      "file_drop t f s1 = Some s'"
      using d x by (auto simp: sys_close_def bind_eq_Some_conv)
    then show ?thesis
      using len_inv_set[OF l tab(2)] table_len[OF l tab(1)] len_inv_same[OF file_drop_frame[OF tab(3)]] by simp
  qed (use l d x in \<open>auto simp: sys_close_def\<close>)
qed

lemma pipealloc_same: "pipealloc s = (fs, s') \<Longrightarrow> same_handles s s'"
  by (auto simp: pipealloc_def OpenedFile_new_def same_handles_def Let_def)

lemma sys_pipe_len: "len_inv s \<Longrightarrow> sys_pipe t s = Some (r, s') \<Longrightarrow> len_inv s'"
proof -
  assume l: "len_inv s" and d: "sys_pipe t s = Some (r, s')"
  obtain rf wf s1 where pa: "pipealloc s = ((rf, wf), s1)" by (metis prod.exhaust)
  obtain r0 s2 where r0: "fdalloc t rf s1 = Some (r0, s2)" using d pa by (auto simp: sys_pipe_def bind_eq_Some_conv)
  have l2: "len_inv s2" using fdalloc_len[OF _ r0] len_inv_same[OF pipealloc_same[OF pa] l] by simp
  show ?thesis
  proof (cases r0)
    case (Inl e)
    then show ?thesis using d pa r0 l2 len_inv_same[OF file_drop_frame] by (auto simp: sys_pipe_def bind_eq_Some_conv)
  next
    case (Inr fd0)
    obtain r1 s3 where r1: "fdalloc t wf s2 = Some (r1, s3)" using d pa r0 Inr by (auto simp: sys_pipe_def bind_eq_Some_conv)
    have l3: "len_inv s3" by (rule fdalloc_len[OF l2 r1])
    show ?thesis
    proof (cases r1)
      case (Inl e)
      then obtain tab s4 where tab: "table_of t s3 = Some tab" "set_table t (tab[fd0 := None]) s3 = Some s4"
        "file_drop t rf s4 = Some s'"
        using d pa r0 r1 Inr by (auto simp: sys_pipe_def bind_eq_Some_conv)
      then show ?thesis
        using len_inv_set[OF l3 tab(2)] table_len[OF l3 tab(1)] len_inv_same[OF file_drop_frame[OF tab(3)]] by simp
    next
      case (Inr fd1)
      then show ?thesis using d pa r0 r1 \<open>r0 = Inr fd0\<close> l3 by (auto simp: sys_pipe_def)
    qed
  qed
qed

lemma ctts_put_len:
  assumes "len_inv s" "length new = NFILE" "ctts_put new s = (key, s')"
  shows "len_inv s'"
  using assms by (auto simp: ctts_put_def len_inv_def split: option.splits dest!: set_update_subset_insert[THEN subsetD])

lemma sys_save_len:
  assumes "files_inv none_held s" "len_inv s" "length fds = NFILE" "sys_save_threadlocal t fds s = Some (r, s')"
  shows "len_inv s'"
proof -
  obtain tab ok new s1 where tab: "table_of t s = Some tab" and c: "clone_fds tab fds s = Some ((ok, new), s1)"
    using assms(4) by (auto simp: sys_save_threadlocal_def bind_eq_Some_conv)
  have i: "files_inv (\<lambda>f. 0 + fd_refs f new) s1" "same_handles s s1" "ok \<longrightarrow> length new = NFILE"
    using clone_fds_inv[OF assms(1) tab c] assms(3) by simp_all
  have l: "len_inv s1" by (rule len_inv_same[OF i(2) assms(2)])
  show ?thesis
  proof (cases ok)
    case True
    then show ?thesis
      using assms(4) tab c i(3) ctts_put_len[OF l] by (auto simp: sys_save_threadlocal_def split: prod.splits)
  next
    case False
    then have "drop_all t new s1 = Some s'" using assms(4) tab c by (auto simp: sys_save_threadlocal_def bind_eq_Some_conv)
    from drop_all_inv[OF i(1) this] show ?thesis using len_inv_same l by blast
  qed
qed

lemma sys_set_len:
  assumes "files_inv none_held s" "len_inv s" "sys_set_threadlocal t key s = Some (r, s')"
  shows "len_inv s'"
proof (cases "ctts_get key s")
  case (Pair x s1)
  show ?thesis
  proof (cases x)
    case None
    then have "s' = s1" using assms(3) Pair by (simp add: sys_set_threadlocal_def)
    then show ?thesis using Pair assms(2) set_update_subset_insert[of "ss_ctts s" key None]
      by (auto simp: ctts_get_def len_inv_def split: option.splits)
  next
    case (Some new)
    note i = ctts_get_inv[OF assms(1) Pair[unfolded Some]]
    obtain tab where tab: "table_of t s1 = Some tab"
      "set_table t (take (length tab) new @ drop (length new) tab) s1 = Some s'"
      using assms(3) Pair Some by (auto simp: sys_set_threadlocal_def panic_simps)
    have l1: "len_inv s1" using assms(2) i(2,4) by (auto simp: len_inv_def)
    moreover have "length new = NFILE" using assms(2) i(3) by (auto simp: len_inv_def)
    ultimately show ?thesis using len_inv_set[OF l1 tab(2)] table_len[OF l1 tab(1)] by simp
  qed
qed

lemma sys_exit_len:
  assumes "files_inv none_held s" "len_inv s" "sys_thread_exit t s = Some s'"
  shows "len_inv s'"
proof -
  obtain tab s1 where tab: "table_of t s = Some tab" and s1: "set_table t (replicate NFILE None) s = Some s1"
    "drop_all t tab s1 = Some s'"
    using assms(3) by (auto simp: sys_thread_exit_def bind_eq_Some_conv)
  have i: "files_inv (\<lambda>f. 0 + fd_refs f tab) s1" by (rule set_table_inv[OF assms(1) tab s1(1)]) simp
  have "len_inv s1" using len_inv_set[OF assms(2) s1(1)] by simp
  then show ?thesis using drop_all_inv[OF i s1(2)] len_inv_same by blast
qed

lemma on_fs_inv:
  "on_fs t f s = Some (x, s') \<Longrightarrow> files_inv H s \<Longrightarrow> len_inv s \<Longrightarrow> files_inv H s' \<and> len_inv s'"
  using files_inv_on_fs[of t f s x s' H] len_inv_same[OF on_fs_same[of t f s x s']] by simp

lemma sys_step_inv:
  assumes "sys_step s s'" "files_inv none_held s" "len_inv s"
  shows "files_inv none_held s' \<and> len_inv s'"
  using assms(1)
proof cases
  case (dup t fd r1) then show ?thesis using sys_dup_inv sys_dup_len assms(2,3) by blast
next
  case (reads t fd buf r2) then show ?thesis using sys_read_inv io_same(1) len_inv_same assms(2,3) by blast
next
  case (writes t fd buf r1) then show ?thesis using sys_write_inv io_same(2) len_inv_same assms(2,3) by blast
next
  case (closes t fd r3) then show ?thesis using sys_close_inv sys_close_len assms(2,3) by blast
next
  case (seek t fd off r3) then show ?thesis using sys_seek_inv io_same(3) len_inv_same assms(2,3) by blast
next
  case (fstat t fd r4) then show ?thesis using sys_fstat_inv io_same(4) len_inv_same assms(2,3) by blast
next
  case (link t old new r3)
  show ?thesis by (rule on_fs_inv[OF link[unfolded sys_link_def] assms(2,3)])
next
  case (unlink t path r3)
  show ?thesis by (rule on_fs_inv[OF unlink[unfolded sys_unlink_def] assms(2,3)])
next
  case (mknod t path major minor r3)
  show ?thesis by (rule on_fs_inv[OF mknod[unfolded sys_mknod_def create_node_def] assms(2,3)])
next
  case (mkdir t path r3)
  show ?thesis by (rule on_fs_inv[OF mkdir[unfolded sys_mkdir_def create_node_def] assms(2,3)])
next
  case (opens t path mode r1) then show ?thesis using sys_open_inv assms(2,3) by blast
next
  case (pipe t r5) then show ?thesis using sys_pipe_inv sys_pipe_len assms(2,3) by blast
next
  case (save fds t r1) then show ?thesis using sys_save_inv sys_save_len assms(2,3) by blast
next
  case (sets t key r3) then show ?thesis using sys_set_inv sys_set_len assms(2,3) by blast
next
  case (exits t) then show ?thesis using sys_exit_inv sys_exit_len assms(2,3) by blast
qed

lemma fresh_inv: "fresh_state s \<Longrightarrow> files_inv none_held s \<and> len_inv s"
proof -
  assume f: "fresh_state s"
  then have "sum_list (map (fd_refs g) (ss_tables s)) = 0" for g
    by (auto simp: fresh_state_def)
  then show ?thesis using f
    by (auto simp: fresh_state_def files_inv_def refs_inv_def pipes_inv_def handles_def len_inv_def)
qed

lemma sys_run_inv: "sys_step\<^sup>*\<^sup>* s0 s \<Longrightarrow> fresh_state s0 \<Longrightarrow> files_inv none_held s \<and> len_inv s"
proof (induction rule: rtranclp_induct)
  case (step y z)
  then show ?case using sys_step_inv by blast
qed (rule fresh_inv)

text \<open>Cloning the chosen descriptors always succeeds when they are in range.\<close>

lemma clone_fds_total:
  "files_inv H s \<Longrightarrow> table_of t s = Some tab \<Longrightarrow> \<forall>fd. Some fd \<in> set fds \<longrightarrow> fd < length tab \<Longrightarrow>
   \<exists>s'. clone_fds tab fds s = Some ((True, map (\<lambda>x. case x of None \<Rightarrow> None | Some fd \<Rightarrow> tab ! fd) fds), s')"
proof (induction fds arbitrary: H s)
  case (Cons x fds)
  show ?case
  proof (cases x)
    case None
    then show ?thesis using Cons by fastforce
  next
    case (Some fd)
    then have b: "fd < length tab" using Cons.prems(3) by simp
    show ?thesis
    proof (cases "tab ! fd")
      case None
      then show ?thesis using Cons Some b by (fastforce simp: nth_chk_def)
    next
      case f: (Some f)
      have "fd_lookup t fd s = Some (Inr f)" using Cons.prems(2) b f by (simp add: fd_lookup_def nth_chk_def)
      then have "f < length (ss_files s)" using fd_lookup_live(1)[OF Cons.prems(1)] by simp
      then obtain s1 where s1: "file_clone f s = Some s1"
        by (simp add: file_clone_def modify_file_def modify_chk_def)
      have i1: "files_inv (H(f := H f + 1)) s1"
        by (rule file_clone_inv[OF Cons.prems(1) s1 table_entry_live[OF Cons.prems(1,2) b f]])
      moreover have "table_of t s1 = Some tab"
        using file_clone_frame[OF s1] Cons.prems(2) by (simp add: same_handles_def table_of_def)
      ultimately obtain s' where
        "clone_fds tab fds s1 = Some ((True, map (\<lambda>x. case x of None \<Rightarrow> None | Some fd \<Rightarrow> tab ! fd) fds), s')"
        using Cons.IH[of _ s1] Cons.prems(3) by auto
      then show ?thesis using Some b f s1 by (simp add: nth_chk_def)
    qed
  qed
qed simp

lemma ctts_put_get:
  assumes "ctts_put new s = (key, s1)"
  shows "\<exists>s2. ctts_get key s1 = (Some new, s2) \<and> ss_tables s2 = ss_tables s"
proof (cases "position (\<lambda>x. x = None) (ss_ctts s)")
  case None
  then have "key = length (ss_ctts s)" "s1 = s\<lparr>ss_ctts := ss_ctts s @ [Some new]\<rparr>"
    using assms by (auto simp: ctts_put_def)
  then show ?thesis by (simp add: ctts_get_def nth_chk_def)
next
  case (Some k)
  then have "key = k" "s1 = s\<lparr>ss_ctts := (ss_ctts s)[k := Some new]\<rparr>" using assms by (auto simp: ctts_put_def)
  moreover have "k < length (ss_ctts s)" using Some by (simp add: position_Some)
  ultimately show ?thesis by (simp add: ctts_get_def nth_chk_def)
qed

definition sample_sys :: "fstate \<Rightarrow> sstate" where
  "sample_sys fs = \<lparr>ss_fs = fs, ss_cwds = [None, None], ss_tables = replicate 2 (replicate NFILE None),
     ss_ctts = [], ss_files = [], ss_pipes = [], ss_console = ConsoleDeviceInternal_new []\<rparr>"

lemma sample_fresh: "fresh_state (sample_sys fs)"
  by (simp add: fresh_state_def sample_sys_def)

lemma position_replicate: "0 < n \<Longrightarrow> position (\<lambda>x. x = None) (replicate n None) = Some 0"
  by (cases n) simp_all

lemma sample_pipe:
  "\<exists>s. sys_pipe 0 (sample_sys fs) = Some (Inr (0, 1), s) \<and> length (ss_files s) = 2 \<and> length (ss_pipes s) = 1 \<and>
     table_of 0 s = Some (Some 0 # Some 1 # replicate 98 None) \<and> table_of 1 s = Some (replicate NFILE None) \<and>
     ss_ctts s = []"
proof -
  have r: "replicate NFILE None = None # None # replicate 98 (None :: nat option)"
    by (simp add: numeral_eq_Suc)
  show ?thesis
    unfolding sample_sys_def r
    by (simp add: sys_pipe_def pipealloc_def OpenedFile_new_def Let_def fdalloc_def table_of_def set_table_def
        nth_chk_def upd_chk_def numeral_2_eq_2 One_nat_def)
qed

section \<open>Properties\<close>

text \<open>C17.  In every state that system calls can reach, the strong count of an open file is the number
  of descriptors that name it, over all threads' tables and the tables on their way from one thread
  to another.\<close>

theorem descriptors_counted:
  assumes "fresh_state s0" "sys_step\<^sup>*\<^sup>* s0 s" "f < length (ss_files s)"
  shows "of_refs (ss_files s ! f) = handles s f"
  using sys_run_inv[OF assms(2,1)] assms(3) by (simp add: files_inv_def refs_inv_def)

lemma descriptors_counted_witness:
  "\<forall>fs. \<exists>s. sys_step\<^sup>*\<^sup>* (sample_sys fs) s \<and> length (ss_files s) = 2 \<and> of_refs (ss_files s ! 0) = handles s 0"
proof
  fix fs
  obtain s where s: "sys_pipe 0 (sample_sys fs) = Some (Inr (0, 1), s)" "length (ss_files s) = 2"
    using sample_pipe by blast
  then have "sys_step\<^sup>*\<^sup>* (sample_sys fs) s" by (blast intro: sys_step.pipe)
  with descriptors_counted[OF sample_fresh this, of 0] s(2) show "\<exists>s. sys_step\<^sup>*\<^sup>* (sample_sys fs) s \<and> length (ss_files s) = 2 \<and> of_refs (ss_files s ! 0) = handles s 0" by auto
qed

text \<open>C18.  In every reachable state, an end of a pipe is open exactly as long as some descriptor names
  it; so a reader sees the end of the file, and a writer a broken pipe, only when no descriptor for
  the other end is left in any thread.\<close>

theorem pipe_open_iff_referenced:
  assumes "fresh_state s0" "sys_step\<^sup>*\<^sup>* s0 s" "p < length (ss_pipes s)"
  shows "end_open w (ss_pipes s ! p) \<longleftrightarrow> (\<exists>f < length (ss_files s). is_end p w (ss_files s ! f) \<and> 0 < handles s f)"
proof -
  have i: "files_inv none_held s" using sys_run_inv[OF assms(2,1)] by simp
  then have "end_open w (ss_pipes s ! p) \<longleftrightarrow> live_end (ss_files s) p w"
    using assms(3) by (simp add: files_inv_def pipes_inv_def)
  also have "... \<longleftrightarrow> (\<exists>f < length (ss_files s). is_end p w (ss_files s ! f) \<and> 0 < handles s f)"
    using i unfolding live_end_nth files_inv_def refs_inv_def by (metis add_0)
  finally show ?thesis .
qed

lemma pipe_open_iff_referenced_witness:
  "\<forall>fs. \<exists>s. sys_step\<^sup>*\<^sup>* (sample_sys fs) s \<and> length (ss_pipes s) = 1 \<and>
     (end_open True (ss_pipes s ! 0) \<longleftrightarrow> (\<exists>f < length (ss_files s). is_end 0 True (ss_files s ! f) \<and> 0 < handles s f))"
proof
  fix fs
  obtain s where s: "sys_pipe 0 (sample_sys fs) = Some (Inr (0, 1), s)" "length (ss_pipes s) = 1"
    using sample_pipe by blast
  then have "sys_step\<^sup>*\<^sup>* (sample_sys fs) s" by (blast intro: sys_step.pipe)
  with pipe_open_iff_referenced[OF sample_fresh this, of 0 True] s(2) show "\<exists>s. sys_step\<^sup>*\<^sup>* (sample_sys fs) s \<and> length (ss_pipes s) = 1 \<and>
     (end_open True (ss_pipes s ! 0) \<longleftrightarrow> (\<exists>f < length (ss_files s). is_end 0 True (ss_files s ! f) \<and> 0 < handles s f))" by auto
qed

text \<open>C19.  Descriptors handed over at a fork arrive: saving a choice of the parent's descriptors and
  setting them in a child with an empty table gives the child, at each place of its table, the file
  the parent chose for it, and leaves the parent's table as it was.\<close>

theorem fork_hands_over:
  assumes "fresh_state s0" "sys_step\<^sup>*\<^sup>* s0 s" "table_of t s = Some tab" "table_of t' s = Some (replicate NFILE None)"
    and "t \<noteq> t'" "length fds = NFILE" "\<forall>fd. Some fd \<in> set fds \<longrightarrow> fd < NFILE"
  shows "\<exists>key s1 s2. sys_save_threadlocal t fds s = Some (Inr key, s1) \<and>
    sys_set_threadlocal t' key s1 = Some (Inr (), s2) \<and> table_of t s2 = Some tab \<and>
    table_of t' s2 = Some (map (\<lambda>x. case x of None \<Rightarrow> None | Some fd \<Rightarrow> tab ! fd) fds)"
proof -
  have i: "files_inv none_held s" "len_inv s" using sys_run_inv[OF assms(2,1)] by simp_all
  define new where "new = map (\<lambda>x. case x of None \<Rightarrow> None | Some fd \<Rightarrow> tab ! fd) fds"
  have ln: "length new = NFILE" by (simp add: new_def assms(6))
  obtain s' where c: "clone_fds tab fds s = Some ((True, new), s')"
    using clone_fds_total[OF i(1) assms(3)] table_len[OF i(2) assms(3)] assms(7) unfolding new_def by auto
  have h: "same_handles s s'" using clone_fds_inv[OF i(1) assms(3) c] by simp
  obtain key s1 where p: "ctts_put new s' = (key, s1)" by force
  obtain s2 where g: "ctts_get key s1 = (Some new, s2)" "ss_tables s2 = ss_tables s"
    using ctts_put_get[OF p] h by (auto simp: same_handles_def)
  have tb: "table_of u s2 = table_of u s" for u by (simp add: table_of_def g(2))
  have b: "t' < length (ss_tables s2)" using assms(4) by (auto simp: table_of_def nth_chk_def g(2) split: if_splits)
  have "sys_set_threadlocal t' key s1 = Some (Inr (), s2\<lparr>ss_tables := (ss_tables s2)[t' := new]\<rparr>)"
    using g(1) tb[of t'] assms(4) ln b by (simp add: sys_set_threadlocal_def set_table_def upd_chk_def)
  moreover have "table_of t (s2\<lparr>ss_tables := (ss_tables s2)[t' := new]\<rparr>) = Some tab"
    "table_of t' (s2\<lparr>ss_tables := (ss_tables s2)[t' := new]\<rparr>) = Some new"
    using tb[of t] assms(3,5) b by (auto simp: table_of_def nth_chk_def split: if_splits)
  moreover have "sys_save_threadlocal t fds s = Some (Inr key, s1)"
    using assms(3) c p by (simp add: sys_save_threadlocal_def)
  ultimately show ?thesis unfolding new_def by blast
qed

lemma fork_hands_over_witness:
  "\<forall>fs. \<exists>s key s1 s2. sys_pipe 0 (sample_sys fs) = Some (Inr (0, 1), s) \<and>
     sys_save_threadlocal 0 (Some 1 # replicate 99 None) s = Some (Inr key, s1) \<and>
     sys_set_threadlocal 1 key s1 = Some (Inr (), s2) \<and> table_of 1 s2 = Some (Some 1 # replicate 99 None)"
proof
  fix fs
  obtain s where s: "sys_pipe 0 (sample_sys fs) = Some (Inr (0, 1), s)"
    "table_of 0 s = Some (Some 0 # Some 1 # replicate 98 None)" "table_of 1 s = Some (replicate NFILE None)"
    using sample_pipe by blast
  have r: "sys_step\<^sup>*\<^sup>* (sample_sys fs) s" using s(1) by (blast intro: sys_step.pipe)
  have l: "length (Some 1 # replicate 99 None :: nat option list) = NFILE" by simp
  have b: "\<forall>fd. Some fd \<in> set (Some 1 # replicate 99 None) \<longrightarrow> fd < NFILE" by auto
  show "\<exists>s key s1 s2. sys_pipe 0 (sample_sys fs) = Some (Inr (0, 1), s) \<and>
     sys_save_threadlocal 0 (Some 1 # replicate 99 None) s = Some (Inr key, s1) \<and>
     sys_set_threadlocal 1 key s1 = Some (Inr (), s2) \<and> table_of 1 s2 = Some (Some 1 # replicate 99 None)" using fork_hands_over[OF sample_fresh r s(2,3) _ l b] s(1) by auto
qed

text \<open>Closing a file never frees it, not even the last descriptor of a file that has been unlinked:
  \<open>put\<close> is handed a clone and so never sees the two references at which it would truncate the
  inode.  Dropping an open file is an empty transaction and the loss of a reference.\<close>

theorem close_never_truncates:
  assumes "inode_at i s = Some n" "2 \<le> in_refs n"
  shows "drop_inode i s = do { s \<leftarrow> begin_trans s; s \<leftarrow> end_transaction s; arc_drop i s }"
proof -
  have b: "i < length (fs_inodes s)" "fs_inodes s ! i = n" using assms(1) by (auto simp: inode_at_def panic_simps)
  have "arc_clone i s1 \<bind> icache_put i = Some s1" if "fs_inodes s1 = fs_inodes s" for s1
  proof -
    define n' where "n' = n\<lparr>in_refs := in_refs n + 1\<rparr>"
    define s2 where "s2 = s1\<lparr>fs_inodes := (fs_inodes s)[i := n']\<rparr>"
    have c: "arc_clone i s1 = Some s2" using b that by (simp add: arc_clone_def modify_inode_def modify_chk_def s2_def n'_def)
    have at: "inode_at i s2 = Some n'" using b by (simp add: inode_at_def nth_chk_def s2_def)
    have "in_refs n' \<noteq> 2" "in_refs n' - 1 = in_refs n" using assms(2) by (simp_all add: n'_def)
    then have "icache_put i s2 = Some (s2\<lparr>fs_inodes := (fs_inodes s2)[i := n]\<rparr>)"
      using at b assms(2)
      by (simp add: icache_put_def arc_drop_def sub_chk_def modify_inode_def modify_chk_def s2_def n'_def)
    also have "s2\<lparr>fs_inodes := (fs_inodes s2)[i := n]\<rparr> = s1"
      using b that by (cases s1) (auto simp: s2_def)
    finally show ?thesis by (simp add: c)
  qed
  then have "arc_clone i s1 \<bind> icache_put i = Some s1" if "begin_trans s = Some s1" for s1
    using that by (auto simp: begin_trans_def on_disk_def panic_simps)
  then show ?thesis by (cases "begin_trans s") (simp_all add: drop_inode_def bind_assoc[symmetric] del: bind_assoc)
qed

lemma close_never_truncates_witness:
  "\<forall>d. let s = \<lparr>fs_d = d, fs_inodes = [INode_new\<lparr>in_refs := 2, in_valid := True\<rparr>], fs_cwd = None\<rparr>
       in i_nlink (in_data (fs_inodes s ! 0)) = 0 \<and>
          drop_inode 0 s = do { s \<leftarrow> begin_trans s; s \<leftarrow> end_transaction s; arc_drop 0 s }"
proof
  fix d
  let ?s = "\<lparr>fs_d = d, fs_inodes = [INode_new\<lparr>in_refs := 2, in_valid := True\<rparr>], fs_cwd = None\<rparr>"
  have "inode_at 0 ?s = Some (INode_new\<lparr>in_refs := 2, in_valid := True\<rparr>)" by (simp add: inode_at_def nth_chk_def)
  from close_never_truncates[OF this] show "let s = ?s in i_nlink (in_data (fs_inodes s ! 0)) = 0 \<and>
      drop_inode 0 s = do { s \<leftarrow> begin_trans s; s \<leftarrow> end_transaction s; arc_drop 0 s }"
    by (simp add: Let_def INode_new_def INodeData_new_def)
qed

end
