(* ===== verification/Inode_Spec.thy ===== *)
theory Inode_Spec
  imports Inode
begin

text \<open>
  Correctness of inodes (\<^verbatim>\<open>icache/inode.rs\<close>): the on-disk encoding, and reading and writing a file that
  fits the direct blocks.  The abstract file is a function from byte positions to bytes, in which a
  block that has not been allocated is zero; \<open>file_ok\<close> is the invariant of an inode in memory.
\<close>

section \<open>Definitions\<close>

text \<open>The ranges of the fields: \<open>i16\<close>, \<open>u32\<close>, and an array of \<open>NDIRECT + 1\<close> addresses.\<close>

definition i16_ok :: "int \<Rightarrow> bool" where
  "i16_ok v \<longleftrightarrow> - 32768 \<le> v \<and> v < 32768"

definition inode_data_ok :: "inode_data \<Rightarrow> bool" where
  "inode_data_ok d \<longleftrightarrow> i16_ok (i_major d) \<and> i16_ok (i_minor d) \<and> i16_ok (i_nlink d) \<and> i_size d < 2 ^ 32 \<and>
     length (i_addresses d) = NDIRECT + 1 \<and> (\<forall>a \<in> set (i_addresses d). a < 2 ^ 32)"

text \<open>A block in use that is outside the log and the bitmap, and the number of free blocks.\<close>

definition usable :: "dstate \<Rightarrow> nat \<Rightarrow> bool" where
  "usable d a \<longleftrightarrow> a < sb_size (d_sb d) \<and> allocated d a \<and> a < 2 ^ 29 \<and> a \<notin> log_region (d_log d) \<and>
     disk (d_bc d) a \<noteq> None \<and> a \<notin> bitmap_block (d_sb d) ` {..<sb_size (d_sb d)}"

definition free_blocks :: "dstate \<Rightarrow> nat" where
  "free_blocks d = card {n. n < sb_size (d_sb d) \<and> \<not> allocated d n}"

abbreviation addrs :: "fstate \<Rightarrow> nat \<Rightarrow> nat list" where
  "addrs s i \<equiv> i_addresses (in_data (fs_inodes s ! i))"

definition inode_block :: "fstate \<Rightarrow> nat \<Rightarrow> nat" where
  "inode_block s i = in_inum (fs_inodes s ! i) div IPB + sb_inodestart (d_sb (fs_d s))"

text \<open>
  The inode in slot \<open>i\<close>: its direct addresses are distinct blocks in use, none of them block 0 (which
  stands for no block) and none the block that holds the inode itself.
\<close>

definition file_ok :: "nat \<Rightarrow> fstate \<Rightarrow> bool" where
  "file_ok i s \<longleftrightarrow> i < length (fs_inodes s) \<and> in_device (fs_inodes s ! i) = ROOTDEV \<and>
     inode_data_ok (in_data (fs_inodes s ! i)) \<and> usable (fs_d s) (inode_block s i) \<and>
     inode_block s i \<noteq> 0 \<and> inode_block s i \<notin> set (addrs s i) \<and> 0 < sb_size (d_sb (fs_d s)) \<and> allocated (fs_d s) 0 \<and>
     (\<forall>j < NDIRECT. addrs s i ! j \<noteq> 0 \<longrightarrow> usable (fs_d s) (addrs s i ! j) \<and> (\<forall>k < NDIRECT. addrs s i ! j = addrs s i ! k \<longrightarrow> j = k))"

definition file_inv :: "(nat \<Rightarrow> nat) \<Rightarrow> nat \<Rightarrow> fstate \<Rightarrow> bool" where
  "file_inv H i s \<longleftrightarrow> ds_inv H (fs_d s) \<and> bitmap_ok (fs_d s) \<and> file_ok i s"

definition file_byte :: "fstate \<Rightarrow> nat \<Rightarrow> nat \<Rightarrow> u8" where
  "file_byte s i p =
     (let a = addrs s i ! (p div BSIZE)
      in if a = 0 then 0 else (case fcont (fs_d s) a of Some d \<Rightarrow> d ! (p mod BSIZE) | None \<Rightarrow> 0))"

abbreviation DIRECT_BYTES :: nat where "DIRECT_BYTES \<equiv> 49152"

text \<open>
  What operations on one file leave alone: everything of the inode but its addresses and size, the
  other inodes, and every block in use that is not a block of the file.
\<close>

definition others_kept :: "nat \<Rightarrow> fstate \<Rightarrow> fstate \<Rightarrow> bool" where
  "others_kept i s s' \<longleftrightarrow> ds_frame (fs_d s) (fs_d s') \<and> fs_cwd s' = fs_cwd s \<and>
     (\<exists>as. fs_inodes s' = (fs_inodes s)[i := (fs_inodes s ! i)\<lparr>in_data := (in_data (fs_inodes s ! i))\<lparr>i_addresses := as\<rparr>\<rparr>]) \<and>
     (\<forall>j. addrs s i ! j \<noteq> 0 \<longrightarrow> addrs s' i ! j = addrs s i ! j) \<and>
     (\<forall>b. usable (fs_d s) b \<longrightarrow> b \<notin> set (addrs s i) \<longrightarrow>
        usable (fs_d s') b \<and> b \<notin> set (addrs s' i) \<and> fcont (fs_d s') b = fcont (fs_d s) b)"

text \<open>The inode of a number as the disk and the log have it.\<close>

definition dinode :: "dstate \<Rightarrow> nat \<Rightarrow> inode_data option" where
  "dinode d inum =
     do { b \<leftarrow> fcont d (inum div IPB + sb_inodestart (d_sb d));
          sl \<leftarrow> slice_chk b (inum mod IPB * DINODE_SIZE) (inum mod IPB * DINODE_SIZE + DINODE_SIZE);
          inode_from_bytes sl }"

text \<open>A change to one file: the other inodes, in memory and on the disk, and the blocks of other files stay.\<close>

definition only_file :: "nat \<Rightarrow> fstate \<Rightarrow> fstate \<Rightarrow> bool" where
  "only_file i s s' \<longleftrightarrow> fs_cwd s' = fs_cwd s \<and>
     (\<exists>as sz. fs_inodes s' = (fs_inodes s)[i := (fs_inodes s ! i)\<lparr>in_data :=
        (in_data (fs_inodes s ! i))\<lparr>i_addresses := as, i_size := sz\<rparr>\<rparr>]) \<and>
     (\<forall>j. addrs s i ! j \<noteq> 0 \<longrightarrow> addrs s' i ! j = addrs s i ! j) \<and>
     (\<forall>b. usable (fs_d s) b \<longrightarrow> b \<notin> set (addrs s i) \<longrightarrow> b \<noteq> inode_block s i \<longrightarrow>
        usable (fs_d s') b \<and> b \<notin> set (addrs s' i) \<and> fcont (fs_d s') b = fcont (fs_d s) b) \<and>
     (\<forall>m. m \<noteq> in_inum (fs_inodes s ! i) \<longrightarrow> usable (fs_d s) (m div IPB + sb_inodestart (d_sb (fs_d s))) \<longrightarrow>
        m div IPB + sb_inodestart (d_sb (fs_d s)) \<notin> set (addrs s i) \<longrightarrow> dinode (fs_d s') m = dinode (fs_d s) m)"

text \<open>The block numbers a range of the file touches, and how many of them are holes.\<close>

definition blocks_of :: "nat \<Rightarrow> nat \<Rightarrow> nat list" where
  "blocks_of offset len = (if len = 0 then [] else [offset div BSIZE..<(offset + len - 1) div BSIZE + 1])"

definition holes :: "fstate \<Rightarrow> nat \<Rightarrow> nat list \<Rightarrow> nat" where
  "holes s i js = length (filter (\<lambda>j. addrs s i ! j = 0) js)"

section \<open>The on-disk inode\<close>

declare read_loop.simps [simp del] write_loop.simps [simp del]

lemma slice_splice_same: "splice_chk b off ys = Some b' \<Longrightarrow> n = off + length ys \<Longrightarrow> slice_chk b' off n = Some ys"
  by (auto simp: panic_simps slice_chk_def)

lemma slice_splice_other:
  assumes "splice_chk b off ys = Some b'" "n \<le> off \<or> off + length ys \<le> a"
  shows "slice_chk b' a n = slice_chk b a n"
proof (cases "a \<le> n")
  case True
  have b': "b' = take off b @ ys @ drop (off + length ys) b" and l: "off + length ys \<le> length b"
    using assms(1) by (auto simp: panic_simps)
  have "take (n - a) (drop a b') = take (n - a) (drop a b)"
    using assms(2) True splice_slice_before[OF l, of a "n - a"] splice_slice_after[OF l, of a "n - a"] by (auto simp: b')
  then show ?thesis using l by (simp add: slice_chk_def b')
qed (simp add: slice_chk_def)

lemma slice_write_u32s_before:
  "write_u32s b off vs = Some b' \<Longrightarrow> n \<le> off \<Longrightarrow> slice_chk b' a n = slice_chk b a n"
proof (induction vs arbitrary: b off)
  case (Cons v vs)
  then obtain b1 where b1: "write_u32_at b off v = Some b1" "write_u32s b1 (off + 4) vs = Some b'"
    by (auto simp: panic_simps)
  with Cons.IH[OF b1(2)] slice_splice_other[of b off "to_le_u32 v" b1 n a] Cons.prems(2)
  show ?case by (simp add: write_u32_at_def)
qed simp

lemma i16_round_trip: "i16_ok v \<Longrightarrow> from_le_i16 (to_le_i16 v) = Some v"
  using from_to_le_i16[of v "[]"] by (simp add: i16_ok_def)

lemma file_type_bytes: "from_le_u16 (to_le_u16 (file_type_as_u16 t)) = Some (file_type_as_u16 t)"
  using from_to_le_u16[of "file_type_as_u16 t" "[]"] file_type_as_u16_bound[of t] by simp

lemma to_bytes_ok:
  assumes "DINODE_SIZE \<le> length b" "length (i_addresses d) = NDIRECT + 1"
  shows "\<exists>b'. to_bytes d b = Some b' \<and> length b' = length b"
proof -
  have w: "\<exists>b'. splice_chk b off ys = Some b' \<and> length b' = length b" if "off + length ys \<le> length b" for b off and ys :: bytes
    using that by (auto simp: splice_chk_def)
  obtain b1 where 1: "splice_chk b 0 (to_le_u16 (file_type_as_u16 (i_file_type d))) = Some b1" "length b1 = length b"
    using w[of 0 "to_le_u16 (file_type_as_u16 (i_file_type d))" b] assms(1) by auto
  obtain b2 where 2: "splice_chk b1 2 (to_le_i16 (i_major d)) = Some b2" "length b2 = length b"
    using w[of 2 "to_le_i16 (i_major d)" b1] assms(1) 1(2) by auto
  obtain b3 where 3: "splice_chk b2 4 (to_le_i16 (i_minor d)) = Some b3" "length b3 = length b"
    using w[of 4 "to_le_i16 (i_minor d)" b2] assms(1) 2(2) by auto
  obtain b4 where 4: "splice_chk b3 6 (to_le_i16 (i_nlink d)) = Some b4" "length b4 = length b"
    using w[of 6 "to_le_i16 (i_nlink d)" b3] assms(1) 3(2) by auto
  obtain b5 where 5: "write_u32_at b4 8 (i_size d) = Some b5" "length b5 = length b"
    using write_u32_at_ok[of 8 b4 "i_size d"] assms(1) 4(2) by auto
  show ?thesis
    using write_u32s_ok[of 12 "i_addresses d" b5] assms 5(2) by (simp add: to_bytes_def 1 2 3 4 5)
qed

lemma from_to_bytes:
  assumes b: "to_bytes d b = Some b'" and d: "inode_data_ok d" and s: "length (i_addresses self) = NDIRECT + 1"
  shows "copy_from_bytes self b' = Some d"
proof -
  obtain b1 b2 b3 b4 b5 where
    w: "splice_chk b 0 (to_le_u16 (file_type_as_u16 (i_file_type d))) = Some b1"
      "splice_chk b1 2 (to_le_i16 (i_major d)) = Some b2" "splice_chk b2 4 (to_le_i16 (i_minor d)) = Some b3"
      "splice_chk b3 6 (to_le_i16 (i_nlink d)) = Some b4" "write_u32_at b4 8 (i_size d) = Some b5"
      "write_u32s b5 12 (i_addresses d) = Some b'"
    using b unfolding to_bytes_def bind_eq_Some_conv by blast
  note w5 = w(5)[unfolded write_u32_at_def]
  have 0: "slice_chk b' 0 2 = Some (to_le_u16 (file_type_as_u16 (i_file_type d)))"
    using slice_splice_same[OF w(1), of 2] slice_splice_other[OF w(2), of 2 0] slice_splice_other[OF w(3), of 2 0]
      slice_splice_other[OF w(4), of 2 0] slice_splice_other[OF w5, of 2 0] slice_write_u32s_before[OF w(6), of 2 0] by simp
  have 2: "slice_chk b' 2 4 = Some (to_le_i16 (i_major d))"
    using slice_splice_same[OF w(2), of 4] slice_splice_other[OF w(3), of 4 2]
      slice_splice_other[OF w(4), of 4 2] slice_splice_other[OF w5, of 4 2] slice_write_u32s_before[OF w(6), of 4 2] by simp
  have 4: "slice_chk b' 4 6 = Some (to_le_i16 (i_minor d))"
    using slice_splice_same[OF w(3), of 6] slice_splice_other[OF w(4), of 6 4] slice_splice_other[OF w5, of 6 4]
      slice_write_u32s_before[OF w(6), of 6 4] by simp
  have 6: "slice_chk b' 6 8 = Some (to_le_i16 (i_nlink d))"
    using slice_splice_same[OF w(4), of 8] slice_splice_other[OF w5, of 8 6] slice_write_u32s_before[OF w(6), of 8 6] by simp
  have 8: "read_u32_at b' 8 = Some (i_size d)"
    using write_u32s_before[OF w(6), of 8] read_write_u32_at[OF w(5)] d by (simp add: inode_data_ok_def)
  have 12: "read_u32s b' 12 (length (i_addresses self)) = Some (i_addresses d)"
    using read_write_u32s[OF w(6)] d s by (simp add: inode_data_ok_def)
  show ?thesis
    using d by (simp add: copy_from_bytes_def read_u16_at_def read_i16_at_def 0 2 4 6 8 12 file_type_bytes
        i16_round_trip inode_data_ok_def del: add_2_eq_Suc add_2_eq_Suc')
qed

lemma from_le_u16_bound: "from_le_u16 bs = Some n \<Longrightarrow> n < 65536"
proof -
  assume "from_le_u16 bs = Some n"
  then have n: "n = unat (bs ! 0) + 256 * unat (bs ! 1)" by (simp add: from_le_u16_def split: if_splits)
  have "\<And>w :: u8. unat w < 256" by (rule order_less_le_trans[OF unsigned_less]) simp
  from this[of "bs ! 0"] this[of "bs ! 1"] n show ?thesis by simp
qed

lemma read_i16_at_ok: "read_i16_at b off = Some v \<Longrightarrow> i16_ok v"
  by (auto simp: read_i16_at_def from_le_i16_def panic_simps i16_ok_def dest!: from_le_u16_bound)

lemma copy_from_bytes_ok:
  assumes "copy_from_bytes self b = Some d" "length (i_addresses self) = NDIRECT + 1"
  shows "inode_data_ok d"
  using assms read_i16_at_ok read_u32_at_bound read_u32s_bound[of b 12]
  by (fastforce simp: copy_from_bytes_def panic_simps inode_data_ok_def)

section \<open>Direct blocks\<close>

lemma usable_mono:
  assumes "ds_frame d d'" "usable d b" "allocated d' b"
  shows "usable d' b"
  using assms ds_frameD[OF assms(1)] by (simp add: usable_def)

lemma bitmap_ok_mono:
  assumes "bitmap_ok d" "ds_frame d d'" "\<And>n. n < sb_size (d_sb d) \<Longrightarrow> allocated d n \<Longrightarrow> allocated d' n"
  shows "bitmap_ok d'"
  using assms(1,3) ds_frameD[OF assms(2)] unfolding bitmap_ok_def by auto

lemma room_for_step:
  assumes "room_for k H d" "nlog d' + k' \<le> nlog d + k" "k' \<le> k"
  shows "room_for k' H d'"
proof -
  have "H n + k' < 2 ^ 30" for n using assms(1,3) by (auto simp: room_for_def dest!: spec[of _ n])
  then show ?thesis using assms by (simp add: room_for_def)
qed

lemma free_blocks_pos: "0 < free_blocks d \<longleftrightarrow> (\<exists>n < sb_size (d_sb d). \<not> allocated d n)"
  unfolding free_blocks_def by (auto simp: card_gt_0_iff)

lemma free_blocks_alloc:
  assumes "d_sb d' = d_sb d" "\<And>m. m < sb_size (d_sb d) \<Longrightarrow> allocated d' m \<longleftrightarrow> m = n \<or> allocated d m"
  shows "free_blocks d \<le> free_blocks d' + 1"
proof -
  let ?F = "\<lambda>d. {n. n < sb_size (d_sb d) \<and> \<not> allocated d n}"
  have "?F d \<subseteq> insert n (?F d')" using assms by auto
  then have "card (?F d) \<le> card (insert n (?F d'))" by (intro card_mono) auto
  also have "... \<le> card (?F d') + 1" using card_insert_le_m1[of "card (?F d') + 1" "?F d'" n] by simp
  finally show ?thesis by (simp add: free_blocks_def)
qed

lemma file_okD:
  assumes "file_ok i s"
  shows "inode_at i s = Some (fs_inodes s ! i)" "in_device (fs_inodes s ! i) = ROOTDEV" "length (addrs s i) = NDIRECT + 1"
    "j < NDIRECT \<Longrightarrow> addrs s i ! j \<noteq> 0 \<Longrightarrow> usable (fs_d s) (addrs s i ! j)"
    "inode_block s i \<notin> set (addrs s i)"
    "j < NDIRECT \<Longrightarrow> k < NDIRECT \<Longrightarrow> addrs s i ! j \<noteq> 0 \<Longrightarrow> addrs s i ! j = addrs s i ! k \<Longrightarrow> j = k"
    "usable (fs_d s) (inode_block s i)" "0 < sb_size (d_sb (fs_d s)) \<and> allocated (fs_d s) 0" "i < length (fs_inodes s)"
    "inode_data_ok (in_data (fs_inodes s ! i))" "inode_block s i \<noteq> 0"
  using assms unfolding file_ok_def inode_at_def nth_chk_def inode_data_ok_def by auto

lemma file_invD:
  assumes "file_inv H i s"
  shows "ds_inv H (fs_d s)" "bitmap_ok (fs_d s)" "file_ok i s"
  using assms by (simp_all add: file_inv_def)

lemma others_kept_refl [simp]: "others_kept i s s"
  unfolding others_kept_def by (auto intro: exI[of _ "addrs s i"])

lemma others_kept_trans [trans]:
  assumes 1: "others_kept i s s'" and 2: "others_kept i s' s''" and i: "i < length (fs_inodes s)"
  shows "others_kept i s s''"
proof -
  obtain as as' where a: "fs_inodes s' = (fs_inodes s)[i := (fs_inodes s ! i)\<lparr>in_data := (in_data (fs_inodes s ! i))\<lparr>i_addresses := as\<rparr>\<rparr>]"
    "fs_inodes s'' = (fs_inodes s')[i := (fs_inodes s' ! i)\<lparr>in_data := (in_data (fs_inodes s' ! i))\<lparr>i_addresses := as'\<rparr>\<rparr>]"
    using 1 2 unfolding others_kept_def by blast
  then have "fs_inodes s'' = (fs_inodes s)[i := (fs_inodes s ! i)\<lparr>in_data := (in_data (fs_inodes s ! i))\<lparr>i_addresses := as'\<rparr>\<rparr>]"
    using i by simp
  then show ?thesis
    using 1 2 ds_frame_trans[of "fs_d s" "fs_d s'" "fs_d s''"] unfolding others_kept_def by auto
qed

text \<open>A hole is filled with a fresh block.\<close>

lemma alloc_fresh:
  assumes d: "ds_inv H d" "bitmap_ok d" "room_for 2 H d" and n: "0 < free_blocks d"
  shows "\<exists>b d'. block_alloc ROOTDEV d = Some (Some b, d') \<and> ds_inv H d' \<and> bitmap_ok d' \<and> ds_frame d d' \<and> nlog d' \<le> nlog d + 2 \<and>
    free_blocks d \<le> free_blocks d' + 1 \<and> \<not> allocated d b \<and> b < sb_size (d_sb d) \<and> usable d' b \<and> fcont d' b = Some (replicate BSIZE 0) \<and>
    (\<forall>m < sb_size (d_sb d). allocated d m \<longrightarrow> allocated d' m) \<and>
    (\<forall>m. usable d m \<longrightarrow> m \<noteq> b \<and> usable d' m \<and> fcont d' m = fcont d m) \<and> keeps (\<lambda>m. 0 < H m) d d'"
proof -
  obtain r d' where al: "block_alloc ROOTDEV d = Some (r, d')" "ds_inv H d'" "ds_frame d d'" "nlog d' \<le> nlog d + 2"
    "alloc_result d r d'" "r = None \<longrightarrow> (\<forall>n < sb_size (d_sb d). allocated d n)" "keeps (\<lambda>m. 0 < H m) d d'"
    using block_alloc_ok[OF d] by blast
  obtain b where b: "r = Some b" using al(6) n by (auto simp: free_blocks_pos)
  note ar = al(5)[unfolded b alloc_result_def option.case]
  have nb: "b < sb_size (d_sb d)" "\<not> allocated d b" using ar by simp_all
  have bk: "b < 2 ^ 29" "b \<notin> log_region (d_log d)" "disk (d_bc d) b \<noteq> None" "b \<notin> bitmap_block (d_sb d) ` {..<sb_size (d_sb d)}"
    using d(2) nb unfolding bitmap_ok_def by blast+
  have mono: "allocated d' m" if "m < sb_size (d_sb d)" "allocated d m" for m using ar that by simp
  have us: "m \<noteq> b" "usable d' m" "fcont d' m = fcont d m" if u: "usable d m" for m
  proof -
    show "usable d' m" using usable_mono[OF al(3) u] mono u by (simp add: usable_def)
    show "m \<noteq> b" using u nb by (auto simp: usable_def)
    moreover have "m \<noteq> bitmap_block (d_sb d) b" using u nb by (auto simp: usable_def)
    ultimately show "fcont d' m = fcont d m" using ar by simp
  qed
  have "usable d' b" using bk nb ar ds_frameD[OF al(3)] by (simp add: usable_def)
  moreover have "free_blocks d \<le> free_blocks d' + 1" using ar by (intro free_blocks_alloc[OF ds_frameD(1)[OF al(3)], of b]) simp
  ultimately show ?thesis
    using al(1-4,7) b nb ar mono us bitmap_ok_mono[OF d(2) al(3)] by auto
qed

text \<open>The file with a fresh zero block in place of a hole.\<close>

lemma hole_filled:
  assumes f: "file_inv H i s" and j: "j < NDIRECT" "addrs s i ! j = 0"
    and d': "ds_inv H d'" "bitmap_ok d'" "ds_frame (fs_d s) d'"
    and b: "\<not> allocated (fs_d s) b" "b < sb_size (d_sb (fs_d s))" "usable d' b" "fcont d' b = Some (replicate BSIZE 0)"
    and mono: "\<And>m. m < sb_size (d_sb (fs_d s)) \<Longrightarrow> allocated (fs_d s) m \<Longrightarrow> allocated d' m"
    and us: "\<And>m. usable (fs_d s) m \<Longrightarrow> m \<noteq> b \<and> usable d' m \<and> fcont d' m = fcont (fs_d s) m"
    and s': "s' = s\<lparr>fs_d := d', fs_inodes := (fs_inodes s)[i := (fs_inodes s ! i)\<lparr>in_data :=
      (in_data (fs_inodes s ! i))\<lparr>i_addresses := (addrs s i)[j := b]\<rparr>\<rparr>]\<rparr>"
  shows "b \<noteq> 0" "addrs s' i = (addrs s i)[j := b]" "file_inv H i s'" "others_kept i s s'"
    "p < DIRECT_BYTES \<Longrightarrow> file_byte s' i p = file_byte s i p"
proof -
  note fd = file_okD[OF file_invD(3)[OF f]]
  show b0: "b \<noteq> 0" using fd(8) b(1) by metis
  have ad: "addrs s' i = (addrs s i)[j := b]" and ib: "inode_block s' i = inode_block s i" and ds: "fs_d s' = d'"
    using fd(9) ds_frameD(1)[OF d'(3)] by (simp_all add: s' inode_block_def)
  then show "addrs s' i = (addrs s i)[j := b]" by simp
  have nn: "fs_inodes s' ! i = (fs_inodes s ! i)\<lparr>in_data := (in_data (fs_inodes s ! i))\<lparr>i_addresses := (addrs s i)[j := b]\<rparr>\<rparr>"
    "length (fs_inodes s') = length (fs_inodes s)" using fd(9) by (simp_all add: s')
  have nth: "addrs s' i ! k = (if k = j then b else addrs s i ! k)" if "k < NDIRECT" for k
    using fd(3) that j(1) by (simp add: ad)
  have at: "addrs s i ! k \<noteq> b" if "k < NDIRECT" for k using us[OF fd(4)[OF that]] b0 by metis
  have "b < 2 ^ 32" using b(3) by (simp add: usable_def)
  then have "inode_data_ok (in_data (fs_inodes s' ! i))"
    using fd(10) unfolding nn inode_data_ok_def by (auto simp: set_update_subset_insert dest!: subsetD[OF set_update_subset_insert])
  moreover have "inode_block s i \<notin> set (addrs s' i)"
    using us[OF fd(7)] fd(5) set_update_subset_insert[of "addrs s i" j b] unfolding ad by blast
  moreover have "usable d' (addrs s' i ! k) \<and> (\<forall>l < NDIRECT. addrs s' i ! k = addrs s' i ! l \<longrightarrow> k = l)" if k: "k < NDIRECT" "addrs s' i ! k \<noteq> 0" for k
    using k b(3) us[OF fd(4)[of k]] us[OF fd(7)] fd(6)[of k] at nth by (auto split: if_splits)
  ultimately have "file_ok i s'"
    using fd(2,8,9,11) us[OF fd(7)] mono ds_frameD(1)[OF d'(3)] unfolding file_ok_def ib ds nn(2) by (simp add: nn(1))
  then show "file_inv H i s'" using d' by (simp add: file_inv_def ds)
  have "addrs s' i ! k = addrs s i ! k" if "addrs s i ! k \<noteq> 0" for k
    using that j(2) unfolding ad by (cases "k = j") auto
  then show "others_kept i s s'"
    using d'(3) us nn ad set_update_subset_insert[of "addrs s i" j b] unfolding others_kept_def ds by (auto simp: s')
  show "file_byte s' i p = file_byte s i p" if p: "p < DIRECT_BYTES"
  proof -
    have k: "p div BSIZE < NDIRECT" using p by (simp add: less_mult_imp_div_less)
    show ?thesis
      using nth[OF k] b0 b(4) j(2) us[OF fd(4)[OF k]] by (auto simp: file_byte_def ds Let_def)
  qed
qed

lemma block_map_direct_ok:
  assumes f: "file_inv H i s" and j: "j < NDIRECT" and r: "room_for (2 * holes s i [j] + k) H (fs_d s)"
    and n: "holes s i [j] \<le> free_blocks (fs_d s)"
  shows "\<exists>b s'. block_map i j s = Some (b, s') \<and> file_inv H i s' \<and> others_kept i s s' \<and> b \<noteq> 0 \<and> addrs s' i = (addrs s i)[j := b] \<and>
    nlog (fs_d s') \<le> nlog (fs_d s) + 2 * holes s i [j] \<and> free_blocks (fs_d s) \<le> free_blocks (fs_d s') + holes s i [j] \<and>
    (\<forall>p < DIRECT_BYTES. file_byte s' i p = file_byte s i p)"
proof (cases "addrs s i ! j = 0")
  case True
  note fd = file_okD[OF file_invD(3)[OF f]]
  have h: "holes s i [j] = 1" using True by (simp add: holes_def)
  have r2: "room_for 2 H (fs_d s)" using room_for_step[OF r] unfolding h by simp
  obtain b d' where al: "block_alloc ROOTDEV (fs_d s) = Some (Some b, d')" "ds_inv H d'" "bitmap_ok d'" "ds_frame (fs_d s) d'"
    "nlog d' \<le> nlog (fs_d s) + 2" "free_blocks (fs_d s) \<le> free_blocks d' + 1"
    and b: "\<not> allocated (fs_d s) b" "b < sb_size (d_sb (fs_d s))" "usable d' b" "fcont d' b = Some (replicate BSIZE 0)"
      "\<And>m. m < sb_size (d_sb (fs_d s)) \<Longrightarrow> allocated (fs_d s) m \<Longrightarrow> allocated d' m"
      "\<And>m. usable (fs_d s) m \<Longrightarrow> m \<noteq> b \<and> usable d' m \<and> fcont d' m = fcont (fs_d s) m"
    using alloc_fresh[OF file_invD(1,2)[OF f] r2] n h by auto
  define s' where "s' = s\<lparr>fs_d := d', fs_inodes := (fs_inodes s)[i := (fs_inodes s ! i)\<lparr>in_data :=
    (in_data (fs_inodes s ! i))\<lparr>i_addresses := (addrs s i)[j := b]\<rparr>\<rparr>]\<rparr>"
  have "block_map i j s = Some (b, s')"
    using fd(1,2,3,9) j True by (simp add: block_map_def alloc_expect_def on_disk_def al(1) modify_data_def modify_inode_def
        modify_chk_def nth_chk_def s'_def)
  moreover note hole_filled[OF f j True al(2-4) b s'_def]
  moreover have "fs_d s' = d'" by (simp add: s'_def)
  ultimately show ?thesis using al h by auto
next
  case False
  note fd = file_okD[OF file_invD(3)[OF f]]
  have "block_map i j s = Some (addrs s i ! j, s)" using fd(1,3) j False by (simp add: block_map_def nth_chk_def)
  with False f show ?thesis by simp
qed

section \<open>Reading\<close>

lemma ds_read_ok:
  assumes i: "ds_inv H d" and b: "usable d b" and r: "room_for 1 H d"
  shows "\<exists>g d1 c d2. ds_bread ROOTDEV b d = Some (g, d1) \<and> ds_get g d1 = Some c \<and> fcont d b = Some c \<and> length c = BSIZE \<and>
    ds_brelse g d1 = Some d2 \<and> ds_inv H d2 \<and> fcont d2 = fcont d \<and> d_log d2 = d_log d \<and> ds_frame d d2"
proof -
  note rm = room_forD[OF r]
  obtain g d1 where 1: "ds_bread ROOTDEV b d = Some (g, d1)" "ds_inv (H(b := H b + 1)) d1" "holds (d_bc d1) g b"
    "fcont d1 = fcont d" "d_log d1 = d_log d" "ds_frame d d1"
    using ds_bread_ok[OF i, of b] b rm by (auto simp: usable_def)
  obtain c where c: "ds_get g d1 = Some c" "fcont d b = Some c" "length c = BSIZE" using ds_get_ok[OF 1(2,3)] 1(4) by auto
  obtain d2 where 2: "ds_brelse g d1 = Some d2" "ds_inv ((H(b := H b + 1))(b := H b)) d2" "fcont d2 = fcont d1" "d_log d2 = d_log d1"
    "ds_frame d1 d2" using ds_brelse_ok[OF 1(2,3)] by auto
  have "(H(b := H b + 1))(b := H b) = H" by simp
  with 1 c 2 show ?thesis using ds_frame_trans[OF 1(6) 2(5)] by auto
qed

text \<open>The disk part of the state replaced by one with the same contents.\<close>

lemma file_inv_same:
  assumes f: "file_inv H i s" and d: "ds_inv H d" "fcont d = fcont (fs_d s)" "ds_frame (fs_d s) d"
  shows "file_inv H i (s\<lparr>fs_d := d\<rparr>)" "others_kept i s (s\<lparr>fs_d := d\<rparr>)" "file_byte (s\<lparr>fs_d := d\<rparr>) i = file_byte s i"
    "free_blocks d = free_blocks (fs_d s)"
proof -
  have al: "allocated d n = allocated (fs_d s) n" for n by (rule allocated_cong[OF d(2) ds_frameD(1)[OF d(3)]])
  have us: "usable d n = usable (fs_d s) n" for n using ds_frameD[OF d(3)] by (simp add: usable_def al)
  have "bitmap_ok d" using bitmap_ok_mono[OF file_invD(2)[OF f] d(3)] al by simp
  then show "file_inv H i (s\<lparr>fs_d := d\<rparr>)"
    using f d(1) ds_frameD(1)[OF d(3)] by (simp add: file_inv_def file_ok_def us al inode_block_def)
  show "others_kept i s (s\<lparr>fs_d := d\<rparr>)"
    using d us by (auto simp: others_kept_def intro: exI[of _ "addrs s i"])
  show "file_byte (s\<lparr>fs_d := d\<rparr>) i = file_byte s i" by (rule ext) (simp add: file_byte_def Let_def d(2))
  show "free_blocks d = free_blocks (fs_d s)" using ds_frameD(1)[OF d(3)] by (simp add: free_blocks_def al)
qed

lemma block_end: "r < B \<Longrightarrow> m = B - r \<Longrightarrow> n = B * q + r \<Longrightarrow> n + m = B * (q + (1 :: nat))"
  by (simp add: algebra_simps)

text \<open>The first block of a range, and the range that is left.\<close>

lemma blocks_of_step:
  assumes "0 < len" "m = min len (BSIZE - offset mod BSIZE)"
  shows "blocks_of offset len = offset div BSIZE # blocks_of (offset + m) (len - m)" "0 < m" "offset mod BSIZE + m \<le> BSIZE"
    "offset div BSIZE \<notin> set (blocks_of (offset + m) (len - m))"
proof -
  let ?q = "offset div BSIZE" and ?r = "offset mod BSIZE"
  have o: "offset = BSIZE * ?q + ?r" "?r < BSIZE" by simp_all
  show m: "0 < m" "?r + m \<le> BSIZE" using assms o(2) by auto
  have le: "?q \<le> (offset + len - 1) div BSIZE" using assms(1) by (intro div_le_mono) simp
  have *: "blocks_of (offset + m) (len - m) = [?q + 1..<(offset + len - 1) div BSIZE + 1]"
  proof (cases "len \<le> BSIZE - ?r")
    case True
    then have "offset + len - 1 = BSIZE * ?q + (?r + len - 1)" "?r + len - 1 < BSIZE" using assms(1) o by linarith+
    then have "(offset + len - 1) div BSIZE = ?q" by simp
    then show ?thesis using True assms by (simp add: blocks_of_def)
  next
    case False
    then have m': "m = BSIZE - ?r" "m < len" using assms m by auto
    have "(offset + m) div BSIZE = ?q + 1" unfolding block_end[OF o(2) m'(1) o(1)] by simp
    moreover have "offset + m + (len - m) - 1 = offset + len - 1" using m'(2) by simp
    ultimately show ?thesis using m'(2) by (simp only: blocks_of_def) simp
  qed
  show "blocks_of offset len = ?q # blocks_of (offset + m) (len - m)"
    unfolding * using assms(1) le by (simp add: blocks_of_def upt_conv_Cons flip: Suc_eq_plus1)
  show "?q \<notin> set (blocks_of (offset + m) (len - m))" unfolding * by simp
qed

lemma holes_Cons: "holes s i (j # js) = holes s i [j] + holes s i js"
  by (simp add: holes_def)

lemma holes_other:
  assumes "addrs s' i = (addrs s i)[j := b]" "j \<notin> set js"
  shows "holes s' i js = holes s i js"
proof -
  have "addrs s' i ! k = addrs s i ! k" if "k \<in> set js" for k using assms that by (cases "j = k") auto
  then have "filter (\<lambda>k. addrs s' i ! k = 0) js = filter (\<lambda>k. addrs s i ! k = 0) js" by (intro filter_cong) simp_all
  then show ?thesis by (simp add: holes_def)
qed

text \<open>One iteration of the loop of \<open>read\<close>.\<close>

lemma read_step:
  assumes f: "file_inv H i s" and j: "j < NDIRECT" and r: "room_for (2 * holes s i [j] + (k + 1)) H (fs_d s)"
    and n: "holes s i [j] \<le> free_blocks (fs_d s)"
  obtains b s1 g d1 c d2 where "block_map i j s = Some (b, s1)" "inode_at i s1 = Some (fs_inodes s1 ! i)"
    "in_device (fs_inodes s1 ! i) = ROOTDEV" "ds_bread ROOTDEV b (fs_d s1) = Some (g, d1)" "ds_get g d1 = Some c" "length c = BSIZE"
    "\<And>q. q < BSIZE \<Longrightarrow> c ! q = file_byte s i (j * BSIZE + q)" "ds_brelse g d1 = Some d2" "file_inv H i (s1\<lparr>fs_d := d2\<rparr>)"
    "others_kept i s (s1\<lparr>fs_d := d2\<rparr>)" "\<And>p. p < DIRECT_BYTES \<Longrightarrow> file_byte (s1\<lparr>fs_d := d2\<rparr>) i p = file_byte s i p"
    "addrs s1 i = (addrs s i)[j := b]" "nlog d2 \<le> nlog (fs_d s) + 2 * holes s i [j]"
    "free_blocks (fs_d s) \<le> free_blocks d2 + holes s i [j]"
proof -
  obtain b s1 where 1: "block_map i j s = Some (b, s1)" "file_inv H i s1" "others_kept i s s1" "b \<noteq> 0" "addrs s1 i = (addrs s i)[j := b]"
    "nlog (fs_d s1) \<le> nlog (fs_d s) + 2 * holes s i [j]" "free_blocks (fs_d s) \<le> free_blocks (fs_d s1) + holes s i [j]"
    "\<And>p. p < DIRECT_BYTES \<Longrightarrow> file_byte s1 i p = file_byte s i p"
    using block_map_direct_ok[OF f j r n] by blast
  note f0 = file_okD[OF file_invD(3)[OF f]] and fd = file_okD[OF file_invD(3)[OF 1(2)]]
  have b: "addrs s1 i ! j = b" using f0(3) j by (simp add: 1(5))
  have u: "usable (fs_d s1) b" using fd(4)[OF j] 1(4) b by simp
  have r1: "room_for 1 H (fs_d s1)" using room_for_step[OF r, of "fs_d s1" 1] 1(6) by simp
  obtain g d1 c d2 where 2: "ds_bread ROOTDEV b (fs_d s1) = Some (g, d1)" "ds_get g d1 = Some c" "fcont (fs_d s1) b = Some c" "length c = BSIZE"
    "ds_brelse g d1 = Some d2" "ds_inv H d2" "fcont d2 = fcont (fs_d s1)" "d_log d2 = d_log (fs_d s1)" "ds_frame (fs_d s1) d2"
    using ds_read_ok[OF file_invD(1)[OF 1(2)] u r1] by blast
  note same = file_inv_same[OF 1(2) 2(6,7,9)]
  have "c ! q = file_byte s i (j * BSIZE + q)" if q: "q < BSIZE" for q
  proof -
    have "j * BSIZE + q < DIRECT_BYTES" using j q by simp
    with 1(8) have "file_byte s i (j * BSIZE + q) = file_byte s1 i (j * BSIZE + q)" by simp
    also have "... = c ! q" using q b 1(4) 2(3) by (simp add: file_byte_def)
    finally show ?thesis by simp
  qed
  moreover have "others_kept i s (s1\<lparr>fs_d := d2\<rparr>)" using others_kept_trans[OF 1(3) same(2) f0(9)] .
  ultimately show ?thesis using 1 2 fd(1,2) same by (intro that[of b s1 g d1 c d2]) simp_all
qed

lemma file_slice:
  assumes "length c = BSIZE" "\<And>q. q < BSIZE \<Longrightarrow> c ! q = fb (p div BSIZE * BSIZE + q)" "p mod BSIZE + m \<le> BSIZE"
  shows "take m (drop (p mod BSIZE) c) = map fb [p..<p + m]"
  using assms by (intro nth_equalityI) (auto simp: add.assoc[symmetric])

lemma read_loop_ok:
  assumes "file_inv H i s" "tot \<le> want" "offset + (want - tot) \<le> DIRECT_BYTES" "tot + (want - tot) \<le> length buf"
    "room_for (2 * holes s i (blocks_of offset (want - tot)) + 1) H (fs_d s)" "holes s i (blocks_of offset (want - tot)) \<le> free_blocks (fs_d s)"
  shows "\<exists>s'. read_loop i want tot offset tot buf s =
      Some (take tot buf @ map (file_byte s i) [offset..<offset + (want - tot)] @ drop want buf, s') \<and>
    file_inv H i s' \<and> others_kept i s s' \<and> (\<forall>p < DIRECT_BYTES. file_byte s' i p = file_byte s i p) \<and>
    nlog (fs_d s') \<le> nlog (fs_d s) + 2 * holes s i (blocks_of offset (want - tot)) \<and>
    free_blocks (fs_d s) \<le> free_blocks (fs_d s') + holes s i (blocks_of offset (want - tot))"
  using assms
proof (induction "want - tot" arbitrary: tot offset buf s rule: less_induct)
  case less
  show ?case
  proof (cases "tot < want")
    case False
    with less.prems show ?thesis by (subst read_loop.simps) (simp add: holes_def)
  next
    case True
    define m where "m = min (want - tot) (BSIZE - offset mod BSIZE)"
    let ?j = "offset div BSIZE"
    from True have "0 < want - tot" by simp
    note b = blocks_of_step[OF this m_def, unfolded diff_diff_left]
    let ?h = "holes s i [?j]" and ?h' = "holes s i (blocks_of (offset + m) (want - (tot + m)))"
    have h: "holes s i (blocks_of offset (want - tot)) = ?h + ?h'" unfolding b(1) by (rule holes_Cons)
    have j: "?j < NDIRECT" "?j mod 2 ^ 32 = ?j" using less.prems(3) True by (simp_all add: less_mult_imp_div_less)
    have mw: "m \<le> want - tot" "m = min (want - tot) (BSIZE - offset mod BSIZE)" by (simp_all add: m_def)
    have r: "room_for (2 * ?h + (2 * ?h' + 1)) H (fs_d s)" using less.prems(5) unfolding h by (simp add: algebra_simps)
    have n: "?h \<le> free_blocks (fs_d s)" using less.prems(6) h by simp
    obtain bb s1 g d1 c d2 where st: "block_map i ?j s = Some (bb, s1)" "inode_at i s1 = Some (fs_inodes s1 ! i)"
      "in_device (fs_inodes s1 ! i) = ROOTDEV" "ds_bread ROOTDEV bb (fs_d s1) = Some (g, d1)" "ds_get g d1 = Some c" "length c = BSIZE"
      "\<And>q. q < BSIZE \<Longrightarrow> c ! q = file_byte s i (?j * BSIZE + q)" "ds_brelse g d1 = Some d2" "file_inv H i (s1\<lparr>fs_d := d2\<rparr>)"
      "others_kept i s (s1\<lparr>fs_d := d2\<rparr>)" "\<And>p. p < DIRECT_BYTES \<Longrightarrow> file_byte (s1\<lparr>fs_d := d2\<rparr>) i p = file_byte s i p"
      "addrs s1 i = (addrs s i)[?j := bb]" "nlog d2 \<le> nlog (fs_d s) + 2 * ?h" "free_blocks (fs_d s) \<le> free_blocks d2 + ?h"
      by (rule read_step[OF less.prems(1) j(1) r n]) (rule that; assumption)
    define s2 buf' where "s2 = s1\<lparr>fs_d := d2\<rparr>" and "buf' = take tot buf @ map (file_byte s i) [offset..<offset + m] @ drop (tot + m) buf"
    have sl: "take m (drop (offset mod BSIZE) c) = map (file_byte s i) [offset..<offset + m]" by (rule file_slice[OF st(6,7) b(3)])
    have tm: "tot + m \<le> length buf" using less.prems(4) True mw(1) by simp
    have step: "read_loop i want tot offset tot buf s = read_loop i want (tot + m) (offset + m) (tot + m) buf' s2"
      using True st(1-6,8) b(3) tm j(2)
      by (subst read_loop.simps) (simp add: on_disk_def upd_disk_def slice_chk_def splice_chk_def mw(2)[symmetric] Let_def sl
          buf'_def s2_def)
    have h2: "holes s2 i (blocks_of (offset + m) (want - (tot + m))) = ?h'" using st(12) b(4) by (intro holes_other) (simp_all add: s2_def)
    have bnd: "tot + m \<le> want" "want - (tot + m) < want - tot" using True mw(1) b(2) by simp_all
    have lb: "length buf' = length buf" using less.prems(4) mw(1) by (simp add: buf'_def)
    have "room_for (2 * ?h' + 1) H (fs_d s2)" "?h' \<le> free_blocks (fs_d s2)"
      using room_for_step[OF r, of d2 "2 * ?h' + 1"] st(13,14) less.prems(6) h by (simp_all add: s2_def)
    then obtain s' where IH: "read_loop i want (tot + m) (offset + m) (tot + m) buf' s2 =
      Some (take (tot + m) buf' @ map (file_byte s2 i) [offset + m..<offset + m + (want - (tot + m))] @ drop want buf', s')"
      "file_inv H i s'" "others_kept i s2 s'" "\<forall>p < DIRECT_BYTES. file_byte s' i p = file_byte s2 i p"
      "nlog (fs_d s') \<le> nlog (fs_d s2) + 2 * ?h'" "free_blocks (fs_d s2) \<le> free_blocks (fs_d s') + ?h'"
      using less.hyps[OF bnd(2) st(9)[folded s2_def] bnd(1), of "offset + m" buf'] less.prems(3,4) bnd(1) lb unfolding h2 by auto
    have fb: "map (file_byte s2 i) [offset + m..<offset + (want - tot)] = map (file_byte s i) [offset + m..<offset + (want - tot)]"
      using st(11) less.prems(3) by (simp add: s2_def)
    have e: "offset + m + (want - (tot + m)) = offset + (want - tot)" using bnd(1) by simp
    have "[offset..<offset + (want - tot)] = [offset..<offset + m] @ [offset + m..<offset + (want - tot)]"
      using upt_add_eq_append[of offset "offset + m" "want - (tot + m)"] unfolding e by simp
    moreover have "take (tot + m) buf' = take tot buf @ map (file_byte s i) [offset..<offset + m]" "drop want buf' = drop want buf"
      using less.prems(4) bnd(1) by (simp_all add: buf'_def)
    ultimately have "read_loop i want tot offset tot buf s =
      Some (take tot buf @ map (file_byte s i) [offset..<offset + (want - tot)] @ drop want buf, s')"
      unfolding step IH(1) e fb by simp
    moreover have "others_kept i s s'"
      using others_kept_trans[OF st(10)[folded s2_def] IH(3) file_okD(9)[OF file_invD(3)[OF less.prems(1)]]] .
    ultimately show ?thesis using IH(2,4,5,6) st(11,13,14) h by (auto simp: s2_def)
  qed
qed

lemma inode_read_ok:
  assumes f: "file_inv H i s" and z: "i_size (in_data (fs_inodes s ! i)) \<le> DIRECT_BYTES" "offset \<le> i_size (in_data (fs_inodes s ! i))"
    and b: "offset + length buf < 2 ^ 64" and r: "room_for (2 * holes s i (blocks_of offset k) + 1) H (fs_d s)"
    and h: "holes s i (blocks_of offset k) \<le> free_blocks (fs_d s)"
    and k: "k = min (length buf) (i_size (in_data (fs_inodes s ! i)) - offset)"
  shows "\<exists>s'. inode_read i buf offset s = Some ((Inr k, map (file_byte s i) [offset..<offset + k] @ drop k buf), s') \<and>
    file_inv H i s' \<and> others_kept i s s' \<and> (\<forall>p < DIRECT_BYTES. file_byte s' i p = file_byte s i p) \<and>
    nlog (fs_d s') \<le> nlog (fs_d s) + 2 * holes s i (blocks_of offset k) \<and>
    free_blocks (fs_d s) \<le> free_blocks (fs_d s') + holes s i (blocks_of offset k)"
proof -
  note fd = file_okD[OF file_invD(3)[OF f]]
  let ?z = "i_size (in_data (fs_inodes s ! i))"
  have a: "add_usize offset (length buf) = Some (offset + length buf)" using b by (simp add: add_usize_def)
  have kb: "offset + k \<le> DIRECT_BYTES" "k \<le> length buf" using z k by auto
  have "(if offset + length buf > ?z then sub_chk ?z offset else Some (length buf)) = Some k"
    using z(2) k by (auto simp: sub_chk_def)
  then show ?thesis using read_loop_ok[OF f, of 0 k offset buf] kb r h fd(1) a by (auto simp: inode_read_def)
qed

section \<open>Writing\<close>

lemma block_bytes:
  assumes "length c = BSIZE" "c' = take a c @ ys @ drop (a + length ys) c" "a + length ys \<le> BSIZE"
  shows "(if p div BSIZE = j then c' ! (p mod BSIZE) else x) =
    (if j * BSIZE + a \<le> p \<and> p < j * BSIZE + a + length ys then ys ! (p - (j * BSIZE + a))
     else if p div BSIZE = j then c ! (p mod BSIZE) else x)"
proof (cases "p div BSIZE = j")
  case True
  then have p: "p = j * BSIZE + p mod BSIZE" "p mod BSIZE < BSIZE" by (metis div_mult_mod_eq, simp)
  then have "j * BSIZE + a \<le> p \<longleftrightarrow> a \<le> p mod BSIZE" "p < j * BSIZE + a + length ys \<longleftrightarrow> p mod BSIZE < a + length ys"
    "p - (j * BSIZE + a) = p mod BSIZE - a" by linarith+
  then show ?thesis using True p(2) assms by (auto simp: nth_append)
next
  case False
  have "p div BSIZE = j" if "j * BSIZE + a \<le> p" "p < j * BSIZE + a + length ys"
  proof -
    have "p = j * BSIZE + (p - j * BSIZE)" "p - j * BSIZE < BSIZE" using that assms(3) by linarith+
    then show ?thesis by (metis add.commute div_mult_self3 div_less add_0 zero_neq_numeral)
  qed
  with False show ?thesis by auto
qed

text \<open>A block in use replaced: the bitmap and the file's inode in memory are not concerned.\<close>

lemma usable_update:
  assumes f: "file_inv H i s" and u: "usable (fs_d s) b"
    and d: "ds_inv H d" "fcont d = (fcont (fs_d s))(b \<mapsto> c)" "ds_frame (fs_d s) d"
  shows "file_inv H i (s\<lparr>fs_d := d\<rparr>)" "usable d n = usable (fs_d s) n" "free_blocks d = free_blocks (fs_d s)"
    "n < sb_size (d_sb (fs_d s)) \<Longrightarrow> allocated d n = allocated (fs_d s) n"
proof -
  have al: "allocated d n = allocated (fs_d s) n" if "n < sb_size (d_sb (fs_d s))" for n
    using u that ds_frameD(1)[OF d(3)] by (auto simp: allocated_def d(2) usable_def)
  then show "n < sb_size (d_sb (fs_d s)) \<Longrightarrow> allocated d n = allocated (fs_d s) n" .
  have us: "usable d n = usable (fs_d s) n" for n
    using ds_frameD[OF d(3)] al[of n] by (cases "n < sb_size (d_sb (fs_d s))") (simp_all add: usable_def)
  then show "usable d n = usable (fs_d s) n" .
  have "bitmap_ok d" using bitmap_ok_mono[OF file_invD(2)[OF f] d(3)] al by simp
  then show "file_inv H i (s\<lparr>fs_d := d\<rparr>)"
    using f d(1) ds_frameD(1)[OF d(3)] al[of 0] by (simp add: file_inv_def file_ok_def us inode_block_def)
  show "free_blocks d = free_blocks (fs_d s)"
    unfolding free_blocks_def ds_frameD(1)[OF d(3)] by (intro arg_cong[where f = card] Collect_cong) (auto simp: al)
qed

lemma block_replaced:
  assumes f: "file_inv H i s" and j: "j < NDIRECT" "addrs s i ! j = b" "b \<noteq> 0"
    and d: "ds_inv H d" "fcont d = (fcont (fs_d s))(b \<mapsto> c)" "ds_frame (fs_d s) d"
  shows "others_kept i s (s\<lparr>fs_d := d\<rparr>)"
    "p < DIRECT_BYTES \<Longrightarrow> file_byte (s\<lparr>fs_d := d\<rparr>) i p = (if p div BSIZE = j then c ! (p mod BSIZE) else file_byte s i p)"
proof -
  note fd = file_okD[OF file_invD(3)[OF f]]
  have u: "usable (fs_d s) b" using fd(4)[OF j(1)] j by simp
  have "b \<in> set (addrs s i)" using j(1,2) fd(3) nth_mem[of j "addrs s i"] by simp
  then show "others_kept i s (s\<lparr>fs_d := d\<rparr>)"
    using d usable_update(2)[OF f u d] by (auto simp: others_kept_def intro: exI[of _ "addrs s i"])
  show "file_byte (s\<lparr>fs_d := d\<rparr>) i p = (if p div BSIZE = j then c ! (p mod BSIZE) else file_byte s i p)" if p: "p < DIRECT_BYTES"
  proof -
    have k: "p div BSIZE < NDIRECT" using p by (simp add: less_mult_imp_div_less)
    have e: "p div BSIZE = j" if "addrs s i ! (p div BSIZE) = b" using fd(6)[OF j(1) k] that j(2,3) by simp
    show ?thesis
    proof (cases "p div BSIZE = j")
      case True
      then show ?thesis using j(2,3) by (simp add: file_byte_def d(2))
    next
      case False
      then have "addrs s i ! (p div BSIZE) \<noteq> b" using e by blast
      then show ?thesis using False by (simp add: file_byte_def Let_def d(2))
    qed
  qed
qed

lemma write_step:
  assumes f: "file_inv H i s" and j: "j < NDIRECT" and r: "room_for (2 * holes s i [j] + (k + 1)) H (fs_d s)"
    and n: "holes s i [j] \<le> free_blocks (fs_d s)" and m: "a + length ys \<le> BSIZE"
  obtains b s1 g d1 c c' d2 d3 d4 where "block_map i j s = Some (b, s1)" "inode_at i s1 = Some (fs_inodes s1 ! i)"
    "in_device (fs_inodes s1 ! i) = ROOTDEV" "ds_bread ROOTDEV b (fs_d s1) = Some (g, d1)" "ds_get g d1 = Some c"
    "splice_chk c a ys = Some c'" "ds_put g c' d1 = Some d2" "trans_write g d2 = Some d3" "ds_brelse g d3 = Some d4"
    "file_inv H i (s1\<lparr>fs_d := d4\<rparr>)" "others_kept i s (s1\<lparr>fs_d := d4\<rparr>)"
    "\<And>p. p < DIRECT_BYTES \<Longrightarrow> file_byte (s1\<lparr>fs_d := d4\<rparr>) i p =
       (if j * BSIZE + a \<le> p \<and> p < j * BSIZE + a + length ys then ys ! (p - (j * BSIZE + a)) else file_byte s i p)"
    "addrs s1 i = (addrs s i)[j := b]" "nlog d4 \<le> nlog (fs_d s) + 2 * holes s i [j] + 1"
    "free_blocks (fs_d s) \<le> free_blocks d4 + holes s i [j]"
proof -
  obtain b s1 where 1: "block_map i j s = Some (b, s1)" "file_inv H i s1" "others_kept i s s1" "b \<noteq> 0" "addrs s1 i = (addrs s i)[j := b]"
    "nlog (fs_d s1) \<le> nlog (fs_d s) + 2 * holes s i [j]" "free_blocks (fs_d s) \<le> free_blocks (fs_d s1) + holes s i [j]"
    "\<And>p. p < DIRECT_BYTES \<Longrightarrow> file_byte s1 i p = file_byte s i p"
    using block_map_direct_ok[OF f j r n] by blast
  note f0 = file_okD[OF file_invD(3)[OF f]] and fd = file_okD[OF file_invD(3)[OF 1(2)]]
  have b: "addrs s1 i ! j = b" using f0(3) j by (simp add: 1(5))
  have u: "usable (fs_d s1) b" using fd(4)[OF j] 1(4) b by simp
  have r1: "room_for 1 H (fs_d s1)" using room_for_step[OF r, of "fs_d s1" 1] 1(6) by simp
  note rm = room_forD[OF r1 zero_less_one]
  have ub: "disk (d_bc (fs_d s1)) b \<noteq> None" "b < 2 ^ 29" "b \<notin> log_region (d_log (fs_d s1))" using u by (simp_all add: usable_def)
  obtain g d1 c where 2: "ds_bread ROOTDEV b (fs_d s1) = Some (g, d1)" "ds_get g d1 = Some c" "fcont (fs_d s1) b = Some c" "length c = BSIZE"
    and w: "\<And>d'. length d' = BSIZE \<Longrightarrow> \<exists>s2 s3 s'. ds_put g d' d1 = Some s2 \<and> trans_write g s2 = Some s3 \<and> ds_brelse g s3 = Some s' \<and>
       ds_inv H s' \<and> fcont s' = (fcont (fs_d s1))(b \<mapsto> d') \<and> nlog s' \<le> nlog (fs_d s1) + 1 \<and> ds_frame (fs_d s1) s'"
    using ds_rewrite_ok[OF file_invD(1)[OF 1(2)] ub(1,2) rm(3) ub(3) rm(1,2)] by blast
  define c' where "c' = take a c @ ys @ drop (a + length ys) c"
  have c': "splice_chk c a ys = Some c'" "length c' = BSIZE" using m 2(4) by (simp_all add: splice_chk_def c'_def)
  obtain d2 d3 d4 where 3: "ds_put g c' d1 = Some d2" "trans_write g d2 = Some d3" "ds_brelse g d3 = Some d4" "ds_inv H d4"
    "fcont d4 = (fcont (fs_d s1))(b \<mapsto> c')" "nlog d4 \<le> nlog (fs_d s1) + 1" "ds_frame (fs_d s1) d4"
    using w[OF c'(2)] by blast
  note br = block_replaced[OF 1(2) j b 1(4) 3(4,5,7)] and uu = usable_update[OF 1(2) u 3(4,5,7)]
  have fb: "file_byte (s1\<lparr>fs_d := d4\<rparr>) i p =
       (if j * BSIZE + a \<le> p \<and> p < j * BSIZE + a + length ys then ys ! (p - (j * BSIZE + a)) else file_byte s i p)"
    if p: "p < DIRECT_BYTES" for p
    using br(2)[OF p] block_bytes[OF 2(4) c'_def m, of p j] 1(8)[OF p] b 1(4) 2(3) by (auto simp: file_byte_def)
  show ?thesis
    using 1 2 3 c' fd(1,2) uu others_kept_trans[OF 1(3) br(1) f0(9)] by (intro that[of b s1 g d1 c c' d2 d3 d4] fb) simp_all
qed

text \<open>The log entries a write to a range takes: its blocks, and two for each block to allocate.\<close>

definition write_cost :: "fstate \<Rightarrow> nat \<Rightarrow> nat list \<Rightarrow> nat" where
  "write_cost s i js = 2 * holes s i js + length js"

lemma write_cost_Cons: "write_cost s i (j # js) = 2 * holes s i [j] + (write_cost s i js + 1)"
  by (simp add: write_cost_def holes_Cons[of s i j js])

lemma byte_chain:
  assumes "m \<le> n" "tot + n \<le> length u"
  shows "(if offset + m \<le> p \<and> p < offset + n then u ! (tot + m + (p - (offset + m)))
      else if offset \<le> p \<and> p < offset + m then take m (drop tot u) ! (p - offset) else x) =
    (if offset \<le> p \<and> p < offset + n then u ! (tot + (p - offset)) else x)"
  using assms by auto

lemma write_loop_ok:
  assumes "file_inv H i s" "tot \<le> length u" "offset + (length u - tot) \<le> DIRECT_BYTES"
    "room_for (write_cost s i (blocks_of offset (length u - tot))) H (fs_d s)"
    "holes s i (blocks_of offset (length u - tot)) \<le> free_blocks (fs_d s)"
  shows "\<exists>s'. write_loop i u tot offset tot s = Some (offset + (length u - tot), s') \<and> file_inv H i s' \<and> others_kept i s s' \<and>
    (\<forall>p < DIRECT_BYTES. file_byte s' i p =
       (if offset \<le> p \<and> p < offset + (length u - tot) then u ! (tot + (p - offset)) else file_byte s i p)) \<and>
    nlog (fs_d s') \<le> nlog (fs_d s) + write_cost s i (blocks_of offset (length u - tot))"
  using assms
proof (induction "length u - tot" arbitrary: tot offset s rule: less_induct)
  case less
  show ?case
  proof (cases "tot < length u")
    case False
    with less.prems show ?thesis by (subst write_loop.simps) auto
  next
    case True
    define m where "m = min (length u - tot) (BSIZE - offset mod BSIZE)"
    let ?j = "offset div BSIZE"
    from True have "0 < length u - tot" by simp
    note b = blocks_of_step[OF this m_def, unfolded diff_diff_left]
    let ?bs = "blocks_of (offset + m) (length u - (tot + m))"
    have h: "holes s i (blocks_of offset (length u - tot)) = holes s i [?j] + holes s i ?bs" unfolding b(1) by (rule holes_Cons)
    have j: "?j < NDIRECT" "?j mod 2 ^ 32 = ?j" using less.prems(3) True by (simp_all add: less_mult_imp_div_less)
    have mw: "m \<le> length u - tot" "m = min (length u - tot) (BSIZE - offset mod BSIZE)" by (simp_all add: m_def)
    note r = less.prems(4)[unfolded b(1) write_cost_Cons]
    have n: "holes s i [?j] \<le> free_blocks (fs_d s)" using less.prems(5) h by simp
    define ys where "ys = take m (drop tot u)"
    have ly: "length ys = m" using mw(1) by (simp add: ys_def)
    have my: "offset mod BSIZE + length ys \<le> BSIZE" using b(3) ly by simp
    have o: "?j * BSIZE + offset mod BSIZE = offset" by simp
    obtain bb s1 g d1 c c' d2 d3 d4 where st: "block_map i ?j s = Some (bb, s1)" "inode_at i s1 = Some (fs_inodes s1 ! i)"
      "in_device (fs_inodes s1 ! i) = ROOTDEV" "ds_bread ROOTDEV bb (fs_d s1) = Some (g, d1)" "ds_get g d1 = Some c"
      "splice_chk c (offset mod BSIZE) ys = Some c'" "ds_put g c' d1 = Some d2" "trans_write g d2 = Some d3" "ds_brelse g d3 = Some d4"
      "file_inv H i (s1\<lparr>fs_d := d4\<rparr>)" "others_kept i s (s1\<lparr>fs_d := d4\<rparr>)"
      "\<And>p. p < DIRECT_BYTES \<Longrightarrow> file_byte (s1\<lparr>fs_d := d4\<rparr>) i p =
         (if offset \<le> p \<and> p < offset + length ys then ys ! (p - offset) else file_byte s i p)"
      "addrs s1 i = (addrs s i)[?j := bb]" "nlog d4 \<le> nlog (fs_d s) + 2 * holes s i [?j] + 1"
      "free_blocks (fs_d s) \<le> free_blocks d4 + holes s i [?j]"
      by (rule write_step[OF less.prems(1) j(1) r n my, unfolded o]) (rule that; assumption)
    define s2 where "s2 = s1\<lparr>fs_d := d4\<rparr>"
    have "offset + m < 2 ^ 64" using less.prems(3) mw(1) by simp
    moreover have "slice_chk u tot (tot + m) = Some ys" using True mw(1) by (simp add: slice_chk_def ys_def)
    ultimately have step: "write_loop i u tot offset tot s = write_loop i u (tot + m) (offset + m) (tot + m) s2"
      using True st(1-9) j(2)
      by (subst write_loop.simps) (simp add: on_disk_def upd_disk_def add_usize_def mw(2)[symmetric] Let_def s2_def)
    have h2: "holes s2 i ?bs = holes s i ?bs" using st(13) b(4) by (intro holes_other) (simp_all add: s2_def)
    have c2: "write_cost s2 i ?bs = write_cost s i ?bs" by (simp add: write_cost_def h2)
    have bnd: "tot + m \<le> length u" "length u - (tot + m) < length u - tot"
      using True mw(1) b(2) by simp_all
    have e: "offset + m + (length u - (tot + m)) = offset + (length u - tot)" using bnd(1) by simp
    have "room_for (write_cost s i ?bs) H (fs_d s2)" "holes s i ?bs \<le> free_blocks (fs_d s2)"
      using room_for_step[OF r, of d4] st(14,15) less.prems(5) h by (simp_all add: s2_def)
    then obtain s' where IH: "write_loop i u (tot + m) (offset + m) (tot + m) s2 = Some (offset + (length u - tot), s')"
      "file_inv H i s'" "others_kept i s2 s'" "\<And>p. p < DIRECT_BYTES \<Longrightarrow> file_byte s' i p =
       (if offset + m \<le> p \<and> p < offset + (length u - tot) then u ! (tot + m + (p - (offset + m))) else file_byte s2 i p)"
      "nlog (fs_d s') \<le> nlog (fs_d s2) + write_cost s i ?bs"
      using less.hyps[OF bnd(2) st(10)[folded s2_def] bnd(1), of "offset + m"] less.prems(3) unfolding h2 c2 e by blast
    have "others_kept i s s'"
      using others_kept_trans[OF st(11)[folded s2_def] IH(3) file_okD(9)[OF file_invD(3)[OF less.prems(1)]]] .
    moreover have "file_byte s' i p =
       (if offset \<le> p \<and> p < offset + (length u - tot) then u ! (tot + (p - offset)) else file_byte s i p)"
      if p: "p < DIRECT_BYTES" for p
      unfolding IH(4)[OF p] st(12)[OF p, folded s2_def] ly unfolding ys_def by (rule byte_chain[OF mw(1)]) (use True in simp)
    moreover have "nlog (fs_d s') \<le> nlog (fs_d s) + write_cost s i (blocks_of offset (length u - tot))"
      using IH(5) st(14) unfolding b(1) write_cost_Cons by (simp add: s2_def)
    ultimately show ?thesis using step IH(1,2) by auto
  qed
qed

section \<open>Flushing the inode\<close>

lemma dinode_off: "(m :: nat) mod IPB * DINODE_SIZE + DINODE_SIZE \<le> BSIZE"
  using mod_less_divisor[of IPB m] by linarith

lemma dinode_updated:
  assumes d: "fcont d' = (fcont d)(k div IPB + sb_inodestart (d_sb d) \<mapsto> c')" "d_sb d' = d_sb d"
    and c: "fcont d (k div IPB + sb_inodestart (d_sb d)) = Some c" "splice_chk c (k mod IPB * DINODE_SIZE) sl = Some c'"
    and sl: "to_bytes x sl0 = Some sl" "length sl = DINODE_SIZE" "inode_data_ok x"
  shows "dinode d' m = (if m = k then Some x else dinode d m)"
proof (cases "m = k")
  case True
  have "slice_chk c' (k mod IPB * DINODE_SIZE) (k mod IPB * DINODE_SIZE + DINODE_SIZE) = Some sl"
    using slice_splice_same[OF c(2)] sl(2) by simp
  moreover have "inode_from_bytes sl = Some x" using from_to_bytes[OF sl(1,3)] by (simp add: inode_from_bytes_def INodeData_new_def)
  ultimately show ?thesis using True by (simp add: dinode_def d)
next
  case False
  show ?thesis
  proof (cases "m div IPB = k div IPB")
    case True
    with False have "m mod IPB \<noteq> k mod IPB" by (metis div_mult_mod_eq)
    then have "slice_chk c' (m mod IPB * DINODE_SIZE) (m mod IPB * DINODE_SIZE + DINODE_SIZE) =
      slice_chk c (m mod IPB * DINODE_SIZE) (m mod IPB * DINODE_SIZE + DINODE_SIZE)"
      using slice_splice_other[OF c(2)] sl(2) by (cases "m mod IPB < k mod IPB") simp_all
    with True False c(1) show ?thesis by (simp add: dinode_def d)
  next
    case F: False
    with False show ?thesis by (simp add: dinode_def d)
  qed
qed

lemma inode_update_ok:
  assumes f: "file_inv H i s" and r: "room_for 1 H (fs_d s)"
  shows "\<exists>d. inode_update i s = Some (s\<lparr>fs_d := d\<rparr>) \<and> file_inv H i (s\<lparr>fs_d := d\<rparr>) \<and> ds_frame (fs_d s) d \<and> nlog d \<le> nlog (fs_d s) + 1 \<and>
    free_blocks d = free_blocks (fs_d s) \<and> (\<forall>m. dinode d m = (if m = in_inum (fs_inodes s ! i) then Some (in_data (fs_inodes s ! i)) else dinode (fs_d s) m)) \<and>
    (\<forall>b. usable d b = usable (fs_d s) b \<and> (b \<noteq> inode_block s i \<longrightarrow> fcont d b = fcont (fs_d s) b)) \<and>
    (\<forall>b < sb_size (d_sb (fs_d s)). allocated d b = allocated (fs_d s) b) \<and>
    (\<forall>p < DIRECT_BYTES. file_byte (s\<lparr>fs_d := d\<rparr>) i p = file_byte s i p)"
proof -
  let ?n = "fs_inodes s ! i" and ?b = "inode_block s i"
  define off where "off = in_inum ?n mod IPB * DINODE_SIZE"
  note fd = file_okD[OF file_invD(3)[OF f]] and rm = room_forD[OF r zero_less_one]
  have ub: "disk (d_bc (fs_d s)) ?b \<noteq> None" "?b < 2 ^ 29" "?b \<notin> log_region (d_log (fs_d s))" using fd(7) by (simp_all add: usable_def)
  obtain g d1 c where 2: "ds_bread ROOTDEV ?b (fs_d s) = Some (g, d1)" "ds_get g d1 = Some c" "fcont (fs_d s) ?b = Some c" "length c = BSIZE"
    and w: "\<And>d'. length d' = BSIZE \<Longrightarrow> \<exists>s2 s3 s'. ds_put g d' d1 = Some s2 \<and> trans_write g s2 = Some s3 \<and> ds_brelse g s3 = Some s' \<and>
       ds_inv H s' \<and> fcont s' = (fcont (fs_d s))(?b \<mapsto> d') \<and> nlog s' \<le> nlog (fs_d s) + 1 \<and> ds_frame (fs_d s) s'"
    using ds_rewrite_ok[OF file_invD(1)[OF f] ub(1,2) rm(3) ub(3) rm(1,2)] by blast
  have off: "off + DINODE_SIZE \<le> BSIZE" unfolding off_def by (rule dinode_off)
  define sl0 where "sl0 = take DINODE_SIZE (drop off c)"
  have sl0: "slice_chk c off (off + DINODE_SIZE) = Some sl0" "length sl0 = DINODE_SIZE"
    using off 2(4) by (simp_all add: slice_chk_def sl0_def)
  obtain sl where sl: "to_bytes (in_data ?n) sl0 = Some sl" "length sl = DINODE_SIZE" using to_bytes_ok[of sl0 "in_data ?n"] sl0(2) fd(3) by auto
  define c' where "c' = take off c @ sl @ drop (off + length sl) c"
  have c': "splice_chk c off sl = Some c'" "length c' = BSIZE" using off sl(2) 2(4) by (simp_all add: splice_chk_def c'_def)
  obtain d2 d3 d4 where 3: "ds_put g c' d1 = Some d2" "trans_write g d2 = Some d3" "ds_brelse g d3 = Some d4" "ds_inv H d4"
    "fcont d4 = (fcont (fs_d s))(?b \<mapsto> c')" "nlog d4 \<le> nlog (fs_d s) + 1" "ds_frame (fs_d s) d4"
    using w[OF c'(2)] by blast
  note uu = usable_update[OF f fd(7) 3(4,5,7)]
  have "block_num_for_node (in_inum ?n) (d_sb (fs_d s)) = Some ?b"
    using ub(2) by (simp add: block_num_for_node_def inode_block_def add_u32_def)
  then have run: "inode_update i s = Some (s\<lparr>fs_d := d4\<rparr>)"
    using fd(1,2) 2(1,2) sl0(1) sl(1) c'(1) 3(1-3) unfolding inode_update_def
    by (simp add: on_disk_def upd_disk_def Let_def off_def[symmetric])
  have "dinode d4 m = (if m = in_inum ?n then Some (in_data ?n) else dinode (fs_d s) m)" for m
    using dinode_updated[OF 3(5)[unfolded inode_block_def] ds_frameD(1)[OF 3(7)] 2(3)[unfolded inode_block_def] c'(1)[unfolded off_def] sl fd(10)] .
  moreover have "file_byte (s\<lparr>fs_d := d4\<rparr>) i p = file_byte s i p" if p: "p < DIRECT_BYTES" for p
  proof -
    have "p div BSIZE < length (addrs s i)" using p fd(3) by (simp add: less_mult_imp_div_less)
    then have "addrs s i ! (p div BSIZE) \<noteq> ?b" using fd(5) nth_mem by metis
    then show ?thesis by (simp add: file_byte_def Let_def 3(5))
  qed
  ultimately show ?thesis using run uu 3(5,6,7) by auto
qed

lemma set_size_ok:
  assumes f: "file_inv H i s" and z: "z < 2 ^ 32"
    and s': "s' = s\<lparr>fs_inodes := (fs_inodes s)[i := (fs_inodes s ! i)\<lparr>in_data := (in_data (fs_inodes s ! i))\<lparr>i_size := z\<rparr>\<rparr>]\<rparr>"
  shows "file_inv H i s'" "file_byte s' i = file_byte s i" "addrs s' i = addrs s i" "inode_block s' i = inode_block s i"
proof -
  note fd = file_okD[OF file_invD(3)[OF f]]
  show a: "addrs s' i = addrs s i" "inode_block s' i = inode_block s i" using fd(9) by (simp_all add: s' inode_block_def)
  have "inode_data_ok (in_data (fs_inodes s' ! i))" "in_device (fs_inodes s' ! i) = ROOTDEV" "fs_d s' = fs_d s"
    "length (fs_inodes s') = length (fs_inodes s)"
    using fd(2,9,10) z by (simp_all add: s' inode_data_ok_def)
  then show "file_inv H i s'" using f unfolding file_inv_def file_ok_def a by simp
  show "file_byte s' i = file_byte s i" unfolding fun_eq_iff file_byte_def a(1) by (simp add: s' Let_def)
qed

text \<open>The blocks written and the size then set and flushed.\<close>

lemma only_file_flush:
  assumes k: "others_kept i s s1" and i: "i < length (fs_inodes s)" "inode_block s i \<notin> set (addrs s i)"
    and s2: "s2 = s1\<lparr>fs_inodes := (fs_inodes s1)[i := (fs_inodes s1 ! i)\<lparr>in_data := (in_data (fs_inodes s1 ! i))\<lparr>i_size := z\<rparr>\<rparr>]\<rparr>"
    and d: "\<And>m. m \<noteq> in_inum (fs_inodes s2 ! i) \<Longrightarrow> dinode d m = dinode (fs_d s2) m"
      "\<And>b. usable d b = usable (fs_d s2) b \<and> (b \<noteq> inode_block s2 i \<longrightarrow> fcont d b = fcont (fs_d s2) b)"
  shows "only_file i s (s2\<lparr>fs_d := d\<rparr>)"
proof -
  obtain as where as: "fs_inodes s1 = (fs_inodes s)[i := (fs_inodes s ! i)\<lparr>in_data := (in_data (fs_inodes s ! i))\<lparr>i_addresses := as\<rparr>\<rparr>]"
    and fr: "ds_frame (fs_d s) (fs_d s1)" "fs_cwd s1 = fs_cwd s" "\<And>j. addrs s i ! j \<noteq> 0 \<Longrightarrow> addrs s1 i ! j = addrs s i ! j"
    and kb: "\<And>b. usable (fs_d s) b \<Longrightarrow> b \<notin> set (addrs s i) \<Longrightarrow>
      usable (fs_d s1) b \<and> b \<notin> set (addrs s1 i) \<and> fcont (fs_d s1) b = fcont (fs_d s) b"
    using k unfolding others_kept_def by blast
  have n: "in_inum (fs_inodes s2 ! i) = in_inum (fs_inodes s ! i)" "fs_d s2 = fs_d s1" "addrs s2 i = addrs s1 i"
    "inode_block s2 i = inode_block s i" "fs_cwd s2 = fs_cwd s"
    "fs_inodes s2 = (fs_inodes s)[i := (fs_inodes s ! i)\<lparr>in_data := (in_data (fs_inodes s ! i))\<lparr>i_addresses := as, i_size := z\<rparr>\<rparr>]"
    using i(1) fr ds_frameD(1)[OF fr(1)] by (simp_all add: s2 as inode_block_def)
  have "dinode d m = dinode (fs_d s) m" if m: "m \<noteq> in_inum (fs_inodes s ! i)" "usable (fs_d s) (m div IPB + sb_inodestart (d_sb (fs_d s)))"
     "m div IPB + sb_inodestart (d_sb (fs_d s)) \<notin> set (addrs s i)" for m
    using d(1)[of m] m n kb[OF m(2,3)] ds_frameD(1)[OF fr(1)] by (simp add: dinode_def)
  then show ?thesis using n kb d(2) fr(3) unfolding only_file_def by auto
qed

lemma inode_write_ok:
  assumes f: "file_inv H i s" and o: "offset + length u \<le> DIRECT_BYTES"
    and r: "room_for (write_cost s i (blocks_of offset (length u)) + 1) H (fs_d s)"
    and h: "holes s i (blocks_of offset (length u)) \<le> free_blocks (fs_d s)" and u: "u \<noteq> []"
  shows "\<exists>s'. inode_write i u offset s = Some (Inr (length u), s') \<and> file_inv H i s' \<and> only_file i s s' \<and>
    (\<forall>p < DIRECT_BYTES. file_byte s' i p = (if offset \<le> p \<and> p < offset + length u then u ! (p - offset) else file_byte s i p)) \<and>
    i_size (in_data (fs_inodes s' ! i)) = max (offset + length u) (i_size (in_data (fs_inodes s ! i))) \<and>
    dinode (fs_d s') (in_inum (fs_inodes s ! i)) = Some (in_data (fs_inodes s' ! i)) \<and>
    nlog (fs_d s') \<le> nlog (fs_d s) + write_cost s i (blocks_of offset (length u)) + 1"
proof -
  note fd = file_okD[OF file_invD(3)[OF f]]
  let ?c = "write_cost s i (blocks_of offset (length u))"
  have r0: "room_for ?c H (fs_d s)" using room_for_step[OF r] by simp
  obtain s1 where 1: "write_loop i u 0 offset 0 s = Some (offset + length u, s1)" "file_inv H i s1" "others_kept i s s1"
    "\<And>p. p < DIRECT_BYTES \<Longrightarrow> file_byte s1 i p = (if offset \<le> p \<and> p < offset + length u then u ! (p - offset) else file_byte s i p)"
    "nlog (fs_d s1) \<le> nlog (fs_d s) + ?c"
    using write_loop_ok[OF f, of 0 u offset] o r0 h by auto
  note fd1 = file_okD[OF file_invD(3)[OF 1(2)]]
  let ?n = "fs_inodes s1 ! i"
  have n1: "in_inum ?n = in_inum (fs_inodes s ! i)" "i_size (in_data ?n) = i_size (in_data (fs_inodes s ! i))"
    using 1(3) fd(9) unfolding others_kept_def by auto
  define z where "z = max (offset + length u) (i_size (in_data ?n))"
  have z: "z < 2 ^ 32" "max ((offset + length u) mod 2 ^ 32) (i_size (in_data ?n)) = z"
    using o fd1(10) by (simp_all add: z_def inode_data_ok_def)
  define s2 where "s2 = s1\<lparr>fs_inodes := (fs_inodes s1)[i := ?n\<lparr>in_data := (in_data ?n)\<lparr>i_size := z\<rparr>\<rparr>]\<rparr>"
  note sz = set_size_ok[OF 1(2) z(1) s2_def]
  have d2: "fs_d s2 = fs_d s1" "in_inum (fs_inodes s2 ! i) = in_inum (fs_inodes s ! i)" "i_size (in_data (fs_inodes s2 ! i)) = z"
    using fd1(9) n1 by (simp_all add: s2_def)
  have r2: "room_for 1 H (fs_d s2)" using room_for_step[OF r, of "fs_d s1" 1] 1(5) by (simp add: d2)
  obtain d where 3: "inode_update i s2 = Some (s2\<lparr>fs_d := d\<rparr>)" "file_inv H i (s2\<lparr>fs_d := d\<rparr>)" "nlog d \<le> nlog (fs_d s2) + 1"
    "\<And>m. dinode d m = (if m = in_inum (fs_inodes s2 ! i) then Some (in_data (fs_inodes s2 ! i)) else dinode (fs_d s2) m)"
    "\<And>b. usable d b = usable (fs_d s2) b \<and> (b \<noteq> inode_block s2 i \<longrightarrow> fcont d b = fcont (fs_d s2) b)"
    "\<And>p. p < DIRECT_BYTES \<Longrightarrow> file_byte (s2\<lparr>fs_d := d\<rparr>) i p = file_byte s2 i p"
    using inode_update_ok[OF sz(1) r2] by blast
  have "modify_data i (\<lambda>d. d\<lparr>i_size := max ((offset + length u) mod 2 ^ 32) (i_size d)\<rparr>) s1 = Some s2"
    using fd1(9) z(2) by (simp add: modify_data_def modify_inode_def modify_chk_def s2_def)
  then have "inode_write i u offset s = Some (Inr (length u), s2\<lparr>fs_d := d\<rparr>)"
    using u 1(1) 3(1) by (simp add: inode_write_def)
  moreover have "only_file i s (s2\<lparr>fs_d := d\<rparr>)"
    using 3(4) by (intro only_file_flush[OF 1(3) fd(9,5) s2_def] 3(5)) simp
  ultimately show ?thesis using 3(2-4,6) 1(4,5) sz(2) d2 n1(2) z_def by auto
qed

section \<open>A file to start from\<close>

lemma sample_file:
  "\<exists>s. file_inv (\<lambda>_. 0) 0 s \<and> addrs s 0 = replicate 13 0 \<and> i_size (in_data (fs_inodes s ! 0)) = 0 \<and>
     nlog (fs_d s) \<le> 3 \<and> 6 \<le> free_blocks (fs_d s) \<and> i_file_type (in_data (fs_inodes s ! 0)) = t"
proof -
  obtain d0 where d0: "ds_inv (\<lambda>_. 0) d0" "bitmap_ok d0" "room_for 2 (\<lambda>_. 0) d0" "sb_size (d_sb d0) = 40"
    "\<And>n. n < 40 \<Longrightarrow> allocated d0 n \<longleftrightarrow> n < 32" "sb_inodestart (d_sb d0) = 32" "nlog d0 = 1"
    using sample_mounted by blast
  have "{32..<39} \<subseteq> {n. n < sb_size (d_sb d0) \<and> \<not> allocated d0 n}" using d0(4,5) by auto
  then have "card {32..<39 :: nat} \<le> free_blocks d0" unfolding free_blocks_def by (intro card_mono) simp_all
  then have fb: "7 \<le> free_blocks d0" by simp
  then obtain b d where b: "ds_inv (\<lambda>_. 0) d" "bitmap_ok d" "ds_frame d0 d" "nlog d \<le> nlog d0 + 2" "free_blocks d0 \<le> free_blocks d + 1"
    "\<not> allocated d0 b" "b < sb_size (d_sb d0)" "usable d b" "\<forall>m < sb_size (d_sb d0). allocated d0 m \<longrightarrow> allocated d m"
    using alloc_fresh[OF d0(1-3)] by auto
  define n where "n = \<lparr>in_device = 1, in_inum = (b - 32) * 64, in_valid = True, in_locked = True, in_refs = 1,
    in_data = INodeData_new\<lparr>i_file_type := t\<rparr>\<rparr>"
  define s where "s = \<lparr>fs_d = d, fs_inodes = [n], fs_cwd = None\<rparr>"
  have b32: "32 \<le> b" using d0(4,5) b(6,7) by (metis not_le)
  have sb: "d_sb d = d_sb d0" using ds_frameD(1)[OF b(3)] .
  have ib: "inode_block s 0 = b" using b32 d0(6) by (simp add: inode_block_def s_def n_def sb)
  have "inode_data_ok (in_data n)" by (simp add: n_def INodeData_new_def inode_data_ok_def i16_ok_def)
  then have "file_ok 0 s"
    using b(8,9) b32 d0(4,5) unfolding file_ok_def ib by (simp add: s_def n_def INodeData_new_def sb)
  then show ?thesis
    using b fb d0(7) by (intro exI[of _ s]) (simp add: file_inv_def s_def n_def INodeData_new_def)
qed

lemma sample_for_write:
  "\<exists>s. file_inv (\<lambda>_. 0) 0 s \<and> (\<forall>p < DIRECT_BYTES. file_byte s 0 p = 0) \<and> i_size (in_data (fs_inodes s ! 0)) = 0 \<and>
     room_for (write_cost s 0 (blocks_of 0 3) + 1) (\<lambda>_. 0) (fs_d s) \<and> holes s 0 (blocks_of 0 3) \<le> free_blocks (fs_d s) \<and>
     nlog (fs_d s) \<le> 3 \<and> write_cost s 0 (blocks_of 0 3) = 3"
proof -
  obtain s where s: "file_inv (\<lambda>_. 0) 0 s" "addrs s 0 = replicate 13 0" "i_size (in_data (fs_inodes s ! 0)) = 0" "nlog (fs_d s) \<le> 3"
    "6 \<le> free_blocks (fs_d s)" using sample_file by blast
  have b: "blocks_of 0 3 = [0]" by (simp add: blocks_of_def flip: Suc_eq_plus1)
  have h: "holes s 0 [0] = 1" by (simp add: holes_def s(2))
  have "file_byte s 0 p = 0" if "p < DIRECT_BYTES" for p
    using that less_mult_imp_div_less[of p 12 BSIZE] by (simp add: file_byte_def s(2))
  then show ?thesis using s h by (intro exI[of _ s]) (simp add: b write_cost_def room_for_def)
qed

lemma sample_written:
  "\<exists>s. file_inv (\<lambda>_. 0) 0 s \<and> i_size (in_data (fs_inodes s ! 0)) = 3 \<and> file_byte s 0 1 = 2 \<and> file_byte s 0 2 = 3 \<and>
     holes s 0 [0] = 0 \<and> room_for 1 (\<lambda>_. 0) (fs_d s)"
proof -
  obtain s where s: "file_inv (\<lambda>_. 0) 0 s" "i_size (in_data (fs_inodes s ! 0)) = 0"
    "room_for (write_cost s 0 (blocks_of 0 3) + 1) (\<lambda>_. 0) (fs_d s)" "holes s 0 (blocks_of 0 3) \<le> free_blocks (fs_d s)"
    "nlog (fs_d s) \<le> 3" "write_cost s 0 (blocks_of 0 3) = 3" using sample_for_write by blast
  define u :: bytes where "u = [1, 2, 3]"
  have lu: "length u = 3" "u \<noteq> []" by (simp_all add: u_def)
  obtain s' where s': "file_inv (\<lambda>_. 0) 0 s'" "\<And>p. p < DIRECT_BYTES \<Longrightarrow> file_byte s' 0 p = (if p < 3 then u ! p else file_byte s 0 p)"
    "i_size (in_data (fs_inodes s' ! 0)) = 3" "nlog (fs_d s') \<le> nlog (fs_d s) + 3 + 1"
    using inode_write_ok[OF s(1), of 0 u, unfolded lu(1)] s(2-6) lu(2) by auto
  have fb: "file_byte s' 0 0 = 1" "file_byte s' 0 1 = 2" "file_byte s' 0 2 = 3" by (simp_all add: s'(2) u_def)
  then have "addrs s' 0 ! 0 \<noteq> 0" by (auto simp: file_byte_def Let_def split: if_splits)
  then show ?thesis using s' fb s(5) by (intro exI[of _ s']) (simp add: holes_def room_for_def)
qed

section \<open>Properties\<close>

text \<open>C11.  The inode encoding and its type: whatever bytes are decoded, an inode that results has every
  field in the range of its Rust type; every such inode is encoded into any slot of the size of an
  inode without a panic, in place, and decoding the slot gives the inode back.\<close>

theorem inode_codec_typed:
  "(inode_from_bytes b = Some d \<longrightarrow> inode_data_ok d) \<and>
   (inode_data_ok d \<longrightarrow> DINODE_SIZE \<le> length b \<longrightarrow>
      (\<exists>b'. to_bytes d b = Some b' \<and> length b' = length b \<and> inode_from_bytes b' = Some d))"
proof (intro conjI impI)
  assume "inode_from_bytes b = Some d"
  then show "inode_data_ok d" by (auto simp: inode_from_bytes_def INodeData_new_def intro: copy_from_bytes_ok)
next
  assume d: "inode_data_ok d" and b: "DINODE_SIZE \<le> length b"
  then obtain b' where b': "to_bytes d b = Some b'" "length b' = length b"
    using to_bytes_ok[OF b, of d] by (auto simp: inode_data_ok_def)
  with from_to_bytes[OF b'(1) d, of INodeData_new]
  show "\<exists>b'. to_bytes d b = Some b' \<and> length b' = length b \<and> inode_from_bytes b' = Some d"
    by (simp add: inode_from_bytes_def INodeData_new_def)
qed

lemma inode_codec_typed_witness:
  "\<exists>b'. to_bytes (INodeData_new\<lparr>i_file_type := File, i_nlink := - 2, i_size := 70000\<rparr>) (replicate 64 7) = Some b' \<and>
     inode_from_bytes b' = Some (INodeData_new\<lparr>i_file_type := File, i_nlink := - 2, i_size := 70000\<rparr>)"
  using inode_codec_typed[of "replicate 64 7" "INodeData_new\<lparr>i_file_type := File, i_nlink := - 2, i_size := 70000\<rparr>"]
  by (auto simp: inode_data_ok_def i16_ok_def INodeData_new_def)

text \<open>C6.  Writing to a file within its direct blocks never panics when the log and the disk have room, and
  returns the number of bytes given.  Afterwards the file has those bytes at the offset and is
  otherwise as before, also where it had holes; its size covers the range; the inode on the disk is
  the one in memory; no other inode and no block of another file has changed.\<close>

theorem inode_write_correct:
  assumes "file_inv H i s" "offset + length u \<le> DIRECT_BYTES" "u \<noteq> []"
    "room_for (write_cost s i (blocks_of offset (length u)) + 1) H (fs_d s)"
    "holes s i (blocks_of offset (length u)) \<le> free_blocks (fs_d s)"
  shows "\<exists>s'. inode_write i u offset s = Some (Inr (length u), s') \<and> file_inv H i s' \<and> only_file i s s' \<and>
    (\<forall>p < DIRECT_BYTES. file_byte s' i p = (if offset \<le> p \<and> p < offset + length u then u ! (p - offset) else file_byte s i p)) \<and>
    i_size (in_data (fs_inodes s' ! i)) = max (offset + length u) (i_size (in_data (fs_inodes s ! i))) \<and>
    dinode (fs_d s') (in_inum (fs_inodes s ! i)) = Some (in_data (fs_inodes s' ! i))"
  using inode_write_ok[OF assms(1,2,4,5,3)] by blast

lemma inode_write_correct_witness:
  "\<exists>s s'. inode_write 0 [1, 2, 3] 0 s = Some (Inr 3, s') \<and> file_byte s 0 1 = 0 \<and> file_byte s' 0 1 = 2 \<and> file_byte s' 0 3 = 0 \<and>
     i_size (in_data (fs_inodes s' ! 0)) = 3"
proof -
  obtain s where s: "file_inv (\<lambda>_. 0) 0 s" "\<forall>p < DIRECT_BYTES. file_byte s 0 p = 0" "i_size (in_data (fs_inodes s ! 0)) = 0"
    "room_for (write_cost s 0 (blocks_of 0 3) + 1) (\<lambda>_. 0) (fs_d s)" "holes s 0 (blocks_of 0 3) \<le> free_blocks (fs_d s)"
    using sample_for_write by blast
  define u :: bytes where "u = [1, 2, 3]"
  have lu: "length u = 3" "u \<noteq> []" by (simp_all add: u_def)
  obtain s' where "inode_write 0 u 0 s = Some (Inr 3, s')"
    "\<forall>p < DIRECT_BYTES. file_byte s' 0 p = (if p < 3 then u ! p else file_byte s 0 p)"
    "i_size (in_data (fs_inodes s' ! 0)) = 3"
    using inode_write_correct[OF s(1), of 0 u, unfolded lu(1)] s(3-5) lu(2) by auto
  with s(2) show ?thesis by (intro exI[of _ s] exI[of _ s']) (simp add: u_def)
qed



end
