(* ===== verification/Dir_Spec.thy ===== *)
theory Dir_Spec
  imports Inode_Spec Icache
begin

text \<open>
  Correctness of directories and of the inode cache (\<^verbatim>\<open>icache/inode.rs\<close>, \<^verbatim>\<open>icache/icache.rs\<close>): looking up a
  name, linking a name, and taking an inode from the cache.  A directory is a sequence of entries;
  an entry with inode number 0 is empty.
\<close>

section \<open>Definitions\<close>

text \<open>The entries of a directory, read off the bytes of its file.\<close>

definition dir_ent :: "fstate \<Rightarrow> nat \<Rightarrow> nat \<Rightarrow> dirent" where
  "dir_ent s i k =
     \<lparr>de_inum = unat (file_byte s i (k * SIZE_OF_DIRENT)) + 256 * unat (file_byte s i (k * SIZE_OF_DIRENT + 1)),
      de_name = map (file_byte s i) [k * SIZE_OF_DIRENT + 2..<k * SIZE_OF_DIRENT + SIZE_OF_DIRENT]\<rparr>"

definition ent_name :: "dirent \<Rightarrow> bytes" where
  "ent_name d = takeWhile (\<lambda>c. c \<noteq> 0) (de_name d)"

definition is_entry :: "fstate \<Rightarrow> nat \<Rightarrow> bytes \<Rightarrow> nat \<Rightarrow> bool" where
  "is_entry s i name k \<longleftrightarrow> de_inum (dir_ent s i k) \<noteq> 0 \<and> ent_name (dir_ent s i k) = name"

text \<open>
  A directory of \<open>n\<close> entries in slot \<open>i\<close>: it fits the direct blocks and has no holes, and the names in
  use are UTF-8.
\<close>

definition dir_inv :: "(nat \<Rightarrow> nat) \<Rightarrow> nat \<Rightarrow> nat \<Rightarrow> fstate \<Rightarrow> bool" where
  "dir_inv H i n s \<longleftrightarrow> file_inv H i s \<and> i_file_type (in_data (fs_inodes s ! i)) = Directory \<and>
     i_size (in_data (fs_inodes s ! i)) = n * SIZE_OF_DIRENT \<and> n * SIZE_OF_DIRENT \<le> DIRECT_BYTES \<and>
     (\<forall>p < n * SIZE_OF_DIRENT. addrs s i ! (p div BSIZE) \<noteq> 0) \<and>
     (\<forall>k < n. de_inum (dir_ent s i k) \<noteq> 0 \<longrightarrow> valid_utf8 (ent_name (dir_ent s i k)))"

definition same_dir :: "nat \<Rightarrow> nat \<Rightarrow> fstate \<Rightarrow> fstate \<Rightarrow> bool" where
  "same_dir i n s s' \<longleftrightarrow> others_kept i s s' \<and> (\<forall>p < DIRECT_BYTES. file_byte s' i p = file_byte s i p) \<and>
     nlog (fs_d s') \<le> nlog (fs_d s) \<and> free_blocks (fs_d s) \<le> free_blocks (fs_d s')"

text \<open>The entry \<open>dirlink\<close> fills: the first empty one, and entry 0 when there is none.\<close>

definition free_slot :: "fstate \<Rightarrow> nat \<Rightarrow> nat \<Rightarrow> nat" where
  "free_slot s i n = (case find (\<lambda>k. de_inum (dir_ent s i k) = 0) [0..<n] of Some k \<Rightarrow> k | None \<Rightarrow> 0)"

definition name_ok :: "bytes \<Rightarrow> bool" where
  "name_ok name \<longleftrightarrow> name \<noteq> [] \<and> length name \<le> DIRSIZ \<and> 0 \<notin> set name \<and> valid_utf8 name"

definition new_entry :: "bytes \<Rightarrow> nat \<Rightarrow> dirent" where
  "new_entry name inum = \<lparr>de_inum = inum, de_name = name @ replicate (DIRSIZ - length name) 0\<rparr>"

section \<open>Entries\<close>

lemma entry_bounds: "k < n \<Longrightarrow> n * SIZE_OF_DIRENT \<le> DIRECT_BYTES \<Longrightarrow> k * SIZE_OF_DIRENT + SIZE_OF_DIRENT \<le> DIRECT_BYTES"
  by linarith

lemma cstr_to_string_takeWhile:
  "cstr_to_string c = (if valid_utf8 (takeWhile (\<lambda>x. x \<noteq> 0) c) then Inr (takeWhile (\<lambda>x. x \<noteq> 0) c) else Inl Utf8Error)"
proof -
  have "(case position (\<lambda>x. x = 0) c of Some n \<Rightarrow> take n c | None \<Rightarrow> c) = takeWhile (\<lambda>x. x \<noteq> 0) c"
  proof (cases "position (\<lambda>x. x = 0) c")
    case None
    then have "takeWhile (\<lambda>x. x \<noteq> 0) c = c" by (simp add: position_None takeWhile_eq_all_conv)
    then show ?thesis unfolding None by (simp only: option.case)
  next
    case (Some n)
    then have "n < length c" "c ! n = 0" "\<forall>j < n. c ! j \<noteq> 0" by (simp_all add: position_Some)
    then have "takeWhile (\<lambda>x. x \<noteq> 0) c = take n c" by (intro takeWhile_eq_take_P_nth) auto
    with Some show ?thesis by simp
  qed
  then show ?thesis by (simp add: cstr_to_string_def)
qed

lemma upt16: "[a..<a + 16] = a # (a + 1) # [a + 2..<a + (16 :: nat)]"
proof -
  have "[a..<a + 16] = a # [Suc a..<a + 16]" by (rule upt_conv_Cons) simp
  also have "[Suc a..<a + 16] = Suc a # [Suc (Suc a)..<a + 16]" by (rule upt_conv_Cons) simp
  finally show ?thesis by (simp flip: Suc_eq_plus1)
qed

lemma dirent_from_Cons:
  "length r = DIRSIZ \<Longrightarrow> dirent_from_bytes (x # y # r) = Some \<lparr>de_inum = unat x + 256 * unat y, de_name = r\<rparr>"
  by (simp add: dirent_from_bytes_def slice_chk_def from_le_u16_def numeral_2_eq_2 One_nat_def)

lemma dirent_of_bytes:
  "dirent_from_bytes (map (file_byte s i) [k * SIZE_OF_DIRENT..<k * SIZE_OF_DIRENT + SIZE_OF_DIRENT]) = Some (dir_ent s i k)"
  unfolding upt16 list.map by (subst dirent_from_Cons) (simp, simp only: dir_ent_def)

lemma dir_ent_cong:
  assumes "\<And>p. p < SIZE_OF_DIRENT \<Longrightarrow> file_byte s' i (k * SIZE_OF_DIRENT + p) = file_byte s i (k * SIZE_OF_DIRENT + p)"
  shows "dir_ent s' i k = dir_ent s i k"
proof -
  have "map (file_byte s' i) [k * SIZE_OF_DIRENT + 2..<k * SIZE_OF_DIRENT + SIZE_OF_DIRENT] =
    map (file_byte s i) [k * SIZE_OF_DIRENT + 2..<k * SIZE_OF_DIRENT + SIZE_OF_DIRENT]"
  proof (rule map_cong[OF refl])
    fix x assume "x \<in> set [k * SIZE_OF_DIRENT + 2..<k * SIZE_OF_DIRENT + SIZE_OF_DIRENT]"
    then have "k * SIZE_OF_DIRENT \<le> x" "x - k * SIZE_OF_DIRENT < SIZE_OF_DIRENT" by auto
    then show "file_byte s' i x = file_byte s i x" using assms[of "x - k * SIZE_OF_DIRENT"] by simp
  qed
  then show ?thesis using assms[of 0] assms[of 1] by (simp add: dir_ent_def)
qed

lemma dir_invD:
  assumes "dir_inv H i n s"
  shows "file_inv H i s" "i_file_type (in_data (fs_inodes s ! i)) = Directory" "i_size (in_data (fs_inodes s ! i)) = n * SIZE_OF_DIRENT"
    "n * SIZE_OF_DIRENT \<le> DIRECT_BYTES" "p < n * SIZE_OF_DIRENT \<Longrightarrow> addrs s i ! (p div BSIZE) \<noteq> 0"
    "k < n \<Longrightarrow> de_inum (dir_ent s i k) \<noteq> 0 \<Longrightarrow> valid_utf8 (ent_name (dir_ent s i k))"
  using assms by (simp_all add: dir_inv_def)

lemma same_dir_ent:
  assumes "same_dir i n s s'" "dir_inv H i n s" "k < n"
  shows "dir_ent s' i k = dir_ent s i k"
proof (rule dir_ent_cong)
  fix p :: nat assume "p < SIZE_OF_DIRENT"
  then have "k * SIZE_OF_DIRENT + p < DIRECT_BYTES" using entry_bounds[OF assms(3) dir_invD(4)[OF assms(2)]] by linarith
  then show "file_byte s' i (k * SIZE_OF_DIRENT + p) = file_byte s i (k * SIZE_OF_DIRENT + p)"
    using assms(1) by (simp add: same_dir_def)
qed

lemma same_dir_inv:
  assumes s: "same_dir i n s s'" and d: "dir_inv H i n s" and f: "file_inv H i s'"
  shows "dir_inv H i n s'"
proof -
  have i: "i < length (fs_inodes s)" using file_okD(9)[OF file_invD(3)[OF dir_invD(1)[OF d]]] .
  have "i_file_type (in_data (fs_inodes s' ! i)) = i_file_type (in_data (fs_inodes s ! i))"
    "i_size (in_data (fs_inodes s' ! i)) = i_size (in_data (fs_inodes s ! i))"
    using s i unfolding same_dir_def others_kept_def by auto
  moreover have "addrs s' i ! j \<noteq> 0" if "addrs s i ! j \<noteq> 0" for j
    using s that unfolding same_dir_def others_kept_def by auto
  ultimately show ?thesis
    using d f same_dir_ent[OF s d] unfolding dir_inv_def by simp
qed

lemma same_dir_trans:
  "same_dir i n s s' \<Longrightarrow> same_dir i n s' s'' \<Longrightarrow> i < length (fs_inodes s) \<Longrightarrow> same_dir i n s s''"
  unfolding same_dir_def using others_kept_trans by fastforce

lemma same_dir_room: "same_dir i n s s' \<Longrightarrow> room_for k H (fs_d s) \<Longrightarrow> room_for k H (fs_d s')"
  by (auto simp: same_dir_def intro: room_for_step)

lemma no_holes:
  assumes "\<And>p. offset \<le> p \<Longrightarrow> p < offset + len \<Longrightarrow> addrs s i ! (p div BSIZE) \<noteq> 0"
  shows "holes s i (blocks_of offset len) = 0"
proof -
  have "addrs s i ! j \<noteq> 0" if j: "j \<in> set (blocks_of offset len)" for j
  proof -
    have l: "0 < len" "offset div BSIZE \<le> j" "j \<le> (offset + len - 1) div BSIZE"
      using j by (auto simp: blocks_of_def split: if_splits)
    have "j * BSIZE \<le> offset + len - 1" using l(3) by (simp add: less_eq_div_iff_mult_less_eq)
    then have p: "offset \<le> max offset (j * BSIZE)" "max offset (j * BSIZE) < offset + len" using l(1) by auto
    have "max offset (j * BSIZE) div BSIZE = j"
      using l(2) div_le_mono[of "j * BSIZE" offset BSIZE] by (cases "offset \<le> j * BSIZE") (simp_all add: max_def)
    with assms[OF p] show ?thesis by simp
  qed
  then show ?thesis by (auto simp: holes_def filter_empty_conv)
qed

lemma read_entry:
  assumes d: "dir_inv H i n s" and k: "k < n" and r: "room_for 1 H (fs_d s)" and b: "length buf = SIZE_OF_DIRENT"
  shows "\<exists>s' buf'. inode_read i buf (k * SIZE_OF_DIRENT) s = Some ((Inr SIZE_OF_DIRENT, buf'), s') \<and> length buf' = SIZE_OF_DIRENT \<and>
    dirent_from_bytes buf' = Some (dir_ent s i k) \<and> dir_inv H i n s' \<and> same_dir i n s s'"
proof -
  note dd = dir_invD[OF d]
  have kn: "k * SIZE_OF_DIRENT + SIZE_OF_DIRENT \<le> n * SIZE_OF_DIRENT" using k by linarith
  have h: "holes s i (blocks_of (k * SIZE_OF_DIRENT) SIZE_OF_DIRENT) = 0" using dd(5) kn by (intro no_holes) simp
  have z: "i_size (in_data (fs_inodes s ! i)) \<le> DIRECT_BYTES" "k * SIZE_OF_DIRENT \<le> i_size (in_data (fs_inodes s ! i))"
    "k * SIZE_OF_DIRENT + length buf < 2 ^ 64" "SIZE_OF_DIRENT = min (length buf) (i_size (in_data (fs_inodes s ! i)) - k * SIZE_OF_DIRENT)"
    using dd(3,4) kn b by simp_all
  let ?b = "map (file_byte s i) [k * SIZE_OF_DIRENT..<k * SIZE_OF_DIRENT + SIZE_OF_DIRENT]"
  obtain s' where s': "inode_read i buf (k * SIZE_OF_DIRENT) s = Some ((Inr SIZE_OF_DIRENT, ?b @ drop SIZE_OF_DIRENT buf), s')"
    "file_inv H i s'" "same_dir i n s s'"
    using inode_read_ok[OF dd(1) z(1,2,3) _ _ z(4)] r h unfolding same_dir_def by auto
  have "?b @ drop SIZE_OF_DIRENT buf = ?b" "length ?b = SIZE_OF_DIRENT" using b by simp_all
  with s' dirent_of_bytes[of s i k] same_dir_inv[OF s'(3) d s'(2)] show ?thesis by auto
qed

text \<open>The two searches.\<close>

lemma dir_find_ok:
  assumes "dir_inv H i n s" "room_for 1 H (fs_d s)" "\<forall>k \<in> set ks. k < n"
  shows "\<exists>s'. dir_find i name (map (\<lambda>k. k * SIZE_OF_DIRENT) ks) s =
      Some (map_option (\<lambda>k. (k * SIZE_OF_DIRENT, de_inum (dir_ent s i k))) (find (is_entry s i name) ks), s') \<and>
    dir_inv H i n s' \<and> same_dir i n s s'"
  using assms
proof (induction ks arbitrary: s)
  case Nil
  then show ?case by (simp add: same_dir_def)
next
  case (Cons k ks)
  have k: "k < n" using Cons.prems(3) by simp
  obtain s1 buf where 1: "inode_read i (replicate SIZE_OF_DIRENT 0) (k * SIZE_OF_DIRENT) s = Some ((Inr SIZE_OF_DIRENT, buf), s1)"
    "dirent_from_bytes buf = Some (dir_ent s i k)" "dir_inv H i n s1" "same_dir i n s s1"
    using read_entry[OF Cons.prems(1) k Cons.prems(2), of "replicate SIZE_OF_DIRENT 0"] by auto
  have rd: "read_dirent i (k * SIZE_OF_DIRENT) s = Some (dir_ent s i k, s1)" using 1 by (simp add: read_dirent_def)
  note v = dir_invD(6)[OF Cons.prems(1) k]
  have nm: "de_inum (dir_ent s i k) \<noteq> 0 \<Longrightarrow> cstr_to_string (de_name (dir_ent s i k)) = Inr (ent_name (dir_ent s i k))"
    using v by (simp add: cstr_to_string_takeWhile ent_name_def)
  obtain s' where 2: "dir_find i name (map (\<lambda>k. k * SIZE_OF_DIRENT) ks) s1 =
      Some (map_option (\<lambda>k. (k * SIZE_OF_DIRENT, de_inum (dir_ent s1 i k))) (find (is_entry s1 i name) ks), s')"
    "dir_inv H i n s'" "same_dir i n s1 s'"
    using Cons.IH[OF 1(3) same_dir_room[OF 1(4) Cons.prems(2)]] Cons.prems(3) by auto
  have e: "dir_ent s1 i k' = dir_ent s i k'" if "k' \<in> set ks" for k'
    using same_dir_ent[OF 1(4) Cons.prems(1)] Cons.prems(3) that by simp
  have f: "find (is_entry s1 i name) ks = find (is_entry s i name) ks" by (rule find_cong) (simp_all add: is_entry_def e)
  have g: "map_option (\<lambda>k. (k * SIZE_OF_DIRENT, de_inum (dir_ent s1 i k))) (find (is_entry s i name) ks) =
    map_option (\<lambda>k. (k * SIZE_OF_DIRENT, de_inum (dir_ent s i k))) (find (is_entry s i name) ks)"
    using e by (auto simp: find_Some_iff intro!: option.map_cong)
  have "same_dir i n s s'" using same_dir_trans[OF 1(4) 2(3)] file_okD(9)[OF file_invD(3)[OF dir_invD(1)[OF Cons.prems(1)]]] .
  moreover have "is_entry s i name k \<longleftrightarrow> de_inum (dir_ent s i k) \<noteq> 0 \<and> ent_name (dir_ent s i k) = name" by (simp add: is_entry_def)
  ultimately show ?case using rd nm 2 f g 1(3,4) by auto
qed

lemma dir_find_empty_ok:
  assumes "dir_inv H i n s" "room_for 1 H (fs_d s)" "\<forall>k \<in> set ks. k < n" "length buf = SIZE_OF_DIRENT"
  shows "\<exists>s'. dir_find_empty i (map (\<lambda>k. k * SIZE_OF_DIRENT) ks) buf s =
      Some (Inr (case find (\<lambda>k. de_inum (dir_ent s i k) = 0) ks of Some k \<Rightarrow> k * SIZE_OF_DIRENT | None \<Rightarrow> 0), s') \<and>
    dir_inv H i n s' \<and> same_dir i n s s'"
  using assms
proof (induction ks arbitrary: s buf)
  case Nil
  then show ?case by (simp add: same_dir_def)
next
  case (Cons k ks)
  have k: "k < n" using Cons.prems(3) by simp
  obtain s1 buf' where 1: "inode_read i buf (k * SIZE_OF_DIRENT) s = Some ((Inr SIZE_OF_DIRENT, buf'), s1)" "length buf' = SIZE_OF_DIRENT"
    "dirent_from_bytes buf' = Some (dir_ent s i k)" "dir_inv H i n s1" "same_dir i n s s1"
    using read_entry[OF Cons.prems(1) k Cons.prems(2,4)] by auto
  obtain s' where 2: "dir_find_empty i (map (\<lambda>k. k * SIZE_OF_DIRENT) ks) buf' s1 =
      Some (Inr (case find (\<lambda>k. de_inum (dir_ent s1 i k) = 0) ks of Some k \<Rightarrow> k * SIZE_OF_DIRENT | None \<Rightarrow> 0), s')"
    "dir_inv H i n s'" "same_dir i n s1 s'"
    using Cons.IH[OF 1(4) same_dir_room[OF 1(5) Cons.prems(2)] _ 1(2)] Cons.prems(3) by auto
  have e: "dir_ent s1 i k' = dir_ent s i k'" if "k' \<in> set ks" for k'
    using same_dir_ent[OF 1(5) Cons.prems(1)] Cons.prems(3) that by simp
  have f: "find (\<lambda>k. de_inum (dir_ent s1 i k) = 0) ks = find (\<lambda>k. de_inum (dir_ent s i k) = 0) ks" by (rule find_cong) (simp_all add: e)
  have "same_dir i n s s'" using same_dir_trans[OF 1(5) 2(3)] file_okD(9)[OF file_invD(3)[OF dir_invD(1)[OF Cons.prems(1)]]] .
  with 1 2 f show ?case by auto
qed

section \<open>Linking\<close>

lemma dirent_offsets_mult: "dirent_offsets (n * SIZE_OF_DIRENT) = map (\<lambda>k. k * SIZE_OF_DIRENT) [0..<n]"
proof -
  have "(n * SIZE_OF_DIRENT + SIZE_OF_DIRENT - 1) div SIZE_OF_DIRENT = n" by simp
  then show ?thesis by (simp only: dirent_offsets_def)
qed

lemma dirlookup_absent:
  assumes d: "dir_inv H i n s" and r: "room_for 1 H (fs_d s)" and a: "\<forall>k < n. \<not> is_entry s i name k"
  shows "\<exists>s'. dirlookup i name s = Some (Inl FileNotFound, s') \<and> dir_inv H i n s' \<and> same_dir i n s s'"
proof -
  obtain s' where s': "dir_find i name (map (\<lambda>k. k * SIZE_OF_DIRENT) [0..<n]) s =
      Some (map_option (\<lambda>k. (k * SIZE_OF_DIRENT, de_inum (dir_ent s i k))) (find (is_entry s i name) [0..<n]), s')"
    "dir_inv H i n s'" "same_dir i n s s'" using dir_find_ok[OF d r, of "[0..<n]" name] by auto
  have "find (is_entry s i name) [0..<n] = None" using a by (auto simp: find_None_iff)
  then show ?thesis
    using s' file_okD(1)[OF file_invD(3)[OF dir_invD(1)[OF d]]] dir_invD(2,3)[OF d] by (simp add: dirlookup_def dirent_offsets_mult)
qed

lemma entry_block: "blocks_of (k * SIZE_OF_DIRENT) SIZE_OF_DIRENT = [k div 256]"
proof -
  have "k * 16 div 4096 = k div 256" "(15 + k * 16) div 4096 = k div 256"
    using div_mult2_eq[of "k * 16" 16 256] div_mult2_eq[of "15 + k * 16" 16 256] by simp_all
  then show ?thesis by (simp add: blocks_of_def flip: Suc_eq_plus1)
qed

lemma free_slot_bound: "free_slot s i n < max n 1"
  by (auto simp: free_slot_def find_Some_iff split: option.splits)

lemma ent_name_new: "name_ok name \<Longrightarrow> ent_name (new_entry name inum) = name"
  by (auto simp: ent_name_def new_entry_def name_ok_def takeWhile_append)

text \<open>The entries once the bytes of one are replaced.\<close>

lemma entries_written:
  assumes w: "\<And>p. p < DIRECT_BYTES \<Longrightarrow> file_byte s' i p =
      (if k * SIZE_OF_DIRENT \<le> p \<and> p < k * SIZE_OF_DIRENT + SIZE_OF_DIRENT then b ! (p - k * SIZE_OF_DIRENT) else file_byte s i p)"
    and b: "dirent_from_bytes b = Some e" "length b = SIZE_OF_DIRENT" and j: "j * SIZE_OF_DIRENT + SIZE_OF_DIRENT \<le> DIRECT_BYTES"
  shows "dir_ent s' i j = (if j = k then e else dir_ent s i j)"
proof (cases "j = k")
  case True
  have "map (file_byte s' i) [j * SIZE_OF_DIRENT..<j * SIZE_OF_DIRENT + SIZE_OF_DIRENT] = b"
    using b(2) j True by (intro nth_equalityI) (simp_all add: w)
  with dirent_of_bytes[of s' i j] b(1) True show ?thesis by simp
next
  case False
  have "dir_ent s' i j = dir_ent s i j"
  proof (rule dir_ent_cong)
    fix p :: nat assume p: "p < SIZE_OF_DIRENT"
    then have p1: "j * SIZE_OF_DIRENT + p < DIRECT_BYTES" using j by linarith
    have p2: "\<not> (k * SIZE_OF_DIRENT \<le> j * SIZE_OF_DIRENT + p \<and> j * SIZE_OF_DIRENT + p < k * SIZE_OF_DIRENT + SIZE_OF_DIRENT)"
      using p False by (cases "j < k") linarith+
    show "file_byte s' i (j * SIZE_OF_DIRENT + p) = file_byte s i (j * SIZE_OF_DIRENT + p)"
      unfolding w[OF p1] by (rule if_not_P[OF p2])
  qed
  with False show ?thesis by simp
qed

lemma dir_inv_written:
  assumes d: "dir_inv H i n s" and f: "file_inv H i s'" "only_file i s s'"
    and z: "i_size (in_data (fs_inodes s' ! i)) = max n 1 * SIZE_OF_DIRENT" "max n 1 * SIZE_OF_DIRENT \<le> DIRECT_BYTES"
    and e: "\<And>j. j < max n 1 \<Longrightarrow> dir_ent s' i j = (if j = k then new_entry name inum else dir_ent s i j)"
    and k: "k < max n 1" and nm: "name_ok name" "0 < inum"
  shows "dir_inv H i (max n 1) s'"
proof -
  note dd = dir_invD[OF d]
  have "i_file_type (in_data (fs_inodes s' ! i)) = Directory"
    using f(2) dd(2) file_okD(9)[OF file_invD(3)[OF dd(1)]] unfolding only_file_def by auto
  moreover have "addrs s' i ! (p div BSIZE) \<noteq> 0" if p: "p < max n 1 * SIZE_OF_DIRENT" for p
  proof (cases "n = 0")
    case True
    then have k0: "k = 0" and p0: "p div BSIZE = 0" using k p by simp_all
    have "de_name (dir_ent s' i 0) ! 0 = name ! 0" using e[of 0] k0 nm(1) by (simp add: new_entry_def name_ok_def nth_append)
    moreover have "de_name (dir_ent s' i 0) ! 0 = file_byte s' i 2" by (simp add: dir_ent_def numeral_2_eq_2)
    moreover have "name ! 0 \<noteq> 0" using nm(1) unfolding name_ok_def by (metis length_greater_0_conv nth_mem)
    ultimately have "file_byte s' i 2 \<noteq> 0" by simp
    then show ?thesis unfolding p0 by (auto simp: file_byte_def Let_def split: if_splits)
  next
    case False
    then have "max n 1 = n" by simp
    with p have "p < n * SIZE_OF_DIRENT" by simp
    from dd(5)[OF this] show ?thesis using f(2) unfolding only_file_def by auto
  qed
  moreover have "valid_utf8 (ent_name (dir_ent s' i j))" if j: "j < max n 1" "de_inum (dir_ent s' i j) \<noteq> 0" for j
  proof (cases "j = k")
    case True
    then show ?thesis using e[OF j(1)] nm(1) by (simp add: ent_name_new) (simp add: name_ok_def)
  next
    case False
    then have "j < n" using j(1) k by (cases "n = 0") auto
    then show ?thesis using False e[OF j(1)] j(2) dd(6)[of j] by simp
  qed
  ultimately show ?thesis using f(1) z by (simp add: dir_inv_def)
qed

text \<open>The entry written at its place.\<close>

lemma write_entry:
  assumes d: "dir_inv H i n s" and k: "k < max n 1" "max n 1 * SIZE_OF_DIRENT \<le> DIRECT_BYTES" and r: "room_for 4 H (fs_d s)"
    and fb: "n = 0 \<longrightarrow> 1 \<le> free_blocks (fs_d s)" and nm: "name_ok name" "0 < inum" "inum < 2 ^ 16"
    and b: "dirent_as_bytes (new_entry name inum) = Some b"
  shows "\<exists>s'. inode_write i b (k * SIZE_OF_DIRENT) s = Some (Inr SIZE_OF_DIRENT, s') \<and> dir_inv H i (max n 1) s' \<and> only_file i s s' \<and>
    nlog (fs_d s') \<le> nlog (fs_d s) + 4 \<and> (\<forall>j < max n 1. dir_ent s' i j = (if j = k then new_entry name inum else dir_ent s i j))"
proof -
  note dd = dir_invD[OF d]
  have "de_inum (new_entry name inum) < 2 ^ 16" using nm(3) by (simp add: new_entry_def)
  note br = dirent_round_trip[OF b this]
  have kb: "k * SIZE_OF_DIRENT + SIZE_OF_DIRENT \<le> max n 1 * SIZE_OF_DIRENT" using k(1) by linarith
  have b0: "b \<noteq> []" using br(2) by auto
  have h: "holes s i (blocks_of (k * SIZE_OF_DIRENT) SIZE_OF_DIRENT) \<le> (if n = 0 then 1 else 0)"
  proof (cases "n = 0")
    case True
    then show ?thesis unfolding entry_block by (simp add: holes_def)
  next
    case False
    then have "k * SIZE_OF_DIRENT + SIZE_OF_DIRENT \<le> n * SIZE_OF_DIRENT" using kb by simp
    then have "holes s i (blocks_of (k * SIZE_OF_DIRENT) SIZE_OF_DIRENT) = 0" using dd(5) by (intro no_holes) simp
    then show ?thesis by simp
  qed
  then have c: "write_cost s i (blocks_of (k * SIZE_OF_DIRENT) SIZE_OF_DIRENT) + 1 \<le> 4"
    unfolding write_cost_def entry_block by (simp split: if_splits)
  have h': "holes s i (blocks_of (k * SIZE_OF_DIRENT) SIZE_OF_DIRENT) \<le> free_blocks (fs_d s)" using h fb by (auto split: if_splits)
  obtain s' where w: "inode_write i b (k * SIZE_OF_DIRENT) s = Some (Inr SIZE_OF_DIRENT, s')" "file_inv H i s'" "only_file i s s'"
    "\<And>p. p < DIRECT_BYTES \<Longrightarrow> file_byte s' i p =
      (if k * SIZE_OF_DIRENT \<le> p \<and> p < k * SIZE_OF_DIRENT + SIZE_OF_DIRENT then b ! (p - k * SIZE_OF_DIRENT) else file_byte s i p)"
    "i_size (in_data (fs_inodes s' ! i)) = max (k * SIZE_OF_DIRENT + SIZE_OF_DIRENT) (n * SIZE_OF_DIRENT)"
    "nlog (fs_d s') \<le> nlog (fs_d s) + 4"
    using inode_write_ok[OF dd(1), of "k * SIZE_OF_DIRENT" b, unfolded br(2) dd(3)] room_for_step[OF r, of "fs_d s", OF _ c] kb k(2) h' b0 c
    by (auto intro: le_trans)
  have e: "dir_ent s' i j = (if j = k then new_entry name inum else dir_ent s i j)" if "j < max n 1" for j
    using entries_written[OF w(4) br] that k(2) by simp
  have "i_size (in_data (fs_inodes s' ! i)) = max n 1 * SIZE_OF_DIRENT" using w(5) kb k(1) by (auto simp: max_def)
  then have "dir_inv H i (max n 1) s'" using dir_inv_written[OF d w(2,3) _ k(2) e k(1) nm(1,2)] by simp
  with w e show ?thesis by auto
qed

lemma dirlink_ok:
  assumes d: "dir_inv H i n s" and r: "room_for 4 H (fs_d s)"
    and fb: "n = 0 \<longrightarrow> 1 \<le> free_blocks (fs_d s)" and nm: "name_ok name" "0 < inum" "inum < 2 ^ 16"
    and a: "\<forall>k < n. \<not> is_entry s i name k"
  shows "\<exists>s'. dirlink i name inum s = Some (Inr (), s') \<and> dir_inv H i (max n 1) s' \<and> nlog (fs_d s') \<le> nlog (fs_d s) + 4 \<and>
    (\<forall>j < max n 1. dir_ent s' i j = (if j = free_slot s i n then new_entry name inum else dir_ent s i j))"
proof -
  have r1: "room_for 1 H (fs_d s)" using room_for_step[OF r] by simp
  obtain s1 where 1: "dirlookup i name s = Some (Inl FileNotFound, s1)" "dir_inv H i n s1" "same_dir i n s s1"
    using dirlookup_absent[OF d r1 a] by blast
  note fd1 = file_okD[OF file_invD(3)[OF dir_invD(1)[OF 1(2)]]]
  obtain s2 where 2: "dir_find_empty i (map (\<lambda>k. k * SIZE_OF_DIRENT) [0..<n]) (replicate SIZE_OF_DIRENT 0) s1 =
      Some (Inr (case find (\<lambda>k. de_inum (dir_ent s1 i k) = 0) [0..<n] of Some k \<Rightarrow> k * SIZE_OF_DIRENT | None \<Rightarrow> 0), s2)"
    "dir_inv H i n s2" "same_dir i n s1 s2"
    using dir_find_empty_ok[OF 1(2) same_dir_room[OF 1(3) r1], of "[0..<n]" "replicate SIZE_OF_DIRENT 0"] by auto
  have s12: "same_dir i n s s2" using same_dir_trans[OF 1(3) 2(3)] file_okD(9)[OF file_invD(3)[OF dir_invD(1)[OF d]]] .
  have e1: "dir_ent s1 i k = dir_ent s i k" and e2: "dir_ent s2 i k = dir_ent s i k" if "k < n" for k
    using same_dir_ent[OF 1(3) d that] same_dir_ent[OF s12 d that] by simp_all
  have "find (\<lambda>k. de_inum (dir_ent s1 i k) = 0) [0..<n] = find (\<lambda>k. de_inum (dir_ent s i k) = 0) [0..<n]"
    by (rule find_cong) (simp_all add: e1)
  then have slot: "(case find (\<lambda>k. de_inum (dir_ent s1 i k) = 0) [0..<n] of Some k \<Rightarrow> k * SIZE_OF_DIRENT | None \<Rightarrow> 0) = free_slot s i n * SIZE_OF_DIRENT"
    by (simp add: free_slot_def split: option.splits)
  define b where "b = to_le_u16 inum @ name @ replicate (DIRSIZ - length name) 0"
  have b: "dirent_as_bytes (new_entry name inum) = Some b" using nm(1) by (simp add: dirent_as_bytes_def new_entry_def b_def name_ok_def)
  have z: "max n 1 * SIZE_OF_DIRENT \<le> DIRECT_BYTES" using dir_invD(4)[OF d] by (cases "n = 0") simp_all
  have fb2: "n = 0 \<longrightarrow> 1 \<le> free_blocks (fs_d s2)" using fb s12 by (auto simp: same_dir_def)
  obtain s' where 3: "inode_write i b (free_slot s i n * SIZE_OF_DIRENT) s2 = Some (Inr SIZE_OF_DIRENT, s')" "dir_inv H i (max n 1) s'"
    "nlog (fs_d s') \<le> nlog (fs_d s2) + 4" "\<And>j. j < max n 1 \<Longrightarrow> dir_ent s' i j = (if j = free_slot s i n then new_entry name inum else dir_ent s2 i j)"
    using write_entry[OF 2(2) free_slot_bound[of s i n] z same_dir_room[OF s12 r] fb2 nm b] by blast
  have "dirlink i name inum s = Some (Inr (), s')"
    using 1(1) fd1(1) dir_invD(3)[OF 1(2)] 2(1) slot b 3(1) by (simp add: dirlink_def dirent_offsets_mult new_entry_def)
  moreover have "dir_ent s' i j = (if j = free_slot s i n then new_entry name inum else dir_ent s i j)" if j: "j < max n 1" for j
    using 3(4)[OF j] e2[of j] free_slot_bound[of s i n] j by (cases "n = 0") auto
  ultimately show ?thesis using 3(2,3) s12 by (auto simp: same_dir_def)
qed

section \<open>The inode cache\<close>

lemma arc_clone_Some: "i < length (fs_inodes s) \<Longrightarrow>
  arc_clone i s = Some (s\<lparr>fs_inodes := (fs_inodes s)[i := (fs_inodes s ! i)\<lparr>in_refs := in_refs (fs_inodes s ! i) + 1\<rparr>]\<rparr>)"
  by (simp add: arc_clone_def modify_inode_def modify_chk_def)

lemma icache_get_hit:
  assumes "position (\<lambda>n. in_refs n = 1 \<and> in_device n = device \<and> in_inum n = inum) (fs_inodes s) = Some i"
  shows "icache_get device inum s = Some (Inr i, s\<lparr>fs_inodes := (fs_inodes s)[i := (fs_inodes s ! i)\<lparr>in_refs := 2\<rparr>]\<rparr>)"
proof -
  have "i < length (fs_inodes s)" "in_refs (fs_inodes s ! i) = 1" using assms by (auto simp: position_Some)
  then show ?thesis by (simp add: icache_get_def assms arc_clone_Some)
qed

lemma icache_get_miss:
  assumes "position (\<lambda>n. in_refs n = 1 \<and> in_device n = device \<and> in_inum n = inum) (fs_inodes s) = None"
    "position (\<lambda>n. in_refs n = 1) (fs_inodes s) = Some i"
  shows "icache_get device inum s = Some (Inr i, s\<lparr>fs_inodes := (fs_inodes s)[i := (fs_inodes s ! i)
    \<lparr>in_device := device, in_inum := inum, in_valid := False, in_refs := 2\<rparr>]\<rparr>)"
proof -
  have "i < length (fs_inodes s)" "in_refs (fs_inodes s ! i) = 1" using assms(2) by (auto simp: position_Some)
  then show ?thesis by (simp add: icache_get_def assms modify_inode_def modify_chk_def arc_clone_Some)
qed

section \<open>Properties\<close>

text \<open>C12.  Linking a name that is not in the directory fills one entry with the name and the inode number
  and leaves every other entry: the first empty entry if there is one.  A directory with no empty
  entry does not grow; its first entry is replaced.\<close>

theorem dirlink_correct:
  assumes "dir_inv H i n s" "room_for 4 H (fs_d s)" "n = 0 \<longrightarrow> 1 \<le> free_blocks (fs_d s)"
    "name_ok name" "0 < inum" "inum < 2 ^ 16" "\<forall>k < n. \<not> is_entry s i name k"
  shows "\<exists>s' e. dirlink i name inum s = Some (Inr (), s') \<and> dir_inv H i (max n 1) s' \<and>
    (\<forall>j < max n 1. dir_ent s' i j = (if j = e then new_entry name inum else dir_ent s i j)) \<and> is_entry s' i name e \<and>
    (if \<exists>k < n. de_inum (dir_ent s i k) = 0
     then e < n \<and> de_inum (dir_ent s i e) = 0 \<and> (\<forall>k < e. de_inum (dir_ent s i k) \<noteq> 0) else e = 0)"
proof -
  let ?e = "free_slot s i n"
  obtain s' where s': "dirlink i name inum s = Some (Inr (), s')" "dir_inv H i (max n 1) s'"
    "\<forall>j < max n 1. dir_ent s' i j = (if j = ?e then new_entry name inum else dir_ent s i j)"
    using dirlink_ok[OF assms] by blast
  have "is_entry s' i name ?e"
    using s'(3) free_slot_bound[of s i n] ent_name_new[OF assms(4), of inum] assms(5) by (simp add: is_entry_def) (simp add: new_entry_def)
  moreover have "if \<exists>k < n. de_inum (dir_ent s i k) = 0
     then ?e < n \<and> de_inum (dir_ent s i ?e) = 0 \<and> (\<forall>k < ?e. de_inum (dir_ent s i k) \<noteq> 0) else ?e = 0"
  proof (cases "find (\<lambda>k. de_inum (dir_ent s i k) = 0) [0..<n]")
    case None
    then have "\<not> (\<exists>k < n. de_inum (dir_ent s i k) = 0)" by (auto simp: find_None_iff)
    with None show ?thesis by (simp only: free_slot_def option.case if_False)
  next
    case (Some k)
    then have k: "k < n" "de_inum (dir_ent s i k) = 0" "\<forall>j < k. de_inum (dir_ent s i j) \<noteq> 0" by (auto simp: find_Some_iff)
    with Some have "?e = k" by (simp only: free_slot_def option.case)
    with k show ?thesis by auto
  qed
  ultimately show ?thesis using s' by blast
qed

text \<open>A new directory: the entry for \<open>.\<close> is linked, and then lost to the entry for \<open>..\<close>.\<close>

lemma dirlink_correct_witness:
  "\<exists>s s' s''. dirlink 0 [46] 5 s = Some (Inr (), s') \<and> dir_ent s' 0 0 = new_entry [46] 5 \<and>
     dirlink 0 [46, 46] 1 s' = Some (Inr (), s'') \<and> dir_ent s'' 0 0 = new_entry [46, 46] 1 \<and> dir_inv (\<lambda>_. 0) 0 1 s''"
proof -
  obtain s where s: "dir_inv (\<lambda>_. 0) 0 0 s" "nlog (fs_d s) \<le> 3" "1 \<le> free_blocks (fs_d s)"
    using sample_file[of Directory] by (fastforce simp: dir_inv_def)
  have nm: "name_ok [46]" "name_ok [46, 46]" by (simp_all add: name_ok_def)
  obtain s' where 1: "dirlink 0 [46] 5 s = Some (Inr (), s')" "dir_inv (\<lambda>_. 0) 0 1 s'" "nlog (fs_d s') \<le> nlog (fs_d s) + 4"
    "dir_ent s' 0 0 = new_entry [46] 5"
    using dirlink_ok[OF s(1) _ _ nm(1), of 5] s(2,3) by (auto simp: room_for_def free_slot_def)
  have e: "\<forall>k < 1. \<not> is_entry s' 0 [46, 46] k" using 1(4) ent_name_new[OF nm(1), of 5] by (simp add: is_entry_def)
  have r: "room_for 4 (\<lambda>_. 0) (fs_d s')" "1 = (0 :: nat) \<longrightarrow> 1 \<le> free_blocks (fs_d s')" "0 < (1 :: nat)" "(1 :: nat) < 2 ^ 16"
    using 1(3) s(2) by (simp_all add: room_for_def)
  obtain s'' e where 2: "dirlink 0 [46, 46] 1 s' = Some (Inr (), s'')" "dir_inv (\<lambda>_. 0) 0 (max 1 1) s''"
    "\<forall>j < max 1 1. dir_ent s'' 0 j = (if j = e then new_entry [46, 46] 1 else dir_ent s' 0 j)"
    "if \<exists>k < 1. de_inum (dir_ent s' 0 k) = 0
     then e < 1 \<and> de_inum (dir_ent s' 0 e) = 0 \<and> (\<forall>k < e. de_inum (dir_ent s' 0 k) \<noteq> 0) else e = 0"
    using dirlink_correct[OF 1(2) r(1,2) nm(2) r(3,4) e] by blast
  have "e = 0" using 2(4) by (auto split: if_splits)
  with 1 2 show ?thesis by (intro exI[of _ s] exI[of _ s'] exI[of _ s'']) simp
qed

text \<open>C13.  Taking an inode from the cache never panics.  It returns a slot nobody but the cache refers to, now
  with two references and naming the inode; the slot's contents stay valid exactly when it already
  was the inode's.  It fails, changing nothing, exactly when every slot is in use.  A slot in use is
  left alone even when it holds the very inode: the cache then has two slots for it.\<close>

theorem icache_get_correct:
  "case icache_get device inum s of
     None \<Rightarrow> False
   | Some (Inl e, s') \<Rightarrow> e = ICacheExhausted \<and> s' = s \<and> (\<forall>n \<in> set (fs_inodes s). in_refs n \<noteq> 1)
   | Some (Inr i, s') \<Rightarrow> i < length (fs_inodes s) \<and> in_refs (fs_inodes s ! i) = 1 \<and>
       (let n = fs_inodes s ! i; hit = (in_device n = device \<and> in_inum n = inum)
        in s' = s\<lparr>fs_inodes := (fs_inodes s)[i := n\<lparr>in_device := device, in_inum := inum, in_valid := hit \<and> in_valid n, in_refs := 2\<rparr>]\<rparr> \<and>
           (\<forall>m \<in> set (fs_inodes s). in_refs m = 1 \<and> in_device m = device \<and> in_inum m = inum \<longrightarrow> hit))"
proof (cases "position (\<lambda>n. in_refs n = 1 \<and> in_device n = device \<and> in_inum n = inum) (fs_inodes s)")
  case (Some i)
  then have p: "i < length (fs_inodes s)" "in_refs (fs_inodes s ! i) = 1" "in_device (fs_inodes s ! i) = device" "in_inum (fs_inodes s ! i) = inum"
    by (auto simp: position_Some)
  then have eq: "(fs_inodes s ! i)\<lparr>in_device := device, in_inum := inum, in_refs := 2\<rparr> = (fs_inodes s ! i)\<lparr>in_refs := 2\<rparr>"
    by (cases "fs_inodes s ! i") simp
  from p show ?thesis by (simp add: icache_get_hit[OF Some] Let_def eq)
next
  case None
  note miss = None
  show ?thesis
  proof (cases "position (\<lambda>n. in_refs n = 1) (fs_inodes s)")
    case None
    then have "icache_get device inum s = Some (Inl ICacheExhausted, s)" by (simp add: icache_get_def miss)
    moreover have "\<forall>n \<in> set (fs_inodes s). in_refs n \<noteq> 1" using None by (simp add: position_None)
    ultimately show ?thesis by simp
  next
    case (Some i)
    then have p: "i < length (fs_inodes s)" "in_refs (fs_inodes s ! i) = 1" by (auto simp: position_Some)
    have m: "\<forall>n \<in> set (fs_inodes s). in_refs n = 1 \<longrightarrow> in_device n = device \<longrightarrow> in_inum n \<noteq> inum" using miss by (auto simp: position_None)
    then have "in_device (fs_inodes s ! i) = device \<Longrightarrow> in_inum (fs_inodes s ! i) \<noteq> inum" using p nth_mem[OF p(1)] by blast
    then have "(in_device (fs_inodes s ! i) = device \<and> in_inum (fs_inodes s ! i) = inum) = False" by blast
    with p m show ?thesis unfolding icache_get_miss[OF miss Some] option.case sum.case prod.case Let_def by (simp only:) auto
  qed
qed

text \<open>An inode that is in use, with its only unused neighbour: asking for it again gives the neighbour.\<close>

lemma icache_get_correct_witness:
  "\<exists>s s'. map (\<lambda>n. (in_device n, in_inum n, in_refs n)) (fs_inodes s) = [(1, 7, 2), (0, 0, 1)] \<and>
     icache_get 1 7 s = Some (Inr 1, s') \<and> map (\<lambda>n. (in_device n, in_inum n, in_refs n)) (fs_inodes s') = [(1, 7, 2), (1, 7, 2)]"
proof -
  obtain s0 :: fstate where "file_inv (\<lambda>_. 0) 0 s0" using sample_file by blast
  define s where "s = s0\<lparr>fs_inodes := [INode_new\<lparr>in_device := 1, in_inum := 7, in_refs := 2\<rparr>, INode_new]\<rparr>"
  have n: "fs_inodes s = [INode_new\<lparr>in_device := 1, in_inum := 7, in_refs := 2\<rparr>, INode_new]" by (simp add: s_def)
  have nn: "\<not> (\<forall>n \<in> set (fs_inodes s). in_refs n \<noteq> 1)" by (simp add: n INode_new_def)
  note c = icache_get_correct[where device = 1 and inum = 7 and s = s]
  obtain r s' where g: "icache_get 1 7 s = Some (r, s')" using c by (cases "icache_get 1 7 s") auto
  obtain i where r: "r = Inr i" using c nn unfolding g by (cases r) auto
  have i: "i < 2" "in_refs (fs_inodes s ! i) = 1" using c unfolding g r by (simp_all add: n)
  have "i = 1"
  proof (rule ccontr)
    assume "i \<noteq> 1"
    then have "i = 0" using i(1) by simp
    with i(2) show False by (simp add: n)
  qed
  moreover have "map (\<lambda>n. (in_device n, in_inum n, in_refs n)) (fs_inodes s') = [(1, 7, 2), (1, 7, 2)]"
    using c unfolding g r \<open>i = 1\<close> by (simp add: n Let_def One_nat_def)
  ultimately show ?thesis using g r by (intro exI[of _ s] exI[of _ s']) (simp add: n INode_new_def)
qed

end
