(* ===== verification/Inode_Blocks.thy ===== *)
theory Inode_Blocks
  imports Inode_Spec
begin

text \<open>
  Giving the blocks of a file back (\<open>INodeDataGuard::truncate\<close>), and the blocks beyond the direct ones,
  which \<open>block_map\<close> allocates without recording them (\<^verbatim>\<open>icache/inode.rs\<close>).
\<close>

section \<open>Definitions\<close>

text \<open>The blocks \<open>A\<close> of the file given back, and nothing else changed.\<close>

definition freed :: "nat set \<Rightarrow> nat \<Rightarrow> fstate \<Rightarrow> fstate \<Rightarrow> bool" where
  "freed A i s s' \<longleftrightarrow> ds_frame (fs_d s) (fs_d s') \<and> fs_cwd s' = fs_cwd s \<and>
     (\<exists>as. fs_inodes s' = (fs_inodes s)[i := (fs_inodes s ! i)\<lparr>in_data := (in_data (fs_inodes s ! i))\<lparr>i_addresses := as\<rparr>\<rparr>]) \<and>
     (\<forall>m < sb_size (d_sb (fs_d s)). allocated (fs_d s') m \<longleftrightarrow> m \<notin> A \<and> allocated (fs_d s) m) \<and>
     (\<forall>b. usable (fs_d s) b \<longrightarrow> b \<notin> A \<longrightarrow> usable (fs_d s') b \<and> fcont (fs_d s') b = fcont (fs_d s) b)"

section \<open>Truncation\<close>

lemma freed_refl: "freed {} i s s"
  unfolding freed_def by (auto intro: exI[of _ "addrs s i"])

lemma freed_trans:
  assumes 1: "freed A i s s'" and 2: "freed B i s' s''" and i: "i < length (fs_inodes s)"
  shows "freed (A \<union> B) i s s''"
proof -
  obtain as as' where a: "fs_inodes s' = (fs_inodes s)[i := (fs_inodes s ! i)\<lparr>in_data := (in_data (fs_inodes s ! i))\<lparr>i_addresses := as\<rparr>\<rparr>]"
    "fs_inodes s'' = (fs_inodes s')[i := (fs_inodes s' ! i)\<lparr>in_data := (in_data (fs_inodes s' ! i))\<lparr>i_addresses := as'\<rparr>\<rparr>]"
    using 1 2 unfolding freed_def by blast
  then have "fs_inodes s'' = (fs_inodes s)[i := (fs_inodes s ! i)\<lparr>in_data := (in_data (fs_inodes s ! i))\<lparr>i_addresses := as'\<rparr>\<rparr>]"
    using i by simp
  moreover have "d_sb (fs_d s') = d_sb (fs_d s)" using 1 ds_frameD(1) unfolding freed_def by blast
  ultimately show ?thesis
    using 1 2 ds_frame_trans[of "fs_d s" "fs_d s'" "fs_d s''"] unfolding freed_def by auto
qed

lemma free_direct:
  assumes f: "file_inv H i s" and j: "j < NDIRECT" "addrs s i ! j = a" "a \<noteq> 0" and r: "room_for (k + 1) H (fs_d s)"
  shows "\<exists>d s'. block_free ROOTDEV a (fs_d s) = Some d \<and>
    modify_data i (\<lambda>d. d\<lparr>i_addresses := (i_addresses d)[j := 0]\<rparr>) (s\<lparr>fs_d := d\<rparr>) = Some s' \<and>
    file_inv H i s' \<and> freed {a} i s s' \<and> addrs s' i = (addrs s i)[j := 0] \<and> nlog (fs_d s') \<le> nlog (fs_d s) + 1"
proof -
  note fd = file_okD[OF file_invD(3)[OF f]] and rm = room_forD[OF r]
  have u: "usable (fs_d s) a" using fd(4)[OF j(1)] j by simp
  obtain d where d: "block_free ROOTDEV a (fs_d s) = Some d" "ds_inv H d" "ds_frame (fs_d s) d" "nlog d \<le> nlog (fs_d s) + 1"
    "\<forall>m. allocated d m \<longleftrightarrow> m \<noteq> a \<and> allocated (fs_d s) m" "\<forall>b. b \<noteq> bitmap_block (d_sb (fs_d s)) a \<longrightarrow> fcont d b = fcont (fs_d s) b"
    using block_free_ok[OF file_invD(1,2)[OF f], of a] u rm by (auto simp: usable_def)
  have us: "usable d b" "fcont d b = fcont (fs_d s) b" if "usable (fs_d s) b" "b \<noteq> a" for b
    using that d(5,6) u ds_frameD[OF d(3)] by (auto simp: usable_def)
  have bm: "bitmap_ok d"
    using file_invD(2)[OF f] u d(5) ds_frameD[OF d(3)] unfolding bitmap_ok_def usable_def by auto
  define s' where "s' = s\<lparr>fs_d := d, fs_inodes := (fs_inodes s)[i := (fs_inodes s ! i)\<lparr>in_data :=
    (in_data (fs_inodes s ! i))\<lparr>i_addresses := (addrs s i)[j := 0]\<rparr>\<rparr>]\<rparr>"
  have ad: "addrs s' i = (addrs s i)[j := 0]" and ib: "inode_block s' i = inode_block s i" and ds: "fs_d s' = d"
    using fd(9) ds_frameD(1)[OF d(3)] by (simp_all add: s'_def inode_block_def)
  have ai: "a \<in> set (addrs s i)" using j(1,2) fd(3) nth_mem[of j "addrs s i"] by simp
  have nth: "addrs s' i ! l = (if l = j then 0 else addrs s i ! l)" if "l < NDIRECT" for l using fd(3) that j(1) by (simp add: ad)
  have "set (addrs s' i) \<subseteq> insert 0 (set (addrs s i))" unfolding ad by (rule set_update_subset_insert)
  then have "inode_data_ok (in_data (fs_inodes s' ! i))" "inode_block s i \<notin> set (addrs s' i)"
    using fd(5,9,10,11) unfolding inode_data_ok_def by (auto simp: s'_def)
  moreover have "usable d (addrs s' i ! l) \<and> (\<forall>l' < NDIRECT. addrs s' i ! l = addrs s' i ! l' \<longrightarrow> l = l')"
    if l: "l < NDIRECT" "addrs s' i ! l \<noteq> 0" for l
  proof (intro conjI allI impI)
    have lj: "l \<noteq> j" and e: "addrs s' i ! l = addrs s i ! l" using l(2) nth[OF l(1)] by (simp_all split: if_splits)
    have "addrs s i ! l \<noteq> a" using fd(6)[OF j(1) l(1)] j(2,3) lj by metis
    then show "usable d (addrs s' i ! l)" using us(1)[OF fd(4)[OF l(1)]] l(2) by (simp add: e)
    show "l = l'" if "l' < NDIRECT" "addrs s' i ! l = addrs s' i ! l'" for l'
      using fd(6)[OF l(1) that(1)] that(2) l(2) nth[OF that(1)] e by (cases "l' = j") simp_all
  qed
  moreover have "inode_block s i \<noteq> a" using ai fd(5) by metis
  ultimately have "file_ok i s'"
    using fd(2,8,9,11) us(1)[OF fd(7)] d(5) j(3) ds_frameD(1)[OF d(3)] unfolding file_ok_def ib ds by (simp add: s'_def)
  then have "file_inv H i s'" using d(2) bm by (simp add: file_inv_def ds)
  moreover have "freed {a} i s s'" using d(3,5) us unfolding freed_def ds by (auto simp: s'_def)
  moreover have "modify_data i (\<lambda>d. d\<lparr>i_addresses := (i_addresses d)[j := 0]\<rparr>) (s\<lparr>fs_d := d\<rparr>) = Some s'"
    using fd(9) by (simp add: modify_data_def modify_inode_def modify_chk_def s'_def)
  ultimately show ?thesis using d(1,4) ad ds by auto
qed

text \<open>The loop of \<open>truncate\<close> over the direct blocks from \<open>j\<close> on.\<close>

lemma truncate_direct_ok:
  assumes "file_inv H i s" "j + k = NDIRECT" "room_for k H (fs_d s)"
  shows "\<exists>s'. truncate_direct i j k s = Some s' \<and> file_inv H i s' \<and> freed (set (take k (drop j (addrs s i))) - {0}) i s s' \<and>
    addrs s' i = take j (addrs s i) @ replicate k 0 @ drop NDIRECT (addrs s i) \<and> nlog (fs_d s') \<le> nlog (fs_d s) + k"
  using assms
proof (induction k arbitrary: j s)
  case 0
  then show ?case using freed_refl by simp
next
  case (Suc k)
  note fd = file_okD[OF file_invD(3)[OF Suc.prems(1)]]
  have j: "j < NDIRECT" "j + 1 + k = NDIRECT" "j < length (addrs s i)" using Suc.prems(2) fd(3) by simp_all
  let ?a = "addrs s i ! j"
  have nth: "nth_chk (addrs s i) j = Some ?a" using j(3) by (simp add: nth_chk_def)
  have tk: "take (Suc k) (drop j (addrs s i)) = ?a # take k (drop (j + 1) (addrs s i))" using j(3) by (simp add: Cons_nth_drop_Suc[symmetric] flip: Suc_eq_plus1)
  obtain s1 where 1: "truncate_direct i j (Suc k) s = truncate_direct i (j + 1) k s1" "file_inv H i s1" "freed ({?a} - {0}) i s s1"
    "addrs s1 i = (addrs s i)[j := 0]" "nlog (fs_d s1) + k \<le> nlog (fs_d s) + Suc k"
  proof (cases "?a = 0")
    case True
    have "(addrs s i)[j := 0] = addrs s i" using True by (metis list_update_id)
    with True show ?thesis using that[of s] Suc.prems(1) fd(1) nth freed_refl by simp
  next
    case False
    obtain d s1 where "block_free ROOTDEV ?a (fs_d s) = Some d"
      "modify_data i (\<lambda>d. d\<lparr>i_addresses := (i_addresses d)[j := 0]\<rparr>) (s\<lparr>fs_d := d\<rparr>) = Some s1"
      "file_inv H i s1" "freed {?a} i s s1" "addrs s1 i = (addrs s i)[j := 0]" "nlog (fs_d s1) \<le> nlog (fs_d s) + 1"
      using free_direct[OF Suc.prems(1) j(1) refl False Suc.prems(3)[unfolded Suc_eq_plus1]] by blast
    with False show ?thesis using that[of s1] fd(1,2) nth by (simp add: upd_disk_def)
  qed
  have r: "room_for k H (fs_d s1)" using room_for_step[OF Suc.prems(3) 1(5)] by simp
  obtain s' where 2: "truncate_direct i (j + 1) k s1 = Some s'" "file_inv H i s'" "freed (set (take k (drop (j + 1) (addrs s1 i))) - {0}) i s1 s'"
    "addrs s' i = take (j + 1) (addrs s1 i) @ replicate k 0 @ drop NDIRECT (addrs s1 i)" "nlog (fs_d s') \<le> nlog (fs_d s1) + k"
    using Suc.IH[OF 1(2) j(2) r] by blast
  have "drop (j + 1) (addrs s1 i) = drop (j + 1) (addrs s i)" "drop NDIRECT (addrs s1 i) = drop NDIRECT (addrs s i)"
    "take (j + 1) (addrs s1 i) = take j (addrs s i) @ [0]" using j by (simp_all add: 1(4) drop_update_cancel take_Suc_conv_app_nth flip: Suc_eq_plus1)
  with 2 freed_trans[OF 1(3) 2(3) fd(9)] 1(1,5) tk show ?case by (auto simp: insert_Diff_if Un_commute)
qed

lemma inode_truncate_ok:
  assumes f: "file_inv H i s" and n: "addrs s i ! NDIRECT = 0" and r: "room_for 13 H (fs_d s)"
  shows "\<exists>s'. inode_truncate i s = Some s' \<and> file_inv H i s' \<and> addrs s' i = replicate 13 0 \<and> i_size (in_data (fs_inodes s' ! i)) = 0 \<and>
    dinode (fs_d s') (in_inum (fs_inodes s ! i)) = Some (in_data (fs_inodes s' ! i)) \<and>
    (\<forall>m < sb_size (d_sb (fs_d s)). allocated (fs_d s') m \<longleftrightarrow> m \<notin> set (addrs s i) - {0} \<and> allocated (fs_d s) m) \<and>
    (\<forall>b. usable (fs_d s) b \<longrightarrow> b \<notin> set (addrs s i) - {0} \<longrightarrow> b \<noteq> inode_block s i \<longrightarrow>
       usable (fs_d s') b \<and> fcont (fs_d s') b = fcont (fs_d s) b)"
proof -
  note fd = file_okD[OF file_invD(3)[OF f]]
  have dr: "drop NDIRECT (addrs s i) = [0]"
    using fd(3) n by (intro nth_equalityI) (simp_all add: less_Suc_eq flip: Suc_eq_plus1)
  have "addrs s i = take NDIRECT (addrs s i) @ [0]" using append_take_drop_id[of NDIRECT "addrs s i"] dr by simp
  then have "set (addrs s i) = insert 0 (set (take NDIRECT (addrs s i)))" by (metis Un_insert_right list.simps(15) set_append sup_bot_right empty_set)
  then have A: "set (take NDIRECT (addrs s i)) - {0} = set (addrs s i) - {0}" by simp
  have r12: "room_for 12 H (fs_d s)" using room_for_step[OF r] by simp
  obtain s1 where 1: "truncate_direct i 0 12 s = Some s1" "file_inv H i s1" "freed (set (addrs s i) - {0}) i s s1"
    "addrs s1 i = replicate 12 0 @ [0]" "nlog (fs_d s1) \<le> nlog (fs_d s) + 12"
    using truncate_direct_ok[OF f _ r12, of 0] unfolding drop_0 A dr by auto
  note fd1 = file_okD[OF file_invD(3)[OF 1(2)]]
  have a1: "addrs s1 i = replicate 13 0" unfolding 1(4) by code_simp
  have n1: "in_inum (fs_inodes s1 ! i) = in_inum (fs_inodes s ! i)" "inode_block s1 i = inode_block s i" "d_sb (fs_d s1) = d_sb (fs_d s)"
    using 1(3) fd(9) ds_frameD(1) unfolding freed_def inode_block_def by auto
  define s2 where "s2 = s1\<lparr>fs_inodes := (fs_inodes s1)[i := (fs_inodes s1 ! i)\<lparr>in_data := (in_data (fs_inodes s1 ! i))\<lparr>i_size := 0\<rparr>\<rparr>]\<rparr>"
  note sz = set_size_ok[OF 1(2) _ s2_def, simplified]
  have d2: "fs_d s2 = fs_d s1" "in_inum (fs_inodes s2 ! i) = in_inum (fs_inodes s ! i)" "i_size (in_data (fs_inodes s2 ! i)) = 0"
    using fd1(9) n1 by (simp_all add: s2_def)
  have r2: "room_for 1 H (fs_d s2)" using room_for_step[OF r, of "fs_d s1" 1] 1(5) by (simp add: d2)
  obtain d where 3: "inode_update i s2 = Some (s2\<lparr>fs_d := d\<rparr>)" "file_inv H i (s2\<lparr>fs_d := d\<rparr>)" "ds_frame (fs_d s2) d"
    "\<And>m. dinode d m = (if m = in_inum (fs_inodes s2 ! i) then Some (in_data (fs_inodes s2 ! i)) else dinode (fs_d s2) m)"
    "\<And>b. usable d b = usable (fs_d s2) b \<and> (b \<noteq> inode_block s2 i \<longrightarrow> fcont d b = fcont (fs_d s2) b)"
    "\<And>b. b < sb_size (d_sb (fs_d s2)) \<Longrightarrow> allocated d b = allocated (fs_d s2) b"
    using inode_update_ok[OF sz(1) r2] by blast
  have "nth_chk (addrs s1 i) NDIRECT = Some 0" by (simp add: a1 nth_chk_def)
  moreover have "modify_data i (\<lambda>d. d\<lparr>i_size := 0\<rparr>) s1 = Some s2"
    using fd1(9) by (simp add: modify_data_def modify_inode_def modify_chk_def s2_def)
  ultimately have run: "inode_truncate i s = Some (s2\<lparr>fs_d := d\<rparr>)"
    using 1(1) fd1(1) 3(1) by (simp add: inode_truncate_def)
  have "addrs s2 i = replicate 13 0" "inode_block s2 i = inode_block s i" using sz(3,4) a1 n1(2) by simp_all
  then show ?thesis using run 1(3) 3 d2 n1 unfolding freed_def by auto
qed

section \<open>Blocks beyond the direct ones\<close>

lemma ds_put_same: "ds_get g d = Some c \<Longrightarrow> ds_put g c d = Some d"
  by (auto simp: ds_get_def ds_put_def buf_get_def buf_put_def nth_chk_def modify_chk_def split: if_splits)

lemma room_for_hold:
  assumes d: "ds_inv H d" and r: "room_for (k + 1) H d"
  shows "room_for k (H(t := H t + 1)) d"
proof -
  have "card {n. 0 < (H(t := H t + 1)) n} \<le> card {n. 0 < H n} + 1" by (rule card_hold[OF log_invD(7)[OF ds_invD(1)[OF d]]])
  moreover have "(H(t := H t + 1)) m + k < 2 ^ 30" for m
  proof -
    have "H m + (k + 1) < 2 ^ 30" using r by (simp add: room_for_def)
    moreover have "(H(t := H t + 1)) m + k \<le> H m + (k + 1)" by simp
    ultimately show ?thesis by (rule le_less_trans[rotated])
  qed
  ultimately show ?thesis using r by (simp add: room_for_def)
qed

text \<open>
  A table entry that is zero: a block is allocated, but the entry stays zero.  The guard on the table
  block is kept.
\<close>

lemma table_entry_lost:
  assumes d: "ds_inv H (fs_d s)" "bitmap_ok (fs_d s)" and r: "room_for (k + 3) H (fs_d s)" and n: "0 < free_blocks (fs_d s)"
    and t: "usable (fs_d s) t" "fcont (fs_d s) t = Some c" "read_u32_at c (idx * 4) = Some 0"
  shows "\<exists>a g d. table_entry ROOTDEV t idx s = Some ((a, g), s\<lparr>fs_d := d\<rparr>) \<and> ds_inv (H(t := H t + 1)) d \<and> bitmap_ok d \<and>
    holds (d_bc d) g t \<and> ds_frame (fs_d s) d \<and> nlog d \<le> nlog (fs_d s) + 3 \<and> free_blocks (fs_d s) \<le> free_blocks d + 1 \<and>
    \<not> allocated (fs_d s) a \<and> a < sb_size (d_sb (fs_d s)) \<and> usable d a \<and> fcont d a = Some (replicate BSIZE 0) \<and>
    (\<forall>m < sb_size (d_sb (fs_d s)). allocated (fs_d s) m \<longrightarrow> allocated d m) \<and>
    (\<forall>m. usable (fs_d s) m \<longrightarrow> m \<noteq> a \<and> usable d m \<and> fcont d m = fcont (fs_d s) m) \<and> keeps (\<lambda>m. 0 < H m) (fs_d s) d"
proof -
  define H' where "H' = H(t := H t + 1)"
  note rm = room_forD[OF r]
  obtain g d1 where 1: "ds_bread ROOTDEV t (fs_d s) = Some (g, d1)" "ds_inv H' d1" "holds (d_bc d1) g t" "fcont d1 = fcont (fs_d s)"
    "d_log d1 = d_log (fs_d s)" "ds_frame (fs_d s) d1" "keeps (\<lambda>_. True) (fs_d s) d1"
    using ds_bread_ok[OF d(1), of t] t(1) rm by (auto simp: usable_def H'_def)
  have c1: "ds_get g d1 = Some c" using ds_get_ok[OF 1(2,3)] 1(4) t(2) by auto
  have al: "allocated d1 m = allocated (fs_d s) m" for m by (rule allocated_cong[OF 1(4) ds_frameD(1)[OF 1(6)]])
  have us: "usable d1 m = usable (fs_d s) m" for m using ds_frameD[OF 1(6)] by (simp add: usable_def al)
  have fb: "free_blocks d1 = free_blocks (fs_d s)" using ds_frameD(1)[OF 1(6)] by (simp add: free_blocks_def al)
  have "k + 2 + 1 = k + 3" by linarith
  then have "room_for (k + 2 + 1) H (fs_d s)" using r by (simp only:)
  then have r1: "room_for (k + 2) H' d1"
    using room_for_hold[OF d(1), of "k + 2" t] 1(5) unfolding H'_def by (simp add: room_for_def)
  have bm1: "bitmap_ok d1" using bitmap_ok_mono[OF d(2) 1(6)] al by simp
  obtain a d2 where 2: "block_alloc ROOTDEV d1 = Some (Some a, d2)" "ds_inv H' d2" "bitmap_ok d2" "ds_frame d1 d2" "nlog d2 \<le> nlog d1 + 2"
    "free_blocks d1 \<le> free_blocks d2 + 1" "\<not> allocated d1 a" "a < sb_size (d_sb d1)" "usable d2 a" "fcont d2 a = Some (replicate BSIZE 0)"
    "\<And>m. usable d1 m \<Longrightarrow> m \<noteq> a \<and> usable d2 m \<and> fcont d2 m = fcont d1 m" "keeps (\<lambda>m. 0 < H' m) d1 d2"
    "\<And>m. m < sb_size (d_sb d1) \<Longrightarrow> allocated d1 m \<Longrightarrow> allocated d2 m"
    using alloc_fresh[OF 1(2) bm1 room_for_step[OF r1]] n fb by auto
  have h2: "holds (d_bc d2) g t" using keepsD[OF 2(12) _ 1(3)] by (simp add: H'_def)
  have t2: "usable d2 t" "fcont d2 t = Some c" using 2(11)[of t] us t 1(4) by simp_all
  have g2: "ds_get g d2 = Some c" using ds_get_ok[OF 2(2) h2] t2(2) by auto
  have lc: "length c = BSIZE" using ds_get_ok[OF 2(2) h2] t2(2) by auto
  obtain d3 where 3: "trans_write g d2 = Some d3" "ds_inv H' d3" "fcont d3 = (fcont d2)(t \<mapsto> c)" "nlog d3 \<le> nlog d2 + 1" "ds_frame d2 d3"
    "keeps (\<lambda>_. True) d2 d3"
    using ds_update_ok[OF 2(2) h2 lc] ds_put_same[OF g2] t2(1) 2(5) 1(5) r by (auto simp: usable_def H'_def room_for_def)
  have f3: "fcont d3 = fcont d2" unfolding 3(3) using t2(2) by (auto simp: fun_eq_iff)
  have al3: "allocated d3 m = allocated d2 m" for m by (rule allocated_cong[OF f3 ds_frameD(1)[OF 3(5)]])
  have us3: "usable d3 m = usable d2 m" for m using ds_frameD[OF 3(5)] by (simp add: usable_def al3)
  have "bitmap_ok d3" using bitmap_ok_mono[OF 2(3) 3(5)] al3 by simp
  moreover have "free_blocks d3 = free_blocks d2" using ds_frameD(1)[OF 3(5)] by (simp add: free_blocks_def al3)
  moreover have "ds_frame (fs_d s) d3" using ds_frame_trans[OF ds_frame_trans[OF 1(6) 2(4)] 3(5)] .
  moreover have "keeps (\<lambda>m. 0 < H m) (fs_d s) d3"
    using 1(7) 2(12) 3(6) unfolding keeps_def H'_def by auto
  moreover have "table_entry ROOTDEV t idx s = Some ((a, g), s\<lparr>fs_d := d3\<rparr>)"
    using 1(1) c1 t(3) 2(1) 3(1) by (simp add: table_entry_def on_disk_def upd_disk_def alloc_expect_def)
  moreover have "holds (d_bc d3) g t" using keepsD[OF 3(6) _ h2] by simp
  moreover have "nlog d3 \<le> nlog (fs_d s) + 3" using 3(4) 2(5) 1(5) by simp
  ultimately show ?thesis
    using 3(2) 2(6-11,13) al al3 us us3 f3 1(4) fb ds_frameD(1)[OF 1(6)] unfolding H'_def by auto
qed

text \<open>A block beyond the direct ones whose table entry is empty.\<close>

lemma block_map_forgets_once:
  assumes f: "file_inv H i s" and j: "NDIRECT \<le> j" "j - NDIRECT < NINDIRECT * NINDIRECT"
    and t: "t = addrs s i ! NDIRECT" "t \<noteq> 0" "usable (fs_d s) t" "fcont (fs_d s) t = Some c"
      "read_u32_at c ((j - NDIRECT) div NINDIRECT * 4) = Some 0"
    and r: "room_for (k + 7) H (fs_d s)" and n: "2 \<le> free_blocks (fs_d s)"
  shows "\<exists>b d. block_map i j s = Some (b, s\<lparr>fs_d := d\<rparr>) \<and> ds_inv H d \<and> bitmap_ok d \<and> ds_frame (fs_d s) d \<and> nlog d \<le> nlog (fs_d s) + 6 \<and>
    free_blocks (fs_d s) \<le> free_blocks d + 2 \<and> \<not> allocated (fs_d s) b \<and> usable d b \<and>
    (\<forall>m < sb_size (d_sb (fs_d s)). allocated (fs_d s) m \<longrightarrow> allocated d m) \<and> (\<forall>m. usable (fs_d s) m \<longrightarrow> usable d m \<and> fcont d m = fcont (fs_d s) m)"
proof -
  note fd = file_okD[OF file_invD(3)[OF f]]
  let ?j = "j - NDIRECT" and ?H = "H(t := H t + 1)"
  have r3: "room_for (k + 4 + 3) H (fs_d s)" using r by (simp add: add.assoc)
  obtain a g1 d1 where 1: "table_entry ROOTDEV t (?j div NINDIRECT) s = Some ((a, g1), s\<lparr>fs_d := d1\<rparr>)" "ds_inv ?H d1" "bitmap_ok d1"
    "holds (d_bc d1) g1 t" "ds_frame (fs_d s) d1" "nlog d1 \<le> nlog (fs_d s) + 3" "free_blocks (fs_d s) \<le> free_blocks d1 + 1"
    "\<not> allocated (fs_d s) a" "usable d1 a" "fcont d1 a = Some (replicate BSIZE 0)"
    "\<And>m. usable (fs_d s) m \<Longrightarrow> m \<noteq> a \<and> usable d1 m \<and> fcont d1 m = fcont (fs_d s) m"
    "\<And>m. m < sb_size (d_sb (fs_d s)) \<Longrightarrow> allocated (fs_d s) m \<Longrightarrow> allocated d1 m"
    using table_entry_lost[OF file_invD(1,2)[OF f] r3 _ t(3-5)] n by auto
  let ?s1 = "s\<lparr>fs_d := d1\<rparr>" and ?k = "?j - NINDIRECT * (?j div NINDIRECT)"
  have ta: "t \<noteq> a" using 1(11)[OF t(3)] by simp
  have k: "?k * 4 + 4 \<le> BSIZE"
  proof -
    have "?k = ?j mod NINDIRECT" by (simp add: minus_mult_div_eq_mod)
    then show ?thesis using mod_less_divisor[of NINDIRECT ?j] by linarith
  qed
  have r4: "room_for (k + 0 + 3) ?H (fs_d ?s1)"
    using room_for_hold[OF file_invD(1)[OF f], of "k + 6" t] room_for_step[of "k + 6" ?H "fs_d s" d1 "k + 3"] r 1(6) by (simp add: add.assoc)
  obtain b g2 d2 where 2: "table_entry ROOTDEV a ?k ?s1 = Some ((b, g2), ?s1\<lparr>fs_d := d2\<rparr>)" "ds_inv (?H(a := ?H a + 1)) d2" "bitmap_ok d2"
    "holds (d_bc d2) g2 a" "ds_frame d1 d2" "nlog d2 \<le> nlog d1 + 3" "free_blocks d1 \<le> free_blocks d2 + 1"
    "\<not> allocated d1 b" "b < sb_size (d_sb d1)" "usable d2 b"
    "\<And>m. usable d1 m \<Longrightarrow> m \<noteq> b \<and> usable d2 m \<and> fcont d2 m = fcont d1 m" "keeps (\<lambda>m. 0 < ?H m) d1 d2"
    "\<And>m. m < sb_size (d_sb d1) \<Longrightarrow> allocated d1 m \<Longrightarrow> allocated d2 m"
    using table_entry_lost[of ?H ?s1 "k + 0" a "replicate BSIZE 0" ?k] 1 r4 n read_zero[OF k] by auto
  have Ha: "(?H(a := ?H a + 1))(a := (?H(a := ?H a + 1)) a - 1) = ?H" by (rule ext) simp
  obtain d3 where 3: "ds_brelse g2 d2 = Some d3" "ds_inv ?H d3" "fcont d3 = fcont d2" "d_log d3 = d_log d2" "ds_frame d2 d3"
    "keeps (\<lambda>m. m \<noteq> a \<or> 1 < (?H(a := ?H a + 1)) a) d2 d3"
    using ds_brelse_ok[OF 2(2,4), unfolded Ha] by auto
  have "holds (d_bc d3) g1 t" using keepsD[OF 3(6) _ keepsD[OF 2(12) _ 1(4)]] ta by simp
  then obtain d4 where 4: "ds_brelse g1 d3 = Some d4" "ds_inv (?H(t := ?H t - 1)) d4" "fcont d4 = fcont d3" "d_log d4 = d_log d3" "ds_frame d3 d4"
    using ds_brelse_ok[OF 3(2), of g1 t] by auto
  have f: "ds_frame d2 d4" "fcont d4 = fcont d2" "ds_inv H d4" using 3(3) 4(2,3) ds_frame_trans[OF 3(5) 4(5)] by simp_all
  have al: "allocated d4 m = allocated d2 m" for m by (rule allocated_cong[OF f(2) ds_frameD(1)[OF f(1)]])
  have us: "usable d4 m = usable d2 m" for m using ds_frameD[OF f(1)] by (simp add: usable_def al)
  have "bitmap_ok d4" using bitmap_ok_mono[OF 2(3) f(1)] al by simp
  moreover have "free_blocks d4 = free_blocks d2" using ds_frameD(1)[OF f(1)] by (simp add: free_blocks_def al)
  moreover have "\<not> allocated (fs_d s) b" using 1(12)[of b] 2(8,9) ds_frameD(1)[OF 1(5)] by auto
  moreover have "block_map i j s = Some (b, s\<lparr>fs_d := d4\<rparr>)"
    using j t(1,2) fd(1,2,3) 1(1) 2(1) 3(1) 4(1) by (simp add: block_map_def nth_chk_def upd_disk_def Let_def)
  moreover have "ds_frame (fs_d s) d4" using ds_frame_trans[OF ds_frame_trans[OF 1(5) 2(5)] f(1)] .
  moreover have "nlog d4 \<le> nlog (fs_d s) + 6" using 1(6) 2(6) 3(4) 4(4) by simp
  ultimately show ?thesis
    using f(2,3) al us 1(7,11,12) 2(7,10,11,13) ds_frameD(1)[OF 1(5)] by auto
qed

section \<open>Properties\<close>

text \<open>C10.  Truncating a file that has only direct blocks gives back exactly those blocks: they become free, every
  other block keeps its state and, the inode's own block aside, its content; the file is empty, in
  memory and on the disk.\<close>

theorem inode_truncate_correct:
  assumes "file_inv H i s" "addrs s i ! NDIRECT = 0" "room_for 13 H (fs_d s)"
  shows "\<exists>s'. inode_truncate i s = Some s' \<and> file_inv H i s' \<and> addrs s' i = replicate 13 0 \<and> i_size (in_data (fs_inodes s' ! i)) = 0 \<and>
    dinode (fs_d s') (in_inum (fs_inodes s ! i)) = Some (in_data (fs_inodes s' ! i)) \<and>
    (\<forall>m < sb_size (d_sb (fs_d s)). allocated (fs_d s') m \<longleftrightarrow> m \<notin> set (addrs s i) - {0} \<and> allocated (fs_d s) m) \<and>
    (\<forall>b. usable (fs_d s) b \<longrightarrow> b \<notin> set (addrs s i) - {0} \<longrightarrow> b \<noteq> inode_block s i \<longrightarrow>
       usable (fs_d s') b \<and> fcont (fs_d s') b = fcont (fs_d s) b)"
  using inode_truncate_ok[OF assms] .

lemma inode_truncate_correct_witness:
  "\<exists>s s' b. b \<noteq> 0 \<and> addrs s 0 ! 0 = b \<and> allocated (fs_d s) b \<and> inode_truncate 0 s = Some s' \<and> \<not> allocated (fs_d s') b \<and>
     addrs s' 0 = replicate 13 0"
proof -
  obtain s0 where s0: "file_inv (\<lambda>_. 0) 0 s0" "addrs s0 0 = replicate 13 0" "nlog (fs_d s0) \<le> 3" "6 \<le> free_blocks (fs_d s0)"
    using sample_file by blast
  have h: "holes s0 0 [0] = 1" using s0(2) by (simp add: holes_def)
  obtain b s where s: "file_inv (\<lambda>_. 0) 0 s" "b \<noteq> 0" "addrs s 0 = (replicate 13 0)[0 := b]" "nlog (fs_d s) \<le> nlog (fs_d s0) + 2"
    using block_map_direct_ok[OF s0(1), of 0 0] s0(2-4) h by (auto simp: room_for_def)
  have a: "addrs s 0 ! NDIRECT = 0" "addrs s 0 ! 0 = b" by (simp_all add: s(3))
  have r: "room_for 13 (\<lambda>_. 0) (fs_d s)" using s(4) s0(3) by (simp add: room_for_def)
  have u: "usable (fs_d s) b" using file_okD(4)[OF file_invD(3)[OF s(1)], of 0] a(2) s(2) by simp
  obtain s' where "inode_truncate 0 s = Some s'" "addrs s' 0 = replicate 13 0"
    "\<forall>m < sb_size (d_sb (fs_d s)). allocated (fs_d s') m \<longleftrightarrow> m \<notin> set (addrs s 0) - {0} \<and> allocated (fs_d s) m"
    using inode_truncate_correct[OF s(1) a(1) r] by blast
  moreover have "b \<in> set (addrs s 0) - {0}" using s(2,3) by (simp add: set_update_memI)
  ultimately show ?thesis using u a(2) s(2) by (intro exI[of _ s] exI[of _ s'] exI[of _ b]) (auto simp: usable_def)
qed

text \<open>Beyond the direct blocks a file loses its data: when the table has no entry for a block, \<open>block_map\<close>
  allocates one but does not enter it into the table, so the inode, its table and every block in use
  are what they were; asked again, it allocates another block.\<close>

theorem block_map_forgets:
  assumes "file_inv H i s" "NDIRECT \<le> j" "j - NDIRECT < NINDIRECT * NINDIRECT"
    "t = addrs s i ! NDIRECT" "t \<noteq> 0" "usable (fs_d s) t" "fcont (fs_d s) t = Some c"
    "read_u32_at c ((j - NDIRECT) div NINDIRECT * 4) = Some 0" "room_for 13 H (fs_d s)" "4 \<le> free_blocks (fs_d s)"
  shows "\<exists>b b' s' s''. block_map i j s = Some (b, s') \<and> \<not> allocated (fs_d s) b \<and> allocated (fs_d s') b \<and> fs_inodes s' = fs_inodes s \<and>
    (\<forall>m. usable (fs_d s) m \<longrightarrow> fcont (fs_d s') m = fcont (fs_d s) m) \<and>
    block_map i j s' = Some (b', s'') \<and> b' \<noteq> b"
proof -
  note fd = file_okD[OF file_invD(3)[OF assms(1)]]
  have r: "room_for (6 + 7) H (fs_d s)" using assms(9) by simp
  obtain b d where 1: "block_map i j s = Some (b, s\<lparr>fs_d := d\<rparr>)" "ds_inv H d" "bitmap_ok d" "ds_frame (fs_d s) d" "nlog d \<le> nlog (fs_d s) + 6"
    "free_blocks (fs_d s) \<le> free_blocks d + 2" "\<not> allocated (fs_d s) b" "usable d b"
    "\<And>m. m < sb_size (d_sb (fs_d s)) \<Longrightarrow> allocated (fs_d s) m \<Longrightarrow> allocated d m"
    "\<And>m. usable (fs_d s) m \<Longrightarrow> usable d m \<and> fcont d m = fcont (fs_d s) m"
    using block_map_forgets_once[OF assms(1-8) r] assms(10) by auto
  let ?s = "s\<lparr>fs_d := d\<rparr>"
  have ib: "inode_block ?s i = inode_block s i" using ds_frameD(1)[OF 1(4)] by (simp add: inode_block_def)
  have f: "file_inv H i ?s"
    using file_invD(3)[OF assms(1)] 1(2,3,9,10) ds_frameD(1)[OF 1(4)] unfolding file_inv_def file_ok_def ib by auto
  have t: "t = addrs ?s i ! NDIRECT" "usable (fs_d ?s) t" "fcont (fs_d ?s) t = Some c" using assms(4,7) 1(10)[OF assms(6)] by simp_all
  have r': "room_for (0 + 7) H (fs_d ?s)" "2 \<le> free_blocks (fs_d ?s)" using room_for_step[OF assms(9), of d 7] 1(5,6) assms(10) by simp_all
  obtain b' d' where 2: "block_map i j ?s = Some (b', ?s\<lparr>fs_d := d'\<rparr>)" "\<not> allocated d b'"
    using block_map_forgets_once[OF f assms(2,3) t(1) assms(5) t(2,3) assms(8) r'] by auto
  have "allocated d b" using 1(8) by (simp add: usable_def)
  with 1 2 show ?thesis by (intro exI[of _ b] exI[of _ b'] exI[of _ ?s] exI[of _ "?s\<lparr>fs_d := d'\<rparr>"]) auto
qed

text \<open>A file with an empty table block.\<close>

lemma sample_table:
  "\<exists>s t. file_inv (\<lambda>_. 0) 0 s \<and> t = addrs s 0 ! NDIRECT \<and> t \<noteq> 0 \<and> usable (fs_d s) t \<and> fcont (fs_d s) t = Some (replicate BSIZE 0) \<and>
     room_for 13 (\<lambda>_. 0) (fs_d s) \<and> 4 \<le> free_blocks (fs_d s)"
proof -
  obtain s0 where s0: "file_inv (\<lambda>_. 0) 0 s0" "addrs s0 0 = replicate 13 0" "nlog (fs_d s0) \<le> 3" "6 \<le> free_blocks (fs_d s0)"
    using sample_file by blast
  note fd = file_okD[OF file_invD(3)[OF s0(1)]]
  have "room_for 2 (\<lambda>_. 0) (fs_d s0)" "0 < free_blocks (fs_d s0)" using s0(3,4) by (simp_all add: room_for_def)
  from alloc_fresh[OF file_invD(1,2)[OF s0(1)] this] obtain t d where d: "ds_inv (\<lambda>_. 0) d" "bitmap_ok d" "ds_frame (fs_d s0) d" "nlog d \<le> nlog (fs_d s0) + 2"
    "free_blocks (fs_d s0) \<le> free_blocks d + 1" "\<not> allocated (fs_d s0) t" "usable d t" "fcont d t = Some (replicate BSIZE 0)"
    "\<And>m. m < sb_size (d_sb (fs_d s0)) \<Longrightarrow> allocated (fs_d s0) m \<Longrightarrow> allocated d m"
    "\<And>m. usable (fs_d s0) m \<Longrightarrow> m \<noteq> t \<and> usable d m" by blast
  define s where "s = s0\<lparr>fs_d := d, fs_inodes := (fs_inodes s0)[0 := (fs_inodes s0 ! 0)\<lparr>in_data :=
    (in_data (fs_inodes s0 ! 0))\<lparr>i_addresses := (replicate 13 0)[NDIRECT := t]\<rparr>\<rparr>]\<rparr>"
  have ad: "addrs s 0 = (replicate 13 0)[NDIRECT := t]" and ib: "inode_block s 0 = inode_block s0 0" and ds: "fs_d s = d"
    using fd(9) ds_frameD(1)[OF d(3)] by (simp_all add: s_def inode_block_def)
  have t0: "t \<noteq> 0" using d(6) fd(8) by metis
  have st: "set (addrs s 0) \<subseteq> {0, t}" unfolding ad using set_update_subset_insert[of "replicate 13 0" NDIRECT t] by auto
  have "t < 2 ^ 32" using d(7) by (simp add: usable_def)
  then have "inode_data_ok (in_data (fs_inodes s ! 0))" using fd(9,10) st unfolding inode_data_ok_def ad by (auto simp: s_def)
  moreover have "addrs s 0 ! l = 0" if "l < NDIRECT" for l using that by (simp add: ad)
  moreover have "inode_block s0 0 \<notin> set (addrs s 0)" using st fd(11) d(10)[OF fd(7)] by auto
  ultimately have "file_ok 0 s"
    using fd(2,8,9,11) d(9) d(10)[OF fd(7)] ds_frameD(1)[OF d(3)] unfolding file_ok_def ib ds by (simp add: s_def)
  then have "file_inv (\<lambda>_. 0) 0 s" using d(1,2) by (simp add: file_inv_def ds)
  moreover have "addrs s 0 ! NDIRECT = t" by (simp add: ad)
  ultimately show ?thesis
    using t0 d(4,5,7,8) s0(3,4) by (intro exI[of _ s] exI[of _ t]) (simp add: ds room_for_def)
qed

lemma block_map_forgets_witness:
  "\<exists>s b b' s' s''. block_map 0 12 s = Some (b, s') \<and> block_map 0 12 s' = Some (b', s'') \<and> b' \<noteq> b"
proof -
  obtain s t where s: "file_inv (\<lambda>_. 0) 0 s" "t = addrs s 0 ! NDIRECT" "t \<noteq> 0" "usable (fs_d s) t" "fcont (fs_d s) t = Some (replicate BSIZE 0)"
    "room_for 13 (\<lambda>_. 0) (fs_d s)" "4 \<le> free_blocks (fs_d s)" using sample_table by blast
  have e: "read_u32_at (replicate BSIZE 0) ((12 - NDIRECT) div NINDIRECT * 4) = Some 0" by (rule read_zero) simp
  show ?thesis using block_map_forgets[OF s(1) _ _ s(2-5) e s(6,7)] by (simp only: order_refl) fastforce
qed

end
