(* ===== verification/Condvar.thy ===== *)
theory Condvar
  imports Redleaf_Base
begin

text \<open>
  Condition variables: \<open>sleep_until\<close> of \<^verbatim>\<open>src/lib/core/libsyscalls/src/sync/condvar.rs\<close> on top of the
  kernel's list of sleepers, \<^verbatim>\<open>src/kernel/src/sync/condvar.rs\<close>.

  A thread goes through the program points of \<open>cv_pc\<close>.  \<open>cv_intr\<close> is the holder of the library's
  \<open>intr_mutex\<close>, \<open>cv_lock\<close> the holder of the data's mutex.  The kernel's own \<open>intr_mutex\<close> is held
  from the first to the last access of the list, so \<open>kernel_sleep\<close> and \<open>kernel_wakeup\<close> are
  single steps.  Spinning on a lock is having no step.
\<close>

datatype cv_pc =
    Away                    \<comment> \<open>not in a call\<close>
  | WantIntr | WantData     \<comment> \<open>spinning on \<open>intr_mutex\<close>, on the data's mutex\<close>
  | Testing                 \<comment> \<open>both held, about to evaluate the predicate\<close>
  | GoingToSleep            \<comment> \<open>the data's mutex dropped, \<open>cv.sleep\<close> not yet entered\<close>
  | Sleeping                \<comment> \<open>in \<open>do_yield\<close>\<close>
  | Inside                  \<comment> \<open>returned from \<open>sleep_until\<close> with the data's guard\<close>
  | Waking                  \<comment> \<open>changed the data, about to call \<open>wakeup\<close>\<close>

record 'd condvar =
  cv_data :: 'd
  cv_lock :: "nat option"
  cv_intr :: "nat option"
  cv_threads :: "nat list"
  cv_waiting :: "nat \<Rightarrow> bool"
  cv_at :: "nat \<Rightarrow> cv_pc"

definition cv_init :: "'d \<Rightarrow> 'd condvar" where
  "cv_init d = \<lparr>cv_data = d, cv_lock = None, cv_intr = None, cv_threads = [],
                cv_waiting = (\<lambda>_. False), cv_at = (\<lambda>_. Away)\<rparr>"

definition cv_goto :: "nat \<Rightarrow> cv_pc \<Rightarrow> 'd condvar \<Rightarrow> 'd condvar" where
  "cv_goto t pc s = s\<lparr>cv_at := (cv_at s)(t := pc)\<rparr>"

section \<open>The kernel's part\<close>

text \<open>\<open>sleep\<close> drops the caller's guard, registers the thread and makes it wait.\<close>

definition kernel_sleep :: "nat \<Rightarrow> 'd condvar \<Rightarrow> 'd condvar" where
  "kernel_sleep t s =
     s\<lparr>cv_intr := None, cv_threads := cv_threads s @ [t], cv_waiting := (cv_waiting s)(t := True)\<rparr>"

text \<open>\<open>wakeup\<close> takes the last thread off the list and makes it runnable.\<close>

definition kernel_wakeup :: "'d condvar \<Rightarrow> 'd condvar" where
  "kernel_wakeup s =
     (if cv_threads s = [] then s
      else s\<lparr>cv_threads := butlast (cv_threads s),
             cv_waiting := (cv_waiting s)(last (cv_threads s) := False)\<rparr>)"

section \<open>The library's part\<close>

text \<open>One iteration of the loop of \<open>sleep_until\<close>, at the test.\<close>

definition su_test :: "('d \<Rightarrow> bool) \<Rightarrow> nat \<Rightarrow> 'd condvar \<Rightarrow> 'd condvar" where
  "su_test p t s =
     (if p (cv_data s) then cv_goto t Inside (s\<lparr>cv_intr := None\<rparr>)
      else cv_goto t GoingToSleep (s\<lparr>cv_lock := None\<rparr>))"

inductive cv_step :: "('d \<Rightarrow> bool) \<Rightarrow> 'd condvar \<Rightarrow> 'd condvar \<Rightarrow> bool" for p where
  call: "cv_at s t = Away \<Longrightarrow> cv_step p s (cv_goto t WantIntr s)"
| lock_intr: "cv_at s t = WantIntr \<Longrightarrow> cv_intr s = None \<Longrightarrow> cv_step p s (cv_goto t WantData (s\<lparr>cv_intr := Some t\<rparr>))"
| lock_data: "cv_at s t = WantData \<Longrightarrow> cv_lock s = None \<Longrightarrow> cv_step p s (cv_goto t Testing (s\<lparr>cv_lock := Some t\<rparr>))"
| test: "cv_at s t = Testing \<Longrightarrow> cv_step p s (su_test p t s)"
| sleep: "cv_at s t = GoingToSleep \<Longrightarrow> cv_step p s (cv_goto t Sleeping (kernel_sleep t s))"
| resume: "cv_at s t = Sleeping \<Longrightarrow> \<not> cv_waiting s t \<Longrightarrow> cv_step p s (cv_goto t WantIntr s)"
| leave: "cv_at s t = Inside \<Longrightarrow> cv_step p s (cv_goto t Away (s\<lparr>cv_data := d, cv_lock := None\<rparr>))"
| change: "cv_at s t = Away \<Longrightarrow> cv_lock s = None \<Longrightarrow> cv_step p s (cv_goto t Waking (s\<lparr>cv_data := d\<rparr>))"
| wake: "cv_at s t = Waking \<Longrightarrow> cv_step p s (cv_goto t Away (kernel_wakeup s))"

inductive_cases cv_stepE: "cv_step p s s'"

section \<open>The invariant\<close>

definition cv_ok :: "('d \<Rightarrow> bool) \<Rightarrow> 'd condvar \<Rightarrow> bool" where
  "cv_ok p s \<longleftrightarrow>
     (\<forall>t. cv_lock s = Some t \<longleftrightarrow> cv_at s t \<in> {Testing, Inside}) \<and>
     (\<forall>t. cv_intr s = Some t \<longleftrightarrow> cv_at s t \<in> {WantData, Testing, GoingToSleep}) \<and>
     (\<forall>t. cv_at s t = Inside \<longrightarrow> p (cv_data s)) \<and>
     distinct (cv_threads s) \<and>
     (\<forall>t. t \<in> set (cv_threads s) \<longleftrightarrow> cv_waiting s t) \<and>
     (\<forall>t. cv_waiting s t \<longrightarrow> cv_at s t = Sleeping)"

lemma cv_goto_simps [simp]:
  "cv_data (cv_goto t pc s) = cv_data s" "cv_lock (cv_goto t pc s) = cv_lock s"
  "cv_intr (cv_goto t pc s) = cv_intr s" "cv_threads (cv_goto t pc s) = cv_threads s"
  "cv_waiting (cv_goto t pc s) = cv_waiting s"
  "cv_at (cv_goto t pc s) t' = (if t' = t then pc else cv_at s t')"
  by (simp_all add: cv_goto_def)

lemma kernel_wakeup_simps [simp]:
  "cv_data (kernel_wakeup s) = cv_data s" "cv_lock (kernel_wakeup s) = cv_lock s"
  "cv_intr (kernel_wakeup s) = cv_intr s" "cv_at (kernel_wakeup s) = cv_at s"
  by (simp_all add: kernel_wakeup_def)

lemma kernel_wakeup_ok:
  assumes "distinct (cv_threads s)" "\<forall>t. t \<in> set (cv_threads s) \<longleftrightarrow> cv_waiting s t"
  shows "distinct (cv_threads (kernel_wakeup s))"
    "t \<in> set (cv_threads (kernel_wakeup s)) \<longleftrightarrow> cv_waiting (kernel_wakeup s) t"
    "cv_waiting (kernel_wakeup s) t \<longleftrightarrow> cv_waiting s t \<and> (cv_threads s = [] \<or> t \<noteq> last (cv_threads s))"
proof (atomize (full), cases "cv_threads s" rule: rev_cases)
  case Nil
  then show "distinct (cv_threads (kernel_wakeup s)) \<and>
    (t \<in> set (cv_threads (kernel_wakeup s)) \<longleftrightarrow> cv_waiting (kernel_wakeup s) t) \<and>
    (cv_waiting (kernel_wakeup s) t \<longleftrightarrow> cv_waiting s t \<and> (cv_threads s = [] \<or> t \<noteq> last (cv_threads s)))"
    using assms by (simp add: kernel_wakeup_def)
next
  case (snoc ys y)
  then show "distinct (cv_threads (kernel_wakeup s)) \<and>
    (t \<in> set (cv_threads (kernel_wakeup s)) \<longleftrightarrow> cv_waiting (kernel_wakeup s) t) \<and>
    (cv_waiting (kernel_wakeup s) t \<longleftrightarrow> cv_waiting s t \<and> (cv_threads s = [] \<or> t \<noteq> last (cv_threads s)))"
    using assms by (auto simp: kernel_wakeup_def)
qed

lemma cv_step_ok:
  assumes "cv_step p s s'" "cv_ok p s"
  shows "cv_ok p s'"
  using assms
proof (cases rule: cv_step.cases)
  case (wake t)
  have w: "distinct (cv_threads s)" "\<forall>t. t \<in> set (cv_threads s) \<longleftrightarrow> cv_waiting s t"
    using assms(2) by (auto simp: cv_ok_def)
  show ?thesis using assms(2) wake kernel_wakeup_ok[OF w] by (auto simp: cv_ok_def)
next
  case (test t)
  have "cv_lock s = Some t" "cv_intr s = Some t" using assms(2) test by (auto simp: cv_ok_def)
  then show ?thesis using assms(2) test by (auto simp: cv_ok_def su_test_def)
next
  case (sleep t)
  have "cv_intr s = Some t" using assms(2) sleep by (auto simp: cv_ok_def)
  then show ?thesis using assms(2) sleep by (auto simp: cv_ok_def kernel_sleep_def)
next
  case (leave t d)
  have "cv_lock s = Some t" using assms(2) leave by (auto simp: cv_ok_def)
  then show ?thesis using assms(2) leave by (auto simp: cv_ok_def)
qed (auto simp: cv_ok_def)

lemma cv_run_ok: "(cv_step p)\<^sup>*\<^sup>* (cv_init d) s \<Longrightarrow> cv_ok p s"
proof (induction rule: rtranclp_induct)
  case base
  then show ?case by (simp add: cv_ok_def cv_init_def)
next
  case (step s s')
  then show ?case using cv_step_ok by blast
qed

section \<open>Properties\<close>

text \<open>C21.  Whatever the interleaving, a thread that has returned from \<open>sleep_until\<close> holds the data's
  mutex, its predicate holds of the data, and no other thread is inside with it.\<close>

theorem sleep_until_exclusive:
  assumes "(cv_step p)\<^sup>*\<^sup>* (cv_init d) s" "cv_at s t = Inside"
  shows "p (cv_data s) \<and> cv_lock s = Some t \<and> (\<forall>t'. cv_at s t' \<in> {Inside, Testing} \<longrightarrow> t' = t)"
  using cv_run_ok[OF assms(1)] assms(2) unfolding cv_ok_def by (metis insertCI insertE option.inject singletonD)

lemma sleep_until_exclusive_witness:
  "\<exists>s. (cv_step (\<lambda>n. n = (3 :: nat)))\<^sup>*\<^sup>* (cv_init 3) s \<and> cv_at s 5 = Inside \<and> cv_data s = 3 \<and> cv_lock s = Some 5"
proof -
  let ?p = "\<lambda>n. n = (3 :: nat)"
  define s1 where "s1 = cv_goto 5 WantIntr (cv_init (3 :: nat))"
  define s2 where "s2 = cv_goto 5 WantData (s1\<lparr>cv_intr := Some 5\<rparr>)"
  define s3 where "s3 = cv_goto 5 Testing (s2\<lparr>cv_lock := Some 5\<rparr>)"
  note d = s1_def s2_def s3_def cv_init_def
  have 1: "cv_step ?p (cv_init 3) s1" unfolding s1_def by (rule call) (simp add: cv_init_def)
  have 2: "cv_step ?p s1 s2" unfolding s2_def by (rule lock_intr) (simp_all add: d)
  have 3: "cv_step ?p s2 s3" unfolding s3_def by (rule lock_data) (simp_all add: d)
  have 4: "cv_step ?p s3 (su_test ?p 5 s3)" by (rule test) (simp add: d)
  have run: "(cv_step ?p)\<^sup>*\<^sup>* (cv_init 3) (su_test ?p 5 s3)"
    using 1 2 3 4 rtranclp.rtrancl_into_rtrancl[of "cv_step ?p"] by blast
  moreover have "cv_at (su_test ?p 5 s3) 5 = Inside" by (simp add: su_test_def d)
  ultimately show ?thesis using sleep_until_exclusive[OF run, of 5] by blast
qed

text \<open>A wake-up can be lost.  A thread that has found its predicate false and dropped the data's
  mutex is not yet on the kernel's list, and \<open>wakeup\<close> does not take the \<open>intr_mutex\<close> that it holds:
  there is a run in which the predicate becomes true, the change is followed by \<open>wakeup\<close>, no thread
  is left that would call it, and the thread sleeps on.\<close>

theorem wakeup_can_be_lost:
  "\<exists>s. (cv_step (\<lambda>ready. ready))\<^sup>*\<^sup>* (cv_init False) s \<and> cv_data s \<and>
     cv_waiting s 0 \<and> (\<forall>t. cv_at s t = (if t = 0 then Sleeping else Away)) \<and>
     \<not> (\<exists>s'. cv_step (\<lambda>ready. ready) s s' \<and> cv_at s' 0 \<noteq> Sleeping)"
proof -
  let ?p = "\<lambda>ready :: bool. ready"
  define s1 where "s1 = cv_goto 0 WantIntr (cv_init False)"
  define s2 where "s2 = cv_goto 0 WantData (s1\<lparr>cv_intr := Some 0\<rparr>)"
  define s3 where "s3 = cv_goto 0 Testing (s2\<lparr>cv_lock := Some 0\<rparr>)"
  define s4 where "s4 = cv_goto 0 GoingToSleep (s3\<lparr>cv_lock := None\<rparr>)"
  define s5 where "s5 = cv_goto 1 Waking (s4\<lparr>cv_data := True\<rparr>)"
  define s6 where "s6 = cv_goto 1 Away (kernel_wakeup s5)"
  define s7 where "s7 = cv_goto 0 Sleeping (kernel_sleep 0 s6)"
  note d = s1_def s2_def s3_def s4_def s5_def s6_def s7_def cv_init_def kernel_wakeup_def kernel_sleep_def
  have 1: "cv_step ?p (cv_init False) s1" unfolding s1_def by (rule call) (simp add: cv_init_def)
  have 2: "cv_step ?p s1 s2" unfolding s2_def by (rule lock_intr) (simp_all add: d)
  have 3: "cv_step ?p s2 s3" unfolding s3_def by (rule lock_data) (simp_all add: d)
  have "su_test ?p 0 s3 = s4" by (simp add: su_test_def s4_def) (simp add: d)
  then have 4: "cv_step ?p s3 s4" using cv_step.test[of s3 0 ?p] by (simp add: d)
  have 5: "cv_step ?p s4 s5" unfolding s5_def by (rule change) (simp_all add: d)
  have 6: "cv_step ?p s5 s6" unfolding s6_def by (rule wake) (simp add: d)
  have 7: "cv_step ?p s6 s7" unfolding s7_def by (rule sleep) (simp add: d)
  have run: "(cv_step ?p)\<^sup>*\<^sup>* (cv_init False) s7"
  proof -
    define R where "R = cv_step ?p"
    have "R (cv_init False) s1" "R s1 s2" "R s2 s3" "R s3 s4" "R s4 s5" "R s5 s6" "R s6 s7"
      using 1 2 3 4 5 6 7 by (simp_all add: R_def)
    then show ?thesis unfolding R_def[symmetric] by (meson rtranclp.rtrancl_into_rtrancl rtranclp.rtrancl_refl)
  qed
  have f: "cv_data s7" "cv_waiting s7 0" and at: "\<forall>t. cv_at s7 t = (if t = 0 then Sleeping else Away)"
    by (simp_all add: d)
  have "cv_at s' 0 = Sleeping" if "cv_step ?p s7 s'" for s'
    using that f at by (cases rule: cv_step.cases) (auto simp: su_test_def split: if_splits)
  with run f at show ?thesis by blast
qed

end
