(* ===== verification/Sched.thy ===== *)
theory Sched
  imports Redleaf_Base
begin

text \<open>
  The kernel's scheduler, \<^verbatim>\<open>src/kernel/src/thread.rs\<close>, and the queues of threads waiting for an
  interrupt, \<^verbatim>\<open>src/kernel/src/waitqueue.rs\<close>.

  An \<open>Arc<Mutex<Thread>>\<close> is the index of the thread in \<open>kt_threads\<close>.  Threads are linked into queues
  through their \<open>next\<close> (and \<open>next_iwq\<close>) fields, so a queue is the index of its first thread.  The
  loops of the code that follow such links are partial functions: on a cyclic list they have no
  result.  Registers, stacks, continuations and the context switch itself are not represented; a
  switch is the change of \<open>cpu_current\<close>.
\<close>

abbreviation MAX_PRIO :: nat where "MAX_PRIO \<equiv> 15"
abbreviation MAX_CPUS :: nat where "MAX_CPUS \<equiv> 64"
abbreviation MAX_INT :: nat where "MAX_INT \<equiv> 256"

datatype thread_state = Running | Runnable | Paused | Waiting | Idle | Rebalanced

record thread =
  th_state :: thread_state
  th_priority :: nat
  th_affinity :: nat
  th_rebalance :: bool
  th_next :: "nat option"
  th_next_iwq :: "nat option"

record sched_queue =
  sq_highest :: nat
  sq_queues :: "nat option list"

record scheduler =
  sc_idle :: "nat option"
  sc_active :: bool
  sc_active_queue :: sched_queue
  sc_passive_queue :: sched_queue

record cpu =
  cpu_sched :: scheduler
  cpu_current :: "nat option"
  cpu_iwq :: "nat option list"

record kthreads =
  kt_threads :: "thread list"
  kt_cpus :: "cpu list"
  kt_rb_queues :: "nat option list"
  kt_rb_flags :: "bool list"

section \<open>Linked queues\<close>

definition link_push :: "(nat option \<Rightarrow> 't \<Rightarrow> 't) \<Rightarrow> nat \<Rightarrow> nat \<Rightarrow> nat option list \<Rightarrow> 't list \<Rightarrow> (nat option list \<times> 't list) option" where
  "link_push set_next q t heads ts =
     do { prev \<leftarrow> nth_chk heads q;
          ts \<leftarrow> modify_chk ts t (set_next prev);
          Some (heads[q := Some t], ts) }"

definition link_pop :: "('t \<Rightarrow> nat option) \<Rightarrow> (nat option \<Rightarrow> 't \<Rightarrow> 't) \<Rightarrow> nat \<Rightarrow> nat option list \<Rightarrow> 't list \<Rightarrow>
    (nat option \<times> nat option list \<times> 't list) option" where
  "link_pop get_next set_next q heads ts =
     do { prev \<leftarrow> nth_chk heads q;
          case prev of
            None \<Rightarrow> Some (None, heads, ts)
          | Some t \<Rightarrow>
              do { x \<leftarrow> nth_chk ts t;
                   Some (Some t, heads[q := get_next x], ts[t := set_next None x]) } }"

definition set_next :: "nat option \<Rightarrow> thread \<Rightarrow> thread" where
  "set_next n t = t\<lparr>th_next := n\<rparr>"

definition set_next_iwq :: "nat option \<Rightarrow> thread \<Rightarrow> thread" where
  "set_next_iwq n t = t\<lparr>th_next_iwq := n\<rparr>"

section \<open>Priority queues\<close>

definition SchedulerQueue_new :: sched_queue where
  "SchedulerQueue_new = \<lparr>sq_highest = 0, sq_queues = replicate (MAX_PRIO + 1) None\<rparr>"

definition push_thread :: "nat \<Rightarrow> nat \<Rightarrow> sched_queue \<Rightarrow> thread list \<Rightarrow> (sched_queue \<times> thread list) option" where
  "push_thread q t sq ts =
     do { (qs, ts) \<leftarrow> link_push set_next q t (sq_queues sq) ts; Some (sq\<lparr>sq_queues := qs\<rparr>, ts) }"

definition pop_thread :: "nat \<Rightarrow> sched_queue \<Rightarrow> thread list \<Rightarrow> (nat option \<times> sched_queue \<times> thread list) option" where
  "pop_thread q sq ts =
     do { (r, qs, ts) \<leftarrow> link_pop th_next set_next q (sq_queues sq) ts; Some (r, sq\<lparr>sq_queues := qs\<rparr>, ts) }"

definition put_thread :: "nat \<Rightarrow> sched_queue \<Rightarrow> thread list \<Rightarrow> (sched_queue \<times> thread list) option" where
  "put_thread t sq ts =
     do { x \<leftarrow> nth_chk ts t;
          (sq, ts) \<leftarrow> push_thread (th_priority x) t sq ts;
          Some (if sq_highest sq < th_priority x then sq\<lparr>sq_highest := th_priority x\<rparr> else sq, ts) }"

text \<open>The loop of \<open>get_highest\<close>, on the value of \<open>highest\<close>.\<close>

fun get_highest_from :: "nat \<Rightarrow> sched_queue \<Rightarrow> thread list \<Rightarrow> (nat option \<times> sched_queue \<times> thread list) option" where
  "get_highest_from h sq ts =
     do { (r, sq, ts) \<leftarrow> pop_thread h sq ts;
          case r of
            Some t \<Rightarrow> Some (Some t, sq, ts)
          | None \<Rightarrow>
              (case h of
                 0 \<Rightarrow> Some (None, sq, ts)
               | Suc h' \<Rightarrow> get_highest_from h' (sq\<lparr>sq_highest := h'\<rparr>) ts) }"

definition get_highest :: "sched_queue \<Rightarrow> thread list \<Rightarrow> (nat option \<times> sched_queue \<times> thread list) option" where
  "get_highest sq ts = get_highest_from (sq_highest sq) sq ts"

section \<open>The scheduler of a processor\<close>

definition Scheduler_new :: scheduler where
  "Scheduler_new = \<lparr>sc_idle = None, sc_active = True, sc_active_queue = SchedulerQueue_new,
                    sc_passive_queue = SchedulerQueue_new\<rparr>"

definition set_idle_thread :: "nat \<Rightarrow> scheduler \<Rightarrow> scheduler" where
  "set_idle_thread t s = s\<lparr>sc_idle := Some t\<rparr>"

definition get_idle_thread :: "scheduler \<Rightarrow> (nat \<times> scheduler) option" where
  "get_idle_thread s = do { t \<leftarrow> sc_idle s; Some (t, s\<lparr>sc_idle := None\<rparr>) }"

definition put_thread_in_passive :: "nat \<Rightarrow> scheduler \<Rightarrow> thread list \<Rightarrow> (scheduler \<times> thread list) option" where
  "put_thread_in_passive t s ts =
     (if \<not> sc_active s then
        do { (sq, ts) \<leftarrow> put_thread t (sc_active_queue s) ts; Some (s\<lparr>sc_active_queue := sq\<rparr>, ts) }
      else
        do { (sq, ts) \<leftarrow> put_thread t (sc_passive_queue s) ts; Some (s\<lparr>sc_passive_queue := sq\<rparr>, ts) })"

definition get_next_active :: "scheduler \<Rightarrow> thread list \<Rightarrow> (nat option \<times> scheduler \<times> thread list) option" where
  "get_next_active s ts =
     (if sc_active s then
        do { (r, sq, ts) \<leftarrow> get_highest (sc_active_queue s) ts; Some (r, s\<lparr>sc_active_queue := sq\<rparr>, ts) }
      else
        do { (r, sq, ts) \<leftarrow> get_highest (sc_passive_queue s) ts; Some (r, s\<lparr>sc_passive_queue := sq\<rparr>, ts) })"

partial_function (option) get_next :: "scheduler \<Rightarrow> thread list \<Rightarrow> (nat option \<times> scheduler \<times> thread list) option" where
  "get_next s ts =
     Option.bind (get_next_active s ts) (\<lambda>(r, s, ts).
       case r of
         None \<Rightarrow> Some (None, s, ts)
       | Some t \<Rightarrow>
           Option.bind (nth_chk ts t) (\<lambda>x.
             if th_state x = Runnable \<or> th_state x = Rebalanced then Some (Some t, s, ts)
             else Option.bind (put_thread_in_passive t s ts) (\<lambda>(s, ts). get_next s ts)))"

definition flip_queues :: "scheduler \<Rightarrow> scheduler" where
  "flip_queues s = s\<lparr>sc_active := \<not> sc_active s\<rparr>"

definition sched_next :: "scheduler \<Rightarrow> thread list \<Rightarrow> (nat option \<times> scheduler \<times> thread list) option" where
  "sched_next s ts =
     do { (r, s, ts) \<leftarrow> get_next s ts;
          case r of
            Some t \<Rightarrow> Some (Some t, s, ts)
          | None \<Rightarrow> get_next (flip_queues s) ts }"

section \<open>Moving threads between processors\<close>

definition RebalanceFlags_new :: "bool list" where
  "RebalanceFlags_new = replicate MAX_CPUS False"

definition RebalanceQueues_new :: "nat option list" where
  "RebalanceQueues_new = replicate MAX_CPUS None"

definition rb_push_thread :: "nat \<Rightarrow> nat \<Rightarrow> kthreads \<Rightarrow> kthreads option" where
  "rb_push_thread q t k =
     do { (qs, ts) \<leftarrow> link_push set_next q t (kt_rb_queues k) (kt_threads k);
          Some (k\<lparr>kt_rb_queues := qs, kt_threads := ts\<rparr>) }"

definition rb_pop_thread :: "nat \<Rightarrow> kthreads \<Rightarrow> (nat option \<times> kthreads) option" where
  "rb_pop_thread q k =
     do { (r, qs, ts) \<leftarrow> link_pop th_next set_next q (kt_rb_queues k) (kt_threads k);
          Some (r, k\<lparr>kt_rb_queues := qs, kt_threads := ts\<rparr>) }"

definition rb_queue_signal :: "nat \<Rightarrow> kthreads \<Rightarrow> kthreads option" where
  "rb_queue_signal q k = do { fl \<leftarrow> upd_chk (kt_rb_flags k) q True; Some (k\<lparr>kt_rb_flags := fl\<rparr>) }"

definition rb_queue_clear_signal :: "nat \<Rightarrow> kthreads \<Rightarrow> kthreads option" where
  "rb_queue_clear_signal q k = do { fl \<leftarrow> upd_chk (kt_rb_flags k) q False; Some (k\<lparr>kt_rb_flags := fl\<rparr>) }"

definition rb_check_signal :: "nat \<Rightarrow> kthreads \<Rightarrow> bool option" where
  "rb_check_signal q k = nth_chk (kt_rb_flags k) q"

definition rebalance_thread :: "nat \<Rightarrow> kthreads \<Rightarrow> kthreads option" where
  "rebalance_thread t k =
     do { x \<leftarrow> nth_chk (kt_threads k) t;
          k \<leftarrow> rb_push_thread (th_affinity x) t k;
          rb_queue_signal (th_affinity x) k }"

text \<open>The scheduler of a processor, as a view of the whole state.\<close>

definition set_sched :: "nat \<Rightarrow> scheduler \<Rightarrow> thread list \<Rightarrow> kthreads \<Rightarrow> kthreads option" where
  "set_sched c s ts k =
     do { cs \<leftarrow> modify_chk (kt_cpus k) c (\<lambda>x. x\<lparr>cpu_sched := s\<rparr>);
          Some (k\<lparr>kt_cpus := cs, kt_threads := ts\<rparr>) }"

definition put_passive_on :: "nat \<Rightarrow> nat \<Rightarrow> kthreads \<Rightarrow> kthreads option" where
  "put_passive_on c t k =
     do { x \<leftarrow> nth_chk (kt_cpus k) c;
          (s, ts) \<leftarrow> put_thread_in_passive t (cpu_sched x) (kt_threads k);
          set_sched c s ts k }"

partial_function (option) process_rb_loop :: "nat \<Rightarrow> kthreads \<Rightarrow> kthreads option" where
  "process_rb_loop c k =
     Option.bind (rb_pop_thread c k) (\<lambda>(r, k).
       case r of
         None \<Rightarrow> Some k
       | Some t \<Rightarrow>
           Option.bind (modify_chk (kt_threads k) t (\<lambda>x. x\<lparr>th_rebalance := False, th_state := Runnable\<rparr>)) (\<lambda>ts.
             Option.bind (put_passive_on c t (k\<lparr>kt_threads := ts\<rparr>)) (\<lambda>k. process_rb_loop c k)))"

definition process_rb_queue :: "nat \<Rightarrow> kthreads \<Rightarrow> kthreads option" where
  "process_rb_queue c k = do { k \<leftarrow> process_rb_loop c k; rb_queue_clear_signal c k }"

section \<open>Scheduling\<close>

definition next_on :: "nat \<Rightarrow> kthreads \<Rightarrow> (nat option \<times> kthreads) option" where
  "next_on c k =
     do { x \<leftarrow> nth_chk (kt_cpus k) c;
          (r, s, ts) \<leftarrow> sched_next (cpu_sched x) (kt_threads k);
          k \<leftarrow> set_sched c s ts k;
          Some (r, k) }"

text \<open>
  What to run when no queued thread can: nothing else (\<open>None\<close>: the current thread goes on), or the
  idle thread.
\<close>

definition pick_idle :: "nat \<Rightarrow> kthreads \<Rightarrow> (nat option \<times> kthreads) option" where
  "pick_idle c k =
     do { x \<leftarrow> nth_chk (kt_cpus k) c;
          t \<leftarrow> cpu_current x;
          y \<leftarrow> nth_chk (kt_threads k) t;
          if th_state y = Runnable \<or> th_state y = Idle then Some (None, k)
          else
            do { (i, s) \<leftarrow> get_idle_thread (cpu_sched x);
                 k \<leftarrow> set_sched c s (kt_threads k) k;
                 Some (Some i, k) } }"

partial_function (option) pick :: "nat \<Rightarrow> kthreads \<Rightarrow> (nat option \<times> kthreads) option" where
  "pick c k =
     Option.bind (next_on c k) (\<lambda>(r, k).
       case r of
         None \<Rightarrow> pick_idle c k
       | Some t \<Rightarrow>
           Option.bind (nth_chk (kt_threads k) t) (\<lambda>x.
             if th_rebalance x then Option.bind (rebalance_thread t k) (\<lambda>k. pick c k)
             else if th_state x = Waiting then Option.bind (put_passive_on c t k) (\<lambda>k. pick c k)
             else Some (Some t, k)))"

text \<open>The end of \<open>schedule\<close>: the old thread goes to the idle slot or to the passive queue.\<close>

definition switch_to :: "nat \<Rightarrow> nat \<Rightarrow> kthreads \<Rightarrow> kthreads option" where
  "switch_to c t k =
     do { x \<leftarrow> nth_chk (kt_cpus k) c;
          case cpu_current x of
            None \<Rightarrow> Some k
          | Some old \<Rightarrow>
              do { cs \<leftarrow> upd_chk (kt_cpus k) c (x\<lparr>cpu_current := Some t\<rparr>);
                   let k = k\<lparr>kt_cpus := cs\<rparr>;
                   y \<leftarrow> nth_chk (kt_threads k) old;
                   if th_state y = Idle then
                     set_sched c (set_idle_thread old (cpu_sched x)) (kt_threads k) k
                   else put_passive_on c old k } }"

definition schedule :: "nat \<Rightarrow> kthreads \<Rightarrow> kthreads option" where
  "schedule c k =
     do { sig \<leftarrow> rb_check_signal c k;
          k \<leftarrow> (if sig then process_rb_queue c k else Some k);
          (r, k) \<leftarrow> pick c k;
          case r of
            None \<Rightarrow> Some k
          | Some t \<Rightarrow> switch_to c t k }"

section \<open>Threads\<close>

definition Thread_new :: thread where
  "Thread_new = \<lparr>th_state = Runnable, th_priority = 0, th_affinity = 0, th_rebalance = False,
                 th_next = None, th_next_iwq = None\<rparr>"

definition create_thread :: "nat \<Rightarrow> kthreads \<Rightarrow> (nat \<times> kthreads) option" where
  "create_thread c k =
     do { let t = length (kt_threads k);
          k \<leftarrow> put_passive_on c t (k\<lparr>kt_threads := kt_threads k @ [Thread_new]\<rparr>);
          Some (t, k) }"

definition set_affinity :: "nat \<Rightarrow> nat \<Rightarrow> nat \<Rightarrow> kthreads \<Rightarrow> kthreads option" where
  "set_affinity active_cpus t affinity k =
     (if active_cpus \<le> affinity mod 2 ^ 32 then Some k
      else
        do { ts \<leftarrow> modify_chk (kt_threads k) t
                     (\<lambda>x. x\<lparr>th_affinity := affinity, th_rebalance := True, th_state := Rebalanced\<rparr>);
             Some (k\<lparr>kt_threads := ts\<rparr>) })"

definition set_priority :: "nat \<Rightarrow> nat \<Rightarrow> kthreads \<Rightarrow> kthreads option" where
  "set_priority t prio k =
     (if MAX_PRIO < prio then Some k
      else
        do { ts \<leftarrow> modify_chk (kt_threads k) t (\<lambda>x. x\<lparr>th_priority := prio\<rparr>);
             Some (k\<lparr>kt_threads := ts\<rparr>) })"

definition set_state :: "nat \<Rightarrow> thread_state \<Rightarrow> kthreads \<Rightarrow> kthreads option" where
  "set_state t st k =
     do { ts \<leftarrow> modify_chk (kt_threads k) t
                  (\<lambda>x. if st = Waiting \<or> st = Runnable then x\<lparr>th_state := st\<rparr> else x);
          Some (k\<lparr>kt_threads := ts\<rparr>) }"

definition thread_sleep :: "nat \<Rightarrow> nat \<Rightarrow> kthreads \<Rightarrow> kthreads option" where
  "thread_sleep c t k =
     do { ts \<leftarrow> modify_chk (kt_threads k) t (\<lambda>x. x\<lparr>th_state := Waiting\<rparr>);
          schedule c (k\<lparr>kt_threads := ts\<rparr>) }"

definition init_threads :: "nat \<Rightarrow> kthreads \<Rightarrow> kthreads option" where
  "init_threads c k =
     do { let t = length (kt_threads k);
          let k = k\<lparr>kt_threads := kt_threads k @ [Thread_new\<lparr>th_state := Idle\<rparr>]\<rparr>;
          cs \<leftarrow> modify_chk (kt_cpus k) c
                 (\<lambda>x. x\<lparr>cpu_sched := set_idle_thread t (cpu_sched x), cpu_current := Some t\<rparr>);
          Some (k\<lparr>kt_cpus := cs\<rparr>) }"

section \<open>Interrupt wait queues\<close>

definition InterruptWaitQueues_new :: "nat option list" where
  "InterruptWaitQueues_new = replicate MAX_INT None"

definition add_thread :: "nat \<Rightarrow> nat \<Rightarrow> nat option list \<Rightarrow> thread list \<Rightarrow> (nat option list \<times> thread list) option" where
  "add_thread q t iwq ts = link_push set_next_iwq q t iwq ts"

partial_function (option) signal_threads :: "nat \<Rightarrow> nat option list \<Rightarrow> thread list \<Rightarrow> (nat option list \<times> thread list) option" where
  "signal_threads q iwq ts =
     Option.bind (link_pop th_next_iwq set_next_iwq q iwq ts) (\<lambda>(r, iwq, ts).
       case r of
         None \<Rightarrow> Some (iwq, ts)
       | Some t \<Rightarrow>
           Option.bind (modify_chk ts t (\<lambda>x. x\<lparr>th_state := Runnable\<rparr>)) (\<lambda>ts. signal_threads q iwq ts))"

text \<open>The statics of \<open>n\<close> processors before any thread exists.\<close>

definition boot :: "nat \<Rightarrow> kthreads" where
  "boot n = \<lparr>kt_threads = [],
             kt_cpus = replicate n \<lparr>cpu_sched = Scheduler_new, cpu_current = None, cpu_iwq = InterruptWaitQueues_new\<rparr>,
             kt_rb_queues = RebalanceQueues_new, kt_rb_flags = RebalanceFlags_new\<rparr>"

end
