(* ===== verification/Sched_Spec.thy ===== *)
theory Sched_Spec
  imports Sched
begin

text \<open>
  What the scheduler's linked queues represent, and what follows for scheduling.  A locale states what
  a link field is and proves once that pushing and popping through it act on lists; it is interpreted
  on the two link fields of a thread.
\<close>

section \<open>Linked lists of threads\<close>

fun chain :: "('t \<Rightarrow> nat option) \<Rightarrow> 't list \<Rightarrow> nat option \<Rightarrow> nat list \<Rightarrow> bool" where
  "chain get ts h [] \<longleftrightarrow> h = None"
| "chain get ts h (x # xs) \<longleftrightarrow> h = Some x \<and> x < length ts \<and> chain get ts (get (ts ! x)) xs"

text \<open>An array of queue heads represents a list of lists.\<close>

definition qrepr :: "('t \<Rightarrow> nat option) \<Rightarrow> 't list \<Rightarrow> nat option list \<Rightarrow> nat list list \<Rightarrow> bool" where
  "qrepr get ts heads xss \<longleftrightarrow>
     length heads = length xss \<and> (\<forall>q < length xss. chain get ts (heads ! q) (xss ! q))"

definition queued :: "nat list list \<Rightarrow> nat set" where
  "queued xss = set (concat xss)"

definition pushed :: "nat \<Rightarrow> nat \<Rightarrow> nat list list \<Rightarrow> nat list list" where
  "pushed q t xss = xss[q := t # xss ! q]"

definition popped :: "nat \<Rightarrow> nat list list \<Rightarrow> nat list list" where
  "popped q xss = xss[q := tl (xss ! q)]"

lemma chain_upd_other: "t \<notin> set xs \<Longrightarrow> chain get (ts[t := v]) h xs = chain get ts h xs"
  by (induction xs arbitrary: h) auto

lemma chain_cong:
  "\<forall>x \<in> set xs. get (ts' ! x) = get (ts ! x) \<Longrightarrow> length ts' = length ts \<Longrightarrow> chain get ts' h xs = chain get ts h xs"
  by (induction xs arbitrary: h) auto

lemma chain_bound: "chain get ts h xs \<Longrightarrow> x \<in> set xs \<Longrightarrow> x < length ts"
  by (induction xs arbitrary: h) auto

lemma length_pushed [simp]: "length (pushed q t xss) = length xss"
  by (simp add: pushed_def)

lemma length_popped [simp]: "length (popped q xss) = length xss"
  by (simp add: popped_def)

lemma in_queued: "x \<in> queued xss \<longleftrightarrow> (\<exists>q < length xss. x \<in> set (xss ! q))"
  unfolding queued_def set_concat by (metis UN_iff in_set_conv_nth)

lemma queued_pushed: "q < length xss \<Longrightarrow> queued (pushed q t xss) = insert t (queued xss)"
  by (auto simp: in_queued pushed_def nth_list_update split: if_splits)

lemma distinct_concat_update:
  assumes "q < length xss"
  shows "distinct (concat (xss[q := ys])) \<longleftrightarrow>
    distinct (concat (take q xss) @ concat (drop (Suc q) xss)) \<and> distinct ys \<and>
    set ys \<inter> set (concat (take q xss) @ concat (drop (Suc q) xss)) = {}"
proof -
  have "concat (xss[q := ys]) = concat (take q xss) @ ys @ concat (drop (Suc q) xss)"
    using assms by (simp add: upd_conv_take_nth_drop)
  then show ?thesis by auto
qed

lemma distinct_pushed:
  assumes "q < length xss" "distinct (concat xss)" "t \<notin> queued xss"
  shows "distinct (concat (pushed q t xss))"
proof -
  have "xss = xss[q := xss ! q]" by simp
  then have d: "distinct (concat (take q xss) @ concat (drop (Suc q) xss))" "distinct (xss ! q)"
    "set (xss ! q) \<inter> set (concat (take q xss) @ concat (drop (Suc q) xss)) = {}"
    using assms(2) distinct_concat_update[OF assms(1), of "xss ! q"] by metis+
  have "t \<notin> set (xss ! q)" "t \<notin> set (concat (take q xss) @ concat (drop (Suc q) xss))"
    using assms(1,3) by (auto simp: queued_def dest: in_set_takeD in_set_dropD)
  then show ?thesis
    unfolding pushed_def distinct_concat_update[OF assms(1)] using d by auto
qed

lemma popped_facts:
  assumes "q < length xss" "distinct (concat xss)" "xss ! q = x # xs"
  shows "distinct (concat (popped q xss))" "queued (popped q xss) = queued xss - {x}" "x \<in> queued xss"
    "x \<notin> set xs"
proof -
  have "xss = xss[q := xss ! q]" by simp
  then have d: "distinct (concat (take q xss) @ concat (drop (Suc q) xss))" "distinct (xss ! q)"
    "set (xss ! q) \<inter> set (concat (take q xss) @ concat (drop (Suc q) xss)) = {}"
    using assms(2) distinct_concat_update[OF assms(1), of "xss ! q"] by metis+
  have c: "concat xss = concat (take q xss) @ (x # xs) @ concat (drop (Suc q) xss)"
    using id_take_nth_drop[OF assms(1)] assms(3) by (metis concat.simps(2) concat_append)
  have p: "concat (popped q xss) = concat (take q xss) @ xs @ concat (drop (Suc q) xss)"
    using assms(1,3) by (simp add: popped_def upd_conv_take_nth_drop)
  show "distinct (concat (popped q xss))" "x \<notin> set xs" using d assms(3) unfolding p by auto
  show "queued (popped q xss) = queued xss - {x}" "x \<in> queued xss"
    using d assms(3) unfolding queued_def p c by auto
qed

section \<open>Link fields\<close>

locale link_field =
  fixes get :: "'t \<Rightarrow> nat option" and set_link :: "nat option \<Rightarrow> 't \<Rightarrow> 't"
  assumes get_set: "get (set_link n t) = n"
begin

lemma push_repr:
  assumes "qrepr get ts heads xss" "q < length xss" "t < length ts" "t \<notin> queued xss"
  shows "\<exists>heads'. link_push set_link q t heads ts = Some (heads', ts[t := set_link (heads ! q) (ts ! t)]) \<and>
    qrepr get (ts[t := set_link (heads ! q) (ts ! t)]) heads' (pushed q t xss)"
proof (intro exI conjI)
  have l: "length heads = length xss" using assms(1) by (simp add: qrepr_def)
  show "link_push set_link q t heads ts = Some (heads[q := Some t], ts[t := set_link (heads ! q) (ts ! t)])"
    using assms(2,3) l by (simp add: link_push_def nth_chk_def modify_chk_def)
  have n: "chain get (ts[t := v]) h (xss ! r) = chain get ts h (xss ! r)" if "r < length xss" for r h v
    using assms(4) that by (intro chain_upd_other) (auto simp: in_queued)
  show "qrepr get (ts[t := set_link (heads ! q) (ts ! t)]) (heads[q := Some t]) (pushed q t xss)"
    using assms(1-3) l n unfolding qrepr_def pushed_def
    by (auto simp: nth_list_update get_set)
qed

lemma pop_repr:
  assumes "qrepr get ts heads xss" "q < length xss" "distinct (concat xss)" "xss ! q = x # xs"
  shows "\<exists>heads'. link_pop get set_link q heads ts = Some (Some x, heads', ts[x := set_link None (ts ! x)]) \<and>
    qrepr get (ts[x := set_link None (ts ! x)]) heads' (popped q xss)"
proof (intro exI conjI)
  have l: "length heads = length xss" using assms(1) by (simp add: qrepr_def)
  have c: "heads ! q = Some x" "x < length ts" "chain get ts (get (ts ! x)) xs"
    using assms(1,2,4) by (auto simp: qrepr_def)
  show "link_pop get set_link q heads ts =
      Some (Some x, heads[q := get (ts ! x)], ts[x := set_link None (ts ! x)])"
    using c l assms(2) by (simp add: link_pop_def nth_chk_def)
  have "x \<notin> set (popped q xss ! r)" if "r < length xss" for r
    using popped_facts(2)[OF assms(2,3,4)] that by (auto simp: in_queued set_eq_iff)
  then have n: "chain get (ts[x := set_link None (ts ! x)]) h (popped q xss ! r) = chain get ts h (popped q xss ! r)"
    if "r < length xss" for r h
    using that by (intro chain_upd_other) simp
  show "qrepr get (ts[x := set_link None (ts ! x)]) (heads[q := get (ts ! x)]) (popped q xss)"
    unfolding qrepr_def
  proof (intro conjI allI impI)
    fix r assume "r < length (popped q xss)"
    then have r: "r < length xss" by simp
    show "chain get (ts[x := set_link None (ts ! x)]) (heads[q := get (ts ! x)] ! r) (popped q xss ! r)"
      unfolding n[OF r] using c(3) assms(1,2,4) r l
      by (auto simp: popped_def nth_list_update qrepr_def)
  qed (simp add: l)
qed

lemma pop_empty:
  assumes "qrepr get ts heads xss" "q < length xss" "xss ! q = []"
  shows "link_pop get set_link q heads ts = Some (None, heads, ts)"
proof -
  have "heads ! q = None" "length heads = length xss" using assms by (auto simp: qrepr_def)
  then show ?thesis using assms(2) by (simp add: link_pop_def nth_chk_def)
qed

end

interpretation sched_link: link_field th_next set_next
  by unfold_locales (simp add: set_next_def)

interpretation iwq_link: link_field th_next_iwq set_next_iwq
  by unfold_locales (simp add: set_next_iwq_def)

section \<open>Priority queues\<close>

definition sq_repr :: "thread list \<Rightarrow> sched_queue \<Rightarrow> nat list list \<Rightarrow> bool" where
  "sq_repr ts sq xss \<longleftrightarrow> qrepr th_next ts (sq_queues sq) xss \<and> length xss = MAX_PRIO + 1 \<and>
     sq_highest sq \<le> MAX_PRIO \<and> (\<forall>q \<le> MAX_PRIO. sq_highest sq < q \<longrightarrow> xss ! q = [])"

text \<open>Only links have changed, and only those of threads in \<open>M\<close>.\<close>

definition relinked :: "nat set \<Rightarrow> thread list \<Rightarrow> thread list \<Rightarrow> bool" where
  "relinked M ts ts' \<longleftrightarrow> length ts' = length ts \<and>
     (\<forall>i < length ts. set_next None (ts' ! i) = set_next None (ts ! i) \<and> (i \<notin> M \<longrightarrow> ts' ! i = ts ! i))"

lemma relinked_refl [simp]: "relinked M ts ts"
  by (simp add: relinked_def)

lemma relinked_trans: "relinked M ts ts' \<Longrightarrow> relinked N ts' ts'' \<Longrightarrow> relinked (M \<union> N) ts ts''"
  by (auto simp: relinked_def)

lemma relinked_mono: "relinked M ts ts' \<Longrightarrow> M \<subseteq> N \<Longrightarrow> relinked N ts ts'"
  by (auto simp: relinked_def)

lemma relinked_upd: "relinked {t} ts (ts[t := set_next n (ts ! t)])"
  by (cases "t < length ts") (auto simp: relinked_def set_next_def nth_list_update)

lemma relinked_fields:
  assumes "relinked M ts ts'" "i < length ts"
  shows "th_state (ts' ! i) = th_state (ts ! i)" "th_priority (ts' ! i) = th_priority (ts ! i)"
    "th_affinity (ts' ! i) = th_affinity (ts ! i)" "th_rebalance (ts' ! i) = th_rebalance (ts ! i)"
    "th_next_iwq (ts' ! i) = th_next_iwq (ts ! i)"
proof -
  have e: "set_next None (ts' ! i) = set_next None (ts ! i)" using assms by (simp add: relinked_def)
  show "th_state (ts' ! i) = th_state (ts ! i)" "th_priority (ts' ! i) = th_priority (ts ! i)"
    "th_affinity (ts' ! i) = th_affinity (ts ! i)" "th_rebalance (ts' ! i) = th_rebalance (ts ! i)"
    "th_next_iwq (ts' ! i) = th_next_iwq (ts ! i)"
    using arg_cong[OF e, of th_state] arg_cong[OF e, of th_priority] arg_cong[OF e, of th_affinity]
      arg_cong[OF e, of th_rebalance] arg_cong[OF e, of th_next_iwq]
    by (simp_all add: set_next_def)
qed

lemma qrepr_relinked:
  assumes "qrepr th_next ts heads xss" "relinked M ts ts'" "M \<inter> queued xss = {}"
  shows "qrepr th_next ts' heads xss"
  unfolding qrepr_def
proof (intro conjI allI impI)
  show "length heads = length xss" using assms(1) by (simp add: qrepr_def)
  fix q assume q: "q < length xss"
  then have c: "chain th_next ts (heads ! q) (xss ! q)" using assms(1) by (simp add: qrepr_def)
  have "ts' ! x = ts ! x" if "x \<in> set (xss ! q)" for x
  proof -
    have "x \<in> queued xss" using that q by (auto simp: in_queued)
    then have "x \<notin> M" using assms(3) by auto
    then show ?thesis using assms(2) chain_bound[OF c that] by (simp add: relinked_def)
  qed
  then show "chain th_next ts' (heads ! q) (xss ! q)"
    using c chain_cong[of "xss ! q" th_next ts' ts] assms(2) by (simp add: relinked_def)
qed

lemma sq_repr_relinked:
  "sq_repr ts sq xss \<Longrightarrow> relinked M ts ts' \<Longrightarrow> M \<inter> queued xss = {} \<Longrightarrow> sq_repr ts' sq xss"
  using qrepr_relinked by (auto simp: sq_repr_def)

lemma qrepr_bound: "qrepr get ts heads xss \<Longrightarrow> x \<in> queued xss \<Longrightarrow> x < length ts"
  by (auto simp: qrepr_def in_queued intro: chain_bound)

lemma put_thread_spec:
  assumes "sq_repr ts sq xss" "t < length ts" "t \<notin> queued xss" "th_priority (ts ! t) \<le> MAX_PRIO"
  shows "\<exists>sq' ts'. put_thread t sq ts = Some (sq', ts') \<and>
    sq_repr ts' sq' (pushed (th_priority (ts ! t)) t xss) \<and> relinked {t} ts ts'"
proof -
  let ?p = "th_priority (ts ! t)"
  have r: "qrepr th_next ts (sq_queues sq) xss" "length xss = MAX_PRIO + 1" "sq_highest sq \<le> MAX_PRIO"
    "\<forall>q \<le> MAX_PRIO. sq_highest sq < q \<longrightarrow> xss ! q = []"
    using assms(1) by (simp_all add: sq_repr_def)
  define ts' where "ts' = ts[t := set_next (sq_queues sq ! ?p) (ts ! t)]"
  obtain heads' where h: "link_push set_next ?p t (sq_queues sq) ts = Some (heads', ts')"
    "qrepr th_next ts' heads' (pushed ?p t xss)"
    using sched_link.push_repr[OF r(1) _ assms(2,3), of ?p] r(2) assms(4) unfolding ts'_def by auto
  define sq' where "sq' = (if sq_highest sq < ?p then sq\<lparr>sq_queues := heads', sq_highest := ?p\<rparr> else sq\<lparr>sq_queues := heads'\<rparr>)"
  have "put_thread t sq ts = Some (sq', ts')"
    using h(1) assms(2) by (auto simp: put_thread_def push_thread_def nth_chk_def sq'_def)
  moreover have "sq_repr ts' sq' (pushed ?p t xss)"
    using h(2) r(2-4) assms(4) by (auto simp: sq_repr_def sq'_def pushed_def nth_list_update)
  ultimately show ?thesis using relinked_upd ts'_def by blast
qed

lemma pop_thread_empty:
  assumes "sq_repr ts sq xss" "h \<le> MAX_PRIO" "xss ! h = []"
  shows "pop_thread h sq ts = Some (None, sq, ts)"
  using assms sched_link.pop_empty[of ts "sq_queues sq" xss h] by (auto simp: pop_thread_def sq_repr_def)

lemma pop_thread_found:
  assumes "sq_repr ts sq xss" "h \<le> MAX_PRIO" "xss ! h = x # xs" "distinct (concat xss)"
  shows "\<exists>sq' ts'. pop_thread h sq ts = Some (Some x, sq', ts') \<and> sq_repr ts' sq' (popped h xss) \<and> relinked {x} ts ts'"
proof -
  have r: "qrepr th_next ts (sq_queues sq) xss" "length xss = MAX_PRIO + 1" "sq_highest sq \<le> MAX_PRIO"
    "\<forall>q \<le> MAX_PRIO. sq_highest sq < q \<longrightarrow> xss ! q = []"
    using assms(1) by (simp_all add: sq_repr_def)
  define ts' where "ts' = ts[x := set_next None (ts ! x)]"
  obtain heads' where h: "link_pop th_next set_next h (sq_queues sq) ts = Some (Some x, heads', ts')"
    "qrepr th_next ts' heads' (popped h xss)"
    using sched_link.pop_repr[OF r(1) _ assms(4,3)] r(2) assms(2) unfolding ts'_def by auto
  have "pop_thread h sq ts = Some (Some x, sq\<lparr>sq_queues := heads'\<rparr>, ts')" using h(1) by (simp add: pop_thread_def)
  moreover have "sq_repr ts' (sq\<lparr>sq_queues := heads'\<rparr>) (popped h xss)"
    using h(2) r(2-4) assms(2) by (auto simp: sq_repr_def popped_def nth_list_update)
  ultimately show ?thesis using relinked_upd ts'_def by blast
qed

lemma get_highest_from_spec:
  "sq_repr ts sq xss \<Longrightarrow> sq_highest sq = h \<Longrightarrow> distinct (concat xss) \<Longrightarrow>
   (\<exists>sq'. get_highest_from h sq ts = Some (None, sq', ts) \<and> sq_repr ts sq' xss \<and> queued xss = {}) \<or>
   (\<exists>p x sq' ts'. get_highest_from h sq ts = Some (Some x, sq', ts') \<and> p \<le> MAX_PRIO \<and> xss ! p \<noteq> [] \<and> x = hd (xss ! p) \<and>
      (\<forall>q \<le> MAX_PRIO. p < q \<longrightarrow> xss ! q = []) \<and> sq_repr ts' sq' (popped p xss) \<and> relinked {x} ts ts')"
proof (induction h arbitrary: sq)
  case h: 0
  then have e: "\<forall>q \<le> MAX_PRIO. 0 < q \<longrightarrow> xss ! q = []" "length xss = MAX_PRIO + 1" by (auto simp: sq_repr_def)
  show ?case
  proof (cases "xss ! 0")
    case Nil
    then have "get_highest_from 0 sq ts = Some (None, sq, ts)" using pop_thread_empty[OF h(1), of 0] by simp
    moreover have "xss ! q = []" if "q < length xss" for q using e Nil that by (cases "q = 0") auto
    then have "queued xss = {}" by (auto simp: in_queued)
    ultimately show ?thesis using h(1) by blast
  next
    case (Cons x xs)
    then obtain sq' ts' where p: "pop_thread 0 sq ts = Some (Some x, sq', ts')" "sq_repr ts' sq' (popped 0 xss)" "relinked {x} ts ts'"
      using pop_thread_found[OF h(1) _ Cons h(3)] by auto
    then have "get_highest_from 0 sq ts = Some (Some x, sq', ts')" by simp
    moreover have "0 \<le> MAX_PRIO" "xss ! 0 \<noteq> []" "x = hd (xss ! 0)" using Cons by simp_all
    ultimately show ?thesis using p(2,3) e(1) by blast
  qed
next
  case (Suc h)
  then have b: "Suc h \<le> MAX_PRIO" and e: "\<forall>q \<le> MAX_PRIO. Suc h < q \<longrightarrow> xss ! q = []" by (auto simp: sq_repr_def)
  show ?case
  proof (cases "xss ! Suc h")
    case Nil
    have "get_highest_from (Suc h) sq ts = get_highest_from h (sq\<lparr>sq_highest := h\<rparr>) ts"
      using pop_thread_empty[OF Suc.prems(1) b Nil] by simp
    moreover have "sq_repr ts (sq\<lparr>sq_highest := h\<rparr>) xss"
      using Suc.prems(1) b e Nil by (auto simp: sq_repr_def) (metis Suc_lessI)
    ultimately show ?thesis using Suc.IH[of "sq\<lparr>sq_highest := h\<rparr>"] Suc.prems(3) by (simp del: get_highest_from.simps)
  next
    case (Cons x xs)
    then obtain sq' ts' where p: "pop_thread (Suc h) sq ts = Some (Some x, sq', ts')" "sq_repr ts' sq' (popped (Suc h) xss)" "relinked {x} ts ts'"
      using pop_thread_found[OF Suc.prems(1) b Cons Suc.prems(3)] by auto
    then have "get_highest_from (Suc h) sq ts = Some (Some x, sq', ts')" by simp
    moreover have "xss ! Suc h \<noteq> []" "x = hd (xss ! Suc h)" using Cons by simp_all
    ultimately show ?thesis using p(2,3) e b by blast
  qed
qed

section \<open>The two queues of a processor\<close>

text \<open>\<open>A\<close> is what the queue in use holds, \<open>P\<close> what the other one holds.\<close>

definition sched_repr :: "thread list \<Rightarrow> scheduler \<Rightarrow> nat list list \<Rightarrow> nat list list \<Rightarrow> bool" where
  "sched_repr ts s A P \<longleftrightarrow>
     (if sc_active s then sq_repr ts (sc_active_queue s) A \<and> sq_repr ts (sc_passive_queue s) P
      else sq_repr ts (sc_passive_queue s) A \<and> sq_repr ts (sc_active_queue s) P) \<and>
     distinct (concat A) \<and> distinct (concat P) \<and> queued A \<inter> queued P = {}"

definition ready :: "thread \<Rightarrow> bool" where
  "ready x \<longleftrightarrow> th_state x = Runnable \<or> th_state x = Rebalanced"

text \<open>\<open>t\<close> is queued at a level above which nothing is ready.\<close>

definition top_ready :: "thread list \<Rightarrow> nat list list \<Rightarrow> nat \<Rightarrow> bool" where
  "top_ready ts A t \<longleftrightarrow> (\<exists>p \<le> MAX_PRIO. t \<in> set (A ! p) \<and> ready (ts ! t) \<and>
     (\<forall>q \<le> MAX_PRIO. p < q \<longrightarrow> (\<forall>u \<in> set (A ! q). \<not> ready (ts ! u))))"

definition prios_ok :: "thread list \<Rightarrow> bool" where
  "prios_ok ts \<longleftrightarrow> (\<forall>x \<in> set ts. th_priority x \<le> MAX_PRIO)"

lemma relinked_ready: "relinked M ts ts' \<Longrightarrow> i < length ts \<Longrightarrow> ready (ts' ! i) = ready (ts ! i)"
  by (simp add: ready_def relinked_fields)

lemma prios_ok_relinked:
  assumes r: "relinked M ts ts'" and p: "prios_ok ts"
  shows "prios_ok ts'"
proof -
  have "length ts' = length ts" using r by (simp add: relinked_def)
  then show ?thesis using p relinked_fields(2)[OF r] by (auto simp: prios_ok_def all_set_conv_all_nth)
qed

lemma sched_repr_length: "sched_repr ts s A P \<Longrightarrow> length A = MAX_PRIO + 1 \<and> length P = MAX_PRIO + 1"
  by (auto simp: sched_repr_def sq_repr_def split: if_splits)

lemma sched_repr_bound: "sched_repr ts s A P \<Longrightarrow> t \<in> queued A \<union> queued P \<Longrightarrow> t < length ts"
  by (auto simp: sched_repr_def sq_repr_def split: if_splits intro: qrepr_bound)

lemma sched_repr_relinked:
  "sched_repr ts s A P \<Longrightarrow> relinked M ts ts' \<Longrightarrow> M \<inter> (queued A \<union> queued P) = {} \<Longrightarrow> sched_repr ts' s A P"
  unfolding sched_repr_def by (auto intro!: sq_repr_relinked[of ts _ _ M ts'] split: if_splits)

lemma get_next_active_spec:
  assumes r: "sched_repr ts s A P"
  shows "(\<exists>s'. get_next_active s ts = Some (None, s', ts) \<and> sched_repr ts s' A P \<and> queued A = {} \<and>
      sc_active s' = sc_active s \<and> sc_idle s' = sc_idle s) \<or>
    (\<exists>p x s' ts'. get_next_active s ts = Some (Some x, s', ts') \<and> p \<le> MAX_PRIO \<and> A ! p \<noteq> [] \<and> x = hd (A ! p) \<and>
      (\<forall>q \<le> MAX_PRIO. p < q \<longrightarrow> A ! q = []) \<and> sched_repr ts' s' (popped p A) P \<and> relinked {x} ts ts' \<and>
      sc_active s' = sc_active s \<and> sc_idle s' = sc_idle s)"
proof -
  define a where "a = (if sc_active s then sc_active_queue s else sc_passive_queue s)"
  define b where "b = (if sc_active s then sc_passive_queue s else sc_active_queue s)"
  have ab: "sq_repr ts a A" "sq_repr ts b P" "distinct (concat A)" "distinct (concat P)" "queued A \<inter> queued P = {}"
    using r by (auto simp: sched_repr_def a_def b_def split: if_splits)
  have e: "get_next_active s ts = do { (r, sq, ts) \<leftarrow> get_highest a ts;
      Some (r, if sc_active s then s\<lparr>sc_active_queue := sq\<rparr> else s\<lparr>sc_passive_queue := sq\<rparr>, ts) }"
    by (simp add: get_next_active_def a_def)
  from get_highest_from_spec[OF ab(1) refl ab(3)] consider
    (none) sq' where "get_highest a ts = Some (None, sq', ts)" "sq_repr ts sq' A" "queued A = {}"
  | (some) p x sq' ts' where "get_highest a ts = Some (Some x, sq', ts')" "p \<le> MAX_PRIO" "A ! p \<noteq> []" "x = hd (A ! p)"
      "\<forall>q \<le> MAX_PRIO. p < q \<longrightarrow> A ! q = []" "sq_repr ts' sq' (popped p A)" "relinked {x} ts ts'"
    unfolding get_highest_def by blast
  then show ?thesis
  proof cases
    case none
    then show ?thesis using ab(2-5) by (auto simp: e sched_repr_def b_def)
  next
    case some
    have l: "p < length A" using ab(1) some(2) by (simp add: sq_repr_def)
    obtain xs where xs: "A ! p = x # xs" using some(3,4) by (cases "A ! p") auto
    note pf = popped_facts[OF l ab(3) xs]
    have "sq_repr ts' b P"
      using sq_repr_relinked[OF ab(2) some(7)] pf(3) ab(5) by auto
    then have "sched_repr ts' (if sc_active s then s\<lparr>sc_active_queue := sq'\<rparr> else s\<lparr>sc_passive_queue := sq'\<rparr>) (popped p A) P"
      using some(6) pf(1,2) ab(4,5) by (auto simp: sched_repr_def b_def)
    then show ?thesis using some by (auto simp: e intro!: exI[of _ p])
  qed
qed

lemma put_passive_spec:
  assumes r: "sched_repr ts s A P" and t: "t < length ts" "t \<notin> queued A" "t \<notin> queued P" and p: "th_priority (ts ! t) \<le> MAX_PRIO"
  shows "\<exists>s' ts'. put_thread_in_passive t s ts = Some (s', ts') \<and>
    sched_repr ts' s' A (pushed (th_priority (ts ! t)) t P) \<and> relinked {t} ts ts' \<and>
    sc_active s' = sc_active s \<and> sc_idle s' = sc_idle s"
proof -
  define a where "a = (if sc_active s then sc_active_queue s else sc_passive_queue s)"
  define b where "b = (if sc_active s then sc_passive_queue s else sc_active_queue s)"
  have ab: "sq_repr ts a A" "sq_repr ts b P" "distinct (concat A)" "distinct (concat P)" "queued A \<inter> queued P = {}"
    using r by (auto simp: sched_repr_def a_def b_def split: if_splits)
  have e: "put_thread_in_passive t s ts = do { (sq, ts) \<leftarrow> put_thread t b ts;
      Some (if sc_active s then s\<lparr>sc_passive_queue := sq\<rparr> else s\<lparr>sc_active_queue := sq\<rparr>, ts) }"
    by (simp add: put_thread_in_passive_def b_def)
  obtain sq' ts' where q: "put_thread t b ts = Some (sq', ts')"
    "sq_repr ts' sq' (pushed (th_priority (ts ! t)) t P)" "relinked {t} ts ts'"
    using put_thread_spec[OF ab(2) t(1,3) p] by blast
  have l: "th_priority (ts ! t) < length P" using ab(2) p by (simp add: sq_repr_def)
  have "sq_repr ts' a A" using sq_repr_relinked[OF ab(1) q(3)] t(2) by auto
  then have "sched_repr ts' (if sc_active s then s\<lparr>sc_passive_queue := sq'\<rparr> else s\<lparr>sc_active_queue := sq'\<rparr>) A
      (pushed (th_priority (ts ! t)) t P)"
    using q(2) ab(3-5) t(2) distinct_pushed[OF l ab(4) t(3)] queued_pushed[OF l, of t]
    by (auto simp: sched_repr_def a_def)
  then show ?thesis using q(1,3) by (auto simp: e)
qed

section \<open>Choosing the next thread\<close>

definition next_found :: "thread list \<Rightarrow> nat list list \<Rightarrow> nat list list \<Rightarrow> nat \<Rightarrow> nat list list \<Rightarrow> nat list list \<Rightarrow> bool" where
  "next_found ts A P t A' P' \<longleftrightarrow>
     top_ready ts A t \<and> queued A' \<union> queued P' = queued A \<union> queued P - {t} \<and> t \<in> queued A"

definition next_none :: "thread list \<Rightarrow> nat list list \<Rightarrow> nat list list \<Rightarrow> nat list list \<Rightarrow> nat list list \<Rightarrow> bool" where
  "next_none ts A P A' P' \<longleftrightarrow>
     queued A' = {} \<and> queued P' = queued A \<union> queued P \<and> (\<forall>u \<in> queued A. \<not> ready (ts ! u))"

definition same_cpu :: "scheduler \<Rightarrow> scheduler \<Rightarrow> bool" where
  "same_cpu s s' \<longleftrightarrow> sc_idle s' = sc_idle s \<and> sc_active s' = sc_active s"

lemma top_ready_popped:
  assumes "top_ready ts (popped p A) t" "p < length A" "length A = MAX_PRIO + 1" "A ! p = x # xs" "\<not> ready (ts ! x)"
  shows "top_ready ts A t"
proof -
  obtain r where r: "r \<le> MAX_PRIO" "t \<in> set (popped p A ! r)" "ready (ts ! t)"
    "\<forall>q \<le> MAX_PRIO. r < q \<longrightarrow> (\<forall>u \<in> set (popped p A ! q). \<not> ready (ts ! u))"
    using assms(1) by (auto simp: top_ready_def)
  have m: "set (A ! q) \<subseteq> insert x (set (popped p A ! q))" for q
    using assms(2,4) by (auto simp: popped_def nth_list_update)
  have "t \<in> set (A ! r)" using r(2) assms(2,4) by (auto simp: popped_def nth_list_update split: if_splits)
  moreover have "\<not> ready (ts ! u)" if "q \<le> MAX_PRIO" "r < q" "u \<in> set (A ! q)" for q u
    using r(4) that m[of q] assms(5) by blast
  ultimately show ?thesis using r(1,3) unfolding top_ready_def by blast
qed

lemma top_ready_relinked:
  assumes "top_ready ts' A t" "relinked M ts ts'" "\<forall>u \<in> queued A. u < length ts" "length A = MAX_PRIO + 1"
  shows "top_ready ts A t"
proof -
  have "ready (ts' ! u) = ready (ts ! u)" if "u \<in> set (A ! q)" "q \<le> MAX_PRIO" for u q
  proof -
    have "q < length A" using that(2) assms(4) by simp
    then have "u \<in> queued A" using that(1) unfolding in_queued by blast
    then show ?thesis using relinked_ready[OF assms(2)] assms(3) by blast
  qed
  then show ?thesis using assms(1) unfolding top_ready_def by metis
qed

lemma next_after_skip:
  assumes p: "p < length A" "length A = MAX_PRIO + 1" and dA: "distinct (concat A)" "queued A \<inter> queued P = {}" and xs: "A ! p = x # xs"
    and rl: "relinked {x} ts ts2" and b: "\<forall>u \<in> queued A. u < length ts" and nr: "\<not> ready (ts ! x)"
    and P1: "queued P1 = insert x (queued P)"
    and IH: "case r of None \<Rightarrow> next_none ts2 (popped p A) P1 A' P' | Some t \<Rightarrow> next_found ts2 (popped p A) P1 t A' P'"
  shows "case r of None \<Rightarrow> next_none ts A P A' P' | Some t \<Rightarrow> next_found ts A P t A' P'"
proof -
  note pf = popped_facts[OF p(1) dA(1) xs]
  show ?thesis
  proof (cases r)
    case None
    then have n: "queued A' = {}" "queued P' = queued (popped p A) \<union> queued P1"
      "\<forall>u \<in> queued (popped p A). \<not> ready (ts2 ! u)" using IH by (simp_all add: next_none_def)
    have "\<not> ready (ts ! u)" if "u \<in> queued A" for u
      using that n(3) nr relinked_ready[OF rl] b pf(2) by auto
    then show ?thesis using None n(1,2) pf(2,3) P1 by (auto simp: next_none_def)
  next
    case (Some t)
    then have n: "top_ready ts2 (popped p A) t" "t \<in> queued (popped p A)"
      "queued A' \<union> queued P' = queued (popped p A) \<union> queued P1 - {t}" using IH by (simp_all add: next_found_def)
    have "top_ready ts (popped p A) t" using top_ready_relinked[OF n(1) rl] b pf(2) p(2) by simp
    then have "top_ready ts A t" using top_ready_popped p xs nr by blast
    then show ?thesis using Some n(2,3) pf(2,3) P1 by (auto simp: next_found_def)
  qed
qed

definition next_post :: "thread list \<Rightarrow> scheduler \<Rightarrow> nat list list \<Rightarrow> nat list list \<Rightarrow> nat option \<Rightarrow> scheduler \<Rightarrow> thread list \<Rightarrow> bool" where
  "next_post ts s A P r s' ts' \<longleftrightarrow> (\<exists>A' P'. sched_repr ts' s' A' P' \<and>
     relinked (queued A \<union> queued P) ts ts' \<and> same_cpu s s' \<and>
     (case r of None \<Rightarrow> next_none ts A P A' P' | Some t \<Rightarrow> next_found ts A P t A' P'))"

lemma next_post_skip:
  assumes p: "p < length A" "length A = MAX_PRIO + 1" and dA: "distinct (concat A)" "queued A \<inter> queued P = {}" and xs: "A ! p = x # xs"
    and rl: "relinked {x} ts ts2" and b: "\<forall>u \<in> queued A. u < length ts" and nr: "\<not> ready (ts ! x)"
    and P1: "queued P1 = insert x (queued P)" and sc: "same_cpu s s2"
    and IH: "next_post ts2 s2 (popped p A) P1 r s' ts'"
  shows "next_post ts s A P r s' ts'"
proof -
  obtain A' P' where i: "sched_repr ts' s' A' P'" "relinked (queued (popped p A) \<union> queued P1) ts2 ts'" "same_cpu s2 s'"
    "case r of None \<Rightarrow> next_none ts2 (popped p A) P1 A' P' | Some t \<Rightarrow> next_found ts2 (popped p A) P1 t A' P'"
    using IH unfolding next_post_def by blast
  have "relinked (queued A \<union> queued P) ts ts'"
    using popped_facts(2,3)[OF p(1) dA(1) xs] P1 by (intro relinked_mono[OF relinked_trans[OF rl i(2)]]) auto
  moreover have "same_cpu s s'" using sc i(3) by (simp add: same_cpu_def)
  moreover note next_after_skip[OF p dA xs rl b nr P1 i(4)] i(1)
  ultimately show ?thesis unfolding next_post_def by blast
qed

lemma shorter_popped:
  assumes "q < length xss" "xss ! q = x # xs"
  shows "length (concat (popped q xss)) < length (concat xss)"
proof -
  have "concat xss = concat (take q xss) @ (x # xs) @ concat (drop (Suc q) xss)"
    using id_take_nth_drop[OF assms(1)] assms(2) by (metis concat.simps(2) concat_append)
  moreover have "concat (popped q xss) = concat (take q xss) @ xs @ concat (drop (Suc q) xss)"
    using assms by (simp add: popped_def upd_conv_take_nth_drop)
  ultimately show ?thesis by simp
qed

lemma get_next_spec:
  assumes "sched_repr ts s A P" "prios_ok ts"
  shows "\<exists>r s' ts'. get_next s ts = Some (r, s', ts') \<and> next_post ts s A P r s' ts'"
  using assms
proof (induction "length (concat A)" arbitrary: ts s A P rule: less_induct)
  case less
  note r = less.prems(1)
  from get_next_active_spec[OF r] show ?case
  proof (elim disjE exE conjE)
    fix s' assume g: "get_next_active s ts = Some (None, s', ts)" "sched_repr ts s' A P" "queued A = {}"
      "sc_active s' = sc_active s" "sc_idle s' = sc_idle s"
    have "get_next s ts = Some (None, s', ts)" using g(1) by (subst get_next.simps) simp
    moreover have "next_none ts A P A P" "same_cpu s s'" using g(3-5) by (simp_all add: next_none_def same_cpu_def)
    then have "next_post ts s A P None s' ts" using g(2) unfolding next_post_def by auto
    ultimately show ?thesis by blast
  next
    fix p x s1 ts1
    assume g: "get_next_active s ts = Some (Some x, s1, ts1)" "p \<le> MAX_PRIO" "A ! p \<noteq> []" "x = hd (A ! p)"
      "\<forall>q \<le> MAX_PRIO. p < q \<longrightarrow> A ! q = []" "sched_repr ts1 s1 (popped p A) P" "relinked {x} ts ts1"
      "sc_active s1 = sc_active s" "sc_idle s1 = sc_idle s"
    have lA: "length A = MAX_PRIO + 1" "length P = MAX_PRIO + 1" using sched_repr_length[OF r] by simp_all
    then have p: "p < length A" using g(2) by simp
    obtain xs where xs: "A ! p = x # xs" using g(3,4) by (cases "A ! p") auto
    have dA: "distinct (concat A)" "queued A \<inter> queued P = {}" using r by (simp_all add: sched_repr_def)
    note pf = popped_facts[OF p dA(1) xs]
    have x: "x < length ts" using sched_repr_bound[OF r] pf(3) by blast
    have l1: "length ts1 = length ts" using g(7) by (simp add: relinked_def)
    have rd: "ready (ts1 ! x) = ready (ts ! x)" using relinked_ready[OF g(7) x] .
    show ?thesis
    proof (cases "ready (ts ! x)")
      case True
      then have "get_next s ts = Some (Some x, s1, ts1)"
        using rd x l1 g(1) by (subst get_next.simps) (simp add: nth_chk_def ready_def)
      moreover have "top_ready ts A x" unfolding top_ready_def using True g(2,5) xs by force
      then have "next_found ts A P x (popped p A) P"
        using pf(2,3) dA(2) by (auto simp: next_found_def)
      moreover have "relinked (queued A \<union> queued P) ts ts1" using pf(3) by (intro relinked_mono[OF g(7)]) simp
      moreover have "same_cpu s s1" using g(8,9) by (simp add: same_cpu_def)
      ultimately show ?thesis using g(6) unfolding next_post_def by fastforce
    next
      case False
      have pr: "prios_ok ts1" using prios_ok_relinked[OF g(7) less.prems(2)] .
      have pp: "th_priority (ts1 ! x) \<le> MAX_PRIO" using pr x l1 by (simp add: prios_ok_def)
      have xP: "x \<notin> queued P" "x \<notin> queued (popped p A)" using pf(2,3) dA(2) by auto
      define P1 where "P1 = pushed (th_priority (ts1 ! x)) x P"
      obtain s2 ts2 where q: "put_thread_in_passive x s1 ts1 = Some (s2, ts2)" "sched_repr ts2 s2 (popped p A) P1"
        "relinked {x} ts1 ts2" "sc_active s2 = sc_active s1" "sc_idle s2 = sc_idle s1"
        using put_passive_spec[OF g(6) _ xP(2,1) pp] x l1 unfolding P1_def by auto
      have P1: "queued P1 = insert x (queued P)" unfolding P1_def using queued_pushed pp lA(2) by simp
      have rl: "relinked {x} ts ts2" using relinked_trans[OF g(7) q(3)] by simp
      have sz: "length (concat (popped p A)) < length (concat A)" using shorter_popped[OF p xs] .
      obtain r s' ts' where IH: "get_next s2 ts2 = Some (r, s', ts')" "next_post ts2 s2 (popped p A) P1 r s' ts'"
        using less.hyps[OF sz q(2) prios_ok_relinked[OF rl less.prems(2)]] by blast
      have "get_next s ts = Some (r, s', ts')"
        using False rd x l1 g(1) q(1) IH(1) by (subst get_next.simps) (simp add: nth_chk_def ready_def)
      moreover have sc: "same_cpu s s2" using q(4,5) g(8,9) by (simp add: same_cpu_def)
      have "next_post ts s A P r s' ts'"
        using next_post_skip[OF p lA(1) dA xs rl _ False P1 sc IH(2)] sched_repr_bound[OF r] by blast
      ultimately show ?thesis by blast
    qed
  qed
qed

definition sched_post :: "thread list \<Rightarrow> scheduler \<Rightarrow> nat list list \<Rightarrow> nat list list \<Rightarrow> nat option \<Rightarrow> scheduler \<Rightarrow> thread list \<Rightarrow>
    nat list list \<Rightarrow> nat list list \<Rightarrow> bool" where
  "sched_post ts s A P r s' ts' A' P' \<longleftrightarrow> sched_repr ts' s' A' P' \<and>
     relinked (queued A \<union> queued P) ts ts' \<and> sc_idle s' = sc_idle s \<and>
     (case r of
        None \<Rightarrow> queued A' \<union> queued P' = queued A \<union> queued P \<and> (\<forall>u \<in> queued A \<union> queued P. \<not> ready (ts ! u))
      | Some t \<Rightarrow> t \<in> queued A \<union> queued P \<and> queued A' \<union> queued P' = queued A \<union> queued P - {t} \<and> ready (ts ! t) \<and>
          ((\<exists>u \<in> queued A. ready (ts ! u)) \<longrightarrow> top_ready ts A t))"

lemma sched_repr_flip: "sched_repr ts s A P \<Longrightarrow> sched_repr ts (flip_queues s) P A"
  by (auto simp: sched_repr_def flip_queues_def)

lemma top_ready_in: "top_ready ts A t \<Longrightarrow> ready (ts ! t)"
  by (auto simp: top_ready_def)

lemma sched_next_spec:
  assumes r: "sched_repr ts s A P" and pr: "prios_ok ts"
  shows "\<exists>r s' ts' A' P'. sched_next s ts = Some (r, s', ts') \<and> sched_post ts s A P r s' ts' A' P'"
proof -
  obtain r1 s1 ts1 A1 P1 where g: "get_next s ts = Some (r1, s1, ts1)" "sched_repr ts1 s1 A1 P1"
    "relinked (queued A \<union> queued P) ts ts1" "same_cpu s s1"
    "case r1 of None \<Rightarrow> next_none ts A P A1 P1 | Some t \<Rightarrow> next_found ts A P t A1 P1"
    using get_next_spec[OF r pr] unfolding next_post_def by blast
  show ?thesis
  proof (cases r1)
    case (Some t)
    then have n: "sched_next s ts = Some (Some t, s1, ts1)" "next_found ts A P t A1 P1" using g(1,5) by (simp_all add: sched_next_def)
    moreover have "ready (ts ! t)" using n(2) top_ready_in by (auto simp: next_found_def)
    then have "sched_post ts s A P (Some t) s1 ts1 A1 P1"
      using n(2) g(2-4) unfolding sched_post_def by (simp add: next_found_def same_cpu_def)
    ultimately show ?thesis by blast
  next
    case None
    then have n: "sched_next s ts = get_next (flip_queues s1) ts1" "queued A1 = {}" "queued P1 = queued A \<union> queued P"
      "\<forall>u \<in> queued A. \<not> ready (ts ! u)" using g(1,5) by (simp_all add: sched_next_def next_none_def)
    obtain r2 s2 ts2 A2 P2 where h: "get_next (flip_queues s1) ts1 = Some (r2, s2, ts2)" "sched_repr ts2 s2 A2 P2"
      "relinked (queued P1 \<union> queued A1) ts1 ts2" "same_cpu (flip_queues s1) s2"
      "case r2 of None \<Rightarrow> next_none ts1 P1 A1 A2 P2 | Some t \<Rightarrow> next_found ts1 P1 A1 t A2 P2"
      using get_next_spec[OF sched_repr_flip[OF g(2)] prios_ok_relinked[OF g(3) pr]] unfolding next_post_def by blast
    have rl: "relinked (queued A \<union> queued P) ts ts2" using relinked_trans[OF g(3) h(3)] n(2,3) by simp
    have idle: "sc_idle s2 = sc_idle s" using h(4) g(4) by (simp add: same_cpu_def flip_queues_def)
    have rd: "ready (ts1 ! u) = ready (ts ! u)" if "u \<in> queued A \<union> queued P" for u
      using relinked_ready[OF g(3) sched_repr_bound[OF r that]] .
    have "sched_post ts s A P r2 s2 ts2 A2 P2"
    proof (cases r2)
      case None
      then have m: "queued A2 = {}" "queued P2 = queued P1 \<union> queued A1" "\<forall>u \<in> queued P1. \<not> ready (ts1 ! u)"
        using h(5) by (simp_all add: next_none_def)
      then show ?thesis using None rl idle h(2) n(2,3) rd by (simp add: sched_post_def)
    next
      case (Some t)
      then have m: "top_ready ts1 P1 t" "queued A2 \<union> queued P2 = queued P1 \<union> queued A1 - {t}" "t \<in> queued P1"
        using h(5) by (simp_all add: next_found_def)
      then show ?thesis using Some rl idle h(2) n(2-4) rd top_ready_in[OF m(1)] by (auto simp: sched_post_def)
    qed
    then show ?thesis using n(1) h(1) by fastforce
  qed
qed

end
