(* ===== verification/Sched_System.thy ===== *)
theory Sched_System
  imports Sched_Spec
begin

text \<open>
  The scheduler of the whole machine, \<^verbatim>\<open>src/kernel/src/thread.rs\<close>: where every thread is, and that
  scheduling, moving threads between processors and the thread system calls keep it so.
\<close>

section \<open>All processors\<close>

text \<open>
  Every thread that is not an idle thread is in exactly one place: in the queues of a processor, in
  a rebalance queue, current on a processor, or in the hands of the scheduler.
\<close>

datatype place = On nat | Moving | Cur nat | Held

definition worker :: "thread list \<Rightarrow> nat \<Rightarrow> bool" where
  "worker ts t \<longleftrightarrow> t < length ts \<and> th_state (ts ! t) \<noteq> Idle"

definition at :: "thread list \<Rightarrow> (nat \<Rightarrow> place) \<Rightarrow> place \<Rightarrow> nat set" where
  "at ts loc pl = {t. worker ts t \<and> loc t = pl}"

definition queues_ok :: "thread list \<Rightarrow> scheduler \<Rightarrow> nat set \<Rightarrow> bool" where
  "queues_ok ts s T \<longleftrightarrow> (\<exists>A P. sched_repr ts s A P \<and> queued A \<union> queued P = T)"

text \<open>The idle thread \<open>i\<close> runs, or it is in its slot and another thread runs.\<close>

definition current_ok :: "cpu \<Rightarrow> nat set \<Rightarrow> nat \<Rightarrow> bool" where
  "current_ok x T i \<longleftrightarrow> sc_idle (cpu_sched x) \<in> {None, Some i} \<and>
     (cpu_current x = Some i \<and> T = {} \<or>
      (\<exists>t. cpu_current x = Some t \<and> T = {t}) \<and> sc_idle (cpu_sched x) = Some i)"

definition rb_ok :: "thread list \<Rightarrow> nat option list \<Rightarrow> nat set \<Rightarrow> bool" where
  "rb_ok ts qs T \<longleftrightarrow> (\<exists>R. qrepr th_next ts qs R \<and> length R = MAX_CPUS \<and> distinct (concat R) \<and> queued R = T)"

definition affs_ok :: "thread list \<Rightarrow> bool" where
  "affs_ok ts \<longleftrightarrow> (\<forall>x \<in> set ts. th_affinity x < MAX_CPUS)"

definition threads_ok :: "kthreads \<Rightarrow> (nat \<Rightarrow> place) \<Rightarrow> (nat \<Rightarrow> nat) \<Rightarrow> bool" where
  "threads_ok k loc I \<longleftrightarrow>
     prios_ok (kt_threads k) \<and> affs_ok (kt_threads k) \<and>
     length (kt_cpus k) \<le> MAX_CPUS \<and> length (kt_rb_flags k) = MAX_CPUS \<and>
     (\<forall>c < length (kt_cpus k). I c < length (kt_threads k)) \<and> inj_on I {..<length (kt_cpus k)} \<and>
     (\<forall>t < length (kt_threads k). th_state (kt_threads k ! t) = Idle \<longleftrightarrow> t \<in> I ` {..<length (kt_cpus k)}) \<and>
     (\<forall>t. worker (kt_threads k) t \<longrightarrow> loc t \<in> On ` {..<length (kt_cpus k)} \<union> Cur ` {..<length (kt_cpus k)} \<union> {Moving, Held})"

definition placed :: "kthreads \<Rightarrow> (nat \<Rightarrow> place) \<Rightarrow> (nat \<Rightarrow> nat) \<Rightarrow> bool" where
  "placed k loc I \<longleftrightarrow> threads_ok k loc I \<and>
     (\<forall>c < length (kt_cpus k). queues_ok (kt_threads k) (cpu_sched (kt_cpus k ! c)) (at (kt_threads k) loc (On c)) \<and>
        current_ok (kt_cpus k ! c) (at (kt_threads k) loc (Cur c)) (I c)) \<and>
     rb_ok (kt_threads k) (kt_rb_queues k) (at (kt_threads k) loc Moving)"

definition kinv :: "kthreads \<Rightarrow> bool" where
  "kinv k \<longleftrightarrow> (\<exists>loc I. placed k loc I \<and> at (kt_threads k) loc Held = {})"

text \<open>What an update of the threads leaves alone: links outside \<open>M\<close> and who is an idle thread.\<close>

definition compat :: "nat set \<Rightarrow> thread list \<Rightarrow> thread list \<Rightarrow> bool" where
  "compat M ts ts' \<longleftrightarrow> length ts' = length ts \<and> (\<forall>i < length ts. (i \<notin> M \<longrightarrow> th_next (ts' ! i) = th_next (ts ! i)) \<and>
     (th_state (ts' ! i) = Idle \<longleftrightarrow> th_state (ts ! i) = Idle))"

lemma compat_relinked:
  assumes "relinked M ts ts'"
  shows "compat M ts ts'"
  unfolding compat_def using assms relinked_fields(1)[OF assms] by (simp add: relinked_def)

lemma compat_worker: "compat M ts ts' \<Longrightarrow> worker ts' = worker ts"
  by (auto simp: compat_def worker_def fun_eq_iff)

lemma compat_at: "compat M ts ts' \<Longrightarrow> at ts' = at ts"
  by (auto simp: at_def fun_eq_iff compat_worker)

lemma qrepr_compat:
  assumes "qrepr th_next ts heads xss" "compat M ts ts'" "M \<inter> queued xss = {}"
  shows "qrepr th_next ts' heads xss"
  unfolding qrepr_def
proof (intro conjI allI impI)
  show "length heads = length xss" using assms(1) by (simp add: qrepr_def)
  fix q assume q: "q < length xss"
  then have c: "chain th_next ts (heads ! q) (xss ! q)" using assms(1) by (simp add: qrepr_def)
  have "th_next (ts' ! x) = th_next (ts ! x)" if "x \<in> set (xss ! q)" for x
  proof -
    have "x \<in> queued xss" using that q by (auto simp: in_queued)
    then have "x \<notin> M" using assms(3) by auto
    then show ?thesis using assms(2) chain_bound[OF c that] by (simp add: compat_def)
  qed
  then show "chain th_next ts' (heads ! q) (xss ! q)"
    using c chain_cong[of "xss ! q" th_next ts' ts] assms(2) by (simp add: compat_def)
qed

lemma queues_ok_compat:
  assumes "queues_ok ts s T" "compat M ts ts'" "M \<inter> T = {}"
  shows "queues_ok ts' s T"
proof -
  obtain A P where "sched_repr ts s A P" "queued A \<union> queued P = T" using assms(1) by (auto simp: queues_ok_def)
  then show ?thesis
    using qrepr_compat[OF _ assms(2)] assms(3) unfolding queues_ok_def sched_repr_def sq_repr_def
    by (intro exI[of _ A] exI[of _ P]) (auto split: if_splits)
qed

lemma rb_ok_compat: "rb_ok ts qs T \<Longrightarrow> compat M ts ts' \<Longrightarrow> M \<inter> T = {} \<Longrightarrow> rb_ok ts' qs T"
  using qrepr_compat by (fastforce simp: rb_ok_def)

lemma affs_ok_relinked:
  assumes r: "relinked M ts ts'" and p: "affs_ok ts"
  shows "affs_ok ts'"
proof -
  have "length ts' = length ts" using r by (simp add: relinked_def)
  then show ?thesis using p relinked_fields(3)[OF r] by (auto simp: affs_ok_def all_set_conv_all_nth)
qed

lemma threads_ok_compat:
  assumes "threads_ok k loc I" "compat M (kt_threads k) (kt_threads k')" "length (kt_cpus k') = length (kt_cpus k)"
    "length (kt_rb_flags k') = length (kt_rb_flags k)" "prios_ok (kt_threads k')" "affs_ok (kt_threads k')"
    "\<And>t. worker (kt_threads k) t \<Longrightarrow> loc' t = loc t \<or> loc' t \<in> On ` {..<length (kt_cpus k)} \<union> Cur ` {..<length (kt_cpus k)} \<union> {Moving, Held}"
  shows "threads_ok k' loc' I"
proof -
  have w: "worker (kt_threads k') = worker (kt_threads k)" using compat_worker[OF assms(2)] .
  have l: "length (kt_threads k') = length (kt_threads k)" using assms(2) by (simp add: compat_def)
  have st: "th_state (kt_threads k' ! t) = Idle \<longleftrightarrow> th_state (kt_threads k ! t) = Idle" if "t < length (kt_threads k)" for t
    using assms(2) that by (simp add: compat_def)
  have "loc' t \<in> On ` {..<length (kt_cpus k)} \<union> Cur ` {..<length (kt_cpus k)} \<union> {Moving, Held}" if "worker (kt_threads k) t" for t
    using assms(1) assms(7)[OF that] that unfolding threads_ok_def by metis
  then show ?thesis using assms(1,3-6) st unfolding threads_ok_def w l by simp
qed

lemma placed_sched:
  assumes pl: "placed k loc I" and c: "c < length (kt_cpus k)" and cm: "compat M (kt_threads k) ts'"
    and M: "M \<subseteq> at (kt_threads k) loc (On c) \<union> at (kt_threads k) loc Held"
    and ok: "prios_ok ts'" "affs_ok ts'" and q: "queues_ok ts' s' (at (kt_threads k) loc' (On c))"
    and idle: "sc_idle s' = sc_idle (cpu_sched (kt_cpus k ! c))"
    and moved: "\<And>t. worker (kt_threads k) t \<Longrightarrow> loc' t = loc t \<or> loc t \<in> {On c, Held} \<and> loc' t \<in> {On c, Held}"
  shows "placed (k\<lparr>kt_cpus := (kt_cpus k)[c := (kt_cpus k ! c)\<lparr>cpu_sched := s'\<rparr>], kt_threads := ts'\<rparr>) loc' I"
proof -
  let ?ts = "kt_threads k" and ?k = "k\<lparr>kt_cpus := (kt_cpus k)[c := (kt_cpus k ! c)\<lparr>cpu_sched := s'\<rparr>], kt_threads := ts'\<rparr>"
  have at: "at ts' = at ?ts" using compat_at[OF cm] .
  have same: "at ?ts loc' p = at ?ts loc p" if "p \<noteq> On c" "p \<noteq> Held" for p
    using moved that unfolding at_def by (metis (no_types, opaque_lifting) insertE singletonD)
  have t: "threads_ok k loc I" using pl by (simp add: placed_def)
  have "threads_ok ?k loc' I"
    using threads_ok_compat[OF t, of M ?k loc'] cm ok moved c by fastforce
  moreover have "queues_ok ts' (cpu_sched (kt_cpus ?k ! d)) (at ?ts loc' (On d)) \<and> current_ok (kt_cpus ?k ! d) (at ?ts loc' (Cur d)) (I d)"
    if d: "d < length (kt_cpus k)" for d
  proof -
    have o: "queues_ok ?ts (cpu_sched (kt_cpus k ! d)) (at ?ts loc (On d))" "current_ok (kt_cpus k ! d) (at ?ts loc (Cur d)) (I d)"
      using pl d by (simp_all add: placed_def)
    show ?thesis
    proof (cases "d = c")
      case True
      then show ?thesis using q o(2) idle c same by (simp add: current_ok_def)
    next
      case False
      have "M \<inter> at ?ts loc (On d) = {}" using M False by (auto simp: at_def)
      then have "queues_ok ts' (cpu_sched (kt_cpus k ! d)) (at ?ts loc (On d))" using queues_ok_compat[OF o(1) cm] by blast
      then show ?thesis using o(2) False same by simp
    qed
  qed
  moreover have "M \<inter> at ?ts loc Moving = {}" using M by (auto simp: at_def)
  then have "rb_ok ts' (kt_rb_queues k) (at ?ts loc' Moving)"
    using pl rb_ok_compat[OF _ cm] same by (simp add: placed_def)
  ultimately show ?thesis unfolding placed_def by (simp add: at)
qed

lemma set_sched_eq:
  "c < length (kt_cpus k) \<Longrightarrow>
   set_sched c s ts k = Some (k\<lparr>kt_cpus := (kt_cpus k)[c := (kt_cpus k ! c)\<lparr>cpu_sched := s\<rparr>], kt_threads := ts\<rparr>)"
  by (simp add: set_sched_def modify_chk_def)

text \<open>Scheduling relinks threads and leaves the running ones where they are.\<close>

definition kframe :: "kthreads \<Rightarrow> kthreads \<Rightarrow> bool" where
  "kframe k k' \<longleftrightarrow> relinked UNIV (kt_threads k) (kt_threads k') \<and> map cpu_current (kt_cpus k') = map cpu_current (kt_cpus k)"

lemma kframe_trans: "kframe k k' \<Longrightarrow> kframe k' k'' \<Longrightarrow> kframe k k''"
  using relinked_trans[of UNIV _ _ UNIV] by (auto simp: kframe_def)

lemma kframe_length:
  "kframe k k' \<Longrightarrow> length (kt_cpus k') = length (kt_cpus k) \<and> length (kt_threads k') = length (kt_threads k)"
  by (auto simp: kframe_def relinked_def dest: map_eq_imp_length_eq)

lemma kframe_sched:
  assumes "relinked M (kt_threads k) ts'"
  shows "kframe k (k\<lparr>kt_cpus := (kt_cpus k)[c := (kt_cpus k ! c)\<lparr>cpu_sched := s'\<rparr>], kt_threads := ts'\<rparr>)"
proof -
  have "map cpu_current ((kt_cpus k)[c := (kt_cpus k ! c)\<lparr>cpu_sched := s'\<rparr>]) = map cpu_current (kt_cpus k)"
    by (cases "c < length (kt_cpus k)") (auto simp: list_eq_iff_nth_eq nth_list_update)
  then show ?thesis using relinked_mono[OF assms, of UNIV] by (simp add: kframe_def)
qed

lemma placedD:
  assumes "placed k loc I"
  shows "prios_ok (kt_threads k)" "affs_ok (kt_threads k)" "length (kt_cpus k) \<le> MAX_CPUS" "length (kt_rb_flags k) = MAX_CPUS"
    "c < length (kt_cpus k) \<Longrightarrow> queues_ok (kt_threads k) (cpu_sched (kt_cpus k ! c)) (at (kt_threads k) loc (On c))"
    "c < length (kt_cpus k) \<Longrightarrow> current_ok (kt_cpus k ! c) (at (kt_threads k) loc (Cur c)) (I c)"
    "rb_ok (kt_threads k) (kt_rb_queues k) (at (kt_threads k) loc Moving)"
  using assms by (simp_all add: placed_def threads_ok_def)

lemma at_upd:
  "at ts (loc(t := p)) q = (if worker ts t \<and> p = q then insert t (at ts loc q) else at ts loc q - {t})"
  by (auto simp: at_def)

lemma next_on_spec:
  assumes pl: "placed k loc I" and c: "c < length (kt_cpus k)"
  shows "\<exists>r k'. next_on c k = Some (r, k') \<and> kframe k k' \<and>
    (case r of
       None \<Rightarrow> placed k' loc I \<and> (\<forall>t \<in> at (kt_threads k) loc (On c). \<not> ready (kt_threads k ! t))
     | Some t \<Rightarrow> t \<in> at (kt_threads k) loc (On c) \<and> ready (kt_threads k ! t) \<and> placed k' (loc(t := Held)) I)"
proof -
  let ?ts = "kt_threads k" and ?s = "cpu_sched (kt_cpus k ! c)"
  obtain A P where q: "sched_repr ?ts ?s A P" "queued A \<union> queued P = at ?ts loc (On c)"
    using placedD(5)[OF pl c] by (auto simp: queues_ok_def)
  obtain r s' ts' A' P' where n: "sched_next ?s ?ts = Some (r, s', ts')" "sched_post ?ts ?s A P r s' ts' A' P'"
    using sched_next_spec[OF q(1) placedD(1)[OF pl]] by blast
  then have m: "sched_repr ts' s' A' P'" "relinked (at ?ts loc (On c)) ?ts ts'" "sc_idle s' = sc_idle ?s"
    using q(2) by (simp_all add: sched_post_def)
  define k' where "k' = k\<lparr>kt_cpus := (kt_cpus k)[c := (kt_cpus k ! c)\<lparr>cpu_sched := s'\<rparr>], kt_threads := ts'\<rparr>"
  have e: "next_on c k = Some (r, k')" using n(1) c by (simp add: next_on_def nth_chk_def set_sched_eq k'_def)
  note ps = placed_sched[OF pl c compat_relinked[OF m(2)] _ prios_ok_relinked[OF m(2) placedD(1)[OF pl]]
      affs_ok_relinked[OF m(2) placedD(2)[OF pl]] _ m(3), folded k'_def]
  have "case r of None \<Rightarrow> placed k' loc I \<and> (\<forall>t \<in> at ?ts loc (On c). \<not> ready (?ts ! t))
     | Some t \<Rightarrow> t \<in> at ?ts loc (On c) \<and> ready (?ts ! t) \<and> placed k' (loc(t := Held)) I"
  proof (cases r)
    case None
    then have d: "queued A' \<union> queued P' = at ?ts loc (On c)" "\<forall>t \<in> at ?ts loc (On c). \<not> ready (?ts ! t)"
      using n(2) q(2) by (simp_all add: sched_post_def)
    have "queues_ok ts' s' (at ?ts loc (On c))" using m(1) d(1) by (auto simp: queues_ok_def)
    then have "placed k' loc I" by (intro ps) auto
    then show ?thesis using None d(2) by simp
  next
    case (Some t)
    then have d: "queued A' \<union> queued P' = at ?ts loc (On c) - {t}" "t \<in> at ?ts loc (On c)" "ready (?ts ! t)"
      using n(2) q(2) by (simp_all add: sched_post_def)
    have "queues_ok ts' s' (at ?ts (loc(t := Held)) (On c))" using m(1) d(1) by (auto simp: queues_ok_def at_upd)
    then have "placed k' (loc(t := Held)) I" using d(2) by (intro ps) (auto simp: at_def)
    then show ?thesis using Some d(2,3) by simp
  qed
  then show ?thesis using e kframe_sched[OF m(2), of c s'] unfolding k'_def by blast
qed

lemma put_passive_on_spec:
  assumes pl: "placed k loc I" and c: "c < length (kt_cpus k)" and t: "t \<in> at (kt_threads k) loc Held"
  shows "\<exists>k'. put_passive_on c t k = Some k' \<and> kframe k k' \<and> placed k' (loc(t := On c)) I"
proof -
  let ?ts = "kt_threads k" and ?s = "cpu_sched (kt_cpus k ! c)"
  obtain A P where q: "sched_repr ?ts ?s A P" "queued A \<union> queued P = at ?ts loc (On c)"
    using placedD(5)[OF pl c] by (auto simp: queues_ok_def)
  have "t \<notin> queued A \<union> queued P" unfolding q(2) using t by (simp add: at_def)
  moreover have "worker ?ts t" using t by (simp add: at_def)
  ultimately have t': "t < length ?ts" "t \<notin> queued A" "t \<notin> queued P" "worker ?ts t" by (auto simp: worker_def)
  have p: "th_priority (?ts ! t) \<le> MAX_PRIO" using placedD(1)[OF pl] t'(1) by (simp add: prios_ok_def)
  obtain s' ts' where n: "put_thread_in_passive t ?s ?ts = Some (s', ts')"
    "sched_repr ts' s' A (pushed (th_priority (?ts ! t)) t P)" "relinked {t} ?ts ts'" "sc_idle s' = sc_idle ?s"
    using put_passive_spec[OF q(1) t'(1-3) p] by blast
  define k' where "k' = k\<lparr>kt_cpus := (kt_cpus k)[c := (kt_cpus k ! c)\<lparr>cpu_sched := s'\<rparr>], kt_threads := ts'\<rparr>"
  have e: "put_passive_on c t k = Some k'" using n(1) c by (simp add: put_passive_on_def nth_chk_def set_sched_eq k'_def)
  have "queued (pushed (th_priority (?ts ! t)) t P) = insert t (queued P)"
    using queued_pushed sched_repr_length[OF q(1)] p by simp
  then have "queued A \<union> queued (pushed (th_priority (?ts ! t)) t P) = at ?ts (loc(t := On c)) (On c)"
    using q(2) t'(4) by (simp add: at_upd)
  then have "queues_ok ts' s' (at ?ts (loc(t := On c)) (On c))" using n(2) unfolding queues_ok_def by blast
  then have "placed k' (loc(t := On c)) I"
    unfolding k'_def using t
    by (intro placed_sched[OF pl c compat_relinked[OF n(3)] _ prios_ok_relinked[OF n(3) placedD(1)[OF pl]]
      affs_ok_relinked[OF n(3) placedD(2)[OF pl]] _ n(4)]) (auto simp: at_def)
  then show ?thesis using e kframe_sched[OF n(3), of c s'] unfolding k'_def by blast
qed

lemma placed_rb:
  assumes pl: "placed k loc I" and cm: "compat M (kt_threads k) ts'"
    and M: "M \<subseteq> at (kt_threads k) loc Moving \<union> at (kt_threads k) loc Held"
    and ok: "prios_ok ts'" "affs_ok ts'" and q: "rb_ok ts' qs' (at (kt_threads k) loc' Moving)"
    and moved: "\<And>t. worker (kt_threads k) t \<Longrightarrow> loc' t = loc t \<or> loc t \<in> {Moving, Held} \<and> loc' t \<in> {Moving, Held}"
  shows "placed (k\<lparr>kt_rb_queues := qs', kt_threads := ts'\<rparr>) loc' I"
proof -
  let ?ts = "kt_threads k" and ?k = "k\<lparr>kt_rb_queues := qs', kt_threads := ts'\<rparr>"
  have at: "at ts' = at ?ts" using compat_at[OF cm] .
  have same: "at ?ts loc' p = at ?ts loc p" if "p \<noteq> Moving" "p \<noteq> Held" for p
    using moved that unfolding at_def by (metis (no_types, opaque_lifting) insertE singletonD)
  have t: "threads_ok k loc I" using pl by (simp add: placed_def)
  have "threads_ok ?k loc' I"
    using threads_ok_compat[OF t, of M ?k loc'] cm ok moved by fastforce
  moreover have "queues_ok ts' (cpu_sched (kt_cpus k ! d)) (at ?ts loc (On d))" if d: "d < length (kt_cpus k)" for d
  proof -
    have "M \<inter> at ?ts loc (On d) = {}" using M by (auto simp: at_def)
    then show ?thesis using queues_ok_compat[OF placedD(5)[OF pl d] cm] by blast
  qed
  ultimately show ?thesis using pl q unfolding placed_def by (simp add: at same)
qed

lemma kframe_rb:
  "relinked M (kt_threads k) ts' \<Longrightarrow> kframe k (k\<lparr>kt_rb_queues := qs', kt_threads := ts'\<rparr>)"
  using relinked_mono[of M _ ts' UNIV] by (simp add: kframe_def)

lemma rb_push_thread_spec:
  assumes pl: "placed k loc I" and q: "q < MAX_CPUS" and t: "t \<in> at (kt_threads k) loc Held"
  shows "\<exists>k'. rb_push_thread q t k = Some k' \<and> kframe k k' \<and> placed k' (loc(t := Moving)) I"
proof -
  let ?ts = "kt_threads k"
  obtain R where R: "qrepr th_next ?ts (kt_rb_queues k) R" "length R = MAX_CPUS" "distinct (concat R)" "queued R = at ?ts loc Moving"
    using placedD(7)[OF pl] by (auto simp: rb_ok_def)
  have t': "t < length ?ts" "t \<notin> queued R" "worker ?ts t" unfolding R(4) using t by (auto simp: at_def worker_def)
  define ts' where "ts' = ?ts[t := set_next (kt_rb_queues k ! q) (?ts ! t)]"
  obtain qs' where p: "link_push set_next q t (kt_rb_queues k) ?ts = Some (qs', ts')" "qrepr th_next ts' qs' (pushed q t R)"
    using sched_link.push_repr[OF R(1) _ t'(1,2), of q] R(2) q unfolding ts'_def by auto
  have rl: "relinked {t} ?ts ts'" unfolding ts'_def by (rule relinked_upd)
  have "queued (pushed q t R) = at ?ts (loc(t := Moving)) Moving" using queued_pushed R(2,4) q t'(3) by (simp add: at_upd)
  moreover have "distinct (concat (pushed q t R))" using distinct_pushed R(2,3) q t'(2) by simp
  ultimately have "rb_ok ts' qs' (at ?ts (loc(t := Moving)) Moving)"
    unfolding rb_ok_def using p(2) R(2) by (intro exI[of _ "pushed q t R"]) simp
  then have "placed (k\<lparr>kt_rb_queues := qs', kt_threads := ts'\<rparr>) (loc(t := Moving)) I"
    using t by (intro placed_rb[OF pl compat_relinked[OF rl] _ prios_ok_relinked[OF rl placedD(1)[OF pl]]
      affs_ok_relinked[OF rl placedD(2)[OF pl]]]) (auto simp: at_def)
  then show ?thesis using p(1) kframe_rb[OF rl] by (auto simp: rb_push_thread_def)
qed

lemma rb_pop_thread_spec:
  assumes pl: "placed k loc I" and q: "q < MAX_CPUS"
  shows "\<exists>r k'. rb_pop_thread q k = Some (r, k') \<and> kframe k k' \<and>
    (case r of None \<Rightarrow> placed k' loc I | Some t \<Rightarrow> t \<in> at (kt_threads k) loc Moving \<and> placed k' (loc(t := Held)) I)"
proof -
  let ?ts = "kt_threads k"
  obtain R where R: "qrepr th_next ?ts (kt_rb_queues k) R" "length R = MAX_CPUS" "distinct (concat R)" "queued R = at ?ts loc Moving"
    using placedD(7)[OF pl] by (auto simp: rb_ok_def)
  have q': "q < length R" using q R(2) by simp
  show ?thesis
  proof (cases "R ! q")
    case Nil
    then have "rb_pop_thread q k = Some (None, k)" using sched_link.pop_empty[OF R(1) q'] by (simp add: rb_pop_thread_def)
    then show ?thesis using pl by (auto simp: kframe_def)
  next
    case (Cons t xs)
    define ts' where "ts' = ?ts[t := set_next None (?ts ! t)]"
    obtain qs' where p: "link_pop th_next set_next q (kt_rb_queues k) ?ts = Some (Some t, qs', ts')" "qrepr th_next ts' qs' (popped q R)"
      using sched_link.pop_repr[OF R(1) q' R(3) Cons] unfolding ts'_def by auto
    note pf = popped_facts[OF q' R(3) Cons]
    have rl: "relinked {t} ?ts ts'" unfolding ts'_def by (rule relinked_upd)
    have tm: "t \<in> at ?ts loc Moving" using pf(3) R(4) by simp
    have "queued (popped q R) = at ?ts (loc(t := Held)) Moving" using pf(2) R(4) by (simp add: at_upd)
    then have "rb_ok ts' qs' (at ?ts (loc(t := Held)) Moving)"
      unfolding rb_ok_def using p(2) R(2) pf(1) by (intro exI[of _ "popped q R"]) simp
    then have "placed (k\<lparr>kt_rb_queues := qs', kt_threads := ts'\<rparr>) (loc(t := Held)) I"
      using tm by (intro placed_rb[OF pl compat_relinked[OF rl] _ prios_ok_relinked[OF rl placedD(1)[OF pl]]
        affs_ok_relinked[OF rl placedD(2)[OF pl]]]) (auto simp: at_def)
    then show ?thesis using p(1) kframe_rb[OF rl] tm by (auto simp: rb_pop_thread_def)
  qed
qed

lemma placed_flags: "placed k loc I \<Longrightarrow> length fl = MAX_CPUS \<Longrightarrow> placed (k\<lparr>kt_rb_flags := fl\<rparr>) loc I"
  by (simp add: placed_def threads_ok_def)

lemma kframe_flags: "kframe k k' \<Longrightarrow> kframe k (k'\<lparr>kt_rb_flags := fl\<rparr>)"
  by (simp add: kframe_def)

lemma rebalance_thread_spec:
  assumes pl: "placed k loc I" and t: "t \<in> at (kt_threads k) loc Held"
  shows "\<exists>k'. rebalance_thread t k = Some k' \<and> kframe k k' \<and> placed k' (loc(t := Moving)) I"
proof -
  have l: "t < length (kt_threads k)" using t by (simp add: at_def worker_def)
  then have a: "th_affinity (kt_threads k ! t) < MAX_CPUS" using placedD(2)[OF pl] by (simp add: affs_ok_def)
  obtain k1 where k1: "rb_push_thread (th_affinity (kt_threads k ! t)) t k = Some k1" "kframe k k1" "placed k1 (loc(t := Moving)) I"
    using rb_push_thread_spec[OF pl a t] by blast
  have "rebalance_thread t k = Some (k1\<lparr>kt_rb_flags := (kt_rb_flags k1)[th_affinity (kt_threads k ! t) := True]\<rparr>)"
    using k1(1) l a placedD(4)[OF k1(3)] by (simp add: rebalance_thread_def rb_queue_signal_def nth_chk_def upd_chk_def)
  then show ?thesis using placed_flags[OF k1(3)] kframe_flags[OF k1(2)] placedD(4)[OF k1(3)] by simp
qed

lemma placed_threads:
  assumes pl: "placed k loc I" and cm: "compat {} (kt_threads k) ts'" and ok: "prios_ok ts'" "affs_ok ts'"
  shows "placed (k\<lparr>kt_threads := ts'\<rparr>) loc I"
proof -
  have "rb_ok ts' (kt_rb_queues k) (at (kt_threads k) loc Moving)" using rb_ok_compat[OF placedD(7)[OF pl] cm] by simp
  then show ?thesis using placed_rb[OF pl cm _ ok, of "kt_rb_queues k" loc] by simp
qed

lemma compat_upd:
  "t < length ts \<Longrightarrow> th_next y = th_next (ts ! t) \<Longrightarrow> (th_state y = Idle \<longleftrightarrow> th_state (ts ! t) = Idle) \<Longrightarrow> compat {} ts (ts[t := y])"
  by (auto simp: compat_def nth_list_update)

lemma prios_affs_upd:
  "prios_ok ts \<Longrightarrow> th_priority y \<le> MAX_PRIO \<Longrightarrow> prios_ok (ts[t := y])"
  "affs_ok ts \<Longrightarrow> th_affinity y < MAX_CPUS \<Longrightarrow> affs_ok (ts[t := y])"
  by (auto simp: prios_ok_def affs_ok_def dest!: set_update_subset_insert[THEN subsetD])

text \<open>Updating a worker's own fields.\<close>

lemma placed_worker_upd:
  assumes pl: "placed k loc I" and w: "worker (kt_threads k) t"
    and y: "th_next y = th_next (kt_threads k ! t)" "th_state y \<noteq> Idle" "th_priority y \<le> MAX_PRIO" "th_affinity y < MAX_CPUS"
  shows "placed (k\<lparr>kt_threads := (kt_threads k)[t := y]\<rparr>) loc I" "compat {} (kt_threads k) ((kt_threads k)[t := y])"
proof -
  show cm: "compat {} (kt_threads k) ((kt_threads k)[t := y])" using w y(1,2) by (intro compat_upd) (auto simp: worker_def)
  show "placed (k\<lparr>kt_threads := (kt_threads k)[t := y]\<rparr>) loc I"
    using placed_threads[OF pl cm prios_affs_upd(1)[OF placedD(1)[OF pl] y(3)] prios_affs_upd(2)[OF placedD(2)[OF pl] y(4)]] .
qed

lemma worker_fields:
  assumes "placed k loc I" "worker (kt_threads k) t"
  shows "th_priority (kt_threads k ! t) \<le> MAX_PRIO" "th_affinity (kt_threads k ! t) < MAX_CPUS"
  using placedD(1,2)[OF assms(1)] assms(2) by (auto simp: worker_def prios_ok_def affs_ok_def)

text \<open>The threads that exist, which of them are idle threads, and what runs stay the same.\<close>

definition kshape :: "kthreads \<Rightarrow> kthreads \<Rightarrow> bool" where
  "kshape k k' \<longleftrightarrow> compat UNIV (kt_threads k) (kt_threads k') \<and> map cpu_current (kt_cpus k') = map cpu_current (kt_cpus k)"

lemma kshape_kframe: "kframe k k' \<Longrightarrow> kshape k k'"
  using compat_relinked by (auto simp: kshape_def kframe_def)

lemma kshape_trans [trans]: "kshape k k' \<Longrightarrow> kshape k' k'' \<Longrightarrow> kshape k k''"
  by (auto simp: kshape_def compat_def)

lemma kshape_length: "kshape k k' \<Longrightarrow> length (kt_cpus k') = length (kt_cpus k) \<and> at (kt_threads k') = at (kt_threads k) \<and>
    worker (kt_threads k') = worker (kt_threads k)"
  by (auto simp: kshape_def compat_at compat_worker dest: map_eq_imp_length_eq)

lemma finite_at [simp]: "finite (at ts loc p)"
  by (rule finite_subset[of _ "{..<length ts}"]) (auto simp: at_def worker_def)

lemma process_rb_loop_spec:
  assumes "placed k loc I" "at (kt_threads k) loc Held = {}" "c < length (kt_cpus k)"
  shows "\<exists>k' loc'. process_rb_loop c k = Some k' \<and> kshape k k' \<and> placed k' loc' I \<and> at (kt_threads k') loc' Held = {}"
  using assms
proof (induction "card (at (kt_threads k) loc Moving)" arbitrary: k loc rule: less_induct)
  case less
  note pl = less.prems(1) and h = less.prems(2) and c = less.prems(3)
  have q: "c < MAX_CPUS" using c placedD(3)[OF pl] by linarith
  obtain r k1 where k1: "rb_pop_thread c k = Some (r, k1)" "kframe k k1"
    "case r of None \<Rightarrow> placed k1 loc I | Some t \<Rightarrow> t \<in> at (kt_threads k) loc Moving \<and> placed k1 (loc(t := Held)) I"
    using rb_pop_thread_spec[OF pl q] by blast
  note s1 = kshape_kframe[OF k1(2)] and l1 = kshape_length[OF kshape_kframe[OF k1(2)]]
  show ?case
  proof (cases r)
    case None
    then have "process_rb_loop c k = Some k1" using k1(1) by (subst process_rb_loop.simps) simp
    then show ?thesis using None k1(3) s1 h l1 by force
  next
    case (Some t)
    then have t: "t \<in> at (kt_threads k) loc Moving" and p1: "placed k1 (loc(t := Held)) I" using k1(3) by simp_all
    have w: "worker (kt_threads k1) t" using t l1 by (simp add: at_def)
    define y where "y = (kt_threads k1 ! t)\<lparr>th_rebalance := False, th_state := Runnable\<rparr>"
    define k2 where "k2 = k1\<lparr>kt_threads := (kt_threads k1)[t := y]\<rparr>"
    have cm: "compat {} (kt_threads k1) (kt_threads k2)" and p2: "placed k2 (loc(t := Held)) I"
      using placed_worker_upd[OF p1 w, of y] worker_fields[OF p1 w] by (simp_all add: y_def k2_def)
    then have s2: "kshape k1 k2" by (simp add: kshape_def k2_def compat_def)
    note l2 = kshape_length[OF s2]
    have t2: "t \<in> at (kt_threads k2) (loc(t := Held)) Held" using w l2 by (simp add: at_def)
    obtain k3 where k3: "put_passive_on c t k2 = Some k3" "kframe k2 k3" "placed k3 (loc(t := Held, t := On c)) I"
      using put_passive_on_spec[OF p2 _ t2] c l1 l2 by auto
    note s3 = kshape_kframe[OF k3(2)] and l3 = kshape_length[OF kshape_kframe[OF k3(2)]]
    have s: "kshape k k3" using s1 s2 s3 kshape_trans by blast
    note l = kshape_length[OF s]
    have "process_rb_loop c k = process_rb_loop c k3"
      using Some k1(1) k3(1) w by (subst process_rb_loop.simps) (simp add: modify_chk_def y_def k2_def worker_def)
    moreover have "card (at (kt_threads k3) (loc(t := On c)) Moving) < card (at (kt_threads k) loc Moving)"
      using t l by (intro psubset_card_mono) (auto simp: at_upd)
    then have "\<exists>k' loc'. process_rb_loop c k3 = Some k' \<and> kshape k3 k' \<and> placed k' loc' I \<and> at (kt_threads k') loc' Held = {}"
      using less.hyps[of k3 "loc(t := On c)"] k3(3) h c l by (simp add: at_upd)
    ultimately show ?thesis using kshape_trans[OF s] by fastforce
  qed
qed

lemma pick_worker_spec:
  assumes "placed k loc I" "at (kt_threads k) loc Held = {}" "c < length (kt_cpus k)"
  shows "\<exists>r k' loc'. kframe k k' \<and> placed k' loc' I \<and>
    (case r of
       None \<Rightarrow> pick c k = pick_idle c k' \<and> at (kt_threads k') loc' Held = {} \<and>
         (\<forall>t \<in> at (kt_threads k') loc' (On c). \<not> ready (kt_threads k' ! t))
     | Some t \<Rightarrow> pick c k = Some (Some t, k') \<and> at (kt_threads k') loc' Held = {t} \<and> ready (kt_threads k' ! t))"
  using assms
proof (induction "card (at (kt_threads k) loc (On c))" arbitrary: k loc rule: less_induct)
  case less
  note pl = less.prems(1) and h = less.prems(2) and c = less.prems(3)
  obtain r k1 where k1: "next_on c k = Some (r, k1)" "kframe k k1"
    "case r of None \<Rightarrow> placed k1 loc I \<and> (\<forall>t \<in> at (kt_threads k) loc (On c). \<not> ready (kt_threads k ! t))
     | Some t \<Rightarrow> t \<in> at (kt_threads k) loc (On c) \<and> ready (kt_threads k ! t) \<and> placed k1 (loc(t := Held)) I"
    using next_on_spec[OF pl c] by blast
  note l1 = kshape_length[OF kshape_kframe[OF k1(2)]]
  have rl: "relinked UNIV (kt_threads k) (kt_threads k1)" using k1(2) by (simp add: kframe_def)
  have rd: "ready (kt_threads k1 ! t) = ready (kt_threads k ! t)" if "t \<in> at (kt_threads k) loc p" for t p
    using relinked_ready[OF rl] that by (simp add: at_def worker_def)
  show ?case
  proof (cases r)
    case None
    then have "pick c k = pick_idle c k1" using k1(1) by (subst pick.simps) simp
    then show ?thesis using None k1(2,3) h l1 rd by (intro exI[of _ None] exI[of _ k1] exI[of _ loc]) simp
  next
    case (Some t)
    then have t: "t \<in> at (kt_threads k) loc (On c)" "ready (kt_threads k ! t)" and p1: "placed k1 (loc(t := Held)) I" using k1(3) by simp_all
    have w: "worker (kt_threads k1) t" using t(1) l1 by (simp add: at_def)
    then have tl: "t < length (kt_threads k1)" by (simp add: worker_def)
    have r1: "ready (kt_threads k1 ! t)" using rd t by blast
    have t1: "at (kt_threads k1) (loc(t := Held)) Held = {t}" using w l1 h by (simp add: at_upd)
    show ?thesis
    proof (cases "th_rebalance (kt_threads k1 ! t)")
      case False
      have "pick c k = Some (Some t, k1)"
        using Some k1(1) False tl r1 by (subst pick.simps) (auto simp: nth_chk_def ready_def)
      then show ?thesis using p1 t1 r1 k1(2) by (intro exI[of _ "Some t"] exI[of _ k1] exI[of _ "loc(t := Held)"]) simp
    next
      case True
      obtain k2 where k2: "rebalance_thread t k1 = Some k2" "kframe k1 k2" "placed k2 (loc(t := Held, t := Moving)) I"
        using rebalance_thread_spec[OF p1, of t] t1 by blast
      have f: "kframe k k2" using kframe_trans k1(2) k2(2) by blast
      note l = kshape_length[OF kshape_kframe[OF f]]
      have e: "pick c k = pick c k2"
        using Some k1(1) k2(1) True tl by (subst pick.simps) (simp add: nth_chk_def)
      have sm: "card (at (kt_threads k2) (loc(t := Moving)) (On c)) < card (at (kt_threads k) loc (On c))"
        using t l by (intro psubset_card_mono) (auto simp: at_upd)
      have p2: "placed k2 (loc(t := Moving)) I" "at (kt_threads k2) (loc(t := Moving)) Held = {}" "c < length (kt_cpus k2)"
        using k2(3) h c l by (simp_all add: at_upd)
      obtain r' k' loc' where i: "kframe k2 k'" "placed k' loc' I"
        "case r' of None \<Rightarrow> pick c k2 = pick_idle c k' \<and> at (kt_threads k') loc' Held = {} \<and>
           (\<forall>t \<in> at (kt_threads k') loc' (On c). \<not> ready (kt_threads k' ! t))
         | Some t \<Rightarrow> pick c k2 = Some (Some t, k') \<and> at (kt_threads k') loc' Held = {t} \<and> ready (kt_threads k' ! t)"
        using less.hyps[OF sm p2] by blast
      then show ?thesis unfolding e using kframe_trans[OF f i(1)] by blast
    qed
  qed
qed

lemma queues_ok_idle: "queues_ok ts (s\<lparr>sc_idle := j\<rparr>) T = queues_ok ts s T"
proof -
  have "sched_repr ts (s\<lparr>sc_idle := j\<rparr>) A P = sched_repr ts s A P" for A P by (simp add: sched_repr_def cong: if_cong)
  then show ?thesis by (simp add: queues_ok_def)
qed

lemma placed_current:
  assumes pl: "placed k loc I" and c: "c < length (kt_cpus k)"
    and x: "cpu_sched x = (cpu_sched (kt_cpus k ! c))\<lparr>sc_idle := j\<rparr>"
    and cur: "current_ok x (at (kt_threads k) loc' (Cur c)) (I c)"
    and moved: "\<And>t. worker (kt_threads k) t \<Longrightarrow> loc' t = loc t \<or> loc t \<in> {Cur c, Held} \<and> loc' t \<in> {Cur c, Held}"
  shows "placed (k\<lparr>kt_cpus := (kt_cpus k)[c := x]\<rparr>) loc' I"
proof -
  let ?ts = "kt_threads k" and ?k = "k\<lparr>kt_cpus := (kt_cpus k)[c := x]\<rparr>"
  have same: "at ?ts loc' p = at ?ts loc p" if "p \<noteq> Cur c" "p \<noteq> Held" for p
    using moved that unfolding at_def by (metis (no_types, opaque_lifting) insertE singletonD)
  have "threads_ok k loc I" using pl by (simp add: placed_def)
  moreover have "compat {} ?ts ?ts" by (simp add: compat_def)
  ultimately have "threads_ok ?k loc' I"
    using threads_ok_compat[of k loc I "{}" ?k loc'] moved c placedD(1,2)[OF pl] by fastforce
  moreover have "queues_ok ?ts (cpu_sched x) (at ?ts loc (On c))"
    using placedD(5)[OF pl c] by (simp add: queues_ok_idle x)
  then have "queues_ok ?ts (cpu_sched (kt_cpus ?k ! d)) (at ?ts loc' (On d)) \<and> current_ok (kt_cpus ?k ! d) (at ?ts loc' (Cur d)) (I d)"
    if d: "d < length (kt_cpus k)" for d
    using placedD(5,6)[OF pl d] cur same c by (cases "d = c") simp_all
  ultimately show ?thesis using placedD(7)[OF pl] same unfolding placed_def by simp
qed

lemma idle_state:
  assumes "placed k loc I" "c < length (kt_cpus k)"
  shows "I c < length (kt_threads k)" "th_state (kt_threads k ! I c) = Idle"
  using assms by (auto simp: placed_def threads_ok_def)

lemma current_cases:
  assumes pl: "placed k loc I" and c: "c < length (kt_cpus k)"
  obtains (idle) "cpu_current (kt_cpus k ! c) = Some (I c)" "at (kt_threads k) loc (Cur c) = {}"
      "sc_idle (cpu_sched (kt_cpus k ! c)) \<in> {None, Some (I c)}"
  | (busy) t where "cpu_current (kt_cpus k ! c) = Some t" "at (kt_threads k) loc (Cur c) = {t}" "worker (kt_threads k) t"
      "sc_idle (cpu_sched (kt_cpus k ! c)) = Some (I c)"
proof -
  have "at (kt_threads k) loc (Cur c) = {t} \<Longrightarrow> worker (kt_threads k) t" for t by (auto simp: at_def set_eq_iff)
  then show ?thesis using placedD(6)[OF pl c] that unfolding current_ok_def by blast
qed

text \<open>What holds after a processor has scheduled: it runs a thread that can run, or its idle thread and nothing queued is runnable.\<close>

definition settled :: "nat \<Rightarrow> kthreads \<Rightarrow> kthreads \<Rightarrow> (nat \<Rightarrow> place) \<Rightarrow> (nat \<Rightarrow> nat) \<Rightarrow> bool" where
  "settled c k k' loc I \<longleftrightarrow> placed k' loc I \<and> at (kt_threads k') loc Held = {} \<and> compat UNIV (kt_threads k) (kt_threads k') \<and>
     length (kt_cpus k') = length (kt_cpus k) \<and> (\<forall>d < length (kt_cpus k). d \<noteq> c \<longrightarrow> cpu_current (kt_cpus k' ! d) = cpu_current (kt_cpus k ! d)) \<and>
     (\<exists>t. cpu_current (kt_cpus k' ! c) = Some t \<and>
        (worker (kt_threads k') t \<and> ready (kt_threads k' ! t) \<or>
         t = I c \<and> (\<forall>u \<in> at (kt_threads k') loc (On c). th_state (kt_threads k' ! u) \<noteq> Runnable)))"

lemma kframe_current: "kframe k k' \<Longrightarrow> d < length (kt_cpus k) \<Longrightarrow> cpu_current (kt_cpus k' ! d) = cpu_current (kt_cpus k ! d)"
  unfolding kframe_def by (metis map_eq_imp_length_eq nth_map)

lemma switch_put_spec:
  assumes pl: "placed k loc I" and c: "c < length (kt_cpus k)" and o: "at (kt_threads k) loc Held = {old}"
    and cur: "cpu_current (kt_cpus k ! c) = Some t"
    and t: "worker (kt_threads k) t \<and> ready (kt_threads k ! t) \<or>
      t = I c \<and> (\<forall>u \<in> at (kt_threads k) loc (On c) \<union> {old}. th_state (kt_threads k ! u) \<noteq> Runnable)"
  shows "\<exists>k' loc'. put_passive_on c old k = Some k' \<and> settled c k k' loc' I"
proof -
  obtain k' where k': "put_passive_on c old k = Some k'" "kframe k k'" "placed k' (loc(old := On c)) I"
    using put_passive_on_spec[OF pl c, of old] o by blast
  note l = kshape_length[OF kshape_kframe[OF k'(2)]]
  have rl: "relinked UNIV (kt_threads k) (kt_threads k')" using k'(2) by (simp add: kframe_def)
  have w: "worker (kt_threads k) old" using o by (auto simp: at_def set_eq_iff)
  have "at (kt_threads k') (loc(old := On c)) Held = {}" using o l by (simp add: at_upd)
  moreover have "worker (kt_threads k') t \<and> ready (kt_threads k' ! t) \<or>
      t = I c \<and> (\<forall>u \<in> at (kt_threads k') (loc(old := On c)) (On c). th_state (kt_threads k' ! u) \<noteq> Runnable)"
  proof -
    have st: "th_state (kt_threads k' ! u) = th_state (kt_threads k ! u)" if "worker (kt_threads k) u" for u
      using relinked_fields(1)[OF rl] that by (simp add: worker_def)
    then have "\<forall>u \<in> at (kt_threads k) (loc(old := On c)) (On c). th_state (kt_threads k' ! u) \<noteq> Runnable"
      if "\<forall>u \<in> at (kt_threads k) loc (On c) \<union> {old}. th_state (kt_threads k ! u) \<noteq> Runnable"
      using that w by (auto simp: at_upd) (auto simp: at_def)
    then show ?thesis using t l st by (auto simp: ready_def)
  qed
  ultimately have "settled c k k' (loc(old := On c)) I"
    unfolding settled_def using k'(3) l kshape_kframe[OF k'(2)] kframe_current[OF k'(2)] cur c by (simp add: kshape_def)
  then show ?thesis using k'(1) by blast
qed

lemma kshape_current: "kshape k k' \<Longrightarrow> d < length (kt_cpus k) \<Longrightarrow> cpu_current (kt_cpus k' ! d) = cpu_current (kt_cpus k ! d)"
  unfolding kshape_def by (metis map_eq_imp_length_eq nth_map)

lemma settled_shape:
  assumes "kshape k k1" "settled c k1 k' loc I"
  shows "settled c k k' loc I"
  using assms kshape_length[OF assms(1)] kshape_current[OF assms(1)]
  by (auto simp: settled_def kshape_def compat_def)

text \<open>The state in which only the processor's own record is changed.\<close>

lemma settled_cpu:
  assumes "settled c (k\<lparr>kt_cpus := (kt_cpus k)[c := x]\<rparr>) k' loc I" "c < length (kt_cpus k)"
  shows "settled c k k' loc I"
  using assms by (simp add: settled_def)

lemma switch_to_ready:
  assumes pl: "placed k loc I" and c: "c < length (kt_cpus k)" and h: "at (kt_threads k) loc Held = {t}" and rd: "ready (kt_threads k ! t)"
  shows "\<exists>k' loc'. switch_to c t k = Some k' \<and> settled c k k' loc' I"
proof -
  let ?x = "kt_cpus k ! c"
  have w: "worker (kt_threads k) t" "loc t = Held" using h by (auto simp: at_def set_eq_iff)
  from pl c show ?thesis
  proof (cases rule: current_cases)
    case idle
    let ?y = "?x\<lparr>cpu_current := Some t, cpu_sched := set_idle_thread (I c) (cpu_sched ?x)\<rparr>"
    let ?k = "k\<lparr>kt_cpus := (kt_cpus k)[c := ?y]\<rparr>"
    have "switch_to c t k = Some ?k"
      using c idle(1) idle_state[OF pl c] by (simp add: switch_to_def nth_chk_def upd_chk_def set_sched_eq)
    moreover have "placed ?k (loc(t := Cur c)) I"
      using w idle(2) by (intro placed_current[OF pl c, of _ "Some (I c)"]) (auto simp: set_idle_thread_def current_ok_def at_upd)
    then have "settled c k ?k (loc(t := Cur c)) I"
      using w h c rd by (auto simp: settled_def at_upd compat_def)
    ultimately show ?thesis by blast
  next
    case (busy old)
    let ?k = "k\<lparr>kt_cpus := (kt_cpus k)[c := ?x\<lparr>cpu_current := Some t\<rparr>]\<rparr>" and ?loc = "loc(t := Cur c, old := Held)"
    have "old \<in> at (kt_threads k) loc (Cur c)" using busy(2) by simp
    then have o: "loc old = Cur c" by (simp add: at_def)
    then have ne: "old \<noteq> t" using w(2) by auto
    have e: "switch_to c t k = put_passive_on c old ?k"
      using c busy(1,3) by (simp add: switch_to_def nth_chk_def upd_chk_def worker_def)
    have p: "placed ?k ?loc I"
      using w busy(2-4) ne o by (intro placed_current[OF pl c, of _ "Some (I c)"]) (auto simp: current_ok_def at_upd)
    have "at (kt_threads ?k) ?loc Held = {old}" using h busy(3) ne by (simp add: at_upd)
    then obtain k' loc' where "put_passive_on c old ?k = Some k'" "settled c ?k k' loc' I"
      using switch_put_spec[OF p, of c old t] c w(1) rd by auto
    then show ?thesis using e settled_cpu c by fastforce
  qed
qed

lemma pick_idle_spec:
  assumes pl: "placed k loc I" and c: "c < length (kt_cpus k)" and h: "at (kt_threads k) loc Held = {}"
    and nr: "\<forall>t \<in> at (kt_threads k) loc (On c). \<not> ready (kt_threads k ! t)"
  shows "\<exists>r k1 k' loc'. pick_idle c k = Some (r, k1) \<and> settled c k k' loc' I \<and>
    (case r of None \<Rightarrow> k' = k1 | Some i \<Rightarrow> switch_to c i k1 = Some k')"
proof -
  let ?x = "kt_cpus k ! c"
  from pl c show ?thesis
  proof (cases rule: current_cases)
    case idle
    then have "pick_idle c k = Some (None, k)" using c idle_state[OF pl c] by (simp add: pick_idle_def nth_chk_def)
    moreover have "settled c k k loc I" using pl h idle(1) nr by (auto simp: settled_def compat_def ready_def)
    ultimately show ?thesis by fastforce
  next
    case (busy t)
    show ?thesis
    proof (cases "th_state (kt_threads k ! t) = Runnable")
      case True
      then have "pick_idle c k = Some (None, k)" using c busy(1,3) by (simp add: pick_idle_def nth_chk_def worker_def)
      moreover have "settled c k k loc I" using pl h busy(1,3) True by (auto simp: settled_def compat_def ready_def)
      ultimately show ?thesis by fastforce
    next
      case False
      let ?k1 = "k\<lparr>kt_cpus := (kt_cpus k)[c := ?x\<lparr>cpu_sched := (cpu_sched ?x)\<lparr>sc_idle := None\<rparr>\<rparr>]\<rparr>"
      let ?k2 = "k\<lparr>kt_cpus := (kt_cpus k)[c := ?x\<lparr>cpu_sched := (cpu_sched ?x)\<lparr>sc_idle := None\<rparr>, cpu_current := Some (I c)\<rparr>]\<rparr>"
      have e: "pick_idle c k = Some (Some (I c), ?k1)"
        using c busy(1,3,4) False by (simp add: pick_idle_def nth_chk_def worker_def get_idle_thread_def set_sched_eq)
      have s: "switch_to c (I c) ?k1 = put_passive_on c t ?k2"
        using c busy(1,3) by (simp add: switch_to_def nth_chk_def upd_chk_def worker_def)
      have "t \<in> at (kt_threads k) loc (Cur c)" using busy(2) by simp
      then have o: "loc t = Cur c" by (simp add: at_def)
      have p: "placed ?k2 (loc(t := Held)) I"
        using busy(2,3) o by (intro placed_current[OF pl c, of _ None]) (auto simp: current_ok_def at_upd)
      have hh: "at (kt_threads ?k2) (loc(t := Held)) Held = {t}" using h busy(3) by (simp add: at_upd)
      have "\<forall>u \<in> at (kt_threads ?k2) (loc(t := Held)) (On c) \<union> {t}. th_state (kt_threads ?k2 ! u) \<noteq> Runnable"
        using nr False by (auto simp: at_upd ready_def)
      then obtain k' loc' where "put_passive_on c t ?k2 = Some k'" "settled c ?k2 k' loc' I"
        using switch_put_spec[OF p _ hh, of c "I c"] c by auto
      then show ?thesis using e s settled_cpu c by fastforce
    qed
  qed
qed

lemma schedule_spec:
  assumes pl: "placed k loc I" and c: "c < length (kt_cpus k)" and h: "at (kt_threads k) loc Held = {}"
  shows "\<exists>k' loc'. schedule c k = Some k' \<and> settled c k k' loc' I"
proof -
  have q: "c < MAX_CPUS" using c placedD(3)[OF pl] by linarith
  obtain sig where sig: "rb_check_signal c k = Some sig" using q placedD(4)[OF pl] by (simp add: rb_check_signal_def nth_chk_def)
  obtain k1 loc1 where k1: "(if sig then process_rb_queue c k else Some k) = Some k1" "kshape k k1" "placed k1 loc1 I"
    "at (kt_threads k1) loc1 Held = {}"
  proof (cases sig)
    case True
    obtain k0 loc0 where k0: "process_rb_loop c k = Some k0" "kshape k k0" "placed k0 loc0 I" "at (kt_threads k0) loc0 Held = {}"
      using process_rb_loop_spec[OF pl h c] by blast
    then show ?thesis
      using that[of "k0\<lparr>kt_rb_flags := (kt_rb_flags k0)[c := False]\<rparr>" loc0] True q placedD(4)[OF k0(3)] placed_flags[OF k0(3)]
      by (simp add: process_rb_queue_def rb_queue_clear_signal_def upd_chk_def kshape_def)
  next
    case False
    then show ?thesis using that[of k loc] pl h by (simp add: kshape_def compat_def)
  qed
  have c1: "c < length (kt_cpus k1)" using c kshape_length[OF k1(2)] by simp
  have e: "schedule c k = do { (r, k) \<leftarrow> pick c k1; case r of None \<Rightarrow> Some k | Some t \<Rightarrow> switch_to c t k }"
    using sig k1(1) by (simp add: schedule_def)
  obtain r k2 loc2 where p: "kframe k1 k2" "placed k2 loc2 I"
    "case r of None \<Rightarrow> pick c k1 = pick_idle c k2 \<and> at (kt_threads k2) loc2 Held = {} \<and>
         (\<forall>t \<in> at (kt_threads k2) loc2 (On c). \<not> ready (kt_threads k2 ! t))
     | Some t \<Rightarrow> pick c k1 = Some (Some t, k2) \<and> at (kt_threads k2) loc2 Held = {t} \<and> ready (kt_threads k2 ! t)"
    using pick_worker_spec[OF k1(3,4) c1] by blast
  have c2: "c < length (kt_cpus k2)" using c1 kshape_length[OF kshape_kframe[OF p(1)]] by simp
  have "\<exists>k' loc'. schedule c k = Some k' \<and> settled c k2 k' loc' I"
  proof (cases r)
    case None
    then obtain r' k3 k' loc' where "pick c k1 = Some (r', k3)" "settled c k2 k' loc' I"
      "case r' of None \<Rightarrow> k' = k3 | Some i \<Rightarrow> switch_to c i k3 = Some k'"
      using pick_idle_spec[OF p(2) c2] p(3) by fastforce
    then show ?thesis unfolding e by (cases r') auto
  next
    case (Some t)
    then show ?thesis unfolding e using switch_to_ready[OF p(2) c2, of t] p(3) by auto
  qed
  then show ?thesis using settled_shape[OF kshape_trans[OF k1(2) kshape_kframe[OF p(1)]]] by blast
qed

section \<open>The thread operations\<close>

text \<open>
  The operations as steps: a processor schedules, its current thread sleeps, a thread is created, and
  threads other than the idle ones have their affinity, priority or state set.
\<close>

inductive kstep :: "kthreads \<Rightarrow> kthreads \<Rightarrow> bool" where
  step_schedule: "c < length (kt_cpus k) \<Longrightarrow> schedule c k = Some k' \<Longrightarrow> kstep k k'"
| step_sleep: "c < length (kt_cpus k) \<Longrightarrow> cpu_current (kt_cpus k ! c) = Some t \<Longrightarrow> worker (kt_threads k) t \<Longrightarrow>
    thread_sleep c t k = Some k' \<Longrightarrow> kstep k k'"
| step_create: "c < length (kt_cpus k) \<Longrightarrow> create_thread c k = Some (t, k') \<Longrightarrow> kstep k k'"
| step_affinity: "worker (kt_threads k) t \<Longrightarrow> cpus \<le> MAX_CPUS \<Longrightarrow> a < 2 ^ 32 \<Longrightarrow> set_affinity cpus t a k = Some k' \<Longrightarrow> kstep k k'"
| step_priority: "worker (kt_threads k) t \<Longrightarrow> set_priority t p k = Some k' \<Longrightarrow> kstep k k'"
| step_state: "worker (kt_threads k) t \<Longrightarrow> set_state t st k = Some k' \<Longrightarrow> kstep k k'"

lemma at_compat_Held: "compat M ts ts' \<Longrightarrow> at ts' loc Held = at ts loc Held"
  by (simp add: compat_at)

lemma kinv_worker_upd:
  assumes "kinv k" "worker (kt_threads k) t"
    "th_next y = th_next (kt_threads k ! t)" "th_state y \<noteq> Idle" "th_priority y \<le> MAX_PRIO" "th_affinity y < MAX_CPUS"
  shows "kinv (k\<lparr>kt_threads := (kt_threads k)[t := y]\<rparr>)"
proof -
  obtain loc I where pl: "placed k loc I" "at (kt_threads k) loc Held = {}" using assms(1) by (auto simp: kinv_def)
  note u = placed_worker_upd[OF pl(1) assms(2-6)]
  then show ?thesis using pl(2) compat_at[OF u(2)] unfolding kinv_def by (intro exI[of _ loc] exI[of _ I]) simp
qed

lemma kinv_worker_fields:
  assumes "kinv k" "worker (kt_threads k) t"
  shows "th_priority (kt_threads k ! t) \<le> MAX_PRIO" "th_affinity (kt_threads k ! t) < MAX_CPUS"
  using assms worker_fields by (auto simp: kinv_def)

lemma kinv_schedule: "kinv k \<Longrightarrow> c < length (kt_cpus k) \<Longrightarrow> \<exists>k'. schedule c k = Some k' \<and> kinv k'"
  unfolding kinv_def using schedule_spec by (fastforce simp: settled_def)

lemma kinv_sleep:
  assumes "kinv k" "c < length (kt_cpus k)" "worker (kt_threads k) t"
  shows "\<exists>k'. thread_sleep c t k = Some k' \<and> kinv k'"
proof -
  have "kinv (k\<lparr>kt_threads := (kt_threads k)[t := (kt_threads k ! t)\<lparr>th_state := Waiting\<rparr>]\<rparr>)"
    using kinv_worker_upd[OF assms(1,3)] kinv_worker_fields[OF assms(1,3)] by simp
  then show ?thesis using kinv_schedule[of _ c] assms(2,3) by (simp add: thread_sleep_def modify_chk_def worker_def)
qed

lemma placed_append:
  assumes pl: "placed k loc I" and y: "th_state y \<noteq> Idle" "th_priority y \<le> MAX_PRIO" "th_affinity y < MAX_CPUS"
  shows "placed (k\<lparr>kt_threads := kt_threads k @ [y]\<rparr>) (loc(length (kt_threads k) := Held)) I"
    "at (kt_threads k @ [y]) (loc(length (kt_threads k) := Held)) Held = insert (length (kt_threads k)) (at (kt_threads k) loc Held)"
proof -
  let ?ts = "kt_threads k" and ?loc = "loc(length (kt_threads k) := Held)"
  have w: "worker (?ts @ [y]) t \<longleftrightarrow> worker ?ts t \<or> t = length ?ts" for t
    using y(1) by (auto simp: worker_def nth_append)
  then have at: "at (?ts @ [y]) ?loc p = at ?ts loc p" if "p \<noteq> Held" for p
    using that by (auto simp: at_def) (simp add: worker_def)
  show "at (?ts @ [y]) ?loc Held = insert (length ?ts) (at ?ts loc Held)" using w by (auto simp: at_def)
  have q: "qrepr th_next (?ts @ [y]) hs xss" if "qrepr th_next ?ts hs xss" for hs xss
  proof -
    have "chain th_next (?ts @ [y]) h xs" if "chain th_next ?ts h xs" for h xs
      using that by (induction xs arbitrary: h) (auto simp: nth_append)
    then show ?thesis using that by (simp add: qrepr_def)
  qed
  then have "sq_repr (?ts @ [y]) sq xss" if "sq_repr ?ts sq xss" for sq xss
    using that by (simp add: sq_repr_def)
  then have "sched_repr (?ts @ [y]) s A P" if "sched_repr ?ts s A P" for s A P
    using that by (simp add: sched_repr_def split: if_splits)
  then have "queues_ok (?ts @ [y]) s T" if "queues_ok ?ts s T" for s T
    using that unfolding queues_ok_def by blast
  moreover have "rb_ok (?ts @ [y]) qs T" if "rb_ok ?ts qs T" for qs T
    using that q unfolding rb_ok_def by blast
  moreover have "threads_ok (k\<lparr>kt_threads := ?ts @ [y]\<rparr>) ?loc I"
  proof -
    have t: "threads_ok k loc I" using pl by (simp add: placed_def)
    have "t \<noteq> length ?ts" if "t \<in> I ` {..<length (kt_cpus k)}" for t using t that by (auto simp: threads_ok_def)
    then show ?thesis using t y w by (auto simp: threads_ok_def prios_ok_def affs_ok_def nth_append less_Suc_eq)
  qed
  ultimately show "placed (k\<lparr>kt_threads := ?ts @ [y]\<rparr>) ?loc I" using pl by (simp add: placed_def at)
qed

lemma kinv_create:
  assumes "kinv k" "c < length (kt_cpus k)"
  shows "\<exists>k'. create_thread c k = Some (length (kt_threads k), k') \<and> kinv k' \<and> length (kt_cpus k') = length (kt_cpus k)"
proof -
  let ?t = "length (kt_threads k)" and ?k = "k\<lparr>kt_threads := kt_threads k @ [Thread_new]\<rparr>"
  obtain loc I where pl: "placed k loc I" "at (kt_threads k) loc Held = {}" using assms(1) by (auto simp: kinv_def)
  note a = placed_append[OF pl(1), of Thread_new]
  have p: "placed ?k (loc(?t := Held)) I" "at (kt_threads ?k) (loc(?t := Held)) Held = {?t}"
    using a pl(2) by (simp_all add: Thread_new_def)
  obtain k' where k': "put_passive_on c ?t ?k = Some k'" "kframe ?k k'" "placed k' (loc(?t := Held, ?t := On c)) I"
    using put_passive_on_spec[OF p(1), of c ?t] assms(2) p(2) by auto
  have "at (kt_threads k') (loc(?t := Held, ?t := On c)) Held = {}"
    using p(2) kshape_length[OF kshape_kframe[OF k'(2)]] at_upd[of "kt_threads ?k" "loc(?t := Held)" ?t "On c" Held] by simp
  then show ?thesis using k'(1,3) kshape_length[OF kshape_kframe[OF k'(2)]] unfolding kinv_def create_thread_def by auto
qed

lemma kinv_step: "kstep k k' \<Longrightarrow> kinv k \<Longrightarrow> kinv k'"
proof (induction rule: kstep.induct)
  case (step_schedule c k k')
  then show ?case using kinv_schedule by fastforce
next
  case (step_sleep c k t k')
  then show ?case using kinv_sleep by fastforce
next
  case (step_create c k t k')
  then show ?case using kinv_create by fastforce
next
  case (step_affinity k t cpus a k')
  then show ?case
    using kinv_worker_upd kinv_worker_fields by (auto simp: set_affinity_def modify_chk_def split: if_splits)
next
  case (step_priority k t p k')
  then show ?case
    using kinv_worker_upd kinv_worker_fields by (auto simp: set_priority_def modify_chk_def worker_def split: if_splits)
next
  case (step_state k t st k')
  then show ?case
    using kinv_worker_upd kinv_worker_fields by (auto simp: set_state_def modify_chk_def worker_def split: if_splits)
qed

section \<open>Booting one processor\<close>

lemma qrepr_new: "qrepr get ts (replicate n None) (replicate n [])"
  by (simp add: qrepr_def)

lemma kinv_boot: "\<exists>k. init_threads 0 (boot 1) = Some k \<and> kinv k \<and> length (kt_cpus k) = 1"
proof -
  define x where "x = \<lparr>cpu_sched = set_idle_thread 0 Scheduler_new, cpu_current = Some 0, cpu_iwq = InterruptWaitQueues_new\<rparr>"
  define k where "k = \<lparr>kt_threads = [Thread_new\<lparr>th_state := Idle\<rparr>], kt_cpus = [x], kt_rb_queues = RebalanceQueues_new, kt_rb_flags = RebalanceFlags_new\<rparr>"
  have "init_threads 0 (boot 1) = Some k"
    by (simp add: init_threads_def boot_def modify_chk_def k_def x_def One_nat_def)
  moreover have "placed k (\<lambda>_. Held) (\<lambda>_. 0)" "at (kt_threads k) (\<lambda>_. Held) Held = {}"
  proof -
    let ?ts = "kt_threads k"
    have at: "at ?ts (\<lambda>_. Held) p = {}" for p by (auto simp: at_def worker_def k_def Thread_new_def)
    then show "at ?ts (\<lambda>_. Held) Held = {}" .
    have sq: "sq_repr ?ts SchedulerQueue_new (replicate (MAX_PRIO + 1) [])" by (simp add: sq_repr_def SchedulerQueue_new_def qrepr_new)
    have "sched_repr ?ts (cpu_sched x) (replicate (MAX_PRIO + 1) []) (replicate (MAX_PRIO + 1) [])"
      unfolding sched_repr_def using sq by (simp add: x_def set_idle_thread_def Scheduler_new_def queued_def)
    then have "queues_ok ?ts (cpu_sched x) {}" unfolding queues_ok_def
      by (intro exI[of _ "replicate (MAX_PRIO + 1) []"]) (simp add: queued_def)
    moreover have "current_ok x {} 0" by (simp add: current_ok_def x_def set_idle_thread_def)
    moreover have "rb_ok ?ts (kt_rb_queues k) {}"
      unfolding rb_ok_def by (intro exI[of _ "replicate MAX_CPUS []"]) (simp add: k_def RebalanceQueues_new_def qrepr_new queued_def)
    moreover have "threads_ok k (\<lambda>_. Held) (\<lambda>_. 0)"
      by (auto simp: threads_ok_def k_def prios_ok_def affs_ok_def Thread_new_def RebalanceFlags_new_def worker_def inj_on_def One_nat_def)
    ultimately show "placed k (\<lambda>_. Held) (\<lambda>_. 0)" by (simp add: placed_def at) (simp add: k_def)
  qed
  ultimately show ?thesis by (auto simp: kinv_def k_def)
qed

lemmas sched_run_defs = nth_chk_def upd_chk_def modify_chk_def Thread_new_def RebalanceFlags_new_def RebalanceQueues_new_def

section \<open>Interrupts\<close>

lemma signal_threads_spec:
  assumes "qrepr th_next_iwq ts iwq W" "q < length W" "distinct (concat W)" "W ! q = xs"
  shows "\<exists>iwq' ts'. signal_threads q iwq ts = Some (iwq', ts') \<and> qrepr th_next_iwq ts' iwq' (W[q := []]) \<and>
    length ts' = length ts \<and> (\<forall>t \<in> set xs. th_state (ts' ! t) = Runnable) \<and> (\<forall>t < length ts. t \<notin> set xs \<longrightarrow> ts' ! t = ts ! t)"
  using assms
proof (induction xs arbitrary: ts iwq W)
  case Nil
  then have "signal_threads q iwq ts = Some (iwq, ts)"
    using iwq_link.pop_empty by (subst signal_threads.simps) fastforce
  moreover have "W[q := []] = W" using Nil.prems(4) by (metis list_update_id)
  ultimately show ?case using Nil.prems(1) by auto
next
  case (Cons x xs)
  define ts1 where "ts1 = ts[x := set_next_iwq None (ts ! x)]"
  define ts2 where "ts2 = ts1[x := (ts1 ! x)\<lparr>th_state := Runnable\<rparr>]"
  obtain iwq1 where p: "link_pop th_next_iwq set_next_iwq q iwq ts = Some (Some x, iwq1, ts1)" "qrepr th_next_iwq ts1 iwq1 (popped q W)"
    using iwq_link.pop_repr[OF Cons.prems] unfolding ts1_def by blast
  note pf = popped_facts[OF Cons.prems(2-4)]
  have x: "x < length ts" "length ts1 = length ts" using qrepr_bound[OF Cons.prems(1) pf(3)] by (simp_all add: ts1_def)
  have e: "signal_threads q iwq ts = signal_threads q iwq1 ts2"
    using p(1) x by (subst signal_threads.simps) (simp add: modify_chk_def ts2_def)
  have "chain th_next_iwq ts2 h ys = chain th_next_iwq ts1 h ys" for h ys
    by (intro chain_cong) (use x in \<open>auto simp: ts2_def nth_list_update\<close>)
  then have q2: "qrepr th_next_iwq ts2 iwq1 (popped q W)" using p(2) by (simp add: qrepr_def)
  have "popped q W ! q = xs" "q < length (popped q W)" "(popped q W)[q := []] = W[q := []]" using Cons.prems(2,4) by (simp_all add: popped_def)
  then obtain iwq' ts' where i: "signal_threads q iwq1 ts2 = Some (iwq', ts')" "qrepr th_next_iwq ts' iwq' (W[q := []])" "length ts' = length ts2"
    "\<forall>t \<in> set xs. th_state (ts' ! t) = Runnable" "\<forall>t < length ts2. t \<notin> set xs \<longrightarrow> ts' ! t = ts2 ! t"
    using Cons.IH[OF q2 _ pf(1)] by metis
  have "th_state (ts' ! x) = Runnable" using i(5) x pf(4) by (simp add: ts2_def)
  moreover have "ts' ! t = ts ! t" if "t < length ts" "t \<notin> set (x # xs)" for t
    using i(5) that x by (simp add: ts2_def ts1_def)
  ultimately show ?case using e i(1-4) x(2) by (auto simp: ts2_def)
qed

section \<open>Properties\<close>

text \<open>C25. Whatever threads its queues hold, a processor's choice of the next thread returns; it takes a
  ready thread whenever one is queued, from the highest level of the active queue that has one, and no
  other thread leaves the queues.\<close>

theorem sched_next_highest:
  assumes "sched_repr ts s A P" "prios_ok ts"
  shows "\<exists>r s' ts' A' P'. sched_next s ts = Some (r, s', ts') \<and> sched_repr ts' s' A' P' \<and>
    (case r of
       None \<Rightarrow> queued A' \<union> queued P' = queued A \<union> queued P \<and> (\<forall>u \<in> queued A \<union> queued P. \<not> ready (ts ! u))
     | Some t \<Rightarrow> t \<in> queued A \<union> queued P \<and> ready (ts ! t) \<and> queued A' \<union> queued P' = queued A \<union> queued P - {t} \<and>
         ((\<exists>u \<in> queued A. ready (ts ! u)) \<longrightarrow> top_ready ts A t))"
proof -
  obtain r s' ts' A' P' where n: "sched_next s ts = Some (r, s', ts')" "sched_post ts s A P r s' ts' A' P'"
    using sched_next_spec[OF assms] by blast
  then show ?thesis
    by (intro exI[of _ r] exI[of _ s'] exI[of _ ts'] exI[of _ A'] exI[of _ P']) (cases r; simp add: sched_post_def)
qed

theorem sched_next_highest_witness:
  "\<exists>r s' ts'. sched_next \<lparr>sc_idle = None, sc_active = True,
       sc_active_queue = \<lparr>sq_highest = 3, sq_queues = (replicate 16 None)[0 := Some 0, 3 := Some 1]\<rparr>,
       sc_passive_queue = SchedulerQueue_new\<rparr> [Thread_new, Thread_new\<lparr>th_priority := 3\<rparr>] = Some (r, s', ts')"
proof -
  have "sched_repr [Thread_new, Thread_new\<lparr>th_priority := 3\<rparr>] \<lparr>sc_idle = None, sc_active = True,
       sc_active_queue = \<lparr>sq_highest = 3, sq_queues = (replicate 16 None)[0 := Some 0, 3 := Some 1]\<rparr>,
       sc_passive_queue = SchedulerQueue_new\<rparr> ((replicate 16 [])[0 := [0], 3 := [1]]) (replicate 16 [])"
    by code_simp
  moreover have "prios_ok [Thread_new, Thread_new\<lparr>th_priority := 3\<rparr>]" by code_simp
  ultimately show ?thesis using sched_next_highest by blast
qed

text \<open>C23. Scheduling never panics and always returns: afterwards every thread is still in exactly one
  place, the other processors run what they ran, and the processor runs a thread that can run, or its idle
  thread when no thread in its queues is runnable.\<close>

theorem schedule_work_conserving:
  assumes "kinv k" "c < length (kt_cpus k)"
  shows "\<exists>k' loc I t. schedule c k = Some k' \<and> placed k' loc I \<and> at (kt_threads k') loc Held = {} \<and>
    length (kt_threads k') = length (kt_threads k) \<and>
    (\<forall>d < length (kt_cpus k). d \<noteq> c \<longrightarrow> cpu_current (kt_cpus k' ! d) = cpu_current (kt_cpus k ! d)) \<and>
    cpu_current (kt_cpus k' ! c) = Some t \<and>
    (worker (kt_threads k') t \<and> ready (kt_threads k' ! t) \<or>
     t = I c \<and> (\<forall>u \<in> at (kt_threads k') loc (On c). th_state (kt_threads k' ! u) \<noteq> Runnable))"
proof -
  obtain loc I where pl: "placed k loc I" "at (kt_threads k) loc Held = {}" using assms(1) by (auto simp: kinv_def)
  obtain k' loc' where s: "schedule c k = Some k'" "settled c k k' loc' I" using schedule_spec[OF pl(1) assms(2) pl(2)] by blast
  have "length (kt_threads k') = length (kt_threads k)" using s(2) by (simp add: settled_def compat_def)
  then show ?thesis using s unfolding settled_def by blast
qed

theorem schedule_work_conserving_witness:
  "\<exists>k t k1 k2. init_threads 0 (boot 1) = Some k \<and> create_thread 0 k = Some (t, k1) \<and> schedule 0 k1 = Some k2"
proof -
  obtain k where k: "init_threads 0 (boot 1) = Some k" "kinv k" "length (kt_cpus k) = 1" using kinv_boot by blast
  obtain k1 where k1: "create_thread 0 k = Some (length (kt_threads k), k1)" "kinv k1" "length (kt_cpus k1) = 1"
    using kinv_create[OF k(2), of 0] k(3) by auto
  have "0 < length (kt_cpus k1)" using k1(3) by linarith
  from schedule_work_conserving[OF k1(2) this] k(1) k1(1) show ?thesis by blast
qed



text \<open>\<open>set_affinity\<close> compares only the low half of its argument with the number of processors: an
  affinity of \<open>2 ^ 32\<close> is accepted, and moving the thread then panics.\<close>

theorem set_affinity_truncates:
  assumes "0 < cpus" "t < length (kt_threads k)" "length (kt_rb_queues k) = MAX_CPUS"
  shows "\<exists>k'. set_affinity cpus t (2 ^ 32) k = Some k' \<and> th_affinity (kt_threads k' ! t) = 2 ^ 32 \<and> rebalance_thread t k' = None"
  using assms by (simp add: set_affinity_def modify_chk_def rebalance_thread_def nth_chk_def rb_push_thread_def link_push_def)

theorem set_affinity_truncates_witness:
  "\<exists>k'. set_affinity 4 0 (2 ^ 32) ((boot 4)\<lparr>kt_threads := [Thread_new]\<rparr>) = Some k' \<and> rebalance_thread 0 k' = None"
  using set_affinity_truncates[of 4 0 "(boot 4)\<lparr>kt_threads := [Thread_new]\<rparr>"] by (auto simp: boot_def RebalanceQueues_new_def)

text \<open>C26. An interrupt's signal returns, makes every thread that waits for that interrupt runnable,
  empties the interrupt's queue and touches no other thread.\<close>

theorem signal_threads_wakes_all:
  assumes "qrepr th_next_iwq ts iwq W" "q < length W" "distinct (concat W)"
  shows "\<exists>iwq' ts'. signal_threads q iwq ts = Some (iwq', ts') \<and> qrepr th_next_iwq ts' iwq' (W[q := []]) \<and>
    (\<forall>t \<in> set (W ! q). th_state (ts' ! t) = Runnable) \<and> (\<forall>t < length ts. t \<notin> set (W ! q) \<longrightarrow> ts' ! t = ts ! t)"
  using signal_threads_spec[OF assms refl] by blast

theorem signal_threads_wakes_all_witness:
  "\<exists>iwq' ts'. signal_threads 1 [None, Some 1] [Thread_new\<lparr>th_state := Waiting\<rparr>, Thread_new\<lparr>th_state := Waiting, th_next_iwq := Some 0\<rparr>]
     = Some (iwq', ts') \<and> th_state (ts' ! 0) = Runnable \<and> th_state (ts' ! 1) = Runnable"
proof -
  have "qrepr th_next_iwq [Thread_new\<lparr>th_state := Waiting\<rparr>, Thread_new\<lparr>th_state := Waiting, th_next_iwq := Some 0\<rparr>] [None, Some 1] [[], [1, 0]]"
    by code_simp
  from signal_threads_wakes_all[OF this, of 1] show ?thesis by auto
qed

end
