(* ===== verification/Buddy.thy ===== *)
theory Buddy
  imports Redleaf_Base
begin

text \<open>
  The kernel's physical memory: the buddy allocator, \<^verbatim>\<open>src/kernel/src/memory/buddy.rs\<close>, its set-up from
  the boot loader's memory map, \<^verbatim>\<open>src/kernel/src/arch/mod.rs\<close>, and the global allocator above it,
  \<^verbatim>\<open>src/kernel/src/memory/mod.rs\<close>.

  Memory is the function \<open>bd_mem\<close> that gives, for an address, the \<open>next\<close> pointer of a \<open>FreeBlock\<close> stored
  there; \<open>0\<close> is the null pointer.  The kernel maps physical memory at offset \<open>0\<close>
  (\<open>KERNEL_BASE\<close> in \<^verbatim>\<open>src/kernel/src/arch/memory.rs\<close>), so physical and virtual addresses agree.
\<close>

abbreviation BASE_PAGE_SIZE :: nat where "BASE_PAGE_SIZE \<equiv> 4096"
abbreviation HEAP_ALIGN :: nat where "HEAP_ALIGN \<equiv> 2097152"
abbreviation MIN_LOG2 :: nat where "MIN_LOG2 \<equiv> 12"
abbreviation ORDERS :: nat where "ORDERS \<equiv> 27"
abbreviation KERNEL_START :: nat where "KERNEL_START \<equiv> 0x100000"
abbreviation MEM_THRESHOLD :: nat where "MEM_THRESHOLD \<equiv> 0x2EE0000"

record frame =
  fr_base :: nat
  fr_size :: nat

record layout =
  ly_size :: nat
  ly_align :: nat

record buddy_alloc =
  bd_region :: frame
  bd_free_lists :: "nat list"
  bd_mem :: "nat \<Rightarrow> nat"

section \<open>Sizes\<close>

text \<open>The standard library's rounding (it panics when the result does not fit) and the prelude's logarithm.\<close>

definition next_power_of_two :: "nat \<Rightarrow> nat option" where
  "next_power_of_two n = map_option (\<lambda>k. 2 ^ k) (find (\<lambda>k. n \<le> 2 ^ k) [0..<64])"

definition log2 :: "nat \<Rightarrow> nat option" where
  "log2 n = (if n = 0 then None else find (\<lambda>k. n < 2 ^ (k + 1)) [0..<64])"

definition allocation_size :: "layout \<Rightarrow> buddy_alloc \<Rightarrow> nat option option" where
  "allocation_size l b =
     (if HEAP_ALIGN < ly_align l then Some None
      else
        do { let size = max (ly_size l) (ly_align l);
             let size = max size BASE_PAGE_SIZE;
             size \<leftarrow> next_power_of_two size;
             Some (if size \<le> fr_size (bd_region b) then Some size else None) })"

definition layout_to_order :: "layout \<Rightarrow> buddy_alloc \<Rightarrow> nat option option" where
  "layout_to_order l b =
     do { r \<leftarrow> allocation_size l b;
          case r of
            None \<Rightarrow> Some None
          | Some s \<Rightarrow> do { k \<leftarrow> log2 s; order \<leftarrow> sub_chk k MIN_LOG2; Some (Some order) } }"

definition order_to_size :: "nat \<Rightarrow> nat" where
  "order_to_size order = 2 ^ (MIN_LOG2 + order)"

section \<open>Free lists\<close>

definition free_list_pop :: "nat \<Rightarrow> buddy_alloc \<Rightarrow> (nat option \<times> buddy_alloc) option" where
  "free_list_pop order b =
     do { candidate \<leftarrow> nth_chk (bd_free_lists b) order;
          if candidate \<noteq> 0 then
            Some (Some candidate, b\<lparr>bd_free_lists := (bd_free_lists b)[order := bd_mem b candidate]\<rparr>)
          else Some (None, b) }"

definition free_list_insert :: "nat \<Rightarrow> nat \<Rightarrow> buddy_alloc \<Rightarrow> buddy_alloc option" where
  "free_list_insert order p b =
     do { assert_that (p \<noteq> 0);
          head \<leftarrow> nth_chk (bd_free_lists b) order;
          Some (b\<lparr>bd_mem := (bd_mem b)(p := head), bd_free_lists := (bd_free_lists b)[order := p]\<rparr>) }"

text \<open>The place a pointer was read from: a list head or the \<open>next\<close> field of a block.\<close>

datatype slot = Head nat | Link nat

fun read_slot :: "slot \<Rightarrow> buddy_alloc \<Rightarrow> nat option" where
  "read_slot (Head order) b = nth_chk (bd_free_lists b) order"
| "read_slot (Link a) b = Some (bd_mem b a)"

fun write_slot :: "slot \<Rightarrow> nat \<Rightarrow> buddy_alloc \<Rightarrow> buddy_alloc" where
  "write_slot (Head order) v b = b\<lparr>bd_free_lists := (bd_free_lists b)[order := v]\<rparr>"
| "write_slot (Link a) v b = b\<lparr>bd_mem := (bd_mem b)(a := v)\<rparr>"

partial_function (option) remove_from :: "slot \<Rightarrow> nat \<Rightarrow> buddy_alloc \<Rightarrow> (bool \<times> buddy_alloc) option" where
  "remove_from checking p b =
     Option.bind (read_slot checking b) (\<lambda>c.
       if c = 0 then Some (False, b)
       else if c = p then Some (True, write_slot checking (bd_mem b c) b)
       else remove_from (Link c) p b)"

definition free_list_remove :: "nat \<Rightarrow> nat \<Rightarrow> buddy_alloc \<Rightarrow> (bool \<times> buddy_alloc) option" where
  "free_list_remove order p b = remove_from (Head order) p b"

fun split_free_block :: "nat \<Rightarrow> nat \<Rightarrow> nat \<Rightarrow> buddy_alloc \<Rightarrow> buddy_alloc option" where
  "split_free_block block 0 order_needed b = Some b"
| "split_free_block block (Suc order) order_needed b =
     (if order_needed < Suc order then
        do { b \<leftarrow> free_list_insert order (block + order_to_size order) b;
             split_free_block block order order_needed b }
      else Some b)"

definition buddy :: "nat \<Rightarrow> nat \<Rightarrow> buddy_alloc \<Rightarrow> nat option option" where
  "buddy order block b =
     do { relative \<leftarrow> sub_chk block (fr_base (bd_region b));
          let size = order_to_size order;
          Some (if fr_size (bd_region b) \<le> size then None
                else Some (fr_base (bd_region b) + Bit_Operations.xor relative size)) }"

section \<open>Allocating and freeing\<close>

definition BuddyFrameAllocator_new :: "(nat \<Rightarrow> nat) \<Rightarrow> buddy_alloc" where
  "BuddyFrameAllocator_new mem =
     \<lparr>bd_region = \<lparr>fr_base = 0, fr_size = 0\<rparr>, bd_free_lists = replicate ORDERS 0, bd_mem = mem\<rparr>"

definition add_memory :: "frame \<Rightarrow> buddy_alloc \<Rightarrow> (bool \<times> buddy_alloc) option" where
  "add_memory region b =
     (if fr_base (bd_region b) = 0 then
        do { p \<leftarrow> next_power_of_two (fr_size region);
             let size = p div 2;
             let b = b\<lparr>bd_region := (bd_region b)\<lparr>fr_size := fr_size region\<rparr>\<rparr>;
             r \<leftarrow> layout_to_order \<lparr>ly_size = size, ly_align = 1\<rparr> b;
             order \<leftarrow> r;
             let b = b\<lparr>bd_region := (bd_region b)\<lparr>fr_base := fr_base region\<rparr>\<rparr>;
             b \<leftarrow> free_list_insert order (fr_base region) b;
             Some (True, b) }
      else Some (False, b))"

function alloc_order_from :: "nat \<Rightarrow> nat \<Rightarrow> buddy_alloc \<Rightarrow> (frame option \<times> buddy_alloc) option" where
  "alloc_order_from order order_needed b =
     (if ORDERS \<le> order then Some (None, b)
      else
        do { (r, b) \<leftarrow> free_list_pop order b;
             case r of
               Some block \<Rightarrow>
                 do { b \<leftarrow> (if order_needed < order then split_free_block block order order_needed b else Some b);
                      Some (Some \<lparr>fr_base = block, fr_size = order_to_size order_needed\<rparr>, b) }
             | None \<Rightarrow> alloc_order_from (Suc order) order_needed b })"
  by pat_completeness auto
termination by (relation "measure (\<lambda>(order, _, _). ORDERS - order)") auto

definition allocate :: "layout \<Rightarrow> buddy_alloc \<Rightarrow> (frame option \<times> buddy_alloc) option" where
  "allocate l b =
     do { r \<leftarrow> layout_to_order l b;
          case r of
            Some order_needed \<Rightarrow> alloc_order_from order_needed order_needed b
          | None \<Rightarrow> Some (None, b) }"

function merge_from :: "nat \<Rightarrow> nat \<Rightarrow> buddy_alloc \<Rightarrow> buddy_alloc option" where
  "merge_from order block b =
     (if ORDERS \<le> order then Some b
      else
        do { r \<leftarrow> buddy order block b;
             case r of
               Some bud \<Rightarrow>
                 do { (removed, b) \<leftarrow> free_list_remove order bud b;
                      if removed then merge_from (Suc order) (min block bud) b
                      else free_list_insert order block b }
             | None \<Rightarrow> free_list_insert order block b })"
  by pat_completeness auto
termination by (relation "measure (\<lambda>(order, _, _). ORDERS - order)") auto

definition deallocate :: "frame \<Rightarrow> layout \<Rightarrow> buddy_alloc \<Rightarrow> buddy_alloc option" where
  "deallocate f l b =
     do { r \<leftarrow> layout_to_order l b;
          initial_order \<leftarrow> r;
          merge_from initial_order (fr_base f) b }"

section \<open>The boot loader's memory map\<close>

record memory_area =
  ma_base_addr :: nat
  ma_length :: nat
  ma_typ :: nat

text \<open>The region the loop of \<open>init_buddy\<close> derives from an area, if it uses the area at all.\<close>

definition usable_region :: "nat \<Rightarrow> memory_area \<Rightarrow> frame option option" where
  "usable_region kernel_end area =
     (if ma_typ area = 1 then
        do { let base = ma_base_addr area;
             let size = ma_length area;
             let base = (if KERNEL_START \<le> base \<and> base < kernel_end then kernel_end else base);
             if 100000000 \<le> base \<and> BASE_PAGE_SIZE < size \<and> MEM_THRESHOLD \<le> size then
               do { let pad = (if base mod HEAP_ALIGN \<noteq> 0 then HEAP_ALIGN - base mod HEAP_ALIGN else 0);
                    base \<leftarrow> add_usize base pad;
                    size \<leftarrow> sub_chk size pad;
                    let size = (if 4 * 0x100000000 < size then 4 * 0x100000000 else size);
                    Some (Some \<lparr>fr_base = base, fr_size = size\<rparr>) }
             else Some None }
      else Some None)"

fun add_areas :: "nat \<Rightarrow> memory_area list \<Rightarrow> buddy_alloc \<Rightarrow> buddy_alloc option" where
  "add_areas kernel_end [] b = Some b"
| "add_areas kernel_end (a # areas) b =
     do { r \<leftarrow> usable_region kernel_end a;
          b \<leftarrow> (case r of
                 None \<Rightarrow> Some b
               | Some f \<Rightarrow> do { (added, b) \<leftarrow> add_memory f b; Some b });
          add_areas kernel_end areas b }"

definition init_buddy :: "nat \<Rightarrow> memory_area list option \<Rightarrow> (nat \<Rightarrow> nat) \<Rightarrow> buddy_alloc option" where
  "init_buddy kernel_end areas mem =
     do { let b = BuddyFrameAllocator_new mem;
          b \<leftarrow> (case areas of None \<Rightarrow> Some b | Some as \<Rightarrow> add_areas kernel_end as b);
          assert_that (fr_size (bd_region b) \<noteq> 0);
          Some b }"

section \<open>The global allocator\<close>

text \<open>
  \<open>SafeZoneAllocator\<close> serves small requests from the slab allocator of the crate \<^verbatim>\<open>slabmalloc\<close>, which is a
  parameter: its state, its operations and the sizes it serves.
\<close>

datatype allocation_error = OutOfMemory | InvalidLayout

record 'z zone_ops =
  zo_allocate :: "layout \<Rightarrow> 'z \<Rightarrow> (allocation_error + nat) \<times> 'z"
  zo_deallocate :: "nat \<Rightarrow> layout \<Rightarrow> 'z \<Rightarrow> (allocation_error + unit) \<times> 'z"
  zo_refill :: "layout \<Rightarrow> nat \<Rightarrow> 'z \<Rightarrow> (allocation_error + unit) \<times> 'z"
  zo_refill_large :: "layout \<Rightarrow> nat \<Rightarrow> 'z \<Rightarrow> (allocation_error + unit) \<times> 'z"
  zo_max_base_alloc_size :: nat
  zo_max_alloc_size :: nat

fun expect_ok :: "'e + 'a \<Rightarrow> 'a option" where
  "expect_ok (Inl e) = None"
| "expect_ok (Inr x) = Some x"

definition frame_zero :: "frame \<Rightarrow> buddy_alloc \<Rightarrow> buddy_alloc" where
  "frame_zero f b =
     b\<lparr>bd_mem := (\<lambda>a. if fr_base f \<le> a \<and> a < fr_base f + fr_size f then 0 else bd_mem b a)\<rparr>"

text \<open>Asking the buddy allocator and zeroing what it gives.\<close>

definition alloc_frame :: "layout \<Rightarrow> buddy_alloc \<Rightarrow> (nat \<times> buddy_alloc) option" where
  "alloc_frame l b =
     do { (r, b) \<leftarrow> allocate l b;
          f \<leftarrow> r;
          Some (fr_base f, frame_zero f b) }"

definition alloc_zone :: "'z zone_ops \<Rightarrow> layout \<Rightarrow> buddy_alloc \<times> 'z \<Rightarrow> (nat \<times> buddy_alloc \<times> 'z) option" where
  "alloc_zone zo l s =
     (case s of (b, z) \<Rightarrow>
        (case zo_allocate zo l z of
           (Inr p, z) \<Rightarrow> Some (p, b, z)
         | (Inl OutOfMemory, z) \<Rightarrow>
             do { (b, z) \<leftarrow>
                    (if ly_size l \<le> zo_max_base_alloc_size zo then
                       do { (p, b) \<leftarrow> alloc_frame l b;
                            let (r, z) = zo_refill zo l p z;
                            expect_ok r;
                            Some (b, z) }
                     else
                       do { (p, b) \<leftarrow> alloc_frame (l\<lparr>ly_align := max (ly_align l) HEAP_ALIGN\<rparr>) b;
                            let (r, z) = zo_refill_large zo l p z;
                            expect_ok r;
                            Some (b, z) });
                  let (r, z) = zo_allocate zo l z;
                  p \<leftarrow> expect_ok r;
                  Some (p, b, z) }
         | (Inl InvalidLayout, z) \<Rightarrow> None))"

definition global_alloc :: "'z zone_ops \<Rightarrow> layout \<Rightarrow> buddy_alloc \<times> 'z \<Rightarrow> (nat \<times> buddy_alloc \<times> 'z) option" where
  "global_alloc zo l s =
     (case s of (b, z) \<Rightarrow>
        if ly_size l = BASE_PAGE_SIZE then do { (p, b) \<leftarrow> alloc_frame l b; Some (p, b, z) }
        else if ly_size l \<le> zo_max_alloc_size zo then alloc_zone zo l (b, z)
        else do { (p, b) \<leftarrow> alloc_frame l b; Some (p, b, z) })"

definition global_dealloc :: "'z zone_ops \<Rightarrow> nat \<Rightarrow> layout \<Rightarrow> buddy_alloc \<times> 'z \<Rightarrow> (buddy_alloc \<times> 'z) option" where
  "global_dealloc zo p l s =
     (case s of (b, z) \<Rightarrow>
        let f = \<lparr>fr_base = p, fr_size = 0\<rparr> in
        if ly_size l = BASE_PAGE_SIZE then do { b \<leftarrow> deallocate f l b; Some (b, z) }
        else if ly_size l \<le> zo_max_alloc_size zo then
          (if p \<noteq> 0 then
             do { let (r, z) = zo_deallocate zo p l z;
                  expect_ok r;
                  Some (b, z) }
           else Some (b, z))
        else do { b \<leftarrow> deallocate f l b; Some (b, z) })"

end
