(* ===== verification/Buddy_Spec.thy ===== *)
theory Buddy_Spec
  imports Buddy
begin

text \<open>
  The buddy allocator hands out disjoint blocks and loses none.  The blocks, free and handed out,
  tile the heap; the free lists are null-terminated chains through the free blocks themselves.
\<close>

section \<open>Tilings\<close>

abbreviation bs :: "nat \<Rightarrow> nat" where "bs \<equiv> order_to_size"

type_synonym block = "nat \<times> nat"

fun covers :: "block \<Rightarrow> nat set" where
  "covers (order, a) = {a ..< a + bs order}"

fun fits :: "nat \<Rightarrow> nat \<Rightarrow> block \<Rightarrow> bool" where
  "fits base m (order, a) \<longleftrightarrow> order \<le> m \<and> base \<le> a \<and> bs order dvd (a - base)"

definition tiling :: "nat \<Rightarrow> nat \<Rightarrow> block set \<Rightarrow> bool" where
  "tiling base m T \<longleftrightarrow> (\<forall>x \<in> T. fits base m x) \<and> (\<forall>x \<in> T. \<forall>y \<in> T. x \<noteq> y \<longrightarrow> covers x \<inter> covers y = {}) \<and>
     \<Union> (covers ` T) = {base ..< base + bs m}"

lemma bs_pos [simp]: "0 < bs order"
  by (simp add: order_to_size_def)

lemma bs_Suc: "bs (Suc order) = 2 * bs order"
  by (simp add: order_to_size_def flip: power_Suc)

lemma bs_less [simp]: "bs p < bs q \<longleftrightarrow> p < q"
  by (simp add: order_to_size_def)

lemma bs_le [simp]: "bs p \<le> bs q \<longleftrightarrow> p \<le> q"
  by (simp add: order_to_size_def)

lemma covers_ne [simp]: "covers x \<noteq> {}"
  by (cases x) simp

lemma tiling_fits: "tiling base m T \<Longrightarrow> x \<in> T \<Longrightarrow> fits base m x"
  by (simp add: tiling_def)

lemma tiling_refine:
  assumes t: "tiling base m T" and x: "x \<in> T" and f: "\<forall>y \<in> Y. fits base m y"
    and d: "\<forall>y \<in> Y. \<forall>z \<in> Y. y \<noteq> z \<longrightarrow> covers y \<inter> covers z = {}" and c: "\<Union> (covers ` Y) = covers x"
  shows "tiling base m (T - {x} \<union> Y)"
proof -
  have dT: "\<forall>x \<in> T. \<forall>y \<in> T. x \<noteq> y \<longrightarrow> covers x \<inter> covers y = {}" and u: "\<Union> (covers ` T) = {base ..< base + bs m}"
    using t by (simp_all add: tiling_def)
  have "covers y \<inter> covers z = {}" if "y \<in> Y" "z \<in> T - {x}" for y z
  proof -
    have "covers y \<subseteq> covers x" using that(1) c by blast
    moreover have "covers x \<inter> covers z = {}" using dT x that(2) by blast
    ultimately show ?thesis by blast
  qed
  then have "\<forall>y \<in> T - {x} \<union> Y. \<forall>z \<in> T - {x} \<union> Y. y \<noteq> z \<longrightarrow> covers y \<inter> covers z = {}"
    using dT d by blast
  moreover have "\<Union> (covers ` (T - {x} \<union> Y)) = \<Union> (covers ` T)" using c x by blast
  ultimately show ?thesis using t f u by (auto simp: tiling_def)
qed

lemma tiling_coarsen:
  assumes t: "tiling base m T" and Y: "Y \<subseteq> T" and f: "fits base m x" and c: "\<Union> (covers ` Y) = covers x"
  shows "tiling base m (T - Y \<union> {x})"
proof -
  have dT: "\<forall>x \<in> T. \<forall>y \<in> T. x \<noteq> y \<longrightarrow> covers x \<inter> covers y = {}" and u: "\<Union> (covers ` T) = {base ..< base + bs m}"
    using t by (simp_all add: tiling_def)
  have "covers x \<inter> covers z = {}" if z: "z \<in> T - Y" for z
  proof -
    have "covers y \<inter> covers z = {}" if "y \<in> Y" for y using dT Y z that by (metis DiffE subsetD)
    then have "\<Union> (covers ` Y) \<inter> covers z = {}" by blast
    then show ?thesis by (simp only: c)
  qed
  then have "\<forall>y \<in> T - Y \<union> {x}. \<forall>z \<in> T - Y \<union> {x}. y \<noteq> z \<longrightarrow> covers y \<inter> covers z = {}"
    using dT by blast
  moreover have "\<Union> (covers ` (T - Y \<union> {x})) = \<Union> (covers ` T)" using c Y by blast
  ultimately show ?thesis using t f u by (auto simp: tiling_def)
qed

lemma covers_halves: "covers (order, a) \<union> covers (order, a + bs order) = covers (Suc order, a)"
  by (auto simp: bs_Suc)

lemma tiling_split:
  assumes t: "tiling base m T" and x: "(Suc order, a) \<in> T"
  shows "tiling base m (T - {(Suc order, a)} \<union> {(order, a), (order, a + bs order)})"
proof (rule tiling_refine[OF t x])
  have "fits base m (Suc order, a)" using tiling_fits[OF t x] .
  then have f: "Suc order \<le> m" "base \<le> a" "2 * bs order dvd (a - base)" by (simp_all add: bs_Suc)
  have "bs order dvd (a - base)" using f(3) dvd_mult_right by blast
  then have "bs order dvd (a - base) + bs order" by simp
  then have "bs order dvd (a + bs order - base)" using f(2) by simp
  then show "\<forall>y \<in> {(order, a), (order, a + bs order)}. fits base m y" using f \<open>bs order dvd (a - base)\<close> by simp
  show "\<Union> (covers ` {(order, a), (order, a + bs order)}) = covers (Suc order, a)" using covers_halves[of order a] by simp
  show "\<forall>y \<in> {(order, a), (order, a + bs order)}. \<forall>z \<in> {(order, a), (order, a + bs order)}. y \<noteq> z \<longrightarrow> covers y \<inter> covers z = {}"
    by auto
qed

lemma tiling_bound: "tiling base m T \<Longrightarrow> (order, a) \<in> T \<Longrightarrow> a + bs order \<le> base + bs m"
proof -
  assume t: "tiling base m T" "(order, a) \<in> T"
  then have "covers (order, a) \<subseteq> {base ..< base + bs m}" unfolding tiling_def by blast
  moreover have "a + bs order - 1 \<in> covers (order, a)" using bs_pos[of order] by (simp del: bs_pos)
  ultimately have "a + bs order - 1 \<in> {base ..< base + bs m}" by blast
  then have "a + bs order - 1 < base + bs m" by simp
  then show ?thesis using bs_pos[of order] by linarith
qed

lemma tiling_addr:
  assumes "tiling base m T" "(o1, a) \<in> T" "(o2, a) \<in> T"
  shows "o1 = o2"
proof (rule ccontr)
  assume "o1 \<noteq> o2"
  then have "covers (o1, a) \<inter> covers (o2, a) = {}" using assms unfolding tiling_def by blast
  moreover have "a \<in> covers (o1, a) \<inter> covers (o2, a)" by simp
  ultimately show False by simp
qed

section \<open>Buddies\<close>

definition buddy_of :: "nat \<Rightarrow> nat \<Rightarrow> nat \<Rightarrow> nat" where
  "buddy_of base order a = base + Bit_Operations.xor (a - base) (bs order)"

lemma xor_pow2: "Bit_Operations.xor (i * 2 ^ k) (2 ^ k) = (if even i then i + 1 else i - 1) * (2 ^ k :: nat)"
proof -
  have "Bit_Operations.xor (i * 2 ^ k) (2 ^ k) = push_bit k (Bit_Operations.xor i 1)"
    unfolding push_bit_xor by (simp add: push_bit_eq_mult)
  then show ?thesis by (simp add: xor_one_eq push_bit_eq_mult)
qed

lemma buddy_of_cases:
  assumes "base \<le> a" "bs order dvd (a - base)"
  obtains (lower) "buddy_of base order a = a + bs order" "bs (Suc order) dvd (a - base)" "min a (buddy_of base order a) = a"
  | (upper) c where "a = c + bs order" "buddy_of base order a = c" "base \<le> c" "bs (Suc order) dvd (c - base)"
      "min a (buddy_of base order a) = c"
proof -
  obtain i where i: "a - base = i * bs order" using assms(2) by (metis dvd_div_mult_self)
  have x: "buddy_of base order a = base + (if even i then i + 1 else i - 1) * bs order"
    using xor_pow2[of i "12 + order"] i by (simp add: buddy_of_def order_to_size_def)
  show thesis
  proof (cases "even i")
    case True
    then have "bs (Suc order) dvd (a - base)" using i by (auto simp: bs_Suc elim!: evenE)
    moreover have "a = base + i * bs order" using i assms(1) by linarith
    then have "buddy_of base order a = a + bs order" using x True by (simp add: algebra_simps)
    ultimately show thesis using lower by simp
  next
    case False
    then obtain j where j: "i = 2 * j + 1" by (elim oddE) auto
    have a: "a = base + i * bs order" using i assms(1) by simp
    then have "buddy_of base order a = base + 2 * j * bs order" "a = base + 2 * j * bs order + bs order"
      using x j by (simp_all add: algebra_simps)
    then show thesis using upper[of "base + 2 * j * bs order"] by (simp add: bs_Suc)
  qed
qed

lemma buddy_of_lower:
  assumes "base \<le> a" "bs (Suc order) dvd (a - base)"
  shows "buddy_of base order a = a + bs order"
proof -
  obtain j where j: "a - base = 2 * j * bs order" using assms(2) by (auto simp: bs_Suc dvd_def algebra_simps)
  then have "buddy_of base order a = base + (2 * j + 1) * bs order"
    using xor_pow2[of "2 * j" "12 + order"] by (simp add: buddy_of_def order_to_size_def)
  moreover have "a = base + 2 * j * bs order" using j assms(1) by linarith
  ultimately show ?thesis by (simp add: algebra_simps)
qed

lemma buddy_of_invol:
  assumes "base \<le> a" "bs order dvd (a - base)"
  shows "buddy_of base order (buddy_of base order a) = a"
  by (simp add: buddy_of_def xor.assoc) (use assms(1) in simp)

lemma tiling_merge:
  assumes t: "tiling base m T" and x: "(order, a) \<in> T" "(order, buddy_of base order a) \<in> T" and m: "order < m"
  shows "tiling base m (T - {(order, a), (order, buddy_of base order a)} \<union> {(Suc order, min a (buddy_of base order a))})"
proof (rule tiling_coarsen[OF t])
  have f: "base \<le> a" "bs order dvd (a - base)" using tiling_fits[OF t x(1)] by simp_all
  from f show "\<Union> (covers ` {(order, a), (order, buddy_of base order a)}) = covers (Suc order, min a (buddy_of base order a))"
    using covers_halves by (cases rule: buddy_of_cases) (force simp del: covers.simps)+
  from f show "fits base m (Suc order, min a (buddy_of base order a))"
    using m f(1) by (cases rule: buddy_of_cases) auto
qed (use x in simp)

section \<open>The invariant\<close>

fun fl_chain :: "(nat \<Rightarrow> nat) \<Rightarrow> nat \<Rightarrow> nat list \<Rightarrow> bool" where
  "fl_chain mem h [] \<longleftrightarrow> h = 0"
| "fl_chain mem h (x # xs) \<longleftrightarrow> h = x \<and> x \<noteq> 0 \<and> fl_chain mem (mem x) xs"

lemma fl_chain_upd: "a \<notin> set xs \<Longrightarrow> fl_chain (mem(a := v)) h xs = fl_chain mem h xs"
  by (induction xs arbitrary: h) auto

lemma fl_chain_cong: "\<forall>x \<in> set xs. mem' x = mem x \<Longrightarrow> fl_chain mem' h xs = fl_chain mem h xs"
  by (induction xs arbitrary: h) auto

definition free_blocks :: "nat list list \<Rightarrow> block set" where
  "free_blocks Fs = {(order, a). order < length Fs \<and> a \<in> set (Fs ! order)}"

text \<open>\<open>Fs\<close> is what the free lists hold, \<open>U\<close> the blocks handed out, and \<open>m\<close> the order of the whole heap.\<close>

definition lists_ok :: "buddy_alloc \<Rightarrow> nat list list \<Rightarrow> bool" where
  "lists_ok b Fs \<longleftrightarrow> length (bd_free_lists b) = ORDERS \<and> length Fs = ORDERS \<and>
     (\<forall>order < ORDERS. fl_chain (bd_mem b) (bd_free_lists b ! order) (Fs ! order) \<and> distinct (Fs ! order))"

definition binv :: "buddy_alloc \<Rightarrow> nat \<Rightarrow> nat list list \<Rightarrow> block set \<Rightarrow> bool" where
  "binv b m Fs U \<longleftrightarrow> lists_ok b Fs \<and> m < ORDERS \<and> 0 < fr_base (bd_region b) \<and> bs m \<le> fr_size (bd_region b) \<and>
     free_blocks Fs \<inter> U = {} \<and> tiling (fr_base (bd_region b)) m (free_blocks Fs \<union> U)"

lemma free_blocks_upd:
  "order < length Fs \<Longrightarrow> free_blocks (Fs[order := xs]) = free_blocks Fs - ({order} \<times> set (Fs ! order)) \<union> {order} \<times> set xs"
  by (auto simp: free_blocks_def nth_list_update split: if_splits)

lemma binv_addr:
  assumes "binv b m Fs U" "(o1, a) \<in> free_blocks Fs \<union> U" "(o2, a) \<in> free_blocks Fs \<union> U"
  shows "o1 = o2"
  using assms tiling_addr unfolding binv_def by blast

lemma binv_block:
  assumes "binv b m Fs U" "(order, a) \<in> free_blocks Fs \<union> U"
  shows "order \<le> m" "order < ORDERS" "fr_base (bd_region b) \<le> a" "bs order dvd (a - fr_base (bd_region b))" "0 < a"
    "a + bs order \<le> fr_base (bd_region b) + bs m"
proof -
  have t: "tiling (fr_base (bd_region b)) m (free_blocks Fs \<union> U)" "m < ORDERS" "0 < fr_base (bd_region b)"
    using assms(1) by (simp_all add: binv_def)
  show "order \<le> m" "order < ORDERS" "fr_base (bd_region b) \<le> a" "bs order dvd (a - fr_base (bd_region b))" "0 < a"
    using tiling_fits[OF t(1) assms(2)] t(2,3) by auto
  show "a + bs order \<le> fr_base (bd_region b) + bs m" using tiling_bound[OF t(1) assms(2)] .
qed

lemma free_list_pop_empty:
  assumes "binv b m Fs U" "order < ORDERS" "Fs ! order = []"
  shows "free_list_pop order b = Some (None, b)"
  using assms by (auto simp: binv_def lists_ok_def free_list_pop_def nth_chk_def)

lemma free_list_pop_found:
  assumes i: "binv b m Fs U" and o: "order < ORDERS" and x: "Fs ! order = a # xs"
  shows "\<exists>b'. free_list_pop order b = Some (Some a, b') \<and> binv b' m (Fs[order := xs]) (insert (order, a) U) \<and> bd_region b' = bd_region b"
proof -
  let ?b = "b\<lparr>bd_free_lists := (bd_free_lists b)[order := bd_mem b a]\<rparr>"
  have l: "lists_ok b Fs" "length Fs = ORDERS" "length (bd_free_lists b) = ORDERS" using i by (simp_all add: binv_def lists_ok_def)
  then have c: "bd_free_lists b ! order = a" "a \<noteq> 0" "fl_chain (bd_mem b) (bd_mem b a) xs" "distinct (a # xs)"
    using o x by (force simp: lists_ok_def)+
  have "lists_ok ?b (Fs[order := xs])" using l o c by (auto simp: lists_ok_def nth_list_update)
  moreover have f: "free_blocks (Fs[order := xs]) = free_blocks Fs - {(order, a)}" "(order, a) \<in> free_blocks Fs"
    using o l(2) x c(4) by (auto simp: free_blocks_upd) (auto simp: free_blocks_def)
  have "free_blocks Fs - {(order, a)} \<union> insert (order, a) U = free_blocks Fs \<union> U" using f(2) by auto
  ultimately have "binv ?b m (Fs[order := xs]) (insert (order, a) U)" using i f by (auto simp: binv_def)
  then show ?thesis using c o l(3) by (auto simp: free_list_pop_def nth_chk_def)
qed

lemma free_list_insert_spec:
  assumes i: "binv b m Fs U" and u: "(order, a) \<in> U"
  shows "\<exists>b'. free_list_insert order a b = Some b' \<and> binv b' m (Fs[order := a # Fs ! order]) (U - {(order, a)}) \<and>
    bd_region b' = bd_region b"
proof -
  let ?b = "b\<lparr>bd_mem := (bd_mem b)(a := bd_free_lists b ! order), bd_free_lists := (bd_free_lists b)[order := a]\<rparr>"
  have o: "order < ORDERS" "a \<noteq> 0" using binv_block[OF i, of order a] u by auto
  have l: "lists_ok b Fs" "length Fs = ORDERS" "length (bd_free_lists b) = ORDERS" and d: "free_blocks Fs \<inter> U = {}"
    using i by (simp_all add: binv_def lists_ok_def)
  have n: "a \<notin> set (Fs ! q)" if "q < ORDERS" for q
  proof
    assume "a \<in> set (Fs ! q)"
    then have "(q, a) \<in> free_blocks Fs" using that l(2) by (simp add: free_blocks_def)
    moreover from this have "q = order" using binv_addr[OF i, of q a order] u by blast
    ultimately show False using d u by blast
  qed
  have "lists_ok ?b (Fs[order := a # Fs ! order])"
    using l o n by (auto simp: lists_ok_def nth_list_update fl_chain_upd)
  moreover have f: "free_blocks (Fs[order := a # Fs ! order]) = insert (order, a) (free_blocks Fs)"
    using o l(2) by (auto simp: free_blocks_upd) (auto simp: free_blocks_def)
  moreover have "insert (order, a) (free_blocks Fs) \<union> (U - {(order, a)}) = free_blocks Fs \<union> U" using u by auto
  ultimately have "binv ?b m (Fs[order := a # Fs ! order]) (U - {(order, a)})" using i by (auto simp: binv_def)
  then show ?thesis using o l(3) by (auto simp: free_list_insert_def nth_chk_def)
qed

text \<open>Removing from the middle of a list: what the write through the slot changes.\<close>

fun slot_free :: "slot \<Rightarrow> nat set \<Rightarrow> bool" where
  "slot_free (Head order) S \<longleftrightarrow> True"
| "slot_free (Link q) S \<longleftrightarrow> q \<notin> S"

definition slot_frame :: "slot \<Rightarrow> nat set \<Rightarrow> buddy_alloc \<Rightarrow> buddy_alloc \<Rightarrow> bool" where
  "slot_frame sl S b b' \<longleftrightarrow> bd_region b' = bd_region b \<and> length (bd_free_lists b') = length (bd_free_lists b) \<and>
     (\<forall>a. a \<notin> S \<longrightarrow> sl \<noteq> Link a \<longrightarrow> bd_mem b' a = bd_mem b a) \<and>
     (\<forall>q < length (bd_free_lists b). sl \<noteq> Head q \<longrightarrow> bd_free_lists b' ! q = bd_free_lists b ! q)"

lemma remove_from_spec:
  assumes "read_slot sl b = Some h" "fl_chain (bd_mem b) h xs" "distinct xs" "slot_free sl (set xs)"
  shows "(p \<notin> set xs \<longrightarrow> remove_from sl p b = Some (False, b)) \<and>
    (p \<in> set xs \<longrightarrow> (\<exists>b' h'. remove_from sl p b = Some (True, b') \<and> read_slot sl b' = Some h' \<and>
       fl_chain (bd_mem b') h' (remove1 p xs) \<and> slot_frame sl (set xs) b b'))"
  using assms
proof (induction xs arbitrary: sl h)
  case Nil
  then show ?case by (subst remove_from.simps) simp
next
  case (Cons x xs)
  have x: "h = x" "x \<noteq> 0" "fl_chain (bd_mem b) (bd_mem b x) xs" "distinct xs" "x \<notin> set xs" "slot_free sl (set xs)"
    using Cons.prems by (cases sl; simp)+
  show ?case
  proof (cases "p = x")
    case True
    have e: "remove_from sl p b = Some (True, write_slot sl (bd_mem b x) b)"
      using Cons.prems(1) x True by (subst remove_from.simps) simp
    have "read_slot sl (write_slot sl (bd_mem b x) b) = Some (bd_mem b x)"
      using Cons.prems(1) by (cases sl) (auto simp: nth_chk_def split: if_splits)
    moreover have "fl_chain (bd_mem (write_slot sl (bd_mem b x) b)) (bd_mem b x) xs"
      using x(3,6) by (cases sl) (auto simp: fl_chain_upd)
    moreover have "slot_frame sl (set (x # xs)) b (write_slot sl (bd_mem b x) b)"
      by (cases sl) (auto simp: slot_frame_def)
    ultimately show ?thesis using e True by auto
  next
    case False
    have e: "remove_from sl p b = remove_from (Link x) p b"
      using Cons.prems(1) x False by (subst remove_from.simps) simp
    have IH: "(p \<notin> set xs \<longrightarrow> remove_from (Link x) p b = Some (False, b)) \<and>
      (p \<in> set xs \<longrightarrow> (\<exists>b' h'. remove_from (Link x) p b = Some (True, b') \<and> read_slot (Link x) b' = Some h' \<and>
         fl_chain (bd_mem b') h' (remove1 p xs) \<and> slot_frame (Link x) (set xs) b b'))"
      using Cons.IH[of "Link x" "bd_mem b x"] x by simp
    have "\<exists>h'. read_slot sl b' = Some h' \<and> fl_chain (bd_mem b') h' (x # remove1 p xs) \<and> slot_frame sl (set (x # xs)) b b'"
      if "fl_chain (bd_mem b') (bd_mem b' x) (remove1 p xs)" "slot_frame (Link x) (set xs) b b'" for b'
    proof (intro exI[of _ x] conjI)
      show "read_slot sl b' = Some x"
        using that(2) Cons.prems(1,4) x(1) by (cases sl) (auto simp: slot_frame_def nth_chk_def split: if_splits)
      show "fl_chain (bd_mem b') x (x # remove1 p xs)" using that(1) x(2) by simp
      show "slot_frame sl (set (x # xs)) b b'" using that(2) by (auto simp: slot_frame_def)
    qed
    then show ?thesis using IH e False by auto
  qed
qed

lemma free_list_remove_spec:
  assumes i: "binv b m Fs U" and o: "order < ORDERS"
  shows "(a \<notin> set (Fs ! order) \<longrightarrow> free_list_remove order a b = Some (False, b)) \<and>
    (a \<in> set (Fs ! order) \<longrightarrow> (\<exists>b'. free_list_remove order a b = Some (True, b') \<and>
       binv b' m (Fs[order := remove1 a (Fs ! order)]) (insert (order, a) U) \<and> bd_region b' = bd_region b))"
proof -
  have l: "length (bd_free_lists b) = ORDERS" "length Fs = ORDERS"
    "\<And>q. q < ORDERS \<Longrightarrow> fl_chain (bd_mem b) (bd_free_lists b ! q) (Fs ! q)" "\<And>q. q < ORDERS \<Longrightarrow> distinct (Fs ! q)"
    using i by (simp_all add: binv_def lists_ok_def)
  note r = remove_from_spec[of "Head order" b "bd_free_lists b ! order" "Fs ! order" a]
  have "\<exists>b'. free_list_remove order a b = Some (True, b') \<and>
       binv b' m (Fs[order := remove1 a (Fs ! order)]) (insert (order, a) U) \<and> bd_region b' = bd_region b"
    if a: "a \<in> set (Fs ! order)"
  proof -
    let ?Fs = "Fs[order := remove1 a (Fs ! order)]"
    obtain b' h' where b': "free_list_remove order a b = Some (True, b')" "read_slot (Head order) b' = Some h'"
      "fl_chain (bd_mem b') h' (remove1 a (Fs ! order))" "slot_frame (Head order) (set (Fs ! order)) b b'"
      using r a o l by (auto simp: nth_chk_def free_list_remove_def)
    have d: "set (Fs ! q) \<inter> set (Fs ! order) = {}" if "q < ORDERS" "q \<noteq> order" for q
      using binv_addr[OF i, of q _ order] that o l(2) by (auto simp: free_blocks_def)
    have "fl_chain (bd_mem b') (bd_free_lists b' ! q) (?Fs ! q) \<and> distinct (?Fs ! q)" if q: "q < ORDERS" for q
    proof (cases "q = order")
      case True
      then show ?thesis using b'(2,3) l(2,4) o by (auto simp: nth_chk_def split: if_splits)
    next
      case False
      have "\<forall>x \<in> set (Fs ! q). bd_mem b' x = bd_mem b x" using d[OF q False] b'(4) by (auto simp: slot_frame_def)
      then show ?thesis using fl_chain_cong[of "Fs ! q" "bd_mem b'" "bd_mem b"] l q False b'(4) by (auto simp: slot_frame_def)
    qed
    then have "lists_ok b' ?Fs" using b'(4) l(1,2) by (simp add: lists_ok_def slot_frame_def)
    moreover have f: "free_blocks ?Fs = free_blocks Fs - {(order, a)}" "(order, a) \<in> free_blocks Fs"
      using o l(2,4) a by (auto simp: free_blocks_upd) (auto simp: free_blocks_def)
    moreover have "free_blocks Fs - {(order, a)} \<union> insert (order, a) U = free_blocks Fs \<union> U" using f(2) by auto
    ultimately have "binv b' m ?Fs (insert (order, a) U)" using i b'(4) by (auto simp: binv_def slot_frame_def)
    then show ?thesis using b'(1,4) by (auto simp: slot_frame_def)
  qed
  then show ?thesis using r o l by (auto simp: nth_chk_def free_list_remove_def)
qed

section \<open>Splitting and merging\<close>

text \<open>No two buddies are free at once.\<close>

definition coalesced :: "nat \<Rightarrow> nat \<Rightarrow> block set \<Rightarrow> bool" where
  "coalesced base m F \<longleftrightarrow> (\<forall>(order, a) \<in> F. order < m \<longrightarrow> (order, buddy_of base order a) \<notin> F)"

definition buddy_ok :: "buddy_alloc \<Rightarrow> nat \<Rightarrow> block set \<Rightarrow> bool" where
  "buddy_ok b m U \<longleftrightarrow> (\<exists>Fs. binv b m Fs U \<and> coalesced (fr_base (bd_region b)) m (free_blocks Fs))"

lemma tiling_disjoint: "tiling base m T \<Longrightarrow> x \<in> T \<Longrightarrow> y \<in> T \<Longrightarrow> c \<in> covers x \<Longrightarrow> c \<in> covers y \<Longrightarrow> x = y"
  unfolding tiling_def by blast

lemma binv_disjoint:
  "binv b m Fs U \<Longrightarrow> x \<in> free_blocks Fs \<union> U \<Longrightarrow> y \<in> free_blocks Fs \<union> U \<Longrightarrow> c \<in> covers x \<Longrightarrow> c \<in> covers y \<Longrightarrow> x = y"
  using tiling_disjoint unfolding binv_def by blast

lemma coalesced_insert:
  assumes c: "coalesced base m F" and n: "order < m \<Longrightarrow> (order, buddy_of base order a) \<notin> F"
    and f: "\<And>q x. (q, x) \<in> F \<Longrightarrow> base \<le> x \<and> bs q dvd (x - base)" "buddy_of base order a \<noteq> a"
  shows "coalesced base m (insert (order, a) F)"
  unfolding coalesced_def
proof (clarify)
  fix q x assume x: "(q, x) \<in> insert (order, a) F" "q < m" and bx: "(q, buddy_of base q x) \<in> insert (order, a) F"
  show False
  proof (cases "(q, x) \<in> F")
    case True
    then have "(q, buddy_of base q x) \<notin> F" using c x(2) by (auto simp: coalesced_def)
    then have "q = order" "buddy_of base q x = a" using bx by auto
    then have "x = buddy_of base order a" using buddy_of_invol f(1)[OF True] by metis
    then show False using n True x(2) \<open>q = order\<close> by simp
  next
    case False
    then have "q = order" "x = a" using x(1) by auto
    then show False using n x(2) bx f(2) by auto
  qed
qed

lemma coalesced_mono: "coalesced base m F \<Longrightarrow> F' \<subseteq> F \<Longrightarrow> coalesced base m F'"
  unfolding coalesced_def by blast

lemma buddy_of_neq: "buddy_of base order a \<noteq> a" if "base \<le> a" "bs order dvd (a - base)"
  using that by (cases rule: buddy_of_cases) (use bs_pos[of order] in \<open>auto simp del: bs_pos\<close>)

lemma split_held:
  assumes i: "binv b m Fs U" and u: "(Suc order, a) \<in> U"
  shows "binv b m Fs (U - {(Suc order, a)} \<union> {(order, a), (order, a + bs order)})"
proof -
  let ?U = "U - {(Suc order, a)} \<union> {(order, a), (order, a + bs order)}"
  have t: "tiling (fr_base (bd_region b)) m (free_blocks Fs \<union> U)" and d: "free_blocks Fs \<inter> U = {}" using i by (simp_all add: binv_def)
  have n: "(order, c) \<notin> free_blocks Fs" if "c \<in> covers (Suc order, a)" for c
    using binv_disjoint[OF i, of "(order, c)" "(Suc order, a)" c] that u by auto
  have "(order, a) \<notin> free_blocks Fs" "(order, a + bs order) \<notin> free_blocks Fs" by (rule n; simp add: bs_Suc)+
  then have "free_blocks Fs \<inter> ?U = {}" using d by blast
  moreover have "free_blocks Fs \<union> U - {(Suc order, a)} \<union> {(order, a), (order, a + bs order)} = free_blocks Fs \<union> ?U"
    using d u by blast
  then have "tiling (fr_base (bd_region b)) m (free_blocks Fs \<union> ?U)" using tiling_split[OF t, of order a] u by simp
  ultimately show ?thesis using i by (simp add: binv_def)
qed

lemma split_free_block_spec:
  assumes "binv b m Fs U" "coalesced (fr_base (bd_region b)) m (free_blocks Fs)" "(order, a) \<in> U" "needed \<le> order"
  shows "\<exists>b'. split_free_block a order needed b = Some b' \<and> buddy_ok b' m (U - {(order, a)} \<union> {(needed, a)}) \<and> bd_region b' = bd_region b"
  using assms
proof (induction order arbitrary: b Fs U)
  case 0
  then show ?case by (auto simp: buddy_ok_def insert_absorb)
next
  case (Suc order)
  show ?case
  proof (cases "needed = Suc order")
    case True
    then show ?thesis using Suc.prems by (auto simp: buddy_ok_def insert_absorb)
  next
    case False
    let ?r = "a + bs order" and ?base = "fr_base (bd_region b)"
    let ?U = "U - {(Suc order, a)} \<union> {(order, a), (order, ?r)}"
    note h = split_held[OF Suc.prems(1,3)]
    obtain b1 where b1: "free_list_insert order ?r b = Some b1" "binv b1 m (Fs[order := ?r # Fs ! order]) (?U - {(order, ?r)})"
      "bd_region b1 = bd_region b" using free_list_insert_spec[OF h, of order ?r] by auto
    have o: "order < length Fs" "length Fs = ORDERS" using binv_block(2)[OF h, of order a] h by (auto simp: binv_def lists_ok_def)
    then have F: "free_blocks (Fs[order := ?r # Fs ! order]) = insert (order, ?r) (free_blocks Fs)"
      by (auto simp: free_blocks_upd) (auto simp: free_blocks_def)
    have al: "?base \<le> a" "bs order dvd (a - ?base)" "bs (Suc order) dvd (a - ?base)"
      using binv_block(3,4)[OF h, of order a] binv_block(4)[OF Suc.prems(1), of "Suc order" a] Suc.prems(3) by auto
    have bud: "buddy_of ?base order a = ?r" using buddy_of_lower[OF al(1,3)] .
    have al': "?base \<le> ?r" "bs order dvd (?r - ?base)" using binv_block(3,4)[OF h, of order ?r] by auto
    have bud': "buddy_of ?base order ?r = a" using buddy_of_invol[OF al(1,2)] bud by simp
    have nf: "(order, a) \<notin> free_blocks Fs" using h by (auto simp: binv_def)
    have "coalesced ?base m (free_blocks (Fs[order := ?r # Fs ! order]))"
      unfolding F by (rule coalesced_insert[OF Suc.prems(2)])
        (use nf bud' buddy_of_neq[OF al'] binv_block(3,4)[OF h] in auto)
    moreover have "(order, a) \<in> ?U - {(order, ?r)}" using bs_pos[of order] by (simp del: bs_pos)
    ultimately obtain b' where b': "split_free_block a order needed b1 = Some b'"
      "buddy_ok b' m (?U - {(order, ?r)} - {(order, a)} \<union> {(needed, a)})" "bd_region b' = bd_region b1"
      using Suc.IH[OF b1(2)] Suc.prems(4) False b1(3) by auto
    have "(order, x) \<notin> U" if "x \<in> covers (Suc order, a)" for x
      using binv_disjoint[OF Suc.prems(1), of "(order, x)" "(Suc order, a)" x] that Suc.prems(3) by auto
    then have "(order, a) \<notin> U" "(order, ?r) \<notin> U" by (simp_all add: bs_Suc)
    then have "?U - {(order, ?r)} - {(order, a)} = U - {(Suc order, a)}" by auto
    then show ?thesis using b1(1,3) b' Suc.prems(4) False by auto
  qed
qed

declare alloc_order_from.simps [simp del] merge_from.simps [simp del]

lemma alloc_order_from_spec:
  assumes "binv b m Fs U" "coalesced (fr_base (bd_region b)) m (free_blocks Fs)" "needed \<le> order"
  shows "\<exists>r b'. alloc_order_from order needed b = Some (r, b') \<and> bd_region b' = bd_region b \<and>
    (case r of
       None \<Rightarrow> b' = b \<and> (\<forall>q. order \<le> q \<longrightarrow> q < ORDERS \<longrightarrow> Fs ! q = [])
     | Some f \<Rightarrow> fr_size f = bs needed \<and> (needed, fr_base f) \<notin> U \<and> buddy_ok b' m (insert (needed, fr_base f) U))"
  using assms(3)
proof (induction "ORDERS - order" arbitrary: order rule: less_induct)
  case less
  show ?case
  proof (cases "ORDERS \<le> order")
    case True
    then show ?thesis by (subst alloc_order_from.simps) auto
  next
    case o: False
    show ?thesis
    proof (cases "Fs ! order")
      case Nil
      then have "alloc_order_from order needed b = alloc_order_from (Suc order) needed b"
        using o free_list_pop_empty[OF assms(1), of order] by (subst alloc_order_from.simps) simp
      moreover have sm: "ORDERS - Suc order < ORDERS - order" "needed \<le> Suc order" using o less.prems by arith+
      obtain r b' where IH: "alloc_order_from (Suc order) needed b = Some (r, b')" "bd_region b' = bd_region b"
        "case r of None \<Rightarrow> b' = b \<and> (\<forall>q. Suc order \<le> q \<longrightarrow> q < ORDERS \<longrightarrow> Fs ! q = [])
         | Some f \<Rightarrow> fr_size f = bs needed \<and> (needed, fr_base f) \<notin> U \<and> buddy_ok b' m (insert (needed, fr_base f) U)"
        using less.hyps[OF sm] by blast
      moreover have "Fs ! q = []" if "order \<le> q" "q < ORDERS" "\<forall>q. Suc order \<le> q \<longrightarrow> q < ORDERS \<longrightarrow> Fs ! q = []" for q
        using that Nil by (cases "q = order") auto
      ultimately show ?thesis by (cases r) auto
    next
      case (Cons a xs)
      obtain b1 where b1: "free_list_pop order b = Some (Some a, b1)" "binv b1 m (Fs[order := xs]) (insert (order, a) U)"
        "bd_region b1 = bd_region b" using free_list_pop_found[OF assms(1) _ Cons] o by auto
      have lF: "length Fs = ORDERS" using assms(1) by (simp add: binv_def lists_ok_def)
      have F: "free_blocks (Fs[order := xs]) \<subseteq> free_blocks Fs" "(order, a) \<in> free_blocks Fs"
        using o Cons lF by (auto simp: free_blocks_upd) (auto simp: free_blocks_def)
      have co: "coalesced (fr_base (bd_region b1)) m (free_blocks (Fs[order := xs]))"
        using coalesced_mono[OF assms(2) F(1)] b1(3) by simp
      have nu: "(order, a) \<notin> U" using F(2) assms(1) by (auto simp: binv_def)
      have nn: "(needed, a) \<notin> U" using binv_addr[OF assms(1), of needed a order] F(2) nu by auto
      obtain b' where b': "split_free_block a order needed b1 = Some b'"
        "buddy_ok b' m (insert (order, a) U - {(order, a)} \<union> {(needed, a)})" "bd_region b' = bd_region b1"
        using split_free_block_spec[OF b1(2) co, of order a needed] less.prems by auto
      have "split_free_block a order order b1 = Some b1" by (cases order) simp_all
      then have "alloc_order_from order needed b = Some (Some \<lparr>fr_base = a, fr_size = bs needed\<rparr>, b')"
        using o b1(1) b'(1) less.prems by (subst alloc_order_from.simps) auto
      then show ?thesis using b'(2,3) b1(3) nu nn by auto
    qed
  qed
qed

lemma merge_held:
  assumes i: "binv b m Fs U" and u: "(order, a) \<in> U" "(order, c) \<in> U" and c: "c = buddy_of (fr_base (bd_region b)) order a" and m: "order < m"
  shows "binv b m Fs (U - {(order, a), (order, c)} \<union> {(Suc order, min a c)})" "(Suc order, min a c) \<notin> U"
proof -
  let ?base = "fr_base (bd_region b)"
  have t: "tiling ?base m (free_blocks Fs \<union> U)" and d: "free_blocks Fs \<inter> U = {}" using i by (simp_all add: binv_def)
  have mem: "a \<in> covers (Suc order, min a c)"
  proof -
    have "?base \<le> a" "bs order dvd (a - ?base)" using binv_block(3,4)[OF i, of order a] u by auto
    then show ?thesis unfolding c by (cases rule: buddy_of_cases) (simp_all add: bs_Suc)
  qed
  have n: "(Suc order, min a c) \<notin> free_blocks Fs \<union> U"
    using binv_disjoint[OF i, of "(Suc order, min a c)" "(order, a)" a] mem u(1) by auto
  then show "(Suc order, min a c) \<notin> U" by simp
  have "tiling ?base m (free_blocks Fs \<union> U - {(order, a), (order, c)} \<union> {(Suc order, min a c)})"
    using tiling_merge[OF t, of order a] u m c by simp
  moreover have "free_blocks Fs \<union> U - {(order, a), (order, c)} \<union> {(Suc order, min a c)} =
      free_blocks Fs \<union> (U - {(order, a), (order, c)} \<union> {(Suc order, min a c)})"
    using d u by blast
  ultimately have "tiling ?base m (free_blocks Fs \<union> (U - {(order, a), (order, c)} \<union> {(Suc order, min a c)}))" by simp
  moreover have "free_blocks Fs \<inter> (U - {(order, a), (order, c)} \<union> {(Suc order, min a c)}) = {}" using d n by blast
  ultimately show "binv b m Fs (U - {(order, a), (order, c)} \<union> {(Suc order, min a c)})" using i unfolding binv_def by blast
qed

lemma insert_merged:
  assumes i: "binv b m Fs U" and co: "coalesced (fr_base (bd_region b)) m (free_blocks Fs)" and u: "(order, a) \<in> U"
    and n: "order < m \<Longrightarrow> buddy_of (fr_base (bd_region b)) order a \<notin> set (Fs ! order)"
  shows "\<exists>b'. free_list_insert order a b = Some b' \<and> buddy_ok b' m (U - {(order, a)}) \<and> bd_region b' = bd_region b"
proof -
  let ?base = "fr_base (bd_region b)"
  obtain b' where b': "free_list_insert order a b = Some b'" "binv b' m (Fs[order := a # Fs ! order]) (U - {(order, a)})"
    "bd_region b' = bd_region b" using free_list_insert_spec[OF i u] by blast
  have o: "order < length Fs" "length Fs = ORDERS" using binv_block(2)[OF i, of order a] u i by (auto simp: binv_def lists_ok_def)
  then have F: "free_blocks (Fs[order := a # Fs ! order]) = insert (order, a) (free_blocks Fs)"
    by (auto simp: free_blocks_upd) (auto simp: free_blocks_def)
  have al: "?base \<le> a" "bs order dvd (a - ?base)" using binv_block(3,4)[OF i, of order a] u by auto
  have "coalesced ?base m (free_blocks (Fs[order := a # Fs ! order]))"
    unfolding F by (rule coalesced_insert[OF co])
      (use n o buddy_of_neq[OF al] binv_block(3,4)[OF i] in \<open>auto simp: free_blocks_def\<close>)
  then show ?thesis using b' unfolding buddy_ok_def by auto
qed

lemma merge_from_spec:
  assumes "binv b m Fs U" "coalesced (fr_base (bd_region b)) m (free_blocks Fs)" "(order, a) \<in> U"
  shows "\<exists>b'. merge_from order a b = Some b' \<and> buddy_ok b' m (U - {(order, a)}) \<and> bd_region b' = bd_region b"
  using assms
proof (induction "m - order" arbitrary: b Fs U order a rule: less_induct)
  case less
  note i = less.prems(1) and co = less.prems(2) and u = less.prems(3)
  let ?base = "fr_base (bd_region b)" and ?c = "buddy_of (fr_base (bd_region b)) order a"
  have o: "order \<le> m" "order < ORDERS" "?base \<le> a" "bs order dvd (a - ?base)" "a + bs order \<le> ?base + bs m"
    using binv_block[OF i, of order a] u by auto
  have sz: "bs m \<le> fr_size (bd_region b)" and d: "free_blocks Fs \<inter> U = {}" and lF: "length Fs = ORDERS"
    using i by (auto simp: binv_def lists_ok_def)
  show ?case
  proof (cases "fr_size (bd_region b) \<le> bs order")
    case True
    then have "bs m \<le> bs order" using sz by linarith
    then have "\<not> order < m" by simp
    moreover have "merge_from order a b = free_list_insert order a b"
      using True o by (subst merge_from.simps) (simp add: buddy_def sub_chk_def)
    ultimately show ?thesis using insert_merged[OF i co u] by simp
  next
    case False
    then have bud: "buddy order a b = Some (Some ?c)" using o(3) by (simp add: buddy_def sub_chk_def buddy_of_def)
    show ?thesis
    proof (cases "?c \<in> set (Fs ! order)")
      case False
      then have "merge_from order a b = free_list_insert order a b"
        using bud o(2) free_list_remove_spec[OF i o(2), of ?c] by (subst merge_from.simps) simp
      then show ?thesis using insert_merged[OF i co u] False by simp
    next
      case True
      obtain b1 where b1: "free_list_remove order ?c b = Some (True, b1)"
        "binv b1 m (Fs[order := remove1 ?c (Fs ! order)]) (insert (order, ?c) U)" "bd_region b1 = bd_region b"
        using free_list_remove_spec[OF i o(2), of ?c] True by blast
      have f: "(order, ?c) \<in> free_blocks Fs" using True lF o(2) by (simp add: free_blocks_def)
      have m: "order < m"
      proof (rule ccontr)
        assume "\<not> order < m"
        then have "a = ?base" "?c = ?base" using o binv_block(3,6)[OF i, of order ?c] f by auto
        then show False using buddy_of_neq[OF o(3,4)] by simp
      qed
      let ?U = "insert (order, ?c) U - {(order, a), (order, ?c)} \<union> {(Suc order, min a ?c)}"
      have "(order, a) \<in> insert (order, ?c) U" "(order, ?c) \<in> insert (order, ?c) U" "?c = buddy_of (fr_base (bd_region b1)) order a"
        using u b1(3) by simp_all
      note mh = merge_held[OF b1(2) this m]
      have "free_blocks (Fs[order := remove1 ?c (Fs ! order)]) \<subseteq> free_blocks Fs"
        using o(2) lF set_remove1_subset[of ?c "Fs ! order"] by (auto simp: free_blocks_def nth_list_update split: if_splits)
      then have co1: "coalesced (fr_base (bd_region b1)) m (free_blocks (Fs[order := remove1 ?c (Fs ! order)]))"
        using coalesced_mono[OF co] b1(3) by simp
      have sm: "m - Suc order < m - order" "(Suc order, min a ?c) \<in> ?U" using m by (arith, blast)
      obtain b' where b': "merge_from (Suc order) (min a ?c) b1 = Some b'" "buddy_ok b' m (?U - {(Suc order, min a ?c)})"
        "bd_region b' = bd_region b1"
        using less.hyps[OF sm(1) mh(1) co1 sm(2)] by blast
      have "?U - {(Suc order, min a ?c)} = U - {(order, a)}" using mh(2) f d by auto
      moreover have "merge_from order a b = Some b'"
        using bud o(2) b1(1) b'(1) by (subst merge_from.simps) simp
      ultimately show ?thesis using b'(2,3) b1(3) by simp
    qed
  qed
qed

section \<open>Layouts and orders\<close>

lemma find_upt: "find P [0..<n] = Some k \<longleftrightarrow> k < n \<and> P k \<and> (\<forall>j < k. \<not> P j)"
  by (auto simp: find_Some_iff)

lemma next_power_of_two_Some:
  "next_power_of_two n = Some p \<longleftrightarrow> (\<exists>k < 64. p = 2 ^ k \<and> n \<le> 2 ^ k \<and> (\<forall>j < k. \<not> n \<le> 2 ^ j))"
  by (auto simp: next_power_of_two_def find_upt simp del: upt_rec_numeral)

lemma next_power_of_two_ex:
  assumes "n \<le> 2 ^ 63"
  shows "\<exists>p. next_power_of_two n = Some p"
proof -
  have "\<exists>k. k \<in> set [0..<64] \<and> n \<le> 2 ^ k" using assms by (intro exI[of _ 63]) simp
  then have "find (\<lambda>k. n \<le> 2 ^ k) [0..<64] \<noteq> None" unfolding find_None_iff by blast
  then show ?thesis by (auto simp: next_power_of_two_def simp del: upt_rec_numeral)
qed

lemma log2_power: "k < 64 \<Longrightarrow> log2 (2 ^ k) = Some k"
  by (auto simp: log2_def find_upt simp del: upt_rec_numeral power_Suc)

lemma layout_to_order_Some:
  assumes "layout_to_order l b = Some (Some order)"
  shows "bs order \<le> fr_size (bd_region b)" "ly_size l \<le> bs order" "ly_align l \<le> bs order" "ly_align l \<le> HEAP_ALIGN"
    "order = 0 \<or> bs order < 2 * max (ly_size l) (ly_align l)"
proof -
  let ?n = "max (max (ly_size l) (ly_align l)) BASE_PAGE_SIZE"
  obtain p k where a: "ly_align l \<le> HEAP_ALIGN" "next_power_of_two ?n = Some p" "p \<le> fr_size (bd_region b)"
    "log2 p = Some k" "12 \<le> k" "order = k - 12"
    using assms by (auto simp: layout_to_order_def allocation_size_def bind_eq_Some_conv sub_chk_Some split: option.splits if_splits)
  obtain j where j: "j < 64" "p = 2 ^ j" "?n \<le> 2 ^ j" "\<forall>i < j. \<not> ?n \<le> 2 ^ i" using a(2) by (auto simp: next_power_of_two_Some)
  have "k = j" using log2_power[OF j(1)] a(4) j(2) by simp
  then have e: "bs order = 2 ^ j" "j = order + 12" using a(5,6) by (simp_all add: order_to_size_def)
  then show "bs order \<le> fr_size (bd_region b)" "ly_size l \<le> bs order" "ly_align l \<le> bs order" "ly_align l \<le> HEAP_ALIGN"
    using a(1,3) j(2,3) by simp_all
  show "order = 0 \<or> bs order < 2 * max (ly_size l) (ly_align l)"
  proof (cases order)
    case (Suc q)
    then have "q + 12 < j" using e(2) by simp
    then have "2 ^ (q + 12) < ?n" using j(4) by (meson not_le)
    moreover have "BASE_PAGE_SIZE \<le> 2 ^ (q + 12)" by (simp add: power_add)
    ultimately have "2 ^ (q + 12) < max (ly_size l) (ly_align l)" by linarith
    moreover have "bs order = 2 * 2 ^ (q + 12)" using Suc by (simp add: order_to_size_def add.commute flip: power_Suc)
    ultimately show ?thesis by linarith
  qed simp
qed

lemma layout_to_order_ex:
  assumes "ly_size l \<le> 2 ^ 63"
  shows "\<exists>r. layout_to_order l b = Some r"
proof (cases "HEAP_ALIGN < ly_align l")
  case False
  let ?n = "max (max (ly_size l) (ly_align l)) BASE_PAGE_SIZE"
  have "?n \<le> 2 ^ 63" using assms False by simp
  then obtain p where p: "next_power_of_two ?n = Some p" using next_power_of_two_ex by blast
  then obtain j where j: "j < 64" "p = 2 ^ j" "?n \<le> 2 ^ j" by (auto simp: next_power_of_two_Some)
  have "12 \<le> j"
  proof (rule ccontr)
    assume "\<not> 12 \<le> j"
    then have "(2::nat) ^ j \<le> 2 ^ 11" by (intro power_increasing) auto
    then show False using j(3) by simp
  qed
  then show ?thesis using False p j(2) log2_power[OF j(1)]
    by (simp add: layout_to_order_def allocation_size_def sub_chk_def)
qed (simp add: layout_to_order_def allocation_size_def)

lemma layout_to_order_region: "bd_region b' = bd_region b \<Longrightarrow> layout_to_order l b' = layout_to_order l b"
  by (simp add: layout_to_order_def allocation_size_def)

section \<open>A coalesced heap is determined by what is handed out\<close>

lemma nested_aux:
  fixes s :: nat
  assumes "s dvd x" "s dvd y" "s dvd z" "x \<le> t" "t < x + s" "y \<le> t" "t < y + z"
  shows "y \<le> x" "x + s \<le> y + z"
proof -
  obtain i j k where e: "x = s * i" "y = s * j" "z = s * k" using assms(1-3) by (auto simp: dvd_def)
  have "s * j < s * (i + 1)" "s * i < s * (j + k)" using assms(4-7) e by (auto simp: algebra_simps)
  then have "j \<le> i" "i + 1 \<le> j + k" by (auto simp: nat_mult_less_cancel_disj)
  then show "y \<le> x" "x + s \<le> y + z" unfolding e using mult_le_mono2[of j i s] mult_le_mono2[of "i + 1" "j + k" s]
    by (simp_all add: algebra_simps)
qed

lemma bs_dvd: "p \<le> q \<Longrightarrow> bs p dvd bs q"
  by (simp add: order_to_size_def le_imp_power_dvd)

lemma covers_nested:
  assumes f: "fits base m (p, a)" "fits base m (q, c)" and le: "p \<le> q" and t: "t \<in> covers (p, a)" "t \<in> covers (q, c)"
  shows "covers (p, a) \<subseteq> covers (q, c)"
proof -
  have b: "base \<le> a" "base \<le> c" "bs p dvd (a - base)" "bs q dvd (c - base)" using f by simp_all
  have "bs p dvd (c - base)" "bs p dvd bs q" using b(4) bs_dvd[OF le] dvd_trans by blast+
  then have "c - base \<le> a - base" "a - base + bs p \<le> c - base + bs q"
    using nested_aux[of "bs p" "a - base" "c - base" "bs q" "t - base"] b t by auto
  then show ?thesis using b(1,2) by auto
qed

end
