(* ===== verification/Buddy_Heap.thy ===== *)
theory Buddy_Heap
  imports Buddy_Spec
begin

text \<open>
  What the users of the buddy allocator can rely on: disjoint, aligned blocks, no leak, and a heap that
  depends only on what is handed out.  The set-up from the boot loader's memory map comes last.
\<close>

section \<open>Uniqueness of coalesced heaps\<close>

lemma minimal_order:
  fixes S :: "block set"
  assumes "(q0, x0) \<in> S"
  obtains q x where "(q, x) \<in> S" "\<forall>p y. (p, y) \<in> S \<longrightarrow> q \<le> p"
proof -
  define P where "P q \<longleftrightarrow> (\<exists>x. (q, x) \<in> S)" for q
  have "P q0" using assms by (auto simp: P_def)
  then have "P (LEAST q. P q)" by (rule LeastI)
  then obtain x where x: "((LEAST q. P q), x) \<in> S" unfolding P_def by blast
  have "(LEAST q. P q) \<le> p" if "(p, y) \<in> S" for p y using that by (intro Least_le) (auto simp: P_def)
  then show thesis using that[OF x] by blast
qed

lemma covers_subset: "covers (q, x) \<subseteq> covers (p, c) \<longleftrightarrow> c \<le> x \<and> x + bs q \<le> c + bs p"
  using bs_pos[of q] by (simp del: bs_pos)

lemma covers_subset_le: "covers (q, x) \<subseteq> covers (p, c) \<Longrightarrow> q \<le> p"
proof -
  assume "covers (q, x) \<subseteq> covers (p, c)"
  then have "bs q \<le> bs p" unfolding covers_subset by linarith
  then show ?thesis by simp
qed

lemma covers_subset_eq: "covers (q, x) \<subseteq> covers (q, c) \<Longrightarrow> x = c"
  unfolding covers_subset by linarith

lemma buddy_pair:
  assumes "base \<le> x" "bs q dvd (x - base)" "q < m"
  shows "x \<in> covers (Suc q, min x (buddy_of base q x))" "buddy_of base q x \<in> covers (Suc q, min x (buddy_of base q x))"
    "fits base m (Suc q, min x (buddy_of base q x))" "fits base m (q, buddy_of base q x)"
proof -
  have "x \<in> covers (Suc q, min x (buddy_of base q x)) \<and> buddy_of base q x \<in> covers (Suc q, min x (buddy_of base q x)) \<and>
    fits base m (Suc q, min x (buddy_of base q x)) \<and> fits base m (q, buddy_of base q x)"
    using assms(1,2)
  proof (cases rule: buddy_of_cases)
    case lower
    have "x + bs q - base = x - base + bs q" using assms(1) by simp
    then have "bs q dvd (x + bs q - base)" using assms(2) by simp
    then show ?thesis using lower assms by (simp add: bs_Suc)
  next
    case (upper c)
    have "bs q dvd (c - base)" using upper(4) dvd_trans[OF bs_dvd[of q "Suc q"]] by simp
    then show ?thesis using upper assms(3) by (simp add: bs_Suc)
  qed
  then show "x \<in> covers (Suc q, min x (buddy_of base q x))" "buddy_of base q x \<in> covers (Suc q, min x (buddy_of base q x))"
    "fits base m (Suc q, min x (buddy_of base q x))" "fits base m (q, buddy_of base q x)" by blast+
qed

text \<open>An aligned range that free blocks tile is itself a free block: otherwise two of them are buddies.\<close>

lemma coalesced_covers_whole:
  assumes t: "tiling base m (F \<union> U)" and co: "coalesced base m F" and r: "fits base m (p, c)"
    and cov: "\<And>x. x \<in> covers (p, c) \<Longrightarrow> \<exists>q a. (q, a) \<in> F \<and> x \<in> covers (q, a) \<and> covers (q, a) \<subseteq> covers (p, c)"
  shows "(p, c) \<in> F"
proof -
  let ?S = "{y \<in> F. covers y \<subseteq> covers (p, c)}"
  have fF: "fits base m y" if "y \<in> F" for y using tiling_fits[OF t] that by blast
  have "c \<in> covers (p, c)" by simp
  from cov[OF this] obtain q0 x0 where "(q0, x0) \<in> F" "covers (q0, x0) \<subseteq> covers (p, c)" by (elim exE conjE)
  then have s0: "(q0, x0) \<in> ?S" by (simp del: covers.simps)
  obtain q x where "(q, x) \<in> ?S" and min: "\<forall>p y. (p, y) \<in> ?S \<longrightarrow> q \<le> p" by (rule minimal_order[OF s0])
  then have q: "(q, x) \<in> F" "covers (q, x) \<subseteq> covers (p, c)" by (simp_all del: covers.simps)
  have al: "base \<le> x" "bs q dvd (x - base)" "q \<le> m" using fF[OF q(1)] by simp_all
  have le: "q \<le> p" using covers_subset_le[OF q(2)] .
  show ?thesis
  proof (cases "q = p")
    case True
    then show ?thesis using q covers_subset_eq by blast
  next
    case False
    then have lt: "Suc q \<le> p" "q < m" using le r by simp_all
    let ?y = "buddy_of base q x" and ?pair = "(Suc q, min x (buddy_of base q x))"
    note pair = buddy_pair[OF al(1,2) lt(2)]
    have "x \<in> covers (q, x)" by simp
    then have "x \<in> covers (p, c)" using q(2) by (meson subsetD)
    then have "?y \<in> covers (p, c)" using covers_nested[OF pair(3) r lt(1) pair(1)] pair(2) by (meson subsetD)
    from cov[OF this] obtain q' y' where y': "(q', y') \<in> F" "?y \<in> covers (q', y')" "covers (q', y') \<subseteq> covers (p, c)"
      by (elim exE conjE)
    then have "(q', y') \<in> ?S" by (simp del: covers.simps)
    then have ge: "q \<le> q'" using min by metis
    show ?thesis
    proof (cases "q' = q")
      case True
      have "covers (q, y') \<subseteq> covers (q, ?y)"
        using covers_nested[OF _ pair(4), of q y' ?y] fF[OF y'(1)] y'(2) True by simp
      then have "y' = ?y" using covers_subset_eq by blast
      then show ?thesis using co q(1) lt(2) y'(1) True unfolding coalesced_def by auto
    next
      case False
      then have "covers ?pair \<subseteq> covers (q', y')"
        using covers_nested[OF pair(3) fF[OF y'(1)] _ pair(2) y'(2)] ge by simp
      then have "x \<in> covers (q', y')" "x \<in> covers (q, x)" using pair(1) by auto
      then show ?thesis using tiling_disjoint[OF t, of "(q', y')" "(q, x)" x] y'(1) q(1) False by auto
    qed
  qed
qed

lemma coalesced_unique_le:
  assumes t: "tiling base m (F \<union> U)" "tiling base m (G \<union> U)" and d: "F \<inter> U = {}" "G \<inter> U = {}"
    and co: "coalesced base m G" and f: "(p, c) \<in> F" and big: "\<And>q a x. (q, a) \<in> G \<Longrightarrow> x \<in> covers (q, a) \<Longrightarrow> x \<in> covers (p, c) \<Longrightarrow> q \<le> p"
  shows "(p, c) \<in> G"
proof (rule coalesced_covers_whole[OF t(2) co])
  have pc: "(p, c) \<in> F \<union> U" using f by simp
  show r: "fits base m (p, c)" using tiling_fits[OF t(1) pc] .
  fix x assume x: "x \<in> covers (p, c)"
  have "covers (p, c) \<subseteq> {base ..< base + bs m}" using t(1) pc unfolding tiling_def by blast
  then have "x \<in> \<Union> (covers ` (G \<union> U))" using x t(2) unfolding tiling_def by blast
  then obtain q a where qa: "(q, a) \<in> G \<union> U" "x \<in> covers (q, a)" by (metis UN_E surj_pair)
  have "(q, a) \<notin> U"
  proof
    assume u: "(q, a) \<in> U"
    then have "(q, a) = (p, c)" using tiling_disjoint[OF t(1), of "(q, a)" "(p, c)" x] pc qa(2) x by blast
    then show False using u f d(1) by blast
  qed
  then have g: "(q, a) \<in> G" using qa(1) by blast
  have "covers (q, a) \<subseteq> covers (p, c)"
    using covers_nested[OF tiling_fits[OF t(2) qa(1)] r big[OF g qa(2) x] qa(2) x] .
  then show "\<exists>q a. (q, a) \<in> G \<and> x \<in> covers (q, a) \<and> covers (q, a) \<subseteq> covers (p, c)" using g qa(2) by blast
qed

lemma coalesced_subset:
  assumes t: "tiling base m (F \<union> U)" "tiling base m (G \<union> U)" and d: "F \<inter> U = {}" "G \<inter> U = {}"
    and co: "coalesced base m F" "coalesced base m G"
  shows "F \<subseteq> G"
proof (clarify)
  fix p c assume f: "(p, c) \<in> F"
  have "q \<le> p" if g: "(q, a) \<in> G" "x \<in> covers (q, a)" "x \<in> covers (p, c)" for q a x
  proof (rule ccontr)
    assume lt: "\<not> q \<le> p"
    have fits: "fits base m (p, c)" "fits base m (q, a)" using tiling_fits t f g(1) by blast+
    then have sub: "covers (p, c) \<subseteq> covers (q, a)" using covers_nested lt g(2,3) by (meson nat_le_linear)
    have big: "r \<le> q" if h: "(r, e) \<in> F" "y \<in> covers (r, e)" "y \<in> covers (q, a)" for r e y
    proof (rule ccontr)
      assume "\<not> r \<le> q"
      then have "covers (q, a) \<subseteq> covers (r, e)"
        using covers_nested[OF fits(2), of r e y] tiling_fits[OF t(1), of "(r, e)"] h by auto
      then have "x \<in> covers (r, e)" using g(2) by blast
      then have "(r, e) = (p, c)" using tiling_disjoint[OF t(1), of "(r, e)" "(p, c)" x] h(1) f g(3) by blast
      then show False using lt \<open>\<not> r \<le> q\<close> by auto
    qed
    have "(q, a) \<in> F" using coalesced_unique_le[OF t(2,1) d(2,1) co(1) g(1)] big by blast
    then have "(q, a) = (p, c)" using tiling_disjoint[OF t(1), of "(q, a)" "(p, c)" x] f g(2,3) by blast
    then show False using lt by simp
  qed
  then show "(p, c) \<in> G" using coalesced_unique_le[OF t d co(2) f] by blast
qed

lemma coalesced_unique:
  assumes "tiling base m (F \<union> U)" "tiling base m (G \<union> U)" "F \<inter> U = {}" "G \<inter> U = {}" "coalesced base m F" "coalesced base m G"
  shows "F = G"
  using coalesced_subset assms by (metis subset_antisym)

lemma tiling_single: "tiling base m ({(m, base)} \<union> {})"
  by (simp add: tiling_def)

lemma coalesced_single: "coalesced base m {(m, base)}"
  by (simp add: coalesced_def)

section \<open>Using the heap\<close>

text \<open>
  Requests, releases and writes by the holders of blocks.  The second component is the set of blocks
  handed out.
\<close>

inductive heap_step :: "buddy_alloc \<times> block set \<Rightarrow> buddy_alloc \<times> block set \<Rightarrow> bool" where
  heap_alloc: "layout_to_order l b = Some (Some order) \<Longrightarrow> allocate l b = Some (Some f, b') \<Longrightarrow>
    heap_step (b, U) (b', insert (order, fr_base f) U)"
| heap_free: "layout_to_order l b = Some (Some order) \<Longrightarrow> (order, fr_base f) \<in> U \<Longrightarrow> deallocate f l b = Some b' \<Longrightarrow>
    heap_step (b, U) (b', U - {(order, fr_base f)})"
| heap_write: "x \<in> covers y \<Longrightarrow> y \<in> U \<Longrightarrow> heap_step (b, U) (b\<lparr>bd_mem := (bd_mem b)(x := v)\<rparr>, U)"

lemma allocate_spec:
  assumes "binv b m Fs U" "coalesced (fr_base (bd_region b)) m (free_blocks Fs)" "layout_to_order l b = Some (Some order)"
  shows "\<exists>r b'. allocate l b = Some (r, b') \<and> bd_region b' = bd_region b \<and>
    (case r of
       None \<Rightarrow> b' = b \<and> (\<forall>q. order \<le> q \<longrightarrow> q < ORDERS \<longrightarrow> Fs ! q = [])
     | Some f \<Rightarrow> fr_size f = bs order \<and> (order, fr_base f) \<notin> U \<and> buddy_ok b' m (insert (order, fr_base f) U))"
  using alloc_order_from_spec[OF assms(1,2), of order order] assms(3) by (simp add: allocate_def)

lemma deallocate_spec:
  assumes "buddy_ok b m U" "layout_to_order l b = Some (Some order)" "(order, fr_base f) \<in> U"
  shows "\<exists>b'. deallocate f l b = Some b' \<and> buddy_ok b' m (U - {(order, fr_base f)}) \<and> bd_region b' = bd_region b"
  using assms merge_from_spec unfolding buddy_ok_def deallocate_def by fastforce

lemma writes_spec:
  assumes "buddy_ok b m U" "y \<in> U" and mem: "\<And>x. x \<notin> covers y \<Longrightarrow> mem x = bd_mem b x"
  shows "buddy_ok (b\<lparr>bd_mem := mem\<rparr>) m U"
proof -
  obtain Fs where i: "binv b m Fs U" "coalesced (fr_base (bd_region b)) m (free_blocks Fs)" using assms(1) by (auto simp: buddy_ok_def)
  have "mem x = bd_mem b x" if x: "x \<in> set (Fs ! q)" "q < ORDERS" for q x
  proof (rule mem, rule notI)
    assume c: "x \<in> covers y"
    have f: "(q, x) \<in> free_blocks Fs" using i(1) x by (simp add: binv_def lists_ok_def free_blocks_def)
    then have "(q, x) = y" using binv_disjoint[OF i(1), of "(q, x)" y x] assms(2) c by simp
    then show False using f assms(2) i(1) by (auto simp: binv_def)
  qed
  then have "binv (b\<lparr>bd_mem := mem\<rparr>) m Fs U" using i(1) fl_chain_cong[of _ mem "bd_mem b"] by (simp add: binv_def lists_ok_def)
  then show ?thesis using i(2) by (auto simp: buddy_ok_def)
qed

lemma heap_step_ok:
  assumes "heap_step s s'" "buddy_ok (fst s) m (snd s)"
  shows "buddy_ok (fst s') m (snd s') \<and> bd_region (fst s') = bd_region (fst s)"
  using assms
proof (induction rule: heap_step.induct)
  case (heap_alloc l b order f b' U)
  then obtain Fs where i: "binv b m Fs U" "coalesced (fr_base (bd_region b)) m (free_blocks Fs)" by (auto simp: buddy_ok_def)
  show ?case using allocate_spec[OF i heap_alloc.hyps(1)] heap_alloc.hyps(2) by auto
next
  case (heap_free l b order f U b')
  then show ?case using deallocate_spec[of b m U l order f] by auto
next
  case (heap_write x y U b v)
  have "buddy_ok (b\<lparr>bd_mem := (bd_mem b)(x := v)\<rparr>) m U"
    by (rule writes_spec[of b m U y]) (use heap_write in auto)
  then show ?case by simp
qed

lemma heap_steps_ok:
  assumes "heap_step\<^sup>*\<^sup>* s s'" "buddy_ok (fst s) m (snd s)"
  shows "buddy_ok (fst s') m (snd s') \<and> bd_region (fst s') = bd_region (fst s)"
  using assms by (induction rule: rtranclp_induct) (auto dest: heap_step_ok)

section \<open>Setting up\<close>

lemma order_bound: "bs order \<le> n \<Longrightarrow> n < 2 ^ 39 \<Longrightarrow> order < ORDERS"
proof -
  assume "bs order \<le> n" "n < 2 ^ 39"
  then have "bs order < 2 ^ 39" by linarith
  then have "12 + order < 39" unfolding order_to_size_def by (rule power_less_imp_less_exp[rotated]) simp
  then show ?thesis by simp
qed

lemma next_power_of_two_power: "k < 64 \<Longrightarrow> next_power_of_two (2 ^ k) = Some (2 ^ k)"
  unfolding next_power_of_two_Some by (intro exI[of _ k]) auto

lemma root_order:
  assumes "BASE_PAGE_SIZE \<le> n" "n < 2 ^ 39" "next_power_of_two n = Some p" "fr_size (bd_region b) = n"
  shows "\<exists>order. layout_to_order \<lparr>ly_size = p div 2, ly_align = 1\<rparr> b = Some (Some order) \<and> bs order \<le> n \<and> order < ORDERS"
proof -
  let ?l = "\<lparr>ly_size = p div 2, ly_align = 1\<rparr>"
  obtain k where k: "k < 64" "p = 2 ^ k" "n \<le> 2 ^ k" "\<forall>j < k. \<not> n \<le> 2 ^ j" using assms(3) by (auto simp: next_power_of_two_Some)
  have "k \<noteq> 0"
  proof
    assume "k = 0"
    then show False using k(3) assms(1) by simp
  qed
  then obtain i where i: "k = Suc i" using not0_implies_Suc by blast
  then have half: "p div 2 = 2 ^ i" "p div 2 < n" "1 \<le> p div 2" using k(2) k(4)[rule_format, of i] by simp_all
  let ?m = "max (max (p div 2) 1) BASE_PAGE_SIZE"
  have "\<exists>j. next_power_of_two ?m = Some (2 ^ j) \<and> 2 ^ j \<le> n \<and> 12 \<le> j \<and> j < 64"
  proof (cases "p div 2 \<le> BASE_PAGE_SIZE")
    case True
    then have m: "?m = 2 ^ 12" using half(3) by simp
    show ?thesis unfolding m using next_power_of_two_power[of 12] assms(1) by (intro exI[of _ 12]) simp
  next
    case False
    then have m: "?m = 2 ^ i" using half(1) by simp
    have "(2::nat) ^ 12 < 2 ^ i" using False half(1) by simp
    then have "12 < i" by (rule power_less_imp_less_exp[rotated]) simp
    moreover have "next_power_of_two (2 ^ i) = Some (2 ^ i)" using k(1) i by (intro next_power_of_two_power) simp
    ultimately show ?thesis unfolding m using half k(1) i by (intro exI[of _ i]) auto
  qed
  then obtain j where j: "next_power_of_two ?m = Some (2 ^ j)" "2 ^ j \<le> n" "12 \<le> j" "j < 64" by blast
  then have "layout_to_order ?l b = Some (Some (j - 12))"
    using assms(4) log2_power[OF j(4)] by (simp add: layout_to_order_def allocation_size_def sub_chk_def)
  moreover have "bs (j - 12) = 2 ^ j" using j(3) by (simp add: order_to_size_def)
  ultimately show ?thesis using j(2) order_bound[of "j - 12" n] assms(2) by auto
qed

lemma add_memory_spec:
  assumes f: "BASE_PAGE_SIZE \<le> fr_size f" "fr_size f < 2 ^ 39" "0 < fr_base f"
  shows "\<exists>b m. add_memory f (BuddyFrameAllocator_new mem) = Some (True, b) \<and> buddy_ok b m {} \<and> bd_region b = f"
proof -
  let ?b = "(BuddyFrameAllocator_new mem)\<lparr>bd_region := \<lparr>fr_base = 0, fr_size = fr_size f\<rparr>\<rparr>"
  have "fr_size f \<le> 2 ^ 63" using f(2) by simp
  then obtain p where p: "next_power_of_two (fr_size f) = Some p" using next_power_of_two_ex by blast
  obtain m where m: "layout_to_order \<lparr>ly_size = p div 2, ly_align = 1\<rparr> ?b = Some (Some m)" "bs m \<le> fr_size f" "m < ORDERS"
    using root_order[OF f(1,2) p, of ?b] by auto
  define b where "b = \<lparr>bd_region = f, bd_free_lists = (replicate ORDERS 0)[m := fr_base f], bd_mem = mem(fr_base f := 0)\<rparr>"
  have "add_memory f (BuddyFrameAllocator_new mem) = Some (True, b)"
    using p m f(3) by (cases f) (simp add: add_memory_def BuddyFrameAllocator_new_def free_list_insert_def nth_chk_def b_def)
  moreover have "buddy_ok b m {}"
  proof -
    let ?Fs = "(replicate ORDERS [])[m := [fr_base f]]"
    have F: "free_blocks ?Fs = {(m, fr_base f)}" using m(3) by (auto simp: free_blocks_def nth_list_update split: if_splits)
    have "lists_ok b ?Fs" using m(3) f(3) by (auto simp: lists_ok_def b_def nth_list_update)
    then have "binv b m ?Fs {}" using m(2,3) f(3) F tiling_single by (simp add: binv_def b_def)
    then show ?thesis using coalesced_single F unfolding buddy_ok_def by (metis b_def buddy_alloc.select_convs(1))
  qed
  moreover have "bd_region b = f" by (simp add: b_def)
  ultimately show ?thesis by blast
qed

section \<open>Properties\<close>

text \<open>C27. The buddy allocator never hands out memory twice: whatever the sequence of requests, releases and
  writes by the holders into their own blocks, the blocks handed out lie inside the region, are pairwise
  disjoint, and once all are returned the whole heap is one free block again.\<close>

theorem buddy_heap_sound:
  assumes "BASE_PAGE_SIZE \<le> fr_size f" "fr_size f < 2 ^ 39" "0 < fr_base f"
    and "add_memory f (BuddyFrameAllocator_new mem) = Some (True, b0)" "heap_step\<^sup>*\<^sup>* (b0, {}) (b, U)"
  shows "(\<forall>(p, a) \<in> U. fr_base f \<le> a \<and> a + order_to_size p \<le> fr_base f + fr_size f) \<and>
    (\<forall>(p, a) \<in> U. \<forall>(q, c) \<in> U. (p, a) \<noteq> (q, c) \<longrightarrow> {a ..< a + order_to_size p} \<inter> {c ..< c + order_to_size q} = {}) \<and>
    (U = {} \<longrightarrow> (\<exists>m. \<forall>order < ORDERS. bd_free_lists b ! order = (if order = m then fr_base f else 0)))"
proof -
  obtain m where b0: "buddy_ok b0 m {}" "bd_region b0 = f" using add_memory_spec[OF assms(1-3), of mem] assms(4) by auto
  then have ok: "buddy_ok b m U" "bd_region b = f" using heap_steps_ok[OF assms(5)] by auto
  then obtain Fs where i: "binv b m Fs U" "coalesced (fr_base f) m (free_blocks Fs)" by (auto simp: buddy_ok_def)
  have t: "tiling (fr_base f) m (free_blocks Fs \<union> U)" "bs m \<le> fr_size f" using i(1) ok(2) by (auto simp: binv_def)
  have "fr_base f \<le> a \<and> a + bs p \<le> fr_base f + fr_size f" if "(p, a) \<in> U" for p a
    using binv_block(3,6)[OF i(1), of p a] that ok(2) t(2) by auto
  moreover have "{a ..< a + bs p} \<inter> {c ..< c + bs q} = {}" if "(p, a) \<in> U" "(q, c) \<in> U" "(p, a) \<noteq> (q, c)" for p a q c
  proof -
    have "covers (p, a) \<inter> covers (q, c) = {}" using t(1) that unfolding tiling_def by blast
    then show ?thesis unfolding covers.simps .
  qed
  moreover have "\<exists>m. \<forall>order < ORDERS. bd_free_lists b ! order = (if order = m then fr_base f else 0)" if "U = {}"
  proof -
    have F: "free_blocks Fs = {(m, fr_base f)}"
      using coalesced_unique[OF t(1) _ _ _ i(2) coalesced_single] tiling_single that by auto
    have l: "lists_ok b Fs" using i(1) by (simp add: binv_def)
    have "bd_free_lists b ! order = (if order = m then fr_base f else 0)" if o: "order < ORDERS" for order
    proof -
      have c: "fl_chain (bd_mem b) (bd_free_lists b ! order) (Fs ! order)" "length Fs = ORDERS" using l o by (auto simp: lists_ok_def)
      have mem: "x \<in> set (Fs ! order) \<longleftrightarrow> order = m \<and> x = fr_base f" for x
        using F c(2) o by (auto simp: free_blocks_def set_eq_iff)
      show ?thesis using c(1) mem by (cases "Fs ! order") auto
    qed
    then show ?thesis by blast
  qed
  ultimately show ?thesis by blast
qed

lemma layout_to_orderI:
  assumes "12 + order < 64" "max (max (ly_size l) (ly_align l)) BASE_PAGE_SIZE \<le> bs order" "order = 0 \<or> bs (order - 1) < ly_size l"
    "bs order \<le> fr_size (bd_region b)" "ly_align l \<le> HEAP_ALIGN"
  shows "layout_to_order l b = Some (Some order)"
proof -
  let ?n = "max (max (ly_size l) (ly_align l)) BASE_PAGE_SIZE"
  have "\<not> ?n \<le> 2 ^ j" if j: "j < 12 + order" for j
  proof (cases order)
    case 0
    have "(2::nat) ^ j < 2 ^ 12" using j 0 by (intro power_strict_increasing) simp_all
    then show ?thesis by simp
  next
    case (Suc q)
    have "(2::nat) ^ j \<le> bs q" unfolding order_to_size_def using j Suc by (intro power_increasing) simp_all
    then show ?thesis using assms(3) Suc by auto
  qed
  then have "next_power_of_two ?n = Some (bs order)"
    unfolding next_power_of_two_Some using assms(1,2) by (intro exI[of _ "12 + order"]) (auto simp: order_to_size_def)
  moreover have "log2 (bs order) = Some (12 + order)" unfolding order_to_size_def using log2_power[OF assms(1)] .
  ultimately show ?thesis using assms(4,5) by (simp add: layout_to_order_def allocation_size_def sub_chk_def)
qed

lemma example_add:
  "add_memory \<lparr>fr_base = 4096, fr_size = 16384\<rparr> (BuddyFrameAllocator_new (\<lambda>_. 0)) =
     Some (True, \<lparr>bd_region = \<lparr>fr_base = 4096, fr_size = 16384\<rparr>, bd_free_lists = (replicate ORDERS 0)[1 := 4096], bd_mem = \<lambda>_. 0\<rparr>)"
proof -
  have "next_power_of_two 16384 = Some 16384" using next_power_of_two_power[of 14] by simp
  moreover have "layout_to_order \<lparr>ly_size = 8192, ly_align = 1\<rparr>
      \<lparr>bd_region = \<lparr>fr_base = 0, fr_size = 16384\<rparr>, bd_free_lists = replicate ORDERS 0, bd_mem = \<lambda>_. 0\<rparr> = Some (Some 1)"
    by (rule layout_to_orderI) (simp_all add: order_to_size_def)
  moreover have "(\<lambda>_. 0)(4096 := 0) = (\<lambda>_. 0::nat)" by auto
  ultimately show ?thesis by (simp add: add_memory_def BuddyFrameAllocator_new_def free_list_insert_def nth_chk_def)
qed

lemma example_alloc:
  assumes b: "b = \<lparr>bd_region = \<lparr>fr_base = 4096, fr_size = 16384\<rparr>, bd_free_lists = (replicate ORDERS 0)[1 := 4096], bd_mem = \<lambda>_. 0\<rparr>"
  shows "layout_to_order \<lparr>ly_size = 100, ly_align = 8\<rparr> b = Some (Some 0)"
    "\<exists>b'. allocate \<lparr>ly_size = 100, ly_align = 8\<rparr> b = Some (Some \<lparr>fr_base = 4096, fr_size = 4096\<rparr>, b')"
proof -
  show l: "layout_to_order \<lparr>ly_size = 100, ly_align = 8\<rparr> b = Some (Some 0)"
    by (rule layout_to_orderI) (simp_all add: order_to_size_def b)
  show "\<exists>b'. allocate \<lparr>ly_size = 100, ly_align = 8\<rparr> b = Some (Some \<lparr>fr_base = 4096, fr_size = 4096\<rparr>, b')"
    by (simp add: allocate_def l) (simp add: alloc_order_from.simps[of 0] alloc_order_from.simps[of "Suc 0"] b free_list_pop_def nth_chk_def
      free_list_insert_def order_to_size_def One_nat_def)
qed

theorem buddy_heap_sound_witness:
  "\<exists>b0 b. add_memory \<lparr>fr_base = 4096, fr_size = 16384\<rparr> (BuddyFrameAllocator_new (\<lambda>_. 0)) = Some (True, b0) \<and>
     heap_step\<^sup>*\<^sup>* (b0, {}) (b, {(0, 4096)}) \<and> (4096::nat) + order_to_size 0 \<le> 4096 + 16384"
proof -
  obtain b0 where b0: "add_memory \<lparr>fr_base = 4096, fr_size = 16384\<rparr> (BuddyFrameAllocator_new (\<lambda>_. 0)) = Some (True, b0)"
    "layout_to_order \<lparr>ly_size = 100, ly_align = 8\<rparr> b0 = Some (Some 0)"
    "\<exists>b'. allocate \<lparr>ly_size = 100, ly_align = 8\<rparr> b0 = Some (Some \<lparr>fr_base = 4096, fr_size = 4096\<rparr>, b')"
    using example_add example_alloc by blast
  then obtain b where "allocate \<lparr>ly_size = 100, ly_align = 8\<rparr> b0 = Some (Some \<lparr>fr_base = 4096, fr_size = 4096\<rparr>, b)" by blast
  then have s: "heap_step\<^sup>*\<^sup>* (b0, {}) (b, {(0, 4096)})" using heap_alloc[OF b0(2), of _ b "{}"] by fastforce
  show ?thesis using buddy_heap_sound[OF _ _ _ b0(1) s] b0(1) s by auto
qed



text \<open>Allocating and returning a block leaves exactly the free blocks there were: what splitting took
  apart, merging puts together again.\<close>

theorem allocate_deallocate_roundtrip:
  assumes i: "binv b m Fs U" "coalesced (fr_base (bd_region b)) m (free_blocks Fs)"
    and l: "layout_to_order l b = Some (Some order)" and a: "allocate l b = Some (Some f, b')"
  shows "\<exists>b'' Gs. deallocate f l b' = Some b'' \<and> binv b'' m Gs U \<and> free_blocks Gs = free_blocks Fs"
proof -
  have b': "(order, fr_base f) \<notin> U" "buddy_ok b' m (insert (order, fr_base f) U)" "bd_region b' = bd_region b"
    using allocate_spec[OF i l] a by auto
  have l': "layout_to_order l b' = Some (Some order)" using layout_to_order_region[OF b'(3)] l by simp
  obtain b'' where b'': "deallocate f l b' = Some b''" "buddy_ok b'' m (insert (order, fr_base f) U - {(order, fr_base f)})" "bd_region b'' = bd_region b'"
    using deallocate_spec[OF b'(2) l'] by blast
  then obtain Gs where g: "binv b'' m Gs U" "coalesced (fr_base (bd_region b)) m (free_blocks Gs)"
    using b'(1,3) by (auto simp: buddy_ok_def)
  have "free_blocks Gs = free_blocks Fs"
    using g(1) i(1) b'(3) b''(3) by (intro coalesced_unique[OF _ _ _ _ g(2) i(2), of U]) (auto simp: binv_def)
  then show ?thesis using b''(1) g(1) by blast
qed

theorem allocate_deallocate_roundtrip_witness:
  "\<exists>b0 b1 b2. add_memory \<lparr>fr_base = 4096, fr_size = 16384\<rparr> (BuddyFrameAllocator_new (\<lambda>_. 0)) = Some (True, b0) \<and>
     allocate \<lparr>ly_size = 100, ly_align = 8\<rparr> b0 = Some (Some \<lparr>fr_base = 4096, fr_size = 4096\<rparr>, b1) \<and>
     deallocate \<lparr>fr_base = 4096, fr_size = 4096\<rparr> \<lparr>ly_size = 100, ly_align = 8\<rparr> b1 = Some b2"
proof -
  obtain b0 m where b0: "add_memory \<lparr>fr_base = 4096, fr_size = 16384\<rparr> (BuddyFrameAllocator_new (\<lambda>_. 0)) = Some (True, b0)"
    "buddy_ok b0 m {}" using add_memory_spec[of "\<lparr>fr_base = 4096, fr_size = 16384\<rparr>" "\<lambda>_. 0"] by auto
  note e = example_alloc[OF refl]
  have b: "b0 = \<lparr>bd_region = \<lparr>fr_base = 4096, fr_size = 16384\<rparr>, bd_free_lists = (replicate ORDERS 0)[1 := 4096], bd_mem = \<lambda>_. 0\<rparr>"
    using b0(1) example_add by simp
  obtain b1 where b1: "allocate \<lparr>ly_size = 100, ly_align = 8\<rparr> b0 = Some (Some \<lparr>fr_base = 4096, fr_size = 4096\<rparr>, b1)" using example_alloc(2)[OF b] by blast
  obtain Fs where i: "binv b0 m Fs {}" "coalesced (fr_base (bd_region b0)) m (free_blocks Fs)" using b0(2) by (auto simp: buddy_ok_def)
  show ?thesis using allocate_deallocate_roundtrip[OF i example_alloc(1)[OF b] b1] b0(1) b1 by blast
qed

text \<open>The region the kernel takes from a memory area is aligned and lies inside the area, unless the area
  begins inside the kernel: then its start is moved to the end of the kernel but its length is kept, and the
  region runs past the end of the area.\<close>

theorem usable_region_bounds:
  assumes "ma_typ area = 1" "100000000 \<le> kernel_end" "MEM_THRESHOLD \<le> ma_length area" "ma_length area \<le> 4 * 0x100000000"
    "HEAP_ALIGN dvd kernel_end" "kernel_end + HEAP_ALIGN < 2 ^ 64" "ma_base_addr area + HEAP_ALIGN < 2 ^ 64" "KERNEL_START \<le> ma_base_addr area"
  shows "\<exists>f. usable_region kernel_end area = Some (Some f) \<and> HEAP_ALIGN dvd fr_base f \<and>
    (if kernel_end \<le> ma_base_addr area
     then ma_base_addr area \<le> fr_base f \<and> fr_base f + fr_size f \<le> ma_base_addr area + ma_length area
     else fr_base f + fr_size f > ma_base_addr area + ma_length area)"
proof (cases "kernel_end \<le> ma_base_addr area")
  case False
  have "kernel_end mod HEAP_ALIGN = 0" using assms(5) by auto
  then show ?thesis using assms False by (simp add: usable_region_def add_usize_def sub_chk_def)
next
  case True
  let ?base = "ma_base_addr area"
  let ?pad = "if ?base mod HEAP_ALIGN \<noteq> 0 then HEAP_ALIGN - ?base mod HEAP_ALIGN else 0"
  have pad: "?pad \<le> HEAP_ALIGN" by simp
  have "HEAP_ALIGN dvd ?base + ?pad"
  proof (cases "?base mod HEAP_ALIGN = 0")
    case False
    have "?base + (HEAP_ALIGN - ?base mod HEAP_ALIGN) = ?base div HEAP_ALIGN * HEAP_ALIGN + HEAP_ALIGN"
      using mod_less_divisor[of HEAP_ALIGN ?base] div_mult_mod_eq[of ?base HEAP_ALIGN] by linarith
    then show ?thesis using False by simp
  qed auto
  moreover have "usable_region kernel_end area = Some (Some \<lparr>fr_base = ?base + ?pad, fr_size = ma_length area - ?pad\<rparr>)"
    using assms True pad by (auto simp: usable_region_def add_usize_def sub_chk_def Let_def)
  ultimately show ?thesis using True assms(3) pad by auto
qed

theorem usable_region_bounds_witness:
  "\<exists>f. usable_region 0x6000000 \<lparr>ma_base_addr = 0x100000, ma_length = 0x40000000, ma_typ = 1\<rparr> = Some (Some f) \<and>
     fr_base f + fr_size f > 0x100000 + 0x40000000"
  using usable_region_bounds[of "\<lparr>ma_base_addr = 0x100000, ma_length = 0x40000000, ma_typ = 1\<rparr>" "0x6000000"] by auto

section \<open>The global allocator\<close>

lemma alloc_frame_spec:
  assumes "buddy_ok b m U" "layout_to_order l b = Some (Some order)" "alloc_frame l b = Some (p, b')"
  shows "buddy_ok b' m (insert (order, p) U) \<and> (order, p) \<notin> U \<and> bd_region b' = bd_region b \<and>
    (\<forall>a. p \<le> a \<and> a < p + bs order \<longrightarrow> bd_mem b' a = 0)"
proof -
  obtain f b1 where f: "allocate l b = Some (Some f, b1)" "p = fr_base f" "b' = frame_zero f b1"
    using assms(3) by (auto simp: alloc_frame_def bind_eq_Some_conv)
  obtain Fs where i: "binv b m Fs U" "coalesced (fr_base (bd_region b)) m (free_blocks Fs)" using assms(1) by (auto simp: buddy_ok_def)
  have b1: "fr_size f = bs order" "(order, p) \<notin> U" "buddy_ok b1 m (insert (order, p) U)" "bd_region b1 = bd_region b"
    using allocate_spec[OF i assms(2)] f(1,2) by auto
  have "buddy_ok b' m (insert (order, p) U)" unfolding f(3) frame_zero_def
    by (rule writes_spec[OF b1(3), of "(order, p)"]) (auto simp: b1(1) f(2))
  then show ?thesis using b1 f by (simp add: frame_zero_def)
qed


text \<open>A slab allocator that serves nothing.\<close>

definition no_zone :: "unit zone_ops" where
  "no_zone = \<lparr>zo_allocate = \<lambda>l z. (Inl InvalidLayout, z), zo_deallocate = \<lambda>p l z. (Inl InvalidLayout, z),
     zo_refill = \<lambda>l p z. (Inr (), z), zo_refill_large = \<lambda>l p z. (Inr (), z), zo_max_base_alloc_size = 0, zo_max_alloc_size = 0\<rparr>"


end
