(* ===== verification/Sharedheap.thy ===== *)
theory Sharedheap
  imports Buddy
begin

text \<open>
  The shared heap through which domains exchange objects: the kernel's table of allocations,
  \<^verbatim>\<open>src/kernel/src/heap.rs\<close> and \<^verbatim>\<open>dropper.rs\<close>, and the remote references over it, \<^verbatim>\<open>src/interface/src/rref\<close>.

  An allocation has three pieces of memory: the value, a cell for the owning domain and a cell for
  the borrow count.  The addresses the kernel's memory provider returns for them are arguments of the
  allocating operations; \<open>sh_freed\<close> records the calls that give memory back, in order.  A value is its
  elements and the remote references it contains.  The table of drop functions, which the build
  generates from the interface definitions, is a parameter: it gives, for a registered type, the
  references whose \<open>cleanup\<close> the type's drop function calls.
\<close>

record rref =
  rr_domain_id_pointer :: nat
  rr_borrow_count_pointer :: nat
  rr_value_pointer :: nat

record 'e shvalue =
  sv_data :: "'e list"
  sv_refs :: "rref option list"

record shared_heap_allocation =
  al_value_pointer :: nat
  al_domain_id_pointer :: nat
  al_borrow_count_pointer :: nat
  al_layout :: layout
  al_type_id :: nat

record 'e shared_heap =
  sh_allocations :: "(nat \<times> shared_heap_allocation) list"
  sh_cells :: "nat \<Rightarrow> nat"
  sh_values :: "nat \<Rightarrow> 'e shvalue"
  sh_freed :: "(nat \<times> layout) list"

type_synonym 'e drop_map = "nat \<Rightarrow> ('e shvalue \<Rightarrow> nat list) option"

definition u64_layout :: layout where
  "u64_layout = \<lparr>ly_size = 8, ly_align = 8\<rparr>"

section \<open>The kernel's table\<close>

definition has_type :: "'e drop_map \<Rightarrow> nat \<Rightarrow> bool" where
  "has_type dm type_id \<longleftrightarrow> dm type_id \<noteq> None"

definition alloc_heap :: "'e drop_map \<Rightarrow> layout \<Rightarrow> nat \<Rightarrow> nat \<times> nat \<times> nat \<Rightarrow> 'e shared_heap \<Rightarrow>
    shared_heap_allocation option \<times> 'e shared_heap" where
  "alloc_heap dm l type_id mem h =
     (if \<not> has_type dm type_id then (None, h)
      else
        case mem of (d, c, v) \<Rightarrow>
          let a = \<lparr>al_value_pointer = v, al_domain_id_pointer = d, al_borrow_count_pointer = c, al_layout = l, al_type_id = type_id\<rparr>
          in (Some a, h\<lparr>sh_allocations := (v, a) # filter (\<lambda>x. fst x \<noteq> v) (sh_allocations h)\<rparr>))"

text \<open>The references the registered drop function of an allocation's type cleans up.\<close>

definition children :: "'e drop_map \<Rightarrow> 'e shared_heap \<Rightarrow> shared_heap_allocation \<Rightarrow> nat list" where
  "children dm h a =
     (case dm (al_type_id a) of None \<Rightarrow> [] | Some f \<Rightarrow> f (sh_values h (al_value_pointer a)))"

definition frees :: "shared_heap_allocation \<Rightarrow> (nat \<times> layout) list" where
  "frees a = [(al_value_pointer a, al_layout a), (al_domain_id_pointer a, u64_layout), (al_borrow_count_pointer a, u64_layout)]"

text \<open>
  Deallocating an object calls its drop function, which deallocates the objects it refers to, before
  its memory is returned.  The pending calls are a list: deallocate the value at an address, drop an
  allocation taken off the table, return its memory.
\<close>

datatype work = Dealloc nat | Drop shared_heap_allocation | Free shared_heap_allocation

fun is_drop :: "work \<Rightarrow> bool" where
  "is_drop (Drop a) = True"
| "is_drop w = False"

definition heap_remove :: "nat \<Rightarrow> 'e shared_heap \<Rightarrow> 'e shared_heap" where
  "heap_remove p h = h\<lparr>sh_allocations := filter (\<lambda>x. fst x \<noteq> p) (sh_allocations h)\<rparr>"

lemma length_filter_map_of:
  "map_of xs p = Some a \<Longrightarrow> length (filter (\<lambda>x. fst x \<noteq> p) xs) < length xs"
  by (rule length_filter_less[of "(p, a)"]) (auto dest: map_of_SomeD)

lemma no_drops: "filter is_drop (map Dealloc ps) = []"
  by (induction ps) auto

function run_drops :: "'e drop_map \<Rightarrow> work list \<Rightarrow> 'e shared_heap \<Rightarrow> 'e shared_heap" where
  "run_drops dm [] h = h"
| "run_drops dm (Dealloc p # todo) h =
     (case map_of (sh_allocations h) p of
        None \<Rightarrow> run_drops dm todo h
      | Some a \<Rightarrow> run_drops dm (Drop a # todo) (heap_remove p h))"
| "run_drops dm (Drop a # todo) h = run_drops dm (map Dealloc (children dm h a) @ Free a # todo) h"
| "run_drops dm (Free a # todo) h = run_drops dm todo (h\<lparr>sh_freed := sh_freed h @ frees a\<rparr>)"
  by pat_completeness auto

termination
  by (relation "measures [\<lambda>(dm, todo, h). 2 * length (sh_allocations h) + length (filter is_drop todo), \<lambda>(dm, todo, h). length todo]")
    (auto simp: heap_remove_def no_drops dest!: length_filter_map_of)

definition dealloc_heap :: "'e drop_map \<Rightarrow> nat \<Rightarrow> 'e shared_heap \<Rightarrow> 'e shared_heap" where
  "dealloc_heap dm p h = run_drops dm [Dealloc p] h"

definition domain_of :: "'e shared_heap \<Rightarrow> shared_heap_allocation \<Rightarrow> nat" where
  "domain_of h a = sh_cells h (al_domain_id_pointer a)"

definition drop_domain :: "'e drop_map \<Rightarrow> nat \<Rightarrow> 'e shared_heap \<Rightarrow> 'e shared_heap" where
  "drop_domain dm d h =
     (let queue = map snd (filter (\<lambda>x. domain_of h (snd x) = d) (sh_allocations h));
          h' = h\<lparr>sh_allocations := filter (\<lambda>x. domain_of h (snd x) \<noteq> d) (sh_allocations h)\<rparr>
      in run_drops dm (map Drop queue) h')"

section \<open>Remote references\<close>

definition new_with_layout :: "'e drop_map \<Rightarrow> nat \<Rightarrow> 'e shvalue \<Rightarrow> nat \<Rightarrow> layout \<Rightarrow> nat \<times> nat \<times> nat \<Rightarrow> 'e shared_heap \<Rightarrow>
    (rref \<times> 'e shared_heap) option" where
  "new_with_layout dm cur value type_id l mem h =
     do { let (r, h) = alloc_heap dm l type_id mem h;
          a \<leftarrow> r;
          let h = h\<lparr>sh_cells := (sh_cells h)(al_domain_id_pointer a := cur, al_borrow_count_pointer a := 0),
                    sh_values := (sh_values h)(al_value_pointer a := value)\<rparr>;
          Some (\<lparr>rr_domain_id_pointer = al_domain_id_pointer a, rr_borrow_count_pointer = al_borrow_count_pointer a,
                 rr_value_pointer = al_value_pointer a\<rparr>, h) }"

definition rref_borrow :: "rref \<Rightarrow> 'e shared_heap \<Rightarrow> 'e shared_heap option" where
  "rref_borrow r h =
     do { n \<leftarrow> add_usize (sh_cells h (rr_borrow_count_pointer r)) 1;
          Some (h\<lparr>sh_cells := (sh_cells h)(rr_borrow_count_pointer r := n)\<rparr>) }"

definition rref_forfeit :: "rref \<Rightarrow> 'e shared_heap \<Rightarrow> 'e shared_heap option" where
  "rref_forfeit r h =
     do { assert_that (sh_cells h (rr_borrow_count_pointer r) \<noteq> 0);
          n \<leftarrow> sub_chk (sh_cells h (rr_borrow_count_pointer r)) 1;
          Some (h\<lparr>sh_cells := (sh_cells h)(rr_borrow_count_pointer r := n)\<rparr>) }"

definition rref_borrow_count :: "rref \<Rightarrow> 'e shared_heap \<Rightarrow> nat" where
  "rref_borrow_count r h = sh_cells h (rr_borrow_count_pointer r)"

definition rref_move_to :: "nat \<Rightarrow> rref \<Rightarrow> 'e shared_heap \<Rightarrow> 'e shared_heap" where
  "rref_move_to d r h = h\<lparr>sh_cells := (sh_cells h)(rr_domain_id_pointer r := d)\<rparr>"

definition rref_move_to_current :: "nat \<Rightarrow> rref \<Rightarrow> 'e shared_heap \<Rightarrow> 'e shared_heap" where
  "rref_move_to_current cur r h = rref_move_to cur r h"

definition rref_domain_id :: "rref \<Rightarrow> 'e shared_heap \<Rightarrow> nat" where
  "rref_domain_id r h = sh_cells h (rr_domain_id_pointer r)"

definition rref_drop :: "'e drop_map \<Rightarrow> rref \<Rightarrow> 'e shared_heap \<Rightarrow> 'e shared_heap" where
  "rref_drop dm r h = dealloc_heap dm (rr_value_pointer r) h"

definition rref_deref :: "rref \<Rightarrow> 'e shared_heap \<Rightarrow> 'e shvalue" where
  "rref_deref r h = sh_values h (rr_value_pointer r)"

definition rref_deref_mut :: "rref \<Rightarrow> ('e shvalue \<Rightarrow> 'e shvalue) \<Rightarrow> 'e shared_heap \<Rightarrow> 'e shared_heap" where
  "rref_deref_mut r f h = h\<lparr>sh_values := (sh_values h)(rr_value_pointer r := f (sh_values h (rr_value_pointer r)))\<rparr>"

text \<open>The addresses the cleanup of an optional reference and of an array of them deallocates, in order.\<close>

fun option_cleanup :: "rref option \<Rightarrow> nat list" where
  "option_cleanup None = []"
| "option_cleanup (Some r) = [rr_value_pointer r]"

definition array_cleanup :: "rref option list \<Rightarrow> nat list" where
  "array_cleanup refs = concat (map option_cleanup refs)"

section \<open>Arrays of remote references\<close>

text \<open>The array is itself behind a reference: \<open>arr\<close>.  \<open>cur\<close> is the domain that runs.\<close>

definition rarray_slots :: "rref \<Rightarrow> 'e shared_heap \<Rightarrow> rref option list" where
  "rarray_slots arr h = sv_refs (rref_deref arr h)"

definition set_slot :: "rref \<Rightarrow> nat \<Rightarrow> rref option \<Rightarrow> 'e shared_heap \<Rightarrow> 'e shared_heap" where
  "set_slot arr i r h = rref_deref_mut arr (\<lambda>v. v\<lparr>sv_refs := (sv_refs v)[i := r]\<rparr>) h"

definition rarray_new :: "'e drop_map \<Rightarrow> nat \<Rightarrow> rref option list \<Rightarrow> nat \<Rightarrow> layout \<Rightarrow> nat \<times> nat \<times> nat \<Rightarrow> 'e shared_heap \<Rightarrow> (rref \<times> 'e shared_heap) option" where
  "rarray_new dm cur refs type_id l mem h = new_with_layout dm cur \<lparr>sv_data = [], sv_refs = refs\<rparr> type_id l mem h"

definition rarray_default :: "'e drop_map \<Rightarrow> nat \<Rightarrow> nat \<Rightarrow> nat \<Rightarrow> layout \<Rightarrow> nat \<times> nat \<times> nat \<Rightarrow> 'e shared_heap \<Rightarrow> (rref \<times> 'e shared_heap) option" where
  "rarray_default dm cur n type_id l mem h = new_with_layout dm cur \<lparr>sv_data = [], sv_refs = replicate n None\<rparr> type_id l mem h"

definition rarray_has :: "rref \<Rightarrow> nat \<Rightarrow> 'e shared_heap \<Rightarrow> bool option" where
  "rarray_has arr i h = do { r \<leftarrow> nth_chk (rarray_slots arr h) i; Some (r \<noteq> None) }"

definition rarray_get :: "nat \<Rightarrow> rref \<Rightarrow> nat \<Rightarrow> 'e shared_heap \<Rightarrow> (rref option \<times> 'e shared_heap) option" where
  "rarray_get cur arr i h =
     do { value \<leftarrow> nth_chk (rarray_slots arr h) i;
          let h = set_slot arr i None h;
          Some (value, case value of None \<Rightarrow> h | Some r \<Rightarrow> rref_move_to_current cur r h) }"

definition rarray_set :: "'e drop_map \<Rightarrow> rref \<Rightarrow> nat \<Rightarrow> rref \<Rightarrow> 'e shared_heap \<Rightarrow> 'e shared_heap option" where
  "rarray_set dm arr i value h =
     do { let h = rref_move_to 0 value h;
          prev \<leftarrow> nth_chk (rarray_slots arr h) i;
          let h = set_slot arr i (Some value) h;
          Some (case prev of None \<Rightarrow> h | Some r \<Rightarrow> rref_drop dm r h) }"

definition rarray_move_to :: "nat \<Rightarrow> rref \<Rightarrow> 'e shared_heap \<Rightarrow> 'e shared_heap" where
  "rarray_move_to d arr h = rref_move_to d arr h"

definition rarray_borrow :: "rref \<Rightarrow> 'e shared_heap \<Rightarrow> 'e shared_heap option" where
  "rarray_borrow arr h = rref_borrow arr h"

definition rarray_forfeit :: "rref \<Rightarrow> 'e shared_heap \<Rightarrow> 'e shared_heap option" where
  "rarray_forfeit arr h = rref_forfeit arr h"

definition rarray_get_ref :: "rref \<Rightarrow> nat \<Rightarrow> 'e shared_heap \<Rightarrow> 'e shvalue option option" where
  "rarray_get_ref arr i h =
     do { r \<leftarrow> nth_chk (rarray_slots arr h) i; Some (map_option (\<lambda>r. rref_deref r h) r) }"

text \<open>A mutable borrow of an element: the element's reference, through which the caller writes.\<close>

definition rarray_get_mut :: "rref \<Rightarrow> nat \<Rightarrow> 'e shared_heap \<Rightarrow> rref option option" where
  "rarray_get_mut arr i h = nth_chk (rarray_slots arr h) i"

section \<open>Queues of remote references\<close>

record rref_deque =
  dq_arr :: rref
  dq_head :: nat
  dq_tail :: nat

definition rdeque_default :: "'e drop_map \<Rightarrow> nat \<Rightarrow> nat \<Rightarrow> nat \<Rightarrow> layout \<Rightarrow> nat \<times> nat \<times> nat \<Rightarrow> 'e shared_heap \<Rightarrow> (rref_deque \<times> 'e shared_heap) option" where
  "rdeque_default dm cur n type_id l mem h =
     do { (arr, h) \<leftarrow> rarray_default dm cur n type_id l mem h;
          Some (\<lparr>dq_arr = arr, dq_head = 0, dq_tail = 0\<rparr>, h) }"

definition rdeque_new :: "'e drop_map \<Rightarrow> nat \<Rightarrow> rref option list \<Rightarrow> nat \<Rightarrow> layout \<Rightarrow> nat \<times> nat \<times> nat \<Rightarrow> 'e shared_heap \<Rightarrow> (rref_deque \<times> 'e shared_heap) option" where
  "rdeque_new dm cur empty_arr type_id l mem h =
     do { (arr, h) \<leftarrow> rarray_new dm cur empty_arr type_id l mem h;
          Some (\<lparr>dq_arr = arr, dq_head = 0, dq_tail = 0\<rparr>, h) }"

definition rdeque_move_to :: "nat \<Rightarrow> rref_deque \<Rightarrow> 'e shared_heap \<Rightarrow> 'e shared_heap" where
  "rdeque_move_to d q h = rarray_move_to d (dq_arr q) h"

definition rdeque_borrow :: "rref_deque \<Rightarrow> 'e shared_heap \<Rightarrow> 'e shared_heap option" where
  "rdeque_borrow q h = rarray_borrow (dq_arr q) h"

definition rdeque_forfeit :: "rref_deque \<Rightarrow> 'e shared_heap \<Rightarrow> 'e shared_heap option" where
  "rdeque_forfeit q h = rarray_forfeit (dq_arr q) h"

definition rdeque_len :: "nat \<Rightarrow> rref_deque \<Rightarrow> 'e shared_heap \<Rightarrow> nat option" where
  "rdeque_len n q h =
     (if dq_tail q < dq_head q then sub_chk (dq_head q) (dq_tail q)
      else if dq_head q = dq_tail q then
        do { b \<leftarrow> rarray_has (dq_arr q) (dq_head q) h; Some (if b then n else 0) }
      else do { k \<leftarrow> sub_chk (dq_tail q) (dq_head q); sub_chk n k })"

text \<open>\<open>push_back\<close> gives the value back when the queue is full.\<close>

definition push_back :: "'e drop_map \<Rightarrow> nat \<Rightarrow> rref \<Rightarrow> rref_deque \<times> 'e shared_heap \<Rightarrow> (rref option \<times> rref_deque \<times> 'e shared_heap) option" where
  "push_back dm n value s =
     (case s of (q, h) \<Rightarrow>
        do { b \<leftarrow> rarray_has (dq_arr q) (dq_head q) h;
             if b then Some (Some value, q, h)
             else
               do { h \<leftarrow> rarray_set dm (dq_arr q) (dq_head q) value h;
                    head1 \<leftarrow> add_usize (dq_head q) 1;
                    assert_that (n \<noteq> 0);
                    Some (None, q\<lparr>dq_head := head1 mod n\<rparr>, h) } })"

definition pop_front :: "nat \<Rightarrow> nat \<Rightarrow> rref_deque \<times> 'e shared_heap \<Rightarrow> (rref option \<times> rref_deque \<times> 'e shared_heap) option" where
  "pop_front cur n s =
     (case s of (q, h) \<Rightarrow>
        do { (value, h) \<leftarrow> rarray_get cur (dq_arr q) (dq_tail q) h;
             case value of
               None \<Rightarrow> Some (None, q, h)
             | Some r \<Rightarrow>
                 do { tail1 \<leftarrow> add_usize (dq_tail q) 1;
                      assert_that (n \<noteq> 0);
                      Some (Some r, q\<lparr>dq_tail := tail1 mod n\<rparr>, h) } })"

record rdeque_iter =
  it_arr :: rref
  it_curr :: nat
  it_remaining :: nat

definition rdeque_iter_of :: "nat \<Rightarrow> rref_deque \<Rightarrow> 'e shared_heap \<Rightarrow> rdeque_iter option" where
  "rdeque_iter_of n q h =
     do { k \<leftarrow> rdeque_len n q h; Some \<lparr>it_arr = dq_arr q, it_curr = dq_tail q, it_remaining = k\<rparr> }"

definition rdeque_next :: "nat \<Rightarrow> 'e shared_heap \<Rightarrow> rdeque_iter \<Rightarrow> ('e shvalue option \<times> rdeque_iter) option" where
  "rdeque_next n h it =
     (if it_remaining it = 0 then Some (None, it)
      else
        do { el \<leftarrow> rarray_get_ref (it_arr it) (it_curr it) h;
             case el of
               None \<Rightarrow> Some (None, it)
             | Some x \<Rightarrow>
                 do { c1 \<leftarrow> add_usize (it_curr it) 1;
                      assert_that (n \<noteq> 0);
                      Some (Some x, it\<lparr>it_curr := c1 mod n, it_remaining := it_remaining it - 1\<rparr>) } })"

definition rdeque_next_mut :: "nat \<Rightarrow> 'e shared_heap \<Rightarrow> rdeque_iter \<Rightarrow> (rref option \<times> rdeque_iter) option" where
  "rdeque_next_mut n h it =
     (if it_remaining it = 0 then Some (None, it)
      else
        do { el \<leftarrow> rarray_get_mut (it_arr it) (it_curr it) h;
             case el of
               None \<Rightarrow> Some (None, it)
             | Some r \<Rightarrow>
                 do { c1 \<leftarrow> add_usize (it_curr it) 1;
                      assert_that (n \<noteq> 0);
                      Some (Some r, it\<lparr>it_curr := c1 mod n, it_remaining := it_remaining it - 1\<rparr>) } })"

definition rdeque_peek :: "'e shared_heap \<Rightarrow> rdeque_iter \<Rightarrow> 'e shvalue option option" where
  "rdeque_peek h it = (if it_remaining it = 0 then Some None else rarray_get_ref (it_arr it) (it_curr it) h)"

section \<open>Owned references\<close>

definition owned_take :: "nat \<Rightarrow> rref option \<Rightarrow> 'e shared_heap \<Rightarrow> rref option \<times> rref option \<times> 'e shared_heap" where
  "owned_take cur ow h =
     (case ow of None \<Rightarrow> (None, None, h) | Some r \<Rightarrow> (Some r, None, rref_move_to_current cur r h))"

definition owned_replace :: "nat \<Rightarrow> rref \<Rightarrow> rref option \<Rightarrow> 'e shared_heap \<Rightarrow> rref option \<times> rref option \<times> 'e shared_heap" where
  "owned_replace cur r ow h =
     (let h = rref_move_to 0 r h;
          (other, ow, h) = owned_take cur ow h
      in (other, Some r, h))"

definition owned_new :: "nat \<Rightarrow> rref \<Rightarrow> 'e shared_heap \<Rightarrow> rref option \<times> 'e shared_heap" where
  "owned_new cur r h = (case owned_replace cur r None h of (other, ow, h) \<Rightarrow> (ow, h))"

section \<open>Vectors\<close>

record rref_vec =
  rv_data :: rref
  rv_size :: nat

definition rvec_from_slice :: "'e drop_map \<Rightarrow> nat \<Rightarrow> 'e \<Rightarrow> 'e list \<Rightarrow> nat \<Rightarrow> layout \<Rightarrow> nat \<times> nat \<times> nat \<Rightarrow> 'e shared_heap \<Rightarrow>
    (rref_vec \<times> 'e shared_heap) option" where
  "rvec_from_slice dm cur uninit elems type_id l mem h =
     do { (data, h) \<leftarrow> new_with_layout dm cur \<lparr>sv_data = [uninit], sv_refs = []\<rparr> type_id l mem h;
          let h = rref_deref_mut data (\<lambda>v. v\<lparr>sv_data := elems\<rparr>) h;
          Some (\<lparr>rv_data = data, rv_size = length elems\<rparr>, h) }"

definition rvec_new :: "'e drop_map \<Rightarrow> nat \<Rightarrow> 'e \<Rightarrow> nat \<Rightarrow> nat \<Rightarrow> layout \<Rightarrow> nat \<times> nat \<times> nat \<Rightarrow> 'e shared_heap \<Rightarrow>
    (rref_vec \<times> 'e shared_heap) option" where
  "rvec_new dm cur initial_value sz type_id l mem h =
     do { (data, h) \<leftarrow> new_with_layout dm cur \<lparr>sv_data = [initial_value], sv_refs = []\<rparr> type_id l mem h;
          let h = rref_deref_mut data (\<lambda>v. v\<lparr>sv_data := replicate sz initial_value\<rparr>) h;
          Some (\<lparr>rv_data = data, rv_size = sz\<rparr>, h) }"

definition rvec_as_slice :: "rref_vec \<Rightarrow> 'e shared_heap \<Rightarrow> 'e list" where
  "rvec_as_slice v h = take (rv_size v) (sv_data (rref_deref (rv_data v) h))"

text \<open>Writing through the mutable slice: as many elements as the vector has.\<close>

definition rvec_as_mut_slice :: "rref_vec \<Rightarrow> ('e list \<Rightarrow> 'e list) \<Rightarrow> 'e shared_heap \<Rightarrow> 'e shared_heap" where
  "rvec_as_mut_slice v f h =
     rref_deref_mut (rv_data v)
       (\<lambda>x. x\<lparr>sv_data := take (rv_size v) (f (take (rv_size v) (sv_data x))) @ drop (rv_size v) (sv_data x)\<rparr>) h"

definition rvec_move_to :: "nat \<Rightarrow> rref_vec \<Rightarrow> 'e shared_heap \<Rightarrow> 'e shared_heap" where
  "rvec_move_to d v h = rref_move_to d (rv_data v) h"

definition rvec_borrow :: "rref_vec \<Rightarrow> 'e shared_heap \<Rightarrow> 'e shared_heap option" where
  "rvec_borrow v h = rref_borrow (rv_data v) h"

definition rvec_forfeit :: "rref_vec \<Rightarrow> 'e shared_heap \<Rightarrow> 'e shared_heap option" where
  "rvec_forfeit v h = rref_forfeit (rv_data v) h"

text \<open>The vector's own cleanup drops borrows of its elements, which does nothing; then its reference is dropped.\<close>

definition rvec_drop :: "'e drop_map \<Rightarrow> rref_vec \<Rightarrow> 'e shared_heap \<Rightarrow> 'e shared_heap" where
  "rvec_drop dm v h = rref_drop dm (rv_data v) h"

end
