(* ===== verification/Sharedheap_Spec.thy ===== *)
theory Sharedheap_Spec
  imports Sharedheap "HOL-Library.Multiset"
begin

text \<open>
  When a domain dies, what it owns on the shared heap is freed exactly once and no other domain loses
  anything.
\<close>

section \<open>What deallocation reaches\<close>

text \<open>\<open>K\<close> are the addresses on the table, \<open>ch\<close> the references an object cleans up, \<open>R\<close> where deallocation starts.\<close>

inductive reach :: "nat set \<Rightarrow> (nat \<Rightarrow> nat set) \<Rightarrow> nat set \<Rightarrow> nat \<Rightarrow> bool" for K ch R where
  reach_root: "x \<in> R \<Longrightarrow> x \<in> K \<Longrightarrow> reach K ch R x"
| reach_step: "reach K ch R y \<Longrightarrow> x \<in> ch y \<Longrightarrow> x \<in> K \<Longrightarrow> reach K ch R x"

lemma reach_in: "reach K ch R x \<Longrightarrow> x \<in> K"
  by (induction rule: reach.induct) auto

lemma reach_mono:
  assumes "reach K ch R x" "R \<subseteq> R'"
  shows "reach K ch R' x"
  using assms(1) by (induction rule: reach.induct) (use assms(2) in \<open>auto intro: reach.intros\<close>)

lemma reach_dead: "p \<notin> K \<Longrightarrow> reach K ch (insert p R) x = reach K ch R x"
proof
  assume "reach K ch (insert p R) x" "p \<notin> K"
  then show "reach K ch R x" by (induction rule: reach.induct) (auto intro: reach.intros)
qed (auto intro: reach_mono)

lemma reach_remove:
  assumes "p \<in> K"
  shows "reach K ch (insert p R) x \<longleftrightarrow> x = p \<or> reach (K - {p}) ch (R \<union> ch p) x"
proof
  assume "reach K ch (insert p R) x"
  then show "x = p \<or> reach (K - {p}) ch (R \<union> ch p) x"
  proof (induction rule: reach.induct)
    case (reach_root x)
    then show ?case by (auto intro: reach.intros)
  next
    case (reach_step y x)
    then show ?case using reach.reach_root[of x "R \<union> ch p" "K - {p}" ch] reach.reach_step[of "K - {p}" ch "R \<union> ch p" y x] by auto
  qed
next
  have p: "reach K ch (insert p R) p" using assms by (auto intro: reach.reach_root)
  assume "x = p \<or> reach (K - {p}) ch (R \<union> ch p) x"
  then show "reach K ch (insert p R) x"
  proof
    assume "reach (K - {p}) ch (R \<union> ch p) x"
    then show ?thesis
    proof (induction rule: reach.induct)
      case (reach_root x)
      then show ?case using p by (auto intro: reach.intros)
    next
      case (reach_step y x)
      then show ?case by (auto intro: reach.reach_step)
    qed
  qed (simp add: p)
qed

section \<open>What deallocation does\<close>

definition keys :: "'e shared_heap \<Rightarrow> nat set" where
  "keys h = fst ` set (sh_allocations h)"

definition table_ok :: "'e shared_heap \<Rightarrow> bool" where
  "table_ok h \<longleftrightarrow> distinct (map fst (sh_allocations h)) \<and> (\<forall>(p, a) \<in> set (sh_allocations h). al_value_pointer a = p)"

text \<open>The references cleaned up under an address of the original table.\<close>

definition ch_of :: "'e drop_map \<Rightarrow> 'e shared_heap \<Rightarrow> nat \<Rightarrow> nat set" where
  "ch_of dm h p = (case map_of (sh_allocations h) p of None \<Rightarrow> {} | Some a \<Rightarrow> set (children dm h a))"

fun roots :: "'e drop_map \<Rightarrow> 'e shared_heap \<Rightarrow> work \<Rightarrow> nat set" where
  "roots dm h (Dealloc p) = {p}"
| "roots dm h (Drop a) = set (children dm h a)"
| "roots dm h (Free a) = {}"

fun pending :: "work \<Rightarrow> shared_heap_allocation list" where
  "pending (Dealloc p) = []"
| "pending (Drop a) = [a]"
| "pending (Free a) = [a]"

text \<open>\<open>g\<close> is the heap before anything was removed; \<open>h\<close> the heap now.\<close>

definition part_of :: "'e shared_heap \<Rightarrow> 'e shared_heap \<Rightarrow> bool" where
  "part_of h g \<longleftrightarrow> (\<exists>P. sh_allocations h = filter P (sh_allocations g)) \<and> sh_cells h = sh_cells g \<and> sh_values h = sh_values g"

lemma part_of_refl [simp]: "part_of h h"
  unfolding part_of_def by (auto intro: exI[of _ "\<lambda>_. True"])

lemma part_of_table: "part_of h g \<Longrightarrow> table_ok g \<Longrightarrow> table_ok h"
  by (auto simp: part_of_def table_ok_def distinct_map_filter)

lemma part_of_map: "part_of h g \<Longrightarrow> table_ok g \<Longrightarrow> map_of (sh_allocations h) p = Some a \<Longrightarrow> map_of (sh_allocations g) p = Some a"
  by (auto simp: part_of_def table_ok_def dest!: map_of_SomeD intro: map_of_is_SomeI)

lemma part_of_children: "part_of h g \<Longrightarrow> children dm h a = children dm g a"
  by (auto simp: part_of_def children_def split: option.split)

lemma part_of_remove: "part_of h g \<Longrightarrow> part_of (heap_remove p h) g"
  by (auto simp: part_of_def heap_remove_def filter_filter)

lemma keys_remove: "keys (heap_remove p h) = keys h - {p}"
  by (auto simp: keys_def heap_remove_def)

lemma keys_iff: "p \<in> keys h \<longleftrightarrow> (\<exists>a. (p, a) \<in> set (sh_allocations h))"
  unfolding keys_def by (metis (no_types, lifting) fst_conv imageE image_eqI prod.collapse)

lemma keys_map_of: "p \<in> keys h \<longleftrightarrow> (\<exists>a. map_of (sh_allocations h) p = Some a)"
  unfolding keys_def using map_of_eq_None_iff[of "sh_allocations h" p] by (cases "map_of (sh_allocations h) p") auto

definition removed :: "'e shared_heap \<Rightarrow> 'e shared_heap \<Rightarrow> shared_heap_allocation list" where
  "removed h h' = map snd (filter (\<lambda>x. fst x \<notin> keys h') (sh_allocations h))"

lemma filter_key:
  "distinct (map fst xs) \<Longrightarrow> map_of xs p = Some a \<Longrightarrow> filter (\<lambda>x. fst x = p) xs = [(p, a)]"
proof (induction xs)
  case (Cons y ys)
  have "filter (\<lambda>x. fst x = fst y) ys = []" 
    unfolding filter_empty_conv using Cons.prems(1) by (metis distinct.simps(2) image_eqI list.set_map list.simps(9))
  then show ?case using Cons by (cases "fst y = p") (auto simp: prod_eq_iff)
qed simp

lemma mset_filter_split: "mset (filter Q xs) = mset (filter (\<lambda>x. Q x \<and> S x) xs) + mset (filter (\<lambda>x. Q x \<and> \<not> S x) xs)"
  by (induction xs) auto

lemma removed_remove:
  assumes "table_ok h" "map_of (sh_allocations h) p = Some a" "p \<notin> keys h'"
  shows "mset (removed h h') = {#a#} + mset (removed (heap_remove p h) h')"
proof -
  let ?xs = "sh_allocations h" and ?Q = "\<lambda>x. fst x \<notin> keys h'"
  have "filter (\<lambda>x. ?Q x \<and> fst x = p) ?xs = filter (\<lambda>x. fst x = p) ?xs" using assms(3) by (auto intro: filter_cong)
  then have "filter (\<lambda>x. ?Q x \<and> fst x = p) ?xs = [(p, a)]" using filter_key[OF _ assms(2)] assms(1) by (simp add: table_ok_def)
  moreover have "filter ?Q (filter (\<lambda>x. fst x \<noteq> p) ?xs) = filter (\<lambda>x. ?Q x \<and> fst x \<noteq> p) ?xs"
    by (simp add: filter_filter conj_commute)
  ultimately show ?thesis
    using mset_filter_split[of ?Q ?xs "\<lambda>x. fst x = p"] by (simp add: removed_def heap_remove_def)
qed

definition drops_done :: "'e drop_map \<Rightarrow> work list \<Rightarrow> 'e shared_heap \<Rightarrow> 'e shared_heap \<Rightarrow> 'e shared_heap \<Rightarrow> bool" where
  "drops_done dm todo g h h' \<longleftrightarrow> part_of h' g \<and>
     keys h' = keys h - {x. reach (keys h) (ch_of dm g) (\<Union> (roots dm g ` set todo)) x} \<and>
     (\<exists>fr. sh_freed h' = sh_freed h @ concat (map frees fr) \<and> mset fr = mset (concat (map pending todo)) + mset (removed h h'))"

lemma removed_self: "removed h h = []"
  by (auto simp: removed_def keys_def filter_empty_conv)

lemma keys_freed [simp]: "keys (h\<lparr>sh_freed := f\<rparr>) = keys h"
  by (simp add: keys_def)

lemma removed_freed [simp]: "removed (h\<lparr>sh_freed := f\<rparr>) h' = removed h h'"
  by (simp add: removed_def)

lemma part_of_freed: "part_of h g \<Longrightarrow> part_of (h\<lparr>sh_freed := f\<rparr>) g"
  by (simp add: part_of_def)

lemma roots_dealloc: "\<Union> (roots dm g ` set (map Dealloc ps @ Free a # todo)) = set ps \<union> \<Union> (roots dm g ` set todo)"
  by auto

lemma pending_dealloc: "concat (map pending (map Dealloc ps @ Free a # todo)) = a # concat (map pending todo)"
  by (induction ps) auto

lemma run_drops_spec:
  assumes "table_ok g" "part_of h g"
  shows "drops_done dm todo g h (run_drops dm todo h)"
  using assms(2)
proof (induction dm todo h rule: run_drops.induct)
  case (1 dm h)
  have "\<not> reach (keys h) (ch_of dm g) {} x" for x
    by (rule notI, erule reach.induct) auto
  then show ?case using 1 unfolding drops_done_def by (auto simp: removed_self intro!: exI[of _ "[]"])
next
  case (2 dm p todo h)
  show ?case
  proof (cases "map_of (sh_allocations h) p")
    case None
    then have "p \<notin> keys h" by (simp add: keys_map_of)
    then show ?thesis using 2(1)[OF None 2(3)] None by (simp add: drops_done_def reach_dead)
  next
    case (Some a)
    let ?h = "heap_remove p h" and ?h' = "run_drops dm (Drop a # todo) (heap_remove p h)" and ?R = "\<Union> (roots dm g ` set todo)"
    have IH: "drops_done dm (Drop a # todo) g ?h ?h'" using 2(2)[OF Some part_of_remove[OF 2(3)]] .
    have p: "p \<in> keys h" using Some by (auto simp: keys_map_of)
    have ch: "ch_of dm g p = set (children dm g a)" using part_of_map[OF 2(3) assms(1) Some] by (simp add: ch_of_def)
    have "{x. reach (keys h) (ch_of dm g) (insert p ?R) x} = insert p {x. reach (keys h - {p}) (ch_of dm g) (?R \<union> set (children dm g a)) x}"
      using reach_remove[OF p] ch by auto
    moreover have "keys ?h' = keys h - {p} - {x. reach (keys h - {p}) (ch_of dm g) (?R \<union> set (children dm g a)) x}"
      using IH by (simp add: drops_done_def keys_remove Un_commute)
    ultimately have k: "keys ?h' = keys h - {x. reach (keys h) (ch_of dm g) (insert p ?R) x}" by auto
    have "p \<notin> keys ?h'" using IH by (simp add: drops_done_def keys_remove)
    then have "mset (removed h ?h') = {#a#} + mset (removed ?h ?h')"
      using removed_remove[OF part_of_table[OF 2(3) assms(1)] Some] by blast
    then show ?thesis using IH k Some by (auto simp: drops_done_def heap_remove_def)
  qed
next
  case (3 dm a todo h)
  have "drops_done dm (map Dealloc (children dm h a) @ Free a # todo) g h (run_drops dm (Drop a # todo) h)" using 3 by simp
  then show ?case unfolding drops_done_def roots_dealloc pending_dealloc using part_of_children[OF 3(2), of dm a] by simp
next
  case (4 dm a todo h)
  let ?h = "h\<lparr>sh_freed := sh_freed h @ frees a\<rparr>"
  have IH: "drops_done dm todo g ?h (run_drops dm todo ?h)" using 4(1)[OF part_of_freed[OF 4(2)]] .
  then obtain fr where fr: "sh_freed (run_drops dm todo ?h) = sh_freed ?h @ concat (map frees fr)"
    "mset fr = mset (concat (map pending todo)) + mset (removed h (run_drops dm todo ?h))" by (auto simp: drops_done_def)
  then have "\<exists>fr. sh_freed (run_drops dm todo ?h) = sh_freed h @ concat (map frees fr) \<and>
      mset fr = {#a#} + mset (concat (map pending todo)) + mset (removed h (run_drops dm todo ?h))"
    by (intro exI[of _ "a # fr"]) simp
  then show ?case using IH by (simp add: drops_done_def)
qed

section \<open>Ownership\<close>

text \<open>
  Objects form trees: what an object cleans up is on the table, marked as owned by an object (domain 0),
  and belongs to no other object.
\<close>

definition wf_heap :: "'e drop_map \<Rightarrow> 'e shared_heap \<Rightarrow> bool" where
  "wf_heap dm h \<longleftrightarrow> table_ok h \<and>
     (\<forall>(p, a) \<in> set (sh_allocations h). \<forall>c \<in> set (children dm h a).
        (\<exists>b. (c, b) \<in> set (sh_allocations h) \<and> domain_of h b = 0) \<and>
        (\<forall>(q, b) \<in> set (sh_allocations h). c \<in> set (children dm h b) \<longrightarrow> q = p))"

lemma table_unique: "table_ok h \<Longrightarrow> (p, a) \<in> set (sh_allocations h) \<Longrightarrow> (p, b) \<in> set (sh_allocations h) \<Longrightarrow> a = b"
  unfolding table_ok_def by (metis map_of_is_SomeI option.inject)

lemma ch_of_in: "table_ok h \<Longrightarrow> (p, a) \<in> set (sh_allocations h) \<Longrightarrow> ch_of dm h p = set (children dm h a)"
  by (simp add: ch_of_def table_ok_def)

lemma part_of_in: "part_of h' h \<Longrightarrow> table_ok h \<Longrightarrow> (p, a) \<in> set (sh_allocations h') \<longleftrightarrow> (p, a) \<in> set (sh_allocations h) \<and> p \<in> keys h'"
proof -
  assume a: "part_of h' h" "table_ok h"
  have sub: "set (sh_allocations h') \<subseteq> set (sh_allocations h)" using a(1) by (auto simp: part_of_def)
  show ?thesis
  proof
    assume "(p, a) \<in> set (sh_allocations h) \<and> p \<in> keys h'"
    then obtain b where "(p, b) \<in> set (sh_allocations h')" "(p, a) \<in> set (sh_allocations h)" by (auto simp: keys_def)
    then show "(p, a) \<in> set (sh_allocations h')" using table_unique[OF a(2)] sub by blast
  qed (use sub in \<open>auto simp: keys_def intro: rev_image_eqI\<close>)
qed

lemma part_of_domain: "part_of h' h \<Longrightarrow> domain_of h' a = domain_of h a"
  by (simp add: part_of_def domain_of_def)

lemma drop_domain_done:
  fixes d :: nat
  assumes "table_ok h"
  defines "queue \<equiv> filter (\<lambda>x. domain_of h (snd x) = d) (sh_allocations h)"
    and "h1 \<equiv> h\<lparr>sh_allocations := filter (\<lambda>x. domain_of h (snd x) \<noteq> d) (sh_allocations h)\<rparr>"
  shows "drops_done dm (map Drop (map snd queue)) h h1 (drop_domain dm d h)"
proof -
  have "part_of h1 h" by (auto simp: part_of_def h1_def)
  from run_drops_spec[OF assms(1) this] show ?thesis by (simp only: drop_domain_def Let_def queue_def h1_def)
qed

lemma drop_domain_keys:
  fixes d :: nat
  assumes t: "table_ok h"
  defines "Q \<equiv> {p. \<exists>a. (p, a) \<in> set (sh_allocations h) \<and> domain_of h a = d}"
  shows "keys (drop_domain dm d h) = keys h - Q - {x. reach (keys h - Q) (ch_of dm h) (\<Union> (ch_of dm h ` Q)) x}"
proof -
  let ?queue = "filter (\<lambda>x. domain_of h (snd x) = d) (sh_allocations h)"
  let ?h1 = "h\<lparr>sh_allocations := filter (\<lambda>x. domain_of h (snd x) \<noteq> d) (sh_allocations h)\<rparr>"
  have "x \<in> keys ?h1 \<longleftrightarrow> x \<in> keys h - Q" for x
    unfolding Q_def by (simp add: keys_iff) (metis table_unique[OF t])
  then have k: "keys ?h1 = keys h - Q" by blast
  have "\<Union> (roots dm h ` set (map Drop (map snd ?queue))) = (\<Union>x \<in> set ?queue. set (children dm h (snd x)))" by simp
  also have "\<dots> = (\<Union>x \<in> set ?queue. ch_of dm h (fst x))" using ch_of_in[OF t] by (intro SUP_cong) auto
  also have "\<dots> = \<Union> (ch_of dm h ` fst ` set ?queue)" by simp
  also have "fst ` set ?queue = Q" unfolding Q_def by (auto intro!: image_eqI[of _ fst "(_, _)"])
  finally show ?thesis using drop_domain_done[OF t, where d = d and dm = dm] k by (simp add: drops_done_def)
qed

lemma drop_domain_frees:
  fixes d :: nat and dm :: "'e drop_map"
  assumes t: "table_ok h"
  defines "h' \<equiv> drop_domain dm d h"
  shows "\<exists>fr. sh_freed h' = sh_freed h @ concat (map frees fr) \<and> distinct fr \<and> set fr = snd ` (set (sh_allocations h) - set (sh_allocations h'))"
proof -
  let ?queue = "filter (\<lambda>x. domain_of h (snd x) = d) (sh_allocations h)"
  let ?h1 = "h\<lparr>sh_allocations := filter (\<lambda>x. domain_of h (snd x) \<noteq> d) (sh_allocations h)\<rparr>"
  have dd: "drops_done dm (map Drop (map snd ?queue)) h ?h1 h'" using drop_domain_done[OF t, where d = d and dm = dm] by (simp add: h'_def)
  have pend: "concat (map pending (map Drop (map snd ?queue))) = map snd ?queue" by (induction ?queue) (auto simp: comp_def)
  obtain fr where fr: "sh_freed h' = sh_freed h @ concat (map frees fr)" "mset fr = mset (map snd ?queue) + mset (removed ?h1 h')"
    using dd unfolding drops_done_def pend by auto
  have nq: "fst x \<notin> keys h'" if "x \<in> set ?queue" for x
  proof -
    have "(fst x, snd x) \<in> set (sh_allocations h)" "domain_of h (snd x) = d" using that by simp_all
    then show ?thesis unfolding h'_def drop_domain_keys[OF t] by blast
  qed
  have "mset fr = mset (map snd (filter (\<lambda>x. fst x \<notin> keys h') (sh_allocations h)))"
  proof -
    have "filter (\<lambda>x. fst x \<notin> keys h' \<and> domain_of h (snd x) = d) (sh_allocations h) = ?queue"
      using nq by (auto intro: filter_cong)
    moreover have "removed ?h1 h' = map snd (filter (\<lambda>x. fst x \<notin> keys h' \<and> domain_of h (snd x) \<noteq> d) (sh_allocations h))"
      by (simp add: removed_def filter_filter conj_commute)
    ultimately show ?thesis
      using mset_filter_split[of "\<lambda>x. fst x \<notin> keys h'" "sh_allocations h" "\<lambda>x. domain_of h (snd x) = d"] fr(2) by simp
  qed
  moreover have "distinct (map snd (filter (\<lambda>x. fst x \<notin> keys h') (sh_allocations h)))"
  proof -
    have "al_value_pointer a = p" if "(p, a) \<in> set (sh_allocations h)" for p a using t that by (auto simp: table_ok_def)
    then have "inj_on snd (set (sh_allocations h))" by (intro inj_onI) (metis prod.collapse)
    moreover have "distinct (sh_allocations h)" using t by (simp add: table_ok_def distinct_map)
    ultimately show ?thesis by (auto simp: distinct_map intro: inj_on_subset)
  qed
  moreover have "set (filter (\<lambda>x. fst x \<notin> keys h') (sh_allocations h)) = set (sh_allocations h) - set (sh_allocations h')"
    using part_of_in[OF _ t, of h'] dd by (auto simp: drops_done_def)
  ultimately show ?thesis using fr(1) by (metis mset_eq_imp_distinct_iff mset_eq_setD set_map)
qed

text \<open>What is gone was owned by the domain or hung under something that is gone.\<close>

abbreviation owned_by :: "nat \<Rightarrow> 'e shared_heap \<Rightarrow> nat set" where
  "owned_by d h \<equiv> {p. \<exists>a. (p, a) \<in> set (sh_allocations h) \<and> domain_of h a = d}"

lemma drop_domain_gone:
  assumes t: "table_ok h" and p: "p \<in> keys h" "p \<notin> keys (drop_domain dm d h)"
  shows "p \<in> owned_by d h \<or>
    (\<exists>q a. (q, a) \<in> set (sh_allocations h) \<and> p \<in> set (children dm h a) \<and> q \<notin> keys (drop_domain dm d h))"
proof (cases "p \<in> owned_by d h")
  case False
  note k = drop_domain_keys[OF t, of dm d]
  have "reach (keys h - owned_by d h) (ch_of dm h) (\<Union> (ch_of dm h ` owned_by d h)) p" using p False unfolding k by blast
  then show ?thesis
  proof (cases rule: reach.cases)
    case reach_root
    then obtain q a where "(q, a) \<in> set (sh_allocations h)" "domain_of h a = d" "p \<in> ch_of dm h q" by blast
    then show ?thesis using ch_of_in[OF t] unfolding k by blast
  next
    case (reach_step y)
    then obtain a where "(y, a) \<in> set (sh_allocations h)" using reach_in[OF reach_step(1)] by (auto simp: keys_iff)
    then show ?thesis using reach_step ch_of_in[OF t] unfolding k by blast
  qed
qed simp

lemma wf_heapD:
  assumes "wf_heap dm h" "(p, a) \<in> set (sh_allocations h)" "c \<in> set (children dm h a)"
  shows "\<exists>b. (c, b) \<in> set (sh_allocations h) \<and> domain_of h b = 0"
    "\<And>q b. (q, b) \<in> set (sh_allocations h) \<Longrightarrow> c \<in> set (children dm h b) \<Longrightarrow> q = p"
  using assms unfolding wf_heap_def by blast+

lemma drop_domain_keeps:
  assumes wf: "wf_heap dm h" and d: "d \<noteq> 0"
    and p: "(p, a) \<in> set (sh_allocations h)" "p \<in> keys (drop_domain dm d h)" "c \<in> set (children dm h a)"
  shows "c \<in> keys (drop_domain dm d h)"
proof (rule ccontr)
  assume c: "c \<notin> keys (drop_domain dm d h)"
  have t: "table_ok h" using wf by (simp add: wf_heap_def)
  obtain b where b: "(c, b) \<in> set (sh_allocations h)" "domain_of h b = 0" using wf_heapD(1)[OF wf p(1,3)] by blast
  have "c \<in> keys h" unfolding keys_iff using b(1) by blast
  moreover have "c \<notin> owned_by d h" using b table_unique[OF t] d by force
  ultimately obtain q e where "(q, e) \<in> set (sh_allocations h)" "c \<in> set (children dm h e)" "q \<notin> keys (drop_domain dm d h)"
    using drop_domain_gone[OF t _ c] by blast
  then show False using wf_heapD(2)[OF wf p(1,3)] p(2) by blast
qed

lemma drop_domain_spares:
  assumes wf: "wf_heap dm h" and p: "(p, a) \<in> set (sh_allocations h)" "domain_of h a \<notin> {0, d}"
  shows "p \<in> keys (drop_domain dm d h)"
proof (rule ccontr)
  assume "p \<notin> keys (drop_domain dm d h)"
  have t: "table_ok h" using wf by (simp add: wf_heap_def)
  have "p \<in> keys h" unfolding keys_iff using p(1) by blast
  moreover have "p \<notin> owned_by d h" using p table_unique[OF t] by force
  ultimately obtain q e where "(q, e) \<in> set (sh_allocations h)" "p \<in> set (children dm h e)"
    using drop_domain_gone[OF t _ \<open>p \<notin> keys (drop_domain dm d h)\<close>] by blast
  then show False using wf_heapD(1)[OF wf] p table_unique[OF t] by force
qed

lemma wf_heapI:
  assumes "table_ok h"
    and "\<And>p a c. (p, a) \<in> set (sh_allocations h) \<Longrightarrow> c \<in> set (children dm h a) \<Longrightarrow> \<exists>b. (c, b) \<in> set (sh_allocations h) \<and> domain_of h b = 0"
    and "\<And>p a c q b. (p, a) \<in> set (sh_allocations h) \<Longrightarrow> c \<in> set (children dm h a) \<Longrightarrow>
      (q, b) \<in> set (sh_allocations h) \<Longrightarrow> c \<in> set (children dm h b) \<Longrightarrow> q = p"
  shows "wf_heap dm h"
  unfolding wf_heap_def
proof (intro conjI ballI, rule assms(1), clarify)
  fix p a c
  assume p: "(p, a) \<in> set (sh_allocations h)" "c \<in> set (children dm h a)"
  show "(\<exists>b. (c, b) \<in> set (sh_allocations h) \<and> domain_of h b = 0) \<and>
      (\<forall>(q, b) \<in> set (sh_allocations h). c \<in> set (children dm h b) \<longrightarrow> q = p)"
    using assms(2)[OF p] assms(3)[OF p] by auto
qed

lemma wf_heap_drop_domain:
  assumes wf: "wf_heap dm h" and d: "d \<noteq> 0"
  shows "wf_heap dm (drop_domain dm d h)"
proof -
  let ?h = "drop_domain dm d h"
  have t: "table_ok h" using wf by (simp add: wf_heap_def)
  have pt: "part_of ?h h" using drop_domain_done[OF t] by (simp add: drops_done_def)
  note [simp] = part_of_in[OF pt t] part_of_children[OF pt] part_of_domain[OF pt]
  show ?thesis
  proof (rule wf_heapI)
    fix p a c
    assume "(p, a) \<in> set (sh_allocations ?h)" "c \<in> set (children dm ?h a)"
    then have p: "(p, a) \<in> set (sh_allocations h)" "p \<in> keys ?h" "c \<in> set (children dm h a)" by simp_all
    obtain b where "(c, b) \<in> set (sh_allocations h)" "domain_of h b = 0" using wf_heapD(1)[OF wf p(1,3)] by blast
    then have "(c, b) \<in> set (sh_allocations ?h) \<and> domain_of ?h b = 0" using drop_domain_keeps[OF wf d p] by simp
    then show "\<exists>b. (c, b) \<in> set (sh_allocations ?h) \<and> domain_of ?h b = 0" by blast
    fix q b
    assume "(q, b) \<in> set (sh_allocations ?h)" "c \<in> set (children dm ?h b)"
    then show "q = p" using wf_heapD(2)[OF wf p(1,3), of q b] by simp
  qed (rule part_of_table[OF pt t])
qed


text \<open>A domain with an object that refers to another, beside an object of a second domain.\<close>

definition example_refs :: "unit drop_map" where
  "example_refs = (\<lambda>t. if t = 1 then Some (\<lambda>v. array_cleanup (sv_refs v)) else Some (\<lambda>v. []))"

definition example_shared :: "unit shared_heap" where
  "example_shared =
     (let alloc = (\<lambda>p t. (p, \<lparr>al_value_pointer = p, al_domain_id_pointer = p + 1, al_borrow_count_pointer = p + 2, al_layout = u64_layout, al_type_id = t\<rparr>))
      in \<lparr>sh_allocations = [alloc 10 1, alloc 20 0, alloc 30 0],
          sh_cells = (\<lambda>_. 0)(11 := 5, 31 := 7),
          sh_values = (\<lambda>p. \<lparr>sv_data = [], sv_refs = if p = 10 then [Some \<lparr>rr_domain_id_pointer = 21, rr_borrow_count_pointer = 22, rr_value_pointer = 20\<rparr>] else []\<rparr>),
          sh_freed = []\<rparr>)"


end
