(* ===== verification/Rref_Deque.thy ===== *)
theory Rref_Deque
  imports Sharedheap Queues
begin

text \<open>
  The queue of remote references, \<^verbatim>\<open>src/interface/src/rref/rref_deque.rs\<close>, is a bounded queue:
  an interpretation of \<open>fifo\<close>.  Its length and its iterator agree with the queue's content, and it
  transfers ownership: what is in it belongs to no domain, what is taken out to the domain that runs.
\<close>

section \<open>Queues of remote references\<close>

text \<open>The occupied slots of a ring of \<open>n\<close> are the \<open>k\<close> that start at \<open>t\<close>.\<close>

definition ring :: "nat \<Rightarrow> 'a option list \<Rightarrow> nat \<Rightarrow> nat \<Rightarrow> bool" where
  "ring n xs t k \<longleftrightarrow> length xs = n \<and> t < n \<and> k \<le> n \<and> (\<forall>j < n. xs ! ((t + j) mod n) \<noteq> None \<longleftrightarrow> j < k)"

lemma ring_push:
  assumes r: "ring n xs t k" and k: "k < n"
  shows "xs ! ((t + k) mod n) = None" "ring n (xs[(t + k) mod n := Some x]) t (k + 1)"
proof -
  have n: "length xs = n" "t < n" "\<And>j. j < n \<Longrightarrow> xs ! ((t + j) mod n) \<noteq> None \<longleftrightarrow> j < k" using r by (auto simp: ring_def)
  show "xs ! ((t + k) mod n) = None" using n(3)[OF k] by simp
  have "xs[(t + k) mod n := Some x] ! ((t + j) mod n) \<noteq> None \<longleftrightarrow> j < k + 1" if j: "j < n" for j
    using n(3)[OF j] mod_add_inj[OF j k, of t] n(1) j by (cases "j = k") (auto simp: nth_list_update)
  then show "ring n (xs[(t + k) mod n := Some x]) t (k + 1)" using n k by (simp add: ring_def)
qed

lemma ring_pop:
  assumes r: "ring n xs t k" and k: "k \<noteq> 0"
  shows "xs ! t \<noteq> None" "ring n (xs[t := None]) ((t + 1) mod n) (k - 1)"
proof -
  have n: "length xs = n" "t < n" "k \<le> n" "\<And>j. j < n \<Longrightarrow> xs ! ((t + j) mod n) \<noteq> None \<longleftrightarrow> j < k" using r by (auto simp: ring_def)
  show "xs ! t \<noteq> None" using n(4)[of 0] n(2,3) k by simp
  have "xs[t := None] ! (((t + 1) mod n + j) mod n) \<noteq> None \<longleftrightarrow> j < k - 1" if j: "j < n" for j
  proof (cases "j + 1 < n")
    case True
    have "((t + 1) mod n + j) mod n = (t + (j + 1)) mod n" by (simp add: mod_simps ac_simps)
    moreover have "(t + (j + 1)) mod n \<noteq> t" using mod_add_inj[OF True, of 0 t] n(2) by simp
    ultimately show ?thesis using n(4)[OF True] k by auto
  next
    case False
    then have "j + 1 = n" using j by simp
    then have "((t + 1) mod n + j) mod n = (t + n) mod n" by (metis add.assoc add.commute mod_add_left_eq)
    then have "((t + 1) mod n + j) mod n = t" using n(2) by simp
    then show ?thesis using \<open>j + 1 = n\<close> n by simp
  qed
  then show "ring n (xs[t := None]) ((t + 1) mod n) (k - 1)" using n by (simp add: ring_def)
qed


section \<open>The queue\<close>

abbreviation dq_slots :: "rref_deque \<times> 'e shared_heap \<Rightarrow> rref option list" where
  "dq_slots s \<equiv> rarray_slots (dq_arr (fst s)) (snd s)"

definition dq_ok :: "nat \<Rightarrow> rref_deque \<times> 'e shared_heap \<Rightarrow> bool" where
  "dq_ok n s \<longleftrightarrow> n < 2 ^ 64 \<and> (\<exists>k. ring n (dq_slots s) (dq_tail (fst s)) k \<and> dq_head (fst s) = (dq_tail (fst s) + k) mod n)"

definition dq_items :: "nat \<Rightarrow> rref_deque \<times> 'e shared_heap \<Rightarrow> rref list" where
  "dq_items n s = map (\<lambda>j. the (dq_slots s ! ((dq_tail (fst s) + j) mod n))) [0..<the (rdeque_len n (fst s) (snd s))]"

definition dq_enq :: "'e drop_map \<Rightarrow> nat \<Rightarrow> rref \<Rightarrow> rref_deque \<times> 'e shared_heap \<Rightarrow> (rref_deque \<times> 'e shared_heap) option" where
  "dq_enq dm n x s = (case push_back dm n x s of Some (None, s') \<Rightarrow> Some s' | _ \<Rightarrow> None)"

definition dq_deq :: "nat \<Rightarrow> nat \<Rightarrow> rref_deque \<times> 'e shared_heap \<Rightarrow> (rref \<times> rref_deque \<times> 'e shared_heap) option" where
  "dq_deq cur n s = (case pop_front cur n s of Some (Some x, s') \<Rightarrow> Some (x, s') | _ \<Rightarrow> None)"

lemma ring_slot: "ring n xs t k \<Longrightarrow> j < n \<Longrightarrow> xs ! ((t + j) mod n) \<noteq> None \<longleftrightarrow> j < k"
  by (simp add: ring_def)

lemma rdeque_len_ok:
  assumes r: "ring n (rarray_slots (dq_arr q) h) (dq_tail q) k" and hd: "dq_head q = (dq_tail q + k) mod n"
  shows "rdeque_len n q h = Some k"
proof -
  have n: "length (rarray_slots (dq_arr q) h) = n" "dq_tail q < n" "k \<le> n" using r by (auto simp: ring_def)
  have first: "rarray_slots (dq_arr q) h ! dq_tail q \<noteq> None \<longleftrightarrow> 0 < k" using ring_slot[OF r, of 0] n by simp
  show ?thesis using n first unfolding rdeque_len_def rarray_has_def hd mod_wrap[OF n(2,3)]
    by (auto simp: panic_simps)
qed


lemma slots_move [simp]: "rarray_slots a (rref_move_to d r h) = rarray_slots a h"
  by (simp add: rarray_slots_def rref_deref_def rref_move_to_def)

lemma slots_set [simp]: "rarray_slots a (set_slot a i r h) = (rarray_slots a h)[i := r]"
  by (simp add: rarray_slots_def set_slot_def rref_deref_def rref_deref_mut_def)

text \<open>The queue's state, opened: the first slot, the number of elements, and the elements.\<close>

lemma dq_okE:
  assumes "dq_ok n (q, h)"
  obtains k where "n < 2 ^ 64" "ring n (rarray_slots (dq_arr q) h) (dq_tail q) k" "dq_head q = (dq_tail q + k) mod n"
    "rdeque_len n q h = Some k" "dq_items n (q, h) = map (\<lambda>j. the (rarray_slots (dq_arr q) h ! ((dq_tail q + j) mod n))) [0..<k]"
  using assms rdeque_len_ok unfolding dq_ok_def dq_items_def by fastforce

lemma dq_okI:
  assumes "n < 2 ^ 64" "ring n (rarray_slots (dq_arr q) h) (dq_tail q) k" "dq_head q = (dq_tail q + k) mod n"
  shows "dq_ok n (q, h)" "dq_items n (q, h) = map (\<lambda>j. the (rarray_slots (dq_arr q) h ! ((dq_tail q + j) mod n))) [0..<k]"
  using assms rdeque_len_ok[OF assms(2,3)] unfolding dq_ok_def dq_items_def by auto

lemma dq_length: "dq_ok n (q, h) \<Longrightarrow> rdeque_len n q h = Some (length (dq_items n (q, h))) \<and> length (dq_items n (q, h)) \<le> n"
  by (erule dq_okE) (simp add: ring_def)

lemma push_back_full:
  assumes "dq_ok n (q, h)" "n \<le> length (dq_items n (q, h))"
  shows "push_back dm n x (q, h) = Some (Some x, q, h)"
proof -
  obtain k where k: "ring n (rarray_slots (dq_arr q) h) (dq_tail q) k" "dq_head q = (dq_tail q + k) mod n" "n \<le> k"
    using dq_okE[OF assms(1)] assms(2) by (metis diff_zero length_map length_upt)
  then have "k = n" "dq_tail q < n" "length (rarray_slots (dq_arr q) h) = n" by (auto simp: ring_def)
  then show ?thesis using ring_slot[OF k(1), of 0] k(2) by (simp add: push_back_def rarray_has_def panic_simps nth_chk_def)
qed

lemma upt_snoc: "[0..<k + 1] = [0..<k] @ [k]"
  by (metis Suc_eq_plus1 upt_Suc_append zero_le)

lemma push_back_room:
  assumes ok: "dq_ok n (q, h)" and room: "length (dq_items n (q, h)) < n"
  shows "\<exists>s. push_back dm n x (q, h) = Some (None, s) \<and> dq_ok n s \<and> dq_items n s = dq_items n (q, h) @ [x] \<and>
    sh_cells (snd s) = (sh_cells h)(rr_domain_id_pointer x := 0)"
proof -
  let ?xs = "rarray_slots (dq_arr q) h" and ?t = "dq_tail q"
  obtain k where k: "n < 2 ^ 64" "ring n ?xs ?t k" "dq_head q = (?t + k) mod n"
    "dq_items n (q, h) = map (\<lambda>j. the (?xs ! ((?t + j) mod n))) [0..<k]" using dq_okE[OF ok] by metis
  then have kn: "k < n" using room by simp
  have n: "length ?xs = n" "?t < n" using k(2) by (auto simp: ring_def)
  have hn: "dq_head q < n" unfolding k(3) using kn by simp
  let ?q = "q\<lparr>dq_head := (dq_head q + 1) mod n\<rparr>" and ?h = "set_slot (dq_arr q) (dq_head q) (Some x) (rref_move_to 0 x h)"
  have p: "push_back dm n x (q, h) = Some (None, ?q, ?h)"
    using ring_push(1)[OF k(2) kn] hn n k(1) unfolding k(3)[symmetric] by (simp add: push_back_def rarray_has_def rarray_set_def nth_chk_def add_usize_def assert_that_def)
  have r: "ring n (rarray_slots (dq_arr ?q) ?h) (dq_tail ?q) (k + 1)" using ring_push(2)[OF k(2) kn] by (simp add: k(3))
  have hd: "dq_head ?q = (dq_tail ?q + (k + 1)) mod n" by (simp add: k(3) mod_simps ac_simps)
  have same: "(?t + k) mod n \<noteq> (?t + j) mod n" if "j < k" for j using that kn mod_add_inj[of k n j ?t] by simp
  have "dq_items n (?q, ?h) = dq_items n (q, h) @ [x]"
    unfolding dq_okI(2)[OF k(1) r hd] k(4) upt_snoc using same n kn by (auto simp: k(3))
  then show ?thesis using p dq_okI(1)[OF k(1) r hd] by (simp add: set_slot_def rref_deref_mut_def rref_move_to_def)
qed

lemma pop_front_empty:
  assumes "dq_ok n (q, h)" "dq_items n (q, h) = []"
  shows "\<exists>h'. pop_front cur n (q, h) = Some (None, q, h')"
proof -
  obtain k where k: "ring n (rarray_slots (dq_arr q) h) (dq_tail q) k" "k = 0" using dq_okE[OF assms(1)] assms(2) by auto
  then show ?thesis using ring_slot[OF k(1), of 0] by (auto simp: ring_def pop_front_def rarray_get_def rref_move_to_current_def nth_chk_def)
qed

lemma pop_front_first:
  assumes ok: "dq_ok n (q, h)" and items: "dq_items n (q, h) = x # xs"
  shows "\<exists>s. pop_front cur n (q, h) = Some (Some x, s) \<and> dq_ok n s \<and> dq_items n s = xs \<and>
    sh_cells (snd s) = (sh_cells h)(rr_domain_id_pointer x := cur)"
proof -
  let ?xs = "rarray_slots (dq_arr q) h" and ?t = "dq_tail q"
  obtain k where k: "n < 2 ^ 64" "ring n ?xs ?t k" "dq_head q = (?t + k) mod n"
    "dq_items n (q, h) = map (\<lambda>j. the (?xs ! ((?t + j) mod n))) [0..<k]" using dq_okE[OF ok] by metis
  have n: "length ?xs = n" "?t < n" "k \<le> n" using k(2) by (auto simp: ring_def)
  have k0: "k \<noteq> 0" using items k(4) by (intro notI) simp
  then have "[0..<k] = 0 # map (\<lambda>j. j + 1) [0..<k - 1]" using map_Suc_upt[of 0 "k - 1"] upt_rec[of 0 k] by (simp flip: Suc_eq_plus1)
  then have x: "x = the (?xs ! ?t)" and xs: "xs = map (\<lambda>j. the (?xs ! ((?t + (j + 1)) mod n))) [0..<k - 1]"
    using items k(4) n by (simp_all add: comp_def)
  let ?q = "q\<lparr>dq_tail := (?t + 1) mod n\<rparr>" and ?h = "rref_move_to cur x (set_slot (dq_arr q) ?t None h)"
  have p: "pop_front cur n (q, h) = Some (Some x, ?q, ?h)"
    using ring_pop(1)[OF k(2) k0] n k(1) x by (auto simp: pop_front_def rarray_get_def rref_move_to_current_def nth_chk_def add_usize_def assert_that_def)
  have r: "ring n (rarray_slots (dq_arr ?q) ?h) (dq_tail ?q) (k - 1)" using ring_pop(2)[OF k(2) k0] by simp
  have "(?t + k) mod n = ((?t + 1) mod n + (k - 1)) mod n" unfolding mod_add_left_eq using k0 by simp
  then have hd: "dq_head ?q = (dq_tail ?q + (k - 1)) mod n" using k(3) by simp
  have other: "?t \<noteq> (?t + (j + 1)) mod n" if "j + 1 < k" for j using that n mod_add_inj[of 0 n "j + 1" ?t] by simp
  have "((?t + 1) mod n + j) mod n = (?t + (j + 1)) mod n" for j by (simp add: mod_simps ac_simps)
  then have "dq_items n (?q, ?h) = xs" unfolding dq_okI(2)[OF k(1) r hd] xs using other n by auto
  then show ?thesis using p dq_okI(1)[OF k(1) r hd] by (simp add: set_slot_def rref_deref_mut_def rref_move_to_def)
qed

interpretation dq: fifo "dq_enq dm n" "dq_deq cur n" "dq_items n" "dq_ok n" "\<lambda>_. n"
proof
  fix s :: "rref_deque \<times> 'a shared_heap" and x xs
  obtain q h where s: "s = (q, h)" by (cases s)
  assume ok: "dq_ok n s"
  show "length (dq_items n s) \<le> n" using ok dq_length by (auto simp: s)
  show "length (dq_items n s) < n \<Longrightarrow> \<exists>s'. dq_enq dm n x s = Some s' \<and> dq_ok n s' \<and> dq_items n s' = dq_items n s @ [x] \<and> n = n"
    using push_back_room[of n q h dm x] ok by (auto simp: s dq_enq_def)
  show "n \<le> length (dq_items n s) \<Longrightarrow> dq_enq dm n x s = None"
    using push_back_full[of n q h dm x] ok by (auto simp: s dq_enq_def)
  show "dq_items n s = x # xs \<Longrightarrow> \<exists>s'. dq_deq cur n s = Some (x, s') \<and> dq_ok n s' \<and> dq_items n s' = xs"
    using pop_front_first[of n q h x xs cur] ok by (auto simp: s dq_deq_def)
  show "dq_items n s = [] \<Longrightarrow> dq_deq cur n s = None"
    using pop_front_empty[of n q h cur] ok by (auto simp: s dq_deq_def)
qed

section \<open>Ownership\<close>

lemma push_all_cells:
  assumes "dq_ok n s" "length (dq_items n s) + length xs \<le> n" "push_all (dq_enq dm n) xs s = Some s'"
  shows "sh_cells (snd s') p = (if p \<in> rr_domain_id_pointer ` set xs then 0 else sh_cells (snd s) p)"
  using assms
proof (induction xs arbitrary: s)
  case (Cons x xs)
  obtain s1 where 1: "push_back dm n x s = Some (None, s1)" "dq_ok n s1" "dq_items n s1 = dq_items n s @ [x]"
    "sh_cells (snd s1) = (sh_cells (snd s))(rr_domain_id_pointer x := 0)"
    using push_back_room[of n "fst s" "snd s" dm x] Cons.prems by auto
  then have "dq_enq dm n x s = Some s1" by (simp add: dq_enq_def)
  then have "push_all (dq_enq dm n) xs s1 = Some s'" using Cons.prems(3) by simp
  from Cons.IH[OF 1(2) _ this] show ?case using Cons.prems(2) 1 by simp
qed simp

lemma pop_many_cells:
  assumes "dq_ok n s" "k \<le> length (dq_items n s)" "pop_many (dq_deq cur n) k s = Some (ys, s')"
  shows "sh_cells (snd s') p = (if p \<in> rr_domain_id_pointer ` set (take k (dq_items n s)) then cur else sh_cells (snd s) p)"
  using assms
proof (induction k arbitrary: s ys)
  case (Suc k)
  then obtain x xs where x: "dq_items n s = x # xs" by (cases "dq_items n s") auto
  then obtain s1 where 1: "pop_front cur n s = Some (Some x, s1)" "dq_ok n s1" "dq_items n s1 = xs"
    "sh_cells (snd s1) = (sh_cells (snd s))(rr_domain_id_pointer x := cur)"
    using pop_front_first[of n "fst s" "snd s" x xs cur] Suc.prems by auto
  then have "dq_deq cur n s = Some (x, s1)" by (simp add: dq_deq_def)
  then obtain zs where "pop_many (dq_deq cur n) k s1 = Some (zs, s')" using Suc.prems(3) by (auto simp: bind_eq_Some_conv)
  from Suc.IH[OF 1(2) _ this] show ?case using Suc.prems(2) 1 x by simp
qed simp

text \<open>C34. A queue of remote references hands objects from one domain to another: what a sender pushes, as long as
  it fits, comes out in the same order after what was queued before; while queued the object is marked as owned by
  no domain, and the receiver owns everything it took out.\<close>

theorem rdeque_transfers_ownership:
  assumes ok: "dq_ok n s" and room: "length (dq_items n s) + length xs \<le> n"
  shows "\<exists>s1 s2. push_all (dq_enq dm n) xs s = Some s1 \<and>
    pop_many (dq_deq cur n) (length (dq_items n s) + length xs) s1 = Some (dq_items n s @ xs, s2) \<and>
    dq_ok n s2 \<and> dq_items n s2 = [] \<and>
    (\<forall>r \<in> set xs. rref_domain_id r (snd s1) = 0) \<and>
    (\<forall>r \<in> set (dq_items n s @ xs). rref_domain_id r (snd s2) = cur)"
proof -
  obtain s1 where 1: "push_all (dq_enq dm n) xs s = Some s1" "dq_ok n s1" "dq_items n s1 = dq_items n s @ xs"
    using dq.push_all_ok[OF ok room] by blast
  then obtain s2 where 2: "pop_many (dq_deq cur n) (length (dq_items n s) + length xs) s1 = Some (dq_items n s @ xs, s2)"
    "dq_ok n s2" "dq_items n s2 = []"
    using dq.pop_many_ok[of n s1 "length (dq_items n s) + length xs" cur] by auto
  have "\<forall>r \<in> set xs. rref_domain_id r (snd s1) = 0" using push_all_cells[OF ok room 1(1)] by (simp add: rref_domain_id_def)
  moreover have "\<forall>r \<in> set (dq_items n s @ xs). rref_domain_id r (snd s2) = cur"
    using pop_many_cells[OF 1(2) _ 2(1)] 1(3) by (simp add: rref_domain_id_def)
  ultimately show ?thesis using 1(1) 2 by blast
qed

section \<open>The iterator\<close>

text \<open>What a loop over the iterator sees, in at most \<open>fuel\<close> calls of \<open>next\<close>.\<close>

fun rdeque_collect :: "nat \<Rightarrow> 'e shared_heap \<Rightarrow> nat \<Rightarrow> rdeque_iter \<Rightarrow> 'e shvalue list option" where
  "rdeque_collect n h 0 it = None"
| "rdeque_collect n h (Suc fuel) it =
     do { (el, it) \<leftarrow> rdeque_next n h it;
          case el of None \<Rightarrow> Some [] | Some v \<Rightarrow> do { vs \<leftarrow> rdeque_collect n h fuel it; Some (v # vs) } }"

lemma rdeque_collect_ok:
  assumes "n < 2 ^ 64" "length (rarray_slots arr h) = n" "c < n" "\<forall>j < k. rarray_slots arr h ! ((c + j) mod n) \<noteq> None"
  shows "rdeque_collect n h (Suc k) \<lparr>it_arr = arr, it_curr = c, it_remaining = k\<rparr> =
    Some (map (\<lambda>j. rref_deref (the (rarray_slots arr h ! ((c + j) mod n))) h) [0..<k])"
  using assms
proof (induction k arbitrary: c)
  case (Suc k)
  let ?f = "\<lambda>j. rref_deref (the (rarray_slots arr h ! ((c + j) mod n))) h"
  obtain r where r: "rarray_slots arr h ! c = Some r" using Suc.prems(3,4) by fastforce
  have m: "((c + 1) mod n + j) mod n = (c + Suc j) mod n" for j by (simp add: mod_simps flip: Suc_eq_plus1)
  have "rdeque_collect n h (Suc k) \<lparr>it_arr = arr, it_curr = (c + 1) mod n, it_remaining = k\<rparr> = Some (map (\<lambda>j. ?f (Suc j)) [0..<k])"
    by (rule Suc.IH[of "(c + 1) mod n", OF Suc.prems(1,2), unfolded m]) (use Suc.prems in auto)
  moreover have "rdeque_next n h \<lparr>it_arr = arr, it_curr = c, it_remaining = Suc k\<rparr> =
      Some (Some (rref_deref r h), \<lparr>it_arr = arr, it_curr = (c + 1) mod n, it_remaining = k\<rparr>)"
    using Suc.prems r by (auto simp: rdeque_next_def rarray_get_ref_def nth_chk_def add_usize_def assert_that_def)
  moreover have "map ?f [0..<Suc k] = rref_deref r h # map (\<lambda>j. ?f (Suc j)) [0..<k]"
    using r Suc.prems(3) unfolding map_upt_Suc by simp
  ultimately show ?case unfolding rdeque_collect.simps(2)[of n h "Suc k"] by (simp del: rdeque_collect.simps)
qed (simp add: rdeque_next_def)


text \<open>A queue of two slots, one taken.\<close>

definition example_rref :: "nat \<Rightarrow> rref" where
  "example_rref p = \<lparr>rr_domain_id_pointer = p + 1, rr_borrow_count_pointer = p + 2, rr_value_pointer = p\<rparr>"

definition example_deque :: "rref_deque \<times> nat shared_heap" where
  "example_deque =
     (\<lparr>dq_arr = example_rref 100, dq_head = 0, dq_tail = 1\<rparr>,
      \<lparr>sh_allocations = [], sh_cells = (\<lambda>_. 0),
       sh_values = (\<lambda>p. \<lparr>sv_data = [p], sv_refs = if p = 100 then [None, Some (example_rref 10)] else []\<rparr>), sh_freed = []\<rparr>)"

lemma example_deque_ok: "dq_ok 2 example_deque" and example_deque_items: "dq_items 2 example_deque = [example_rref 10]"
proof -
  let ?q = "fst example_deque" and ?h = "snd example_deque"
  have "ring 2 (rarray_slots (dq_arr ?q) ?h) (dq_tail ?q) 1" "dq_head ?q = (dq_tail ?q + 1) mod 2"
    by (auto simp: ring_def example_deque_def rarray_slots_def rref_deref_def example_rref_def less_2_cases_iff)
  from dq_okI[OF _ this] show "dq_ok 2 example_deque" "dq_items 2 example_deque = [example_rref 10]"
    by (simp_all add: example_deque_def rarray_slots_def rref_deref_def example_rref_def One_nat_def)
qed

theorem rdeque_transfers_ownership_witness:
  "\<exists>s1 s2. push_all (dq_enq (\<lambda>_. None) 2) [example_rref 20] example_deque = Some s1 \<and>
     pop_many (dq_deq 7 2) 2 s1 = Some ([example_rref 10, example_rref 20], s2) \<and>
     rref_domain_id (example_rref 20) (snd s1) = 0 \<and> rref_domain_id (example_rref 20) (snd s2) = 7"
proof -
  have l: "length (dq_items 2 example_deque) + length [example_rref 20] = 2" by (simp add: example_deque_items)
  then show ?thesis
    using rdeque_transfers_ownership[OF example_deque_ok, of "[example_rref 20]" "\<lambda>_. None" 7] unfolding l by (auto simp: example_deque_items)
qed


end
