(* ===== verification/Spin.thy ===== *)
theory Spin
  imports Redleaf_Base
begin

text \<open>
  The spin locks that the kernel and the domains use, \<^verbatim>\<open>src/lib/core/spin-rs\<close>: the mutex, the
  reader-writer lock and the one-time initialiser.

  Each call is cut into its atomic accesses; a function per access says what it does to the atomic
  cell, and a step relation interleaves the calls of any number of threads.  Accesses to one cell are
  totally ordered, which the hardware guarantees for a single location.
\<close>

section \<open>The mutex\<close>

datatype mx_phase = MxIdle | MxCas | MxLoad | MxHeld

record 'a mutex =
  mx_lock :: bool
  mx_data :: 'a

definition Mutex_new :: "'a \<Rightarrow> 'a mutex" where
  "Mutex_new user_data = \<lparr>mx_lock = False, mx_data = user_data\<rparr>"

text \<open>The swap gives the old value and leaves the cell true.\<close>

definition mx_cas :: "'a mutex \<Rightarrow> bool \<times> 'a mutex" where
  "mx_cas m = (mx_lock m, if mx_lock m then m else m\<lparr>mx_lock := True\<rparr>)"

fun obtain_lock :: "mx_phase \<Rightarrow> 'a mutex \<Rightarrow> mx_phase \<times> 'a mutex" where
  "obtain_lock MxCas m = (case mx_cas m of (old, m) \<Rightarrow> (if old then MxLoad else MxHeld, m))"
| "obtain_lock MxLoad m = (if mx_lock m then MxLoad else MxCas, m)"
| "obtain_lock p m = (p, m)"

definition try_lock :: "'a mutex \<Rightarrow> mx_phase \<times> 'a mutex" where
  "try_lock m = (case mx_cas m of (old, m) \<Rightarrow> (if \<not> old then MxHeld else MxIdle, m))"

definition MutexGuard_drop :: "'a mutex \<Rightarrow> 'a mutex" where
  "MutexGuard_drop m = m\<lparr>mx_lock := False\<rparr>"

inductive mx_step :: "mx_phase list \<times> 'a mutex \<Rightarrow> mx_phase list \<times> 'a mutex \<Rightarrow> bool" where
  mx_call: "t < length ps \<Longrightarrow> ps ! t = MxIdle \<Longrightarrow> mx_step (ps, m) (ps[t := MxCas], m)"
| mx_obtain: "t < length ps \<Longrightarrow> ps ! t \<in> {MxCas, MxLoad} \<Longrightarrow> obtain_lock (ps ! t) m = (p, m') \<Longrightarrow>
    mx_step (ps, m) (ps[t := p], m')"
| mx_try: "t < length ps \<Longrightarrow> ps ! t = MxIdle \<Longrightarrow> try_lock m = (p, m') \<Longrightarrow> mx_step (ps, m) (ps[t := p], m')"
| mx_write: "t < length ps \<Longrightarrow> ps ! t = MxHeld \<Longrightarrow> mx_step (ps, m) (ps, m\<lparr>mx_data := x\<rparr>)"
| mx_drop: "t < length ps \<Longrightarrow> ps ! t = MxHeld \<Longrightarrow> mx_step (ps, m) (ps[t := MxIdle], MutexGuard_drop m)"

section \<open>The reader-writer lock\<close>

type_synonym usize = "64 word"

abbreviation READER :: usize where "READER \<equiv> 4"
abbreviation UPGRADED :: usize where "UPGRADED \<equiv> 2"
abbreviation WRITER :: usize where "WRITER \<equiv> 1"

text \<open>The weak exchange may fail although the cell has the expected value: \<open>spurious\<close>.\<close>

definition compare_exchange :: "usize \<Rightarrow> usize \<Rightarrow> bool \<Rightarrow> bool \<Rightarrow> usize \<Rightarrow> bool \<times> usize" where
  "compare_exchange current new strong spurious w =
     (if w = current \<and> (strong \<or> \<not> spurious) then (True, new) else (False, w))"

definition try_read :: "usize \<Rightarrow> bool \<times> usize" where
  "try_read w = (w AND (WRITER OR UPGRADED) = 0, w + READER)"

definition try_read_undo :: "usize \<Rightarrow> usize" where
  "try_read_undo w = w - READER"

definition try_write_internal :: "bool \<Rightarrow> bool \<Rightarrow> usize \<Rightarrow> bool \<times> usize" where
  "try_write_internal strong spurious w = compare_exchange 0 WRITER strong spurious w"

definition try_upgradeable_read :: "usize \<Rightarrow> bool \<times> usize" where
  "try_upgradeable_read w = (w AND (WRITER OR UPGRADED) = 0, w OR UPGRADED)"

definition try_upgrade_internal :: "bool \<Rightarrow> bool \<Rightarrow> usize \<Rightarrow> bool \<times> usize" where
  "try_upgrade_internal strong spurious w = compare_exchange UPGRADED WRITER strong spurious w"

definition downgrade_reserve :: "usize \<Rightarrow> usize" where
  "downgrade_reserve w = w + READER"

text \<open>The drop of a guard: the debug assertion loads the cell, then the cell is changed.\<close>

definition read_drop_check :: "usize \<Rightarrow> bool" where
  "read_drop_check w \<longleftrightarrow> 0 < w AND NOT (WRITER OR UPGRADED)"

definition read_drop :: "usize \<Rightarrow> usize" where
  "read_drop w = w - READER"

definition upgradeable_drop_check :: "usize \<Rightarrow> bool" where
  "upgradeable_drop_check w \<longleftrightarrow> w AND (WRITER OR UPGRADED) = UPGRADED"

definition upgradeable_drop :: "usize \<Rightarrow> usize" where
  "upgradeable_drop w = w - UPGRADED"

definition write_drop_check :: "usize \<Rightarrow> bool" where
  "write_drop_check w \<longleftrightarrow> w AND WRITER = WRITER"

definition write_drop :: "usize \<Rightarrow> usize" where
  "write_drop w = w AND NOT (WRITER OR UPGRADED)"

definition force_read_decrement :: "usize \<Rightarrow> usize option" where
  "force_read_decrement w = do { assert_that (0 < w AND NOT WRITER); Some (w - READER) }"

definition force_write_unlock :: "usize \<Rightarrow> usize option" where
  "force_write_unlock w = do { assert_that (w AND NOT (WRITER OR UPGRADED) = 0); Some (w AND NOT (WRITER OR UPGRADED)) }"

text \<open>
  Where a thread is: \<open>RwUndo\<close> before the undo of a failed \<open>try_read\<close>; a guard of each kind; the same
  guard between the assertion and the access of its drop; and a guard that \<open>downgrade\<close> is about to drop,
  having reserved a reader.
\<close>

datatype guard = GRead | GUpgradeable | GWrite
datatype rw_phase = RwIdle | RwUndo | RwGuard guard | RwDropping guard | RwDowngrading guard | RwDowngraded guard | RwPanicked

fun drop_check :: "guard \<Rightarrow> usize \<Rightarrow> bool" where
  "drop_check GRead w = read_drop_check w"
| "drop_check GUpgradeable w = upgradeable_drop_check w"
| "drop_check GWrite w = write_drop_check w"

fun guard_drop :: "guard \<Rightarrow> usize \<Rightarrow> usize" where
  "guard_drop GRead w = read_drop w"
| "guard_drop GUpgradeable w = upgradeable_drop w"
| "guard_drop GWrite w = write_drop w"

inductive rw_step :: "rw_phase list \<times> usize \<Rightarrow> rw_phase list \<times> usize \<Rightarrow> bool" where
  rw_try_read: "t < length ps \<Longrightarrow> ps ! t = RwIdle \<Longrightarrow> try_read w = (ok, w') \<Longrightarrow>
    rw_step (ps, w) (ps[t := if ok then RwGuard GRead else RwUndo], w')"
| rw_undo: "t < length ps \<Longrightarrow> ps ! t = RwUndo \<Longrightarrow> rw_step (ps, w) (ps[t := RwIdle], try_read_undo w)"
| rw_try_write: "t < length ps \<Longrightarrow> ps ! t = RwIdle \<Longrightarrow> try_write_internal strong spurious w = (ok, w') \<Longrightarrow>
    rw_step (ps, w) (ps[t := if ok then RwGuard GWrite else RwIdle], w')"
| rw_try_upgradeable: "t < length ps \<Longrightarrow> ps ! t = RwIdle \<Longrightarrow> try_upgradeable_read w = (ok, w') \<Longrightarrow>
    rw_step (ps, w) (ps[t := if ok then RwGuard GUpgradeable else RwIdle], w')"
| rw_try_upgrade: "t < length ps \<Longrightarrow> ps ! t = RwGuard GUpgradeable \<Longrightarrow> try_upgrade_internal strong spurious w = (ok, w') \<Longrightarrow>
    rw_step (ps, w) (ps[t := if ok then RwGuard GWrite else RwGuard GUpgradeable], w')"
| rw_downgrade: "t < length ps \<Longrightarrow> ps ! t = RwGuard g \<Longrightarrow> g \<noteq> GRead \<Longrightarrow>
    rw_step (ps, w) (ps[t := RwDowngrading g], downgrade_reserve w)"
| rw_drop_check: "t < length ps \<Longrightarrow> ps ! t = RwGuard g \<Longrightarrow>
    rw_step (ps, w) (ps[t := if drop_check g w then RwDropping g else RwPanicked], w)"
| rw_downgrade_check: "t < length ps \<Longrightarrow> ps ! t = RwDowngrading g \<Longrightarrow>
    rw_step (ps, w) (ps[t := if drop_check g w then RwDowngraded g else RwPanicked], w)"
| rw_drop: "t < length ps \<Longrightarrow> ps ! t = RwDropping g \<Longrightarrow> rw_step (ps, w) (ps[t := RwIdle], guard_drop g w)"
| rw_downgrade_drop: "t < length ps \<Longrightarrow> ps ! t = RwDowngraded g \<Longrightarrow> rw_step (ps, w) (ps[t := RwGuard GRead], guard_drop g w)"

section \<open>One-time initialisation\<close>

abbreviation INCOMPLETE :: nat where "INCOMPLETE \<equiv> 0"
abbreviation RUNNING :: nat where "RUNNING \<equiv> 1"
abbreviation COMPLETE :: nat where "COMPLETE \<equiv> 2"
abbreviation PANICKED :: nat where "PANICKED \<equiv> 3"

record 'a once =
  on_state :: nat
  on_data :: "'a option"

definition Once_new :: "'a once" where
  "Once_new = \<lparr>on_state = INCOMPLETE, on_data = None\<rparr>"

text \<open>
  Where a call is.  \<open>OnUndefined\<close> is the result of \<^verbatim>\<open>unreachable_unchecked\<close>, \<open>OnPanicked\<close> a panic: of the
  builder, of \<^verbatim>\<open>unreachable!\<close> or because the initialisation of another thread has panicked.
\<close>

datatype 'a on_phase =
    OnIdle | OnLoad | OnCas | OnBuild | OnStore | OnStatus nat | OnWait
  | OnReturned 'a | OnNothing | OnPanicked | OnUndefined

definition force_get :: "'a once \<Rightarrow> 'a on_phase" where
  "force_get o' = (case on_data o' of None \<Rightarrow> OnUndefined | Some p \<Rightarrow> OnReturned p)"

text \<open>The builder's result is an argument: \<open>None\<close> when it panics; then the guard \<^verbatim>\<open>Finish\<close> marks the state.\<close>

fun call_once :: "'a option \<Rightarrow> 'a on_phase \<Rightarrow> 'a once \<Rightarrow> 'a on_phase \<times> 'a once" where
  "call_once b OnLoad c = (if on_state c = INCOMPLETE then OnCas else OnStatus (on_state c), c)"
| "call_once b OnCas c =
     (if on_state c = INCOMPLETE then (OnBuild, c\<lparr>on_state := RUNNING\<rparr>) else (OnStatus (on_state c), c))"
| "call_once b OnBuild c =
     (case b of
        Some v \<Rightarrow> (OnStore, c\<lparr>on_data := Some v\<rparr>)
      | None \<Rightarrow> (OnPanicked, c\<lparr>on_state := PANICKED\<rparr>))"
| "call_once b OnStore c = (let c = c\<lparr>on_state := COMPLETE\<rparr> in (force_get c, c))"
| "call_once b (OnStatus st) c =
     (if st = INCOMPLETE then OnPanicked
      else if st = RUNNING then OnStatus (on_state c)
      else if st = PANICKED then OnPanicked
      else if st = COMPLETE then force_get c
      else OnUndefined, c)"
| "call_once b p c = (p, c)"

definition once_try :: "'a once \<Rightarrow> 'a on_phase" where
  "once_try c = (if on_state c = COMPLETE then force_get c else OnNothing)"

definition once_wait :: "'a once \<Rightarrow> 'a on_phase" where
  "once_wait c =
     (if on_state c = INCOMPLETE then OnNothing
      else if on_state c = RUNNING then OnWait
      else if on_state c = COMPLETE then force_get c
      else if on_state c = PANICKED then OnPanicked
      else OnUndefined)"

inductive on_step :: "'a on_phase list \<times> 'a once \<Rightarrow> 'a on_phase list \<times> 'a once \<Rightarrow> bool" where
  on_call: "t < length ps \<Longrightarrow> ps ! t = OnIdle \<Longrightarrow> on_step (ps, c) (ps[t := OnLoad], c)"
| on_run: "t < length ps \<Longrightarrow> ps ! t \<in> {OnLoad, OnCas, OnBuild, OnStore} \<union> range OnStatus \<Longrightarrow> call_once b (ps ! t) c = (p, c') \<Longrightarrow>
    on_step (ps, c) (ps[t := p], c')"
| on_again: "t < length ps \<Longrightarrow> ps ! t \<in> insert OnNothing (range OnReturned) \<Longrightarrow> on_step (ps, c) (ps[t := OnIdle], c)"
| on_try: "t < length ps \<Longrightarrow> ps ! t = OnIdle \<Longrightarrow> on_step (ps, c) (ps[t := once_try c], c)"
| on_wait: "t < length ps \<Longrightarrow> ps ! t \<in> {OnIdle, OnWait} \<Longrightarrow> on_step (ps, c) (ps[t := once_wait c], c)"

end
