(* ===== verification/Spin_Spec.thy ===== *)
theory Spin_Spec
  imports Spin
begin

text \<open>
  What the spin locks promise, whatever the interleaving: exclusion for the mutex and for the
  reader-writer lock with its upgrades and downgrades, no failing assertion, no bit left behind; one
  initialisation whose value everybody sees.
\<close>

section \<open>The reader-writer lock\<close>

text \<open>The cell: the number of readers above the two bits.\<close>

definition rw_word :: "nat \<Rightarrow> nat \<Rightarrow> nat \<Rightarrow> usize" where
  "rw_word r u w = of_nat (4 * r + 2 * u + w)"

abbreviation rw_small :: "nat \<Rightarrow> nat \<Rightarrow> nat \<Rightarrow> bool" where
  "rw_small r u w \<equiv> r < 2 ^ 61 \<and> u \<le> 1 \<and> w \<le> 1"

lemma unat_rw_word: "rw_small r u w \<Longrightarrow> unat (rw_word r u w) = 4 * r + 2 * u + w"
  unfolding rw_word_def unat_of_nat by simp

lemma and_not_minus: "(x :: usize) AND NOT y = x - (x AND y)"
proof -
  have "(x AND NOT y) AND (x AND y) = 0" by (simp add: bit_eq_iff bit_simps)
  then have "(x AND NOT y) + (x AND y) = (x AND NOT y) OR (x AND y)" by (rule disjunctive_add_eq_or)
  also have "\<dots> = x" by (auto simp: bit_eq_iff bit_simps)
  finally show ?thesis by (simp add: eq_diff_eq)
qed

lemma rw_word_low:
  assumes "rw_small r u w"
  shows "rw_word r u w AND 3 = of_nat (2 * u + w)" "rw_word r u w AND 1 = of_nat w"
proof -
  have "unat (rw_word r u w AND 3) = (4 * r + 2 * u + w) AND 3" "unat (rw_word r u w AND 1) = (4 * r + 2 * u + w) AND 1"
    using unat_rw_word[OF assms] by (simp_all add: unsigned_and_eq)
  moreover have "(n :: nat) AND 3 = n mod 4" "n AND 1 = n mod 2" for n
    using take_bit_eq_mask[of 2 n] take_bit_eq_mask[of 1 n] by (simp_all add: take_bit_eq_mod mask_eq_exp_minus_1 and_one_eq)
  moreover have "(4 * r + (2 * u + w)) mod 4 = 2 * u + w" "(w + (2 * r + u) * 2) mod 2 = w"
    using assms by (simp, simp only: mod_mult_self1, simp)
  ultimately have "unat (rw_word r u w AND 3) = 2 * u + w" "unat (rw_word r u w AND 1) = w" by (simp_all add: algebra_simps)
  then show "rw_word r u w AND 3 = of_nat (2 * u + w)" "rw_word r u w AND 1 = of_nat w"
    by (metis of_nat_unat ucast_id)+
qed

lemma rw_word_bits:
  assumes "rw_small r u w"
  shows "rw_word r u w AND (WRITER OR UPGRADED) = of_nat (2 * u + w)"
    "rw_word r u w AND NOT (WRITER OR UPGRADED) = rw_word r 0 0"
    "rw_word r u w AND WRITER = of_nat w"
    "rw_word r u w OR UPGRADED = rw_word r 1 w"
proof -
  note low = rw_word_low[OF assms]
  have three: "WRITER OR UPGRADED = 3" by simp
  show "rw_word r u w AND (WRITER OR UPGRADED) = of_nat (2 * u + w)" "rw_word r u w AND WRITER = of_nat w" using low by (simp_all add: three)
  show "rw_word r u w AND NOT (WRITER OR UPGRADED) = rw_word r 0 0"
    unfolding and_not_minus three low by (simp add: rw_word_def)
  have "rw_word r u w AND 2 = (rw_word r u w AND 3) AND 2" by (simp add: and.assoc)
  also have "\<dots> = of_nat (2 * u)" unfolding low using assms by (auto simp: le_Suc_eq One_nat_def)
  finally have "of_nat (2 * u) + (rw_word r u w OR 2) = rw_word r u w + 2" using word_plus_and_or[of "rw_word r u w" 2] by simp
  then show "rw_word r u w OR UPGRADED = rw_word r 1 w" by (simp add: rw_word_def algebra_simps)
qed

lemma rw_word_arith:
  "rw_word r u w + READER = rw_word (r + 1) u w" "0 < r \<Longrightarrow> rw_word r u w - READER = rw_word (r - 1) u w"
  "rw_word r 1 w - UPGRADED = rw_word r 0 w" "rw_word 0 0 0 = 0" "rw_word 0 1 0 = UPGRADED" "rw_word 0 0 1 = WRITER"
proof -
  show add: "rw_word r u w + READER = rw_word (r + 1) u w" for r by (simp add: rw_word_def)
  show "0 < r \<Longrightarrow> rw_word r u w - READER = rw_word (r - 1) u w" using add[of "r - 1"] by (simp add: diff_eq_eq)
qed (simp_all add: rw_word_def)

lemma rw_word_eq:
  assumes "rw_small r u w" "rw_small r' u' w'"
  shows "rw_word r u w = rw_word r' u' w' \<longleftrightarrow> r = r' \<and> u = u' \<and> w = w'"
proof
  assume "rw_word r u w = rw_word r' u' w'"
  then have "4 * r + 2 * u + w = 4 * r' + 2 * u' + w'" using unat_rw_word[OF assms(1)] unat_rw_word[OF assms(2)] by simp
  moreover have "u = 0 \<or> u = 1" "w = 0 \<or> w = 1" "u' = 0 \<or> u' = 1" "w' = 0 \<or> w' = 1" using assms by auto
  ultimately show "r = r' \<and> u = u' \<and> w = w'" by (elim disjE) (simp_all, presburger+)
qed simp

text \<open>The accesses, read on the counts.\<close>

lemma rw_word_ops:
  assumes "rw_small r u w"
  shows "try_read (rw_word r u w) = (u = 0 \<and> w = 0, rw_word (r + 1) u w)"
    "try_upgradeable_read (rw_word r u w) = (u = 0 \<and> w = 0, rw_word r 1 w)"
    "try_write_internal strong spurious (rw_word r u w) =
       (if r = 0 \<and> u = 0 \<and> w = 0 \<and> (strong \<or> \<not> spurious) then (True, rw_word 0 0 1) else (False, rw_word r u w))"
    "try_upgrade_internal strong spurious (rw_word r u w) =
       (if r = 0 \<and> u = 1 \<and> w = 0 \<and> (strong \<or> \<not> spurious) then (True, rw_word 0 0 1) else (False, rw_word r u w))"
    "upgradeable_drop_check (rw_word r u w) \<longleftrightarrow> u = 1 \<and> w = 0" "write_drop_check (rw_word r u w) \<longleftrightarrow> w = 1"
    "read_drop_check (rw_word r u w) \<longleftrightarrow> 0 < r" "write_drop (rw_word r u w) = rw_word r 0 0"
proof -
  note b = rw_word_bits[OF assms]
  have uw: "(u = 0 \<or> u = 1) \<and> (w = 0 \<or> w = 1)" using assms by auto
  have z: "rw_small 0 0 0" "rw_small 0 1 0" "rw_small r 0 0" using assms by auto
  note e = rw_word_eq[OF assms z(1), unfolded rw_word_arith(4)] rw_word_eq[OF assms z(2), unfolded rw_word_arith(5)]
    rw_word_eq[OF z(3,1), unfolded rw_word_arith(4)]
  show "try_read (rw_word r u w) = (u = 0 \<and> w = 0, rw_word (r + 1) u w)"
    "try_upgradeable_read (rw_word r u w) = (u = 0 \<and> w = 0, rw_word r 1 w)"
    unfolding try_read_def try_upgradeable_read_def b rw_word_arith using uw by auto
  show "try_write_internal strong spurious (rw_word r u w) =
       (if r = 0 \<and> u = 0 \<and> w = 0 \<and> (strong \<or> \<not> spurious) then (True, rw_word 0 0 1) else (False, rw_word r u w))"
    "try_upgrade_internal strong spurious (rw_word r u w) =
       (if r = 0 \<and> u = 1 \<and> w = 0 \<and> (strong \<or> \<not> spurious) then (True, rw_word 0 0 1) else (False, rw_word r u w))"
    unfolding try_write_internal_def try_upgrade_internal_def compare_exchange_def e rw_word_arith(6) by (rule if_cong, blast, rule refl, rule refl)+
  show "upgradeable_drop_check (rw_word r u w) \<longleftrightarrow> u = 1 \<and> w = 0" "write_drop_check (rw_word r u w) \<longleftrightarrow> w = 1"
    unfolding upgradeable_drop_check_def write_drop_check_def b using uw by (elim conjE disjE; simp)+
  show "write_drop (rw_word r u w) = rw_word r 0 0" unfolding write_drop_def b ..
  show "read_drop_check (rw_word r u w) \<longleftrightarrow> 0 < r"
    unfolding read_drop_check_def b word_greater_zero_iff e by simp
qed

text \<open>Which phases count as a reader in the cell, hold the upgradeable bit, hold the writer bit, may read.\<close>

fun counted :: "rw_phase \<Rightarrow> bool" where
  "counted RwUndo = True"
| "counted (RwGuard g) = (g = GRead)"
| "counted (RwDropping g) = (g = GRead)"
| "counted (RwDowngrading g) = True"
| "counted (RwDowngraded g) = True"
| "counted p = False"

fun holds :: "guard \<Rightarrow> rw_phase \<Rightarrow> bool" where
  "holds k (RwGuard g) = (g = k)"
| "holds k (RwDropping g) = (g = k)"
| "holds k (RwDowngrading g) = (g = k)"
| "holds k (RwDowngraded g) = (g = k)"
| "holds k p = False"

definition rw_inv :: "rw_phase list \<times> usize \<Rightarrow> bool" where
  "rw_inv s \<longleftrightarrow> (case s of (ps, w) \<Rightarrow>
     length ps < 2 ^ 61 \<and> RwPanicked \<notin> set ps \<and> RwDowngrading GRead \<notin> set ps \<and> RwDowngraded GRead \<notin> set ps \<and>
     cnt (holds GUpgradeable) ps + cnt (holds GWrite) ps \<le> 1 \<and>
     (0 < cnt (holds GWrite) ps \<longrightarrow> cnt (holds GRead) ps = 0) \<and>
     (\<exists>u. u \<le> 1 \<and> cnt (holds GUpgradeable) ps \<le> u \<and> u \<le> cnt (holds GUpgradeable) ps + cnt (holds GWrite) ps \<and>
        w = rw_word (cnt counted ps) u (cnt (holds GWrite) ps)))"

lemma set_update_notin: "x \<notin> set ps \<Longrightarrow> x \<noteq> y \<Longrightarrow> x \<notin> set (ps[t := y])"
  using set_update_subset_insert[of ps t y] by blast

lemma rw_inv_init: "n < 2 ^ 61 \<Longrightarrow> rw_inv (replicate n RwIdle, 0)"
  by (auto simp: rw_inv_def cnt_def rw_word_def)

definition rw_counts :: "rw_phase list \<Rightarrow> usize \<Rightarrow> nat \<Rightarrow> bool" where
  "rw_counts ps w u \<longleftrightarrow> w = rw_word (cnt counted ps) u (cnt (holds GWrite) ps) \<and>
     cnt (holds GUpgradeable) ps \<le> u \<and> u \<le> cnt (holds GUpgradeable) ps + cnt (holds GWrite) ps \<and>
     cnt (holds GUpgradeable) ps + cnt (holds GWrite) ps \<le> 1 \<and> (0 < cnt (holds GWrite) ps \<longrightarrow> cnt (holds GRead) ps = 0)"

lemma rw_invE:
  assumes "rw_inv (ps, w)"
  obtains u where "rw_counts ps w u" "w = rw_word (cnt counted ps) u (cnt (holds GWrite) ps)" "rw_small (cnt counted ps) u (cnt (holds GWrite) ps)"
proof -
  from assms obtain u where u: "rw_counts ps w u" "length ps < 2 ^ 61" by (auto simp: rw_inv_def rw_counts_def)
  moreover have "cnt counted ps < 2 ^ 61" using cnt_le[of counted ps] u(2) by linarith
  ultimately show thesis using that[of u] by (auto simp: rw_counts_def)
qed

text \<open>A thread \<open>t\<close> moves to phase \<open>q\<close>: the counts change by what it was and what it becomes.\<close>

lemma rw_inv_update:
  assumes inv: "rw_inv (ps, w)" and t: "t < length ps" "ps ! t = p"
    and q: "q \<noteq> RwPanicked" "q \<noteq> RwDowngrading GRead" "q \<noteq> RwDowngraded GRead"
    and R: "r + (if counted p then 1 else 0) = cnt counted ps + (if counted q then 1 else 0)"
    and U: "ug + (if holds GUpgradeable p then 1 else 0) = cnt (holds GUpgradeable) ps + (if holds GUpgradeable q then 1 else 0)"
    and W: "wr + (if holds GWrite p then 1 else 0) = cnt (holds GWrite) ps + (if holds GWrite q then 1 else 0)"
    and S: "rd + (if holds GRead p then 1 else 0) = cnt (holds GRead) ps + (if holds GRead q then 1 else 0)"
    and one: "ug + wr \<le> 1" "0 < wr \<Longrightarrow> rd = 0" and u: "u \<le> 1" "ug \<le> u" "u \<le> ug + wr" and w': "w' = rw_word r u wr"
  shows "rw_inv (ps[t := q], w')"
proof -
  have c: "cnt counted (ps[t := q]) = r" "cnt (holds GUpgradeable) (ps[t := q]) = ug"
    "cnt (holds GWrite) (ps[t := q]) = wr" "cnt (holds GRead) (ps[t := q]) = rd"
    using cnt_update[OF t(1), of _ q] R U W S unfolding t(2) by (metis add_right_cancel)+
  have "RwPanicked \<notin> set (ps[t := q]) \<and> RwDowngrading GRead \<notin> set (ps[t := q]) \<and> RwDowngraded GRead \<notin> set (ps[t := q])"
    by (intro conjI set_update_notin q[symmetric]) (use inv in \<open>auto simp: rw_inv_def\<close>)
  moreover have "length (ps[t := q]) < 2 ^ 61" using inv by (simp add: rw_inv_def)
  ultimately show ?thesis unfolding rw_inv_def prod.case c using one u w' by blast
qed

lemma rw_held:
  assumes "rw_inv (ps, w)" "t < length ps" "holds g (ps ! t)"
  shows "g = GUpgradeable \<Longrightarrow> cnt (holds GUpgradeable) ps = 1 \<and> cnt (holds GWrite) ps = 0"
    "g = GWrite \<Longrightarrow> cnt (holds GWrite) ps = 1 \<and> cnt (holds GUpgradeable) ps = 0" "g = GRead \<Longrightarrow> 0 < cnt (holds GRead) ps"
  using cnt_pos[of t ps "holds g", OF assms(2,3)] assms(1) by (auto simp: rw_inv_def)

lemma readers_counted: "cnt (holds GRead) ps \<le> cnt counted ps"
proof -
  have "holds GRead p \<Longrightarrow> counted p" for p by (cases p) auto
  then show ?thesis unfolding cnt_def by (induction ps) auto
qed

lemma rw_try_read_inv:
  assumes inv: "rw_inv (ps, w)" and t: "t < length ps" "ps ! t = RwIdle" and op: "try_read w = (ok, w')"
  shows "rw_inv (ps[t := if ok then RwGuard GRead else RwUndo], w')"
proof -
  from rw_invE[OF inv] obtain u where u: "rw_counts ps w u" "w = rw_word (cnt counted ps) u (cnt (holds GWrite) ps)"
    "rw_small (cnt counted ps) u (cnt (holds GWrite) ps)" .
  show ?thesis
    by (rule rw_inv_update[OF inv t, of _ "cnt counted ps + 1" "cnt (holds GUpgradeable) ps" "cnt (holds GWrite) ps"
      "cnt (holds GRead) ps + (if ok then 1 else 0)" u]) (use u op rw_word_ops(1)[OF u(3)] in \<open>auto simp: rw_counts_def\<close>)
qed

lemma rw_undo_inv:
  assumes inv: "rw_inv (ps, w)" and t: "t < length ps" "ps ! t = RwUndo"
  shows "rw_inv (ps[t := RwIdle], try_read_undo w)"
proof -
  from rw_invE[OF inv] obtain u where u: "rw_counts ps w u" "w = rw_word (cnt counted ps) u (cnt (holds GWrite) ps)"
    "rw_small (cnt counted ps) u (cnt (holds GWrite) ps)" .
  have "0 < cnt counted ps" using cnt_pos[of t ps counted] t by simp
  then show ?thesis
    by (intro rw_inv_update[OF inv t, of _ "cnt counted ps - 1" "cnt (holds GUpgradeable) ps" "cnt (holds GWrite) ps"
      "cnt (holds GRead) ps" u]) (use u rw_word_arith(2)[of "cnt counted ps"] in \<open>auto simp: try_read_undo_def rw_counts_def\<close>)
qed

lemma rw_try_upgradeable_inv:
  assumes inv: "rw_inv (ps, w)" and t: "t < length ps" "ps ! t = RwIdle" and op: "try_upgradeable_read w = (ok, w')"
  shows "rw_inv (ps[t := if ok then RwGuard GUpgradeable else RwIdle], w')"
proof -
  from rw_invE[OF inv] obtain u where u: "rw_counts ps w u" "w = rw_word (cnt counted ps) u (cnt (holds GWrite) ps)"
    "rw_small (cnt counted ps) u (cnt (holds GWrite) ps)" .
  show ?thesis
    by (rule rw_inv_update[OF inv t, of _ "cnt counted ps" "cnt (holds GUpgradeable) ps + (if ok then 1 else 0)" "cnt (holds GWrite) ps"
      "cnt (holds GRead) ps" 1]) (use u op rw_word_ops(2)[OF u(3)] in \<open>auto simp: rw_counts_def\<close>)
qed

lemma rw_try_write_inv:
  assumes inv: "rw_inv (ps, w)" and t: "t < length ps" "ps ! t = RwIdle" and op: "try_write_internal strong spurious w = (ok, w')"
  shows "rw_inv (ps[t := if ok then RwGuard GWrite else RwIdle], w')"
proof -
  from rw_invE[OF inv] obtain u where u: "rw_counts ps w u" "w = rw_word (cnt counted ps) u (cnt (holds GWrite) ps)"
    "rw_small (cnt counted ps) u (cnt (holds GWrite) ps)" .
  note op = op[unfolded u(2) rw_word_ops(3)[OF u(3)]]
  show ?thesis
  proof (cases ok)
    case True
    then have "cnt counted ps = 0" "u = 0" "cnt (holds GWrite) ps = 0" "w' = rw_word 0 0 1" using op by (auto split: if_splits)
    then show ?thesis using True u readers_counted[of ps] by (intro rw_inv_update[OF inv t, of _ 0 0 1 0 0]) (auto simp: rw_counts_def)
  next
    case False
    then have "w' = w" using op u(2) by (auto split: if_splits)
    then show ?thesis using False inv t by (metis list_update_id)
  qed
qed

lemma rw_try_upgrade_inv:
  assumes inv: "rw_inv (ps, w)" and t: "t < length ps" "ps ! t = RwGuard GUpgradeable" and op: "try_upgrade_internal strong spurious w = (ok, w')"
  shows "rw_inv (ps[t := if ok then RwGuard GWrite else RwGuard GUpgradeable], w')"
proof -
  from rw_invE[OF inv] obtain u where u: "rw_counts ps w u" "w = rw_word (cnt counted ps) u (cnt (holds GWrite) ps)"
    "rw_small (cnt counted ps) u (cnt (holds GWrite) ps)" .
  note op = op[unfolded u(2) rw_word_ops(4)[OF u(3)]]
  have ug: "cnt (holds GUpgradeable) ps = 1" using rw_held(1)[OF inv t(1)] t(2) by simp
  show ?thesis
  proof (cases ok)
    case True
    then have "cnt counted ps = 0" "cnt (holds GWrite) ps = 0" "w' = rw_word 0 0 1" using op by (auto split: if_splits)
    then show ?thesis using True u ug readers_counted[of ps] by (intro rw_inv_update[OF inv t, of _ 0 0 1 0 0]) (auto simp: rw_counts_def)
  next
    case False
    then have "w' = w" using op u(2) by (auto split: if_splits)
    then show ?thesis using False inv t by (metis list_update_id)
  qed
qed

lemma rw_downgrade_inv:
  assumes inv: "rw_inv (ps, w)" and t: "t < length ps" "ps ! t = RwGuard g" and g: "g \<noteq> GRead"
  shows "rw_inv (ps[t := RwDowngrading g], downgrade_reserve w)"
proof -
  from rw_invE[OF inv] obtain u where u: "rw_counts ps w u" "w = rw_word (cnt counted ps) u (cnt (holds GWrite) ps)"
    "rw_small (cnt counted ps) u (cnt (holds GWrite) ps)" .
  show ?thesis
    by (rule rw_inv_update[OF inv t, of _ "cnt counted ps + 1" "cnt (holds GUpgradeable) ps" "cnt (holds GWrite) ps"
      "cnt (holds GRead) ps" u]) (use u g in \<open>auto simp: rw_counts_def downgrade_reserve_def rw_word_arith\<close>)
qed

text \<open>The assertion in a guard's drop never fails.\<close>

lemma drop_check_holds:
  assumes inv: "rw_inv (ps, w)" and t: "t < length ps" "holds g (ps ! t)"
  shows "drop_check g w"
proof -
  from rw_invE[OF inv] obtain u where u: "rw_counts ps w u" "w = rw_word (cnt counted ps) u (cnt (holds GWrite) ps)"
    "rw_small (cnt counted ps) u (cnt (holds GWrite) ps)" .
  have "drop_check g w \<longleftrightarrow> (case g of GRead \<Rightarrow> 0 < cnt counted ps | GUpgradeable \<Rightarrow> u = 1 \<and> cnt (holds GWrite) ps = 0 | GWrite \<Rightarrow> cnt (holds GWrite) ps = 1)"
    unfolding u(2) by (cases g) (simp_all only: drop_check.simps rw_word_ops[OF u(3)] guard.case)
  then show ?thesis using rw_held[OF inv t] u(1) readers_counted[of ps] by (cases g) (auto simp: rw_counts_def)
qed

lemma rw_check_inv:
  assumes inv: "rw_inv (ps, w)" and t: "t < length ps" "ps ! t = p" and p: "holds g p" "q = RwDropping g \<and> p = RwGuard g \<or> q = RwDowngraded g \<and> p = RwDowngrading g"
  shows "rw_inv (ps[t := if drop_check g w then q else RwPanicked], w)"
proof -
  from rw_invE[OF inv] obtain u where u: "rw_counts ps w u" "w = rw_word (cnt counted ps) u (cnt (holds GWrite) ps)"
    "rw_small (cnt counted ps) u (cnt (holds GWrite) ps)" .
  have "p \<in> set ps" using t nth_mem by fastforce
  then have "q \<noteq> RwDowngraded GRead" using inv p(2) by (auto simp: rw_inv_def)
  moreover have "drop_check g w" using drop_check_holds[OF inv t(1)] t(2) p(1) by simp
  ultimately show ?thesis
    by (auto intro!: rw_inv_update[OF inv t, of q "cnt counted ps" "cnt (holds GUpgradeable) ps" "cnt (holds GWrite) ps" "cnt (holds GRead) ps" u])
      (use u p in \<open>auto simp: rw_counts_def\<close>)
qed

text \<open>A drop takes away what the guard held, and with the writer's bit a bit that a failed attempt left.\<close>

lemma guard_drop_word:
  assumes inv: "rw_inv (ps, w)" and t: "t < length ps" "holds g (ps ! t)"
  obtains u where "rw_counts ps w u"
    "guard_drop g w = rw_word (cnt counted ps - (if g = GRead then 1 else 0)) (if g = GRead then u else 0) (cnt (holds GWrite) ps - (if g = GWrite then 1 else 0))"
proof -
  from rw_invE[OF inv] obtain u where u: "rw_counts ps w u" "w = rw_word (cnt counted ps) u (cnt (holds GWrite) ps)"
    "rw_small (cnt counted ps) u (cnt (holds GWrite) ps)" .
  have "guard_drop g w = rw_word (cnt counted ps - (if g = GRead then 1 else 0)) (if g = GRead then u else 0) (cnt (holds GWrite) ps - (if g = GWrite then 1 else 0))"
  proof (cases g)
    case GRead
    then have "0 < cnt counted ps" using rw_held(3)[OF inv t] readers_counted[of ps] by simp
    then show ?thesis using GRead rw_word_arith(2) u(2) by (simp add: read_drop_def)
  next
    case GUpgradeable
    then have "u = 1" using rw_held(1)[OF inv t] u by (auto simp: rw_counts_def)
    then show ?thesis using GUpgradeable rw_word_arith(3) u(2) by (simp add: upgradeable_drop_def)
  next
    case GWrite
    then show ?thesis using rw_held(2)[OF inv t] rw_word_ops(8)[OF u(3)] u(2) by simp
  qed
  then show thesis using that u(1) by blast
qed

lemma rw_drop_inv:
  assumes inv: "rw_inv (ps, w)" and t: "t < length ps" "ps ! t = RwDropping g"
  shows "rw_inv (ps[t := RwIdle], guard_drop g w)"
proof -
  have h: "holds g (ps ! t)" using t by simp
  from guard_drop_word[OF inv t(1) h] obtain u where u: "rw_counts ps w u"
    "guard_drop g w = rw_word (cnt counted ps - (if g = GRead then 1 else 0)) (if g = GRead then u else 0) (cnt (holds GWrite) ps - (if g = GWrite then 1 else 0))" .
  show ?thesis
    by (rule rw_inv_update[OF inv t, of _ "cnt counted ps - (if g = GRead then 1 else 0)" "cnt (holds GUpgradeable) ps - (if g = GUpgradeable then 1 else 0)"
      "cnt (holds GWrite) ps - (if g = GWrite then 1 else 0)" "cnt (holds GRead) ps - (if g = GRead then 1 else 0)" "if g = GRead then u else 0"])
      (use u rw_held[OF inv t(1) h] readers_counted[of ps] in \<open>cases g; auto simp: rw_counts_def\<close>)+
qed

lemma rw_downgrade_drop_inv:
  assumes inv: "rw_inv (ps, w)" and t: "t < length ps" "ps ! t = RwDowngraded g"
  shows "rw_inv (ps[t := RwGuard GRead], guard_drop g w)"
proof -
  have h: "holds g (ps ! t)" using t by simp
  have "RwDowngraded g \<in> set ps" using t nth_mem by fastforce
  then have g: "g \<noteq> GRead" using inv by (auto simp: rw_inv_def)
  from guard_drop_word[OF inv t(1) h] obtain u where u: "rw_counts ps w u"
    "guard_drop g w = rw_word (cnt counted ps - (if g = GRead then 1 else 0)) (if g = GRead then u else 0) (cnt (holds GWrite) ps - (if g = GWrite then 1 else 0))" .
  show ?thesis
    by (rule rw_inv_update[OF inv t, of _ "cnt counted ps" "cnt (holds GUpgradeable) ps - (if g = GUpgradeable then 1 else 0)"
      "cnt (holds GWrite) ps - (if g = GWrite then 1 else 0)" "cnt (holds GRead) ps + 1" 0])
      (use u g rw_held[OF inv t(1) h] in \<open>cases g; auto simp: rw_counts_def\<close>)+
qed

lemmas rw_op_inv = rw_try_read_inv rw_undo_inv rw_try_write_inv rw_try_upgradeable_inv rw_try_upgrade_inv
  rw_downgrade_inv rw_drop_inv rw_downgrade_drop_inv

lemma rw_step_inv: "rw_step s s' \<Longrightarrow> rw_inv s \<Longrightarrow> rw_inv s'"
proof (induction rule: rw_step.induct)
  case (rw_drop_check t ps g w)
  show ?case by (rule rw_check_inv[OF rw_drop_check(3,1,2)]) simp_all
next
  case (rw_downgrade_check t ps g w)
  show ?case by (rule rw_check_inv[OF rw_downgrade_check(3,1,2)]) simp_all
qed (rule rw_op_inv; assumption)+

lemma rw_reach_inv: "rw_step\<^sup>*\<^sup>* s s' \<Longrightarrow> rw_inv s \<Longrightarrow> rw_inv s' \<and> length (fst s') = length (fst s)"
proof (induction rule: rtranclp_induct)
  case (step s' s'')
  have "length (fst s'') = length (fst s')" using step(2) by (cases rule: rw_step.cases) auto
  then show ?case using step rw_step_inv by auto
qed simp

lemma rw_phase_cases: "p \<in> {RwIdle, RwUndo, RwPanicked} \<or> (\<exists>g. holds g p)"
  by (cases p) auto

lemma rw_inv_exclusive:
  assumes inv: "rw_inv (ps, w)" and t: "t < length ps" "holds GWrite (ps ! t)" and v: "v < length ps" "v \<noteq> t"
  shows "ps ! v \<in> {RwIdle, RwUndo}"
proof (rule ccontr)
  assume "ps ! v \<notin> {RwIdle, RwUndo}"
  moreover have "ps ! v \<noteq> RwPanicked" using inv v nth_mem by (fastforce simp: rw_inv_def)
  ultimately obtain g where g: "holds g (ps ! v)" using rw_phase_cases[of "ps ! v"] by auto
  have w1: "cnt (holds GWrite) ps = 1" "cnt (holds GUpgradeable) ps = 0" using rw_held(2)[OF inv t] by simp_all
  then have "cnt (holds GRead) ps = 0" using inv by (auto simp: rw_inv_def)
  then have "g = GWrite" using rw_held[OF inv v(1) g] w1 by (cases g) auto
  then show False using cnt_one[of "holds GWrite" ps v t] w1 t v g by simp
qed

text \<open>C36. Whatever the interleaving of reads, writes, upgrades, downgrades and releases by up to \<open>2 ^ 61\<close> threads,
  including attempts that fail and the two steps of undoing them: a thread with the write guard is alone, at most one thread
  has the upgradeable guard, no assertion fails, and when everyone has released the lock its cell is zero
  again, so that no failed attempt leaves the lock taken.\<close>

theorem rwlock_exclusive:
  assumes n: "n < 2 ^ 61" and run: "rw_step\<^sup>*\<^sup>* (replicate n RwIdle, 0) (ps, w)"
  shows "(\<forall>t < n. \<forall>v < n. holds GWrite (ps ! t) \<longrightarrow> v \<noteq> t \<longrightarrow> ps ! v \<in> {RwIdle, RwUndo}) \<and>
    (\<forall>t < n. \<forall>v < n. holds GUpgradeable (ps ! t) \<longrightarrow> holds GUpgradeable (ps ! v) \<longrightarrow> v = t) \<and>
    RwPanicked \<notin> set ps \<and> (set ps \<subseteq> {RwIdle} \<longrightarrow> w = 0)"
proof -
  have inv: "rw_inv (ps, w)" and l: "length ps = n" using rw_reach_inv[OF run rw_inv_init[OF n]] by simp_all
  have "cnt (holds GUpgradeable) ps \<le> 1" "RwPanicked \<notin> set ps" using inv by (auto simp: rw_inv_def)
  moreover have "w = 0" if idle: "set ps \<subseteq> {RwIdle}"
  proof -
    from rw_invE[OF inv] obtain u where u: "rw_counts ps w u" "w = rw_word (cnt counted ps) u (cnt (holds GWrite) ps)" .
    have "cnt counted ps = 0" "cnt (holds g) ps = 0" for g using idle by (auto intro!: cnt_zero)
    then show "w = 0" using u by (simp add: rw_counts_def rw_word_arith)
  qed
  ultimately show ?thesis using rw_inv_exclusive[OF inv] cnt_one[of "holds GUpgradeable" ps] l by blast
qed

theorem rwlock_exclusive_witness:
  "RwPanicked \<notin> set [RwGuard GWrite, RwUndo] \<and> rw_step\<^sup>*\<^sup>* (replicate 2 RwIdle, 0) ([RwGuard GWrite, RwUndo], 5)"
proof -
  have "rw_step ([RwIdle, RwIdle], 0) ([RwIdle, RwIdle][0 := if True then RwGuard GWrite else RwIdle], 1)"
    by (rule rw_try_write[where strong = True and spurious = False]) (simp_all add: try_write_internal_def compare_exchange_def)
  moreover have "rw_step ([RwGuard GWrite, RwIdle], 1) ([RwGuard GWrite, RwIdle][1 := if False then RwGuard GRead else RwUndo], 5)"
    by (rule rw_try_read) (simp_all add: try_read_def)
  ultimately have "rw_step\<^sup>*\<^sup>* (replicate 2 RwIdle, 0) ([RwGuard GWrite, RwUndo], 5)"
    by (simp add: numeral_2_eq_2 One_nat_def)
  then show ?thesis using rwlock_exclusive[of 2 "[RwGuard GWrite, RwUndo]" 5] by simp
qed

section \<open>The mutex\<close>

definition mx_inv :: "mx_phase list \<times> 'a mutex \<Rightarrow> bool" where
  "mx_inv s \<longleftrightarrow> cnt (\<lambda>p. p = MxHeld) (fst s) = (if mx_lock (snd s) then 1 else 0)"

lemma mx_step_inv: "mx_step s s' \<Longrightarrow> mx_inv s \<Longrightarrow> mx_inv s'"
proof (induction rule: mx_step.induct)
  case (mx_obtain t ps m p m')
  then show ?case using cnt_update[of t ps "\<lambda>p. p = MxHeld" p]
    by (cases "ps ! t") (auto simp: mx_inv_def mx_cas_def split: if_splits)
next
  case (mx_try t ps m p m')
  then show ?case using cnt_update[of t ps "\<lambda>p. p = MxHeld" p] by (auto simp: mx_inv_def mx_cas_def try_lock_def split: if_splits)
next
  case (mx_call t ps m)
  then show ?case using cnt_update[of t ps "\<lambda>p. p = MxHeld" MxCas] by (simp add: mx_inv_def)
next
  case (mx_drop t ps m)
  then show ?case using cnt_update[of t ps "\<lambda>p. p = MxHeld" MxIdle] cnt_pos[of t ps "\<lambda>p. p = MxHeld"]
    by (auto simp: mx_inv_def MutexGuard_drop_def split: if_splits)
qed (simp add: mx_inv_def)

lemma mutex_exclusive:
  assumes "mx_step\<^sup>*\<^sup>* (replicate n MxIdle, Mutex_new d) (ps, m)"
    "t < length ps" "v < length ps" "ps ! t = MxHeld" "ps ! v = MxHeld"
  shows "t = v"
proof -
  have "mx_inv (replicate n MxIdle, Mutex_new d)" by (simp add: mx_inv_def Mutex_new_def cnt_def)
  then have "mx_inv (ps, m)" by (rule reach_induct[where P = mx_inv, OF assms(1) _ mx_step_inv])
  then show ?thesis using cnt_one[of "\<lambda>p. p = MxHeld" ps t v] assms(2-) by (simp add: mx_inv_def split: if_splits)
qed

section \<open>One-time initialisation\<close>

fun initialising :: "'a on_phase \<Rightarrow> bool" where
  "initialising OnBuild = True"
| "initialising OnStore = True"
| "initialising p = False"

text \<open>What a thread's phase says of the cell.\<close>

fun on_phase_ok :: "'a once \<Rightarrow> 'a on_phase \<Rightarrow> bool" where
  "on_phase_ok c OnBuild = (on_state c = RUNNING)"
| "on_phase_ok c OnStore = (on_state c = RUNNING \<and> on_data c \<noteq> None)"
| "on_phase_ok c (OnStatus st) = (st \<in> {RUNNING, COMPLETE, PANICKED} \<and> on_state c \<noteq> INCOMPLETE \<and> (st \<noteq> RUNNING \<longrightarrow> on_state c = st))"
| "on_phase_ok c OnWait = (on_state c \<noteq> INCOMPLETE)"
| "on_phase_ok c (OnReturned v) = (on_state c = COMPLETE \<and> on_data c = Some v)"
| "on_phase_ok c OnPanicked = (on_state c = PANICKED)"
| "on_phase_ok c OnUndefined = False"
| "on_phase_ok c p = True"

definition on_inv :: "'a on_phase list \<times> 'a once \<Rightarrow> bool" where
  "on_inv s \<longleftrightarrow> (case s of (ps, c) \<Rightarrow>
     on_state c \<in> {INCOMPLETE, RUNNING, COMPLETE, PANICKED} \<and> (on_state c = COMPLETE \<longrightarrow> on_data c \<noteq> None) \<and>
     cnt initialising ps = (if on_state c = RUNNING then 1 else 0) \<and> (\<forall>p \<in> set ps. on_phase_ok c p))"

text \<open>Only the thread that initialises changes the cell; the other phases stay true.\<close>

lemma on_phases_update:
  assumes "\<forall>p \<in> set ps. on_phase_ok c p" "t < length ps" "on_phase_ok c' q"
    and "\<And>v. v < length ps \<Longrightarrow> v \<noteq> t \<Longrightarrow> on_phase_ok c (ps ! v) \<Longrightarrow> on_phase_ok c' (ps ! v)"
  shows "\<forall>p \<in> set (ps[t := q]). on_phase_ok c' p"
proof
  fix p
  assume "p \<in> set (ps[t := q])"
  then obtain v where v: "v < length ps" "p = ps[t := q] ! v" by (auto simp: in_set_conv_nth)
  then show "on_phase_ok c' p" using assms by (cases "v = t") simp_all
qed

lemma sole_initialiser:
  assumes "on_inv (ps, c)" "t < length ps" "initialising (ps ! t)" "v < length ps" "v \<noteq> t"
  shows "\<not> initialising (ps ! v)"
  using cnt_one[of initialising ps t v] assms by (auto simp: on_inv_def split: if_splits)

lemma force_get_ok: "on_state c = COMPLETE \<Longrightarrow> on_data c \<noteq> None \<Longrightarrow> on_phase_ok c (force_get c) \<and> \<not> initialising (force_get c)"
  by (auto simp: force_get_def)

lemma on_inv_quiet:
  assumes "on_inv (ps, c)" "t < length ps" "\<not> initialising (ps ! t)" "\<not> initialising q" "on_phase_ok c q"
  shows "on_inv (ps[t := q], c)"
  using assms cnt_update[of t ps initialising q] on_phases_update[of ps c t c q] by (auto simp: on_inv_def)

lemma on_cas_inv:
  assumes inv: "on_inv (ps, c)" and t: "t < length ps" "ps ! t = OnCas" and st: "on_state c = INCOMPLETE"
  shows "on_inv (ps[t := OnBuild], c\<lparr>on_state := RUNNING\<rparr>)"
proof -
  have "on_phase_ok (c\<lparr>on_state := RUNNING\<rparr>) p" if "on_phase_ok c p" for p using that st by (cases p) auto
  then have "\<forall>p \<in> set (ps[t := OnBuild]). on_phase_ok (c\<lparr>on_state := RUNNING\<rparr>) p"
    using inv t by (intro on_phases_update[of ps c]) (auto simp: on_inv_def)
  then show ?thesis using inv t st cnt_update[of t ps initialising OnBuild] by (simp add: on_inv_def)
qed

lemma on_build_inv:
  assumes inv: "on_inv (ps, c)" and t: "t < length ps" "ps ! t = OnBuild"
  shows "on_inv (ps[t := OnStore], c\<lparr>on_data := Some v\<rparr>)" "on_inv (ps[t := OnPanicked], c\<lparr>on_state := PANICKED\<rparr>)"
proof -
  have st: "on_state c = RUNNING" using inv t nth_mem[OF t(1)] by (auto simp: on_inv_def)
  have other: "\<not> initialising (ps ! u)" if "u < length ps" "u \<noteq> t" for u using sole_initialiser[OF inv t(1) _ that] t(2) by simp
  have "on_phase_ok (c\<lparr>on_data := Some v\<rparr>) p" if "on_phase_ok c p" for p using that st by (cases p) auto
  then have "\<forall>p \<in> set (ps[t := OnStore]). on_phase_ok (c\<lparr>on_data := Some v\<rparr>) p"
    using inv t st by (intro on_phases_update[of ps c]) (auto simp: on_inv_def)
  then show "on_inv (ps[t := OnStore], c\<lparr>on_data := Some v\<rparr>)" using inv t st cnt_update[of t ps initialising OnStore] by (simp add: on_inv_def)
  have "on_phase_ok (c\<lparr>on_state := PANICKED\<rparr>) p" if "on_phase_ok c p" "\<not> initialising p" for p using that st by (cases p) auto
  then have "\<forall>p \<in> set (ps[t := OnPanicked]). on_phase_ok (c\<lparr>on_state := PANICKED\<rparr>) p"
    using inv t st other by (intro on_phases_update[of ps c]) (auto simp: on_inv_def)
  then show "on_inv (ps[t := OnPanicked], c\<lparr>on_state := PANICKED\<rparr>)" using inv t st cnt_update[of t ps initialising OnPanicked] by (simp add: on_inv_def)
qed

lemma on_store_inv:
  assumes inv: "on_inv (ps, c)" and t: "t < length ps" "ps ! t = OnStore"
  defines "c' \<equiv> c\<lparr>on_state := COMPLETE\<rparr>"
  shows "on_inv (ps[t := force_get c'], c')"
proof -
  have st: "on_state c = RUNNING" "on_data c \<noteq> None" using inv t nth_mem[OF t(1)] by (auto simp: on_inv_def)
  have g: "on_phase_ok c' (force_get c')" "\<not> initialising (force_get c')" using force_get_ok[of c'] st by (auto simp: c'_def)
  have other: "\<not> initialising (ps ! u)" if "u < length ps" "u \<noteq> t" for u using sole_initialiser[OF inv t(1) _ that] t(2) by simp
  have "on_phase_ok c' p" if "on_phase_ok c p" "\<not> initialising p" for p using that st by (cases p) (auto simp: c'_def)
  then have "\<forall>p \<in> set (ps[t := force_get c']). on_phase_ok c' p"
    using inv t g other by (intro on_phases_update[of ps c]) (auto simp: on_inv_def)
  then show ?thesis using inv t st g cnt_update[of t ps initialising "force_get c'"] by (simp add: on_inv_def c'_def)
qed

lemma on_run_inv:
  assumes inv: "on_inv (ps, c)" and t: "t < length ps" "ps ! t = p" "call_once b p c = (q, c')"
  shows "on_inv (ps[t := q], c')"
proof -
  have ok: "on_phase_ok c p" using inv t nth_mem[OF t(1)] by (auto simp: on_inv_def)
  have st: "on_state c \<in> {INCOMPLETE, RUNNING, COMPLETE, PANICKED}" "on_state c = COMPLETE \<Longrightarrow> on_data c \<noteq> None" using inv by (auto simp: on_inv_def)
  have same: ?thesis if "p = q" "c' = c" using that inv t by (metis list_update_id)
  show ?thesis
  proof (cases p)
    case OnCas
    then show ?thesis using t inv st on_cas_inv[OF inv t(1)] by (auto intro!: on_inv_quiet split: if_splits)
  next
    case OnBuild
    then show ?thesis using t on_build_inv[OF inv t(1)] by (auto split: option.splits)
  next
    case OnStore
    then show ?thesis using t on_store_inv[OF inv t(1)] by (auto simp: Let_def)
  next
    case (OnStatus x)
    then show ?thesis using t ok inv st force_get_ok[of c] by (auto intro!: on_inv_quiet split: if_splits)
  next
    case OnLoad
    then show ?thesis using t inv st by (auto intro!: on_inv_quiet split: if_splits)
  qed (use t same in auto)
qed

lemma once_try_ok: "on_inv (ps, c) \<Longrightarrow> on_phase_ok c (once_try c) \<and> \<not> initialising (once_try c)"
  and once_wait_ok: "on_inv (ps, c) \<Longrightarrow> on_phase_ok c (once_wait c) \<and> \<not> initialising (once_wait c)"
  using force_get_ok[of c] by (auto simp: once_try_def once_wait_def on_inv_def)

lemma on_step_inv: "on_step s s' \<Longrightarrow> on_inv s \<Longrightarrow> on_inv s'"
proof (induction rule: on_step.induct)
  case (on_run t ps b c p c')
  then show ?case using on_run_inv[of ps c t "ps ! t" b p c'] by simp
next
  case (on_try t ps c)
  then show ?case using once_try_ok by (intro on_inv_quiet) auto
next
  case (on_wait t ps c)
  then show ?case using once_wait_ok by (intro on_inv_quiet) auto
qed (auto intro!: on_inv_quiet)

lemma on_step_complete:
  "on_step s s' \<Longrightarrow> on_inv s \<Longrightarrow> on_state (snd s) = COMPLETE \<Longrightarrow> snd s' = snd s"
proof (induction rule: on_step.induct)
  case (on_run t ps b c p c')
  then have "on_phase_ok c (ps ! t)" by (auto simp: on_inv_def)
  then show ?case using on_run by (cases "ps ! t") (auto split: if_splits)
qed simp_all

text \<open>C37. One-time initialisation: whatever the interleaving of \<open>call_once\<close>, \<open>try\<close> and \<open>wait\<close>, at most one thread is
  building; every thread that gets a value gets the same one; code marked unreachable is not reached; a thread panics only
  when a builder has; and once the value is there, neither it nor the state ever changes.\<close>

theorem once_initialised_once:
  assumes run: "on_step\<^sup>*\<^sup>* (replicate n OnIdle, Once_new) (ps, c)"
  shows "cnt initialising ps \<le> 1 \<and> OnUndefined \<notin> set ps \<and>
    (\<forall>v. OnReturned v \<in> set ps \<longrightarrow> on_state c = COMPLETE \<and> on_data c = Some v) \<and>
    (OnPanicked \<in> set ps \<longrightarrow> on_state c = PANICKED) \<and>
    (\<forall>ps' c'. on_state c = COMPLETE \<longrightarrow> on_step\<^sup>*\<^sup>* (ps, c) (ps', c') \<longrightarrow> c' = c)"
proof -
  have "on_inv (replicate n OnIdle, Once_new :: 'a once)" by (auto simp: on_inv_def Once_new_def cnt_def)
  then have inv: "on_inv (ps, c)" by (rule reach_induct[where P = on_inv, OF run _ on_step_inv])
  have "c' = c" if fin: "on_state c = COMPLETE" and run': "on_step\<^sup>*\<^sup>* (ps, c) (ps', c')" for ps' c'
    using reach_induct[where P = "\<lambda>s. on_inv s \<and> snd s = c", OF run'] inv on_step_inv on_step_complete fin by fastforce
  then show ?thesis using inv by (auto simp: on_inv_def)
qed

theorem once_initialised_once_witness:
  "on_step\<^sup>*\<^sup>* (replicate 1 OnIdle, Once_new) ([OnReturned (7 :: nat)], \<lparr>on_state = COMPLETE, on_data = Some 7\<rparr>) \<and>
   cnt initialising [OnReturned (7 :: nat)] \<le> 1"
proof -
  let ?c = "\<lambda>st d. \<lparr>on_state = st, on_data = d\<rparr> :: nat once"
  have r: "on_step ([p], c) ([q], c')" if "p \<in> {OnLoad, OnCas, OnBuild, OnStore} \<union> range OnStatus" "call_once b p c = (q, c')" for p q c c' b
    using on_step.on_run[of 0 "[p]" b c q c'] that by simp
  have "on_step ([OnIdle], ?c 0 None) ([OnLoad], ?c 0 None)" using on_call[of 0 "[OnIdle]" "?c 0 None"] by simp
  moreover have "on_step ([OnLoad], ?c 0 None) ([OnCas], ?c 0 None)" by (rule r) simp_all
  moreover have "on_step ([OnCas], ?c 0 None) ([OnBuild], ?c 1 None)" by (rule r) simp_all
  moreover have "on_step ([OnBuild], ?c 1 None) ([OnStore], ?c 1 (Some 7))" by (rule r[of _ "Some 7"]) simp_all
  moreover have "on_step ([OnStore], ?c 1 (Some 7)) ([OnReturned 7], ?c 2 (Some 7))" by (rule r) (simp_all add: force_get_def)
  ultimately have "on_step\<^sup>*\<^sup>* (replicate 1 OnIdle, Once_new) ([OnReturned 7], ?c 2 (Some 7))"
    by (simp add: One_nat_def Once_new_def)
  then show ?thesis using once_initialised_once[of 1 "[OnReturned 7]" "?c 2 (Some 7)"] by simp
qed

end
