(* ===== verification/Cindex.thy ===== *)
theory Cindex
  imports Redleaf_Base
begin

text \<open>
  The hash table of the network functions, \<^verbatim>\<open>src/lib/external/sashstore/src/cindexmap\<close>, in its default
  configuration (features \<^verbatim>\<open>aligned-mem\<close> and \<^verbatim>\<open>c-style-insert\<close>, no growing): open addressing with linear
  probing in a table whose capacity should be a power of two.  Locale \<open>bounded_map\<close> is what its clients rely on.
\<close>

section \<open>Hashing\<close>

definition fnv_byte :: "64 word \<Rightarrow> u8 \<Rightarrow> 64 word" where
  "fnv_byte state byte = (state * 0x100000001b3) XOR ucast byte"

definition fnv :: "bytes \<Rightarrow> 64 word" where
  "fnv bs = foldl fnv_byte 0xcbf29ce484222325 bs"

section \<open>The table\<close>

record ('k, 'v) cindex =
  ci_capacity :: nat
  ci_len :: nat
  ci_table :: "('k \<times> 'v) option list"

abbreviation DEFAULT_INITIAL_CAPACITY :: nat where "DEFAULT_INITIAL_CAPACITY \<equiv> 1"

definition init_table :: "nat \<Rightarrow> ('k \<times> 'v) option list" where
  "init_table capacity = replicate capacity None"

definition with_capacity :: "nat \<Rightarrow> ('k, 'v) cindex" where
  "with_capacity capacity =
     (let capacity = if capacity = 0 then DEFAULT_INITIAL_CAPACITY else capacity
      in \<lparr>ci_capacity = capacity, ci_len = 0, ci_table = init_table capacity\<rparr>)"

definition cindex_new :: "('k, 'v) cindex" where
  "cindex_new = with_capacity DEFAULT_INITIAL_CAPACITY"

definition probe :: "nat \<Rightarrow> nat \<Rightarrow> nat \<Rightarrow> nat option" where
  "probe capacity hash i = do { p \<leftarrow> add_usize hash i; m \<leftarrow> sub_chk capacity 1; Some (p AND m) }"

text \<open>The search by a predicate: the match and its slot, the first empty slot, or nothing.\<close>

fun find_from :: "('k \<times> 'v \<Rightarrow> bool) \<Rightarrow> nat \<Rightarrow> nat \<Rightarrow> nat \<Rightarrow> ('k, 'v) cindex \<Rightarrow> (('k \<times> 'v) option \<times> nat option) option" where
  "find_from f hash i 0 c = Some (None, None)"
| "find_from f hash i (Suc n) c =
     do { p \<leftarrow> probe (ci_capacity c) hash i;
          b \<leftarrow> nth_chk (ci_table c) p;
          case b of
            None \<Rightarrow> Some (None, Some p)
          | Some pair \<Rightarrow> if f pair then Some (Some pair, Some p) else find_from f hash (i + 1) n c }"

definition cindex_find :: "('k \<times> 'v \<Rightarrow> bool) \<Rightarrow> nat \<Rightarrow> ('k, 'v) cindex \<Rightarrow> (('k \<times> 'v) option \<times> nat option) option" where
  "cindex_find f hash c = find_from f hash 0 (ci_capacity c) c"

text \<open>\<open>i\<close> is the loop's index, \<open>n\<close> the iterations left; past the last the table is saturated and the code panics.\<close>

fun insert_from :: "nat \<Rightarrow> 'k \<Rightarrow> 'v \<Rightarrow> nat \<Rightarrow> nat \<Rightarrow> ('k, 'v) cindex \<Rightarrow> ('k, 'v) cindex option" where
  "insert_from hash key value i 0 c = None"
| "insert_from hash key value i (Suc n) c =
     do { p \<leftarrow> probe (ci_capacity c) hash i;
          b \<leftarrow> nth_chk (ci_table c) p;
          case b of
            None \<Rightarrow> Some (c\<lparr>ci_table := (ci_table c)[p := Some (key, value)]\<rparr>)
          | Some pair \<Rightarrow>
              if fst pair = key then Some (c\<lparr>ci_table := (ci_table c)[p := Some (key, value)]\<rparr>)
              else insert_from hash key value (i + 1) n c }"

fun get_from :: "nat \<Rightarrow> 'k \<Rightarrow> nat \<Rightarrow> nat \<Rightarrow> ('k, 'v) cindex \<Rightarrow> 'v option option" where
  "get_from hash key i 0 c = Some None"
| "get_from hash key i (Suc n) c =
     do { p \<leftarrow> probe (ci_capacity c) hash i;
          b \<leftarrow> nth_chk (ci_table c) p;
          case b of
            None \<Rightarrow> Some None
          | Some pair \<Rightarrow> if fst pair = key then Some (Some (snd pair)) else get_from hash key (i + 1) n c }"

text \<open>\<open>rep\<close> is the memory representation of a key, which \<open>fnv\<close> reads byte by byte.\<close>

definition cindex_insert :: "('k \<Rightarrow> bytes) \<Rightarrow> 'k \<Rightarrow> 'v \<Rightarrow> ('k, 'v) cindex \<Rightarrow> ('k, 'v) cindex option" where
  "cindex_insert rep key value c = insert_from (unat (fnv (rep key))) key value 0 (ci_capacity c) c"

definition cindex_get :: "('k \<Rightarrow> bytes) \<Rightarrow> 'k \<Rightarrow> ('k, 'v) cindex \<Rightarrow> 'v option option" where
  "cindex_get rep key c = get_from (unat (fnv (rep key))) key 0 (ci_capacity c) c"

section \<open>What clients rely on\<close>

fun put_all :: "('k \<Rightarrow> 'v \<Rightarrow> 'm \<Rightarrow> 'm option) \<Rightarrow> ('k \<times> 'v) list \<Rightarrow> 'm \<Rightarrow> 'm option" where
  "put_all ins [] m = Some m"
| "put_all ins ((k, v) # kvs) m = do { m \<leftarrow> ins k v m; put_all ins kvs m }"

locale bounded_map =
  fixes get :: "'k \<Rightarrow> 'm \<Rightarrow> 'v option option"
    and insert' :: "'k \<Rightarrow> 'v \<Rightarrow> 'm \<Rightarrow> 'm option"
    and lookup :: "'m \<Rightarrow> 'k \<Rightarrow> 'v option"
    and ok :: "'m \<Rightarrow> bool"
    and key_ok :: "'m \<Rightarrow> 'k \<Rightarrow> bool"
    and room :: "'m \<Rightarrow> nat"
  assumes get_lookup: "ok m \<Longrightarrow> key_ok m k \<Longrightarrow> get k m = Some (lookup m k)"
    and insert_lookup: "ok m \<Longrightarrow> key_ok m k \<Longrightarrow> lookup m k \<noteq> None \<or> 0 < room m \<Longrightarrow>
      \<exists>m'. insert' k v m = Some m' \<and> ok m' \<and> lookup m' = (lookup m)(k \<mapsto> v) \<and>
        room m' = room m - (if lookup m k = None then 1 else 0) \<and> (\<forall>k. key_ok m' k = key_ok m k)"
    and insert_full: "ok m \<Longrightarrow> key_ok m k \<Longrightarrow> lookup m k = None \<Longrightarrow> room m = 0 \<Longrightarrow> insert' k v m = None"
begin

text \<open>A cache in front of a function \<open>f\<close>: what it holds are values of \<open>f\<close>.\<close>

definition caches :: "('k \<Rightarrow> 'v) \<Rightarrow> 'm \<Rightarrow> bool" where
  "caches f m \<longleftrightarrow> ok m \<and> (\<forall>k v. lookup m k = Some v \<longrightarrow> v = f k)"

definition cached :: "('k \<Rightarrow> 'v option) \<Rightarrow> 'k \<Rightarrow> 'm \<Rightarrow> ('v \<times> 'm) option" where
  "cached f k m =
     do { r \<leftarrow> get k m;
          case r of
            Some v \<Rightarrow> Some (v, m)
          | None \<Rightarrow> do { v \<leftarrow> f k; m \<leftarrow> insert' k v m; Some (v, m) } }"

lemma cached_correct:
  assumes m: "caches f m" "key_ok m k" and f: "g k = Some (f k)" and room: "lookup m k \<noteq> None \<or> 0 < room m"
  shows "\<exists>m'. cached g k m = Some (f k, m') \<and> caches f m' \<and> lookup m' k = Some (f k) \<and>
    room m' = room m - (if lookup m k = None then 1 else 0) \<and> (\<forall>k. key_ok m' k = key_ok m k)"
proof (cases "lookup m k")
  case None
  then obtain m' where m': "insert' k (f k) m = Some m'" "ok m'" "lookup m' = (lookup m)(k \<mapsto> f k)"
    "room m' = room m - 1" "\<forall>k. key_ok m' k = key_ok m k"
    using insert_lookup[of m k "f k"] m room by (auto simp: caches_def)
  moreover have "cached g k m = Some (f k, m')" using m f None m'(1) get_lookup[of m k] by (simp add: cached_def caches_def)
  ultimately show ?thesis using m None by (auto simp: caches_def)
next
  case (Some v)
  then have "cached g k m = Some (v, m)" "v = f k" using m get_lookup[of m k] by (auto simp: cached_def caches_def)
  then show ?thesis using m Some by auto
qed

text \<open>A sequence of insertions, as long as the new keys fit, is the map with the later pairs on top.\<close>

lemma put_all_lookup:
  assumes "ok m" "\<forall>k \<in> fst ` set kvs. key_ok m k" "card (fst ` set kvs - dom (lookup m)) \<le> room m"
  shows "\<exists>m'. put_all insert' kvs m = Some m' \<and> ok m' \<and> lookup m' = lookup m ++ map_of (rev kvs) \<and> (\<forall>k. key_ok m' k = key_ok m k)"
  using assms
proof (induction kvs arbitrary: m)
  case (Cons kv kvs)
  obtain k v where kv: "kv = (k, v)" by (cases kv)
  have new: "lookup m k \<noteq> None \<or> 0 < room m"
  proof (rule ccontr)
    assume a: "\<not> (lookup m k \<noteq> None \<or> 0 < room m)"
    then have "k \<in> fst ` set (kv # kvs) - dom (lookup m)" by (auto simp: kv)
    then have "0 < card (fst ` set (kv # kvs) - dom (lookup m))" by (auto simp: card_gt_0_iff)
    then show False using Cons.prems(3) a by simp
  qed
  then obtain m1 where m1: "insert' k v m = Some m1" "ok m1" "lookup m1 = (lookup m)(k \<mapsto> v)"
    "room m1 = room m - (if lookup m k = None then 1 else 0)" "\<forall>k. key_ok m1 k = key_ok m k"
    using insert_lookup[of m k v] Cons.prems kv by auto
  have "fst ` set kvs - dom (lookup m1) = fst ` set (kv # kvs) - dom (lookup m) - {k}" by (auto simp: kv m1(3))
  moreover have "card (fst ` set (kv # kvs) - dom (lookup m) - {k}) = card (fst ` set (kv # kvs) - dom (lookup m)) - (if lookup m k = None then 1 else 0)"
    by (auto simp: kv card_Diff_singleton_if dom_def)
  ultimately have "card (fst ` set kvs - dom (lookup m1)) \<le> room m1" using Cons.prems(3) m1(4) by simp
  moreover have "\<forall>k \<in> fst ` set kvs. key_ok m1 k" using Cons.prems(2) m1(5) by simp
  ultimately obtain m' where "put_all insert' kvs m1 = Some m'" "ok m'" "lookup m' = lookup m1 ++ map_of (rev kvs)" "\<forall>k. key_ok m' k = key_ok m1 k"
    using Cons.IH[OF m1(2)] by blast
  then show ?case using m1 by (auto simp: kv map_add_def fun_eq_iff split: option.split)
qed auto

end

end
