(* ===== verification/Cindex_Spec.thy ===== *)
theory Cindex_Spec
  imports Cindex
begin

text \<open>
  The hash table implements a map of bounded size: an interpretation of \<open>bounded_map\<close>.  What probing
  relies on is that from a key's first slot to the slot that holds it every slot is taken.
\<close>

section \<open>Probing\<close>

definition khash :: "('k \<Rightarrow> bytes) \<Rightarrow> 'k \<Rightarrow> nat" where
  "khash rep key = unat (fnv (rep key))"

definition slot :: "('k \<Rightarrow> bytes) \<Rightarrow> ('k, 'v) cindex \<Rightarrow> 'k \<Rightarrow> nat \<Rightarrow> nat" where
  "slot rep c key i = (khash rep key + i) mod ci_capacity c"

definition key_at :: "('k, 'v) cindex \<Rightarrow> nat \<Rightarrow> 'k option" where
  "key_at c j = map_option fst (ci_table c ! j)"

definition cindex_key_ok :: "('k \<Rightarrow> bytes) \<Rightarrow> ('k, 'v) cindex \<Rightarrow> 'k \<Rightarrow> bool" where
  "cindex_key_ok rep c key \<longleftrightarrow> khash rep key + ci_capacity c \<le> 2 ^ 64"

definition cindex_ok :: "('k \<Rightarrow> bytes) \<Rightarrow> ('k, 'v) cindex \<Rightarrow> bool" where
  "cindex_ok rep c \<longleftrightarrow> (\<exists>k. ci_capacity c = 2 ^ k) \<and> length (ci_table c) = ci_capacity c \<and>
     (\<forall>j < ci_capacity c. \<forall>key. key_at c j = Some key \<longrightarrow>
        (\<exists>i < ci_capacity c. j = slot rep c key i \<and> (\<forall>i' < i. key_at c (slot rep c key i') \<notin> {None, Some key})))"

definition cindex_lookup :: "('k, 'v) cindex \<Rightarrow> 'k \<Rightarrow> 'v option" where
  "cindex_lookup c = map_of (List.map_filter id (ci_table c))"

definition cindex_room :: "('k, 'v) cindex \<Rightarrow> nat" where
  "cindex_room c = cnt (\<lambda>b. b = None) (ci_table c)"

lemma cindex_okD:
  assumes "cindex_ok rep c"
  shows "length (ci_table c) = ci_capacity c" "0 < ci_capacity c" "slot rep c key i < ci_capacity c"
    "j < ci_capacity c \<Longrightarrow> key_at c j = Some key \<Longrightarrow>
      \<exists>i < ci_capacity c. j = slot rep c key i \<and> (\<forall>i' < i. key_at c (slot rep c key i') \<notin> {None, Some key})"
proof -
  show "length (ci_table c) = ci_capacity c" and pos: "0 < ci_capacity c" using assms by (auto simp: cindex_ok_def)
  then show "slot rep c key i < ci_capacity c" by (simp add: slot_def)
  show "j < ci_capacity c \<Longrightarrow> key_at c j = Some key \<Longrightarrow>
      \<exists>i < ci_capacity c. j = slot rep c key i \<and> (\<forall>i' < i. key_at c (slot rep c key i') \<notin> {None, Some key})"
    using assms unfolding cindex_ok_def by blast
qed

lemma probe_slot:
  assumes "cindex_ok rep c" "cindex_key_ok rep c key" "i < ci_capacity c"
  shows "probe (ci_capacity c) (khash rep key) i = Some (slot rep c key i)"
proof -
  obtain k where k: "ci_capacity c = 2 ^ k" using assms(1) by (auto simp: cindex_ok_def)
  have "khash rep key + i < 2 ^ 64" using assms(2,3) by (simp add: cindex_key_ok_def)
  then show ?thesis by (simp add: probe_def add_usize_def sub_chk_def k slot_def and_pow2_mod)
qed

lemma every_slot:
  assumes "cindex_ok rep c" "j < ci_capacity c"
  shows "\<exists>i < ci_capacity c. j = slot rep c key i"
proof -
  let ?n = "ci_capacity c" and ?h = "khash rep key"
  let ?i = "(j + ?n - ?h mod ?n) mod ?n"
  have n: "0 < ?n" using cindex_okD(2)[OF assms(1)] .
  have "(?h + ?i) mod ?n = (?h mod ?n + (j + ?n - ?h mod ?n)) mod ?n" by (simp add: mod_simps)
  also have "?h mod ?n + (j + ?n - ?h mod ?n) = j + ?n" using mod_less_divisor[OF n, of ?h] by linarith
  finally have "(?h + ?i) mod ?n = j" using assms(2) by simp
  then show ?thesis using n by (intro exI[of _ ?i]) (auto simp: slot_def)
qed

text \<open>A key is in one slot only.\<close>

lemma key_unique:
  assumes ok: "cindex_ok rep c" and j: "j < ci_capacity c" "key_at c j = Some key" and j': "j' < ci_capacity c" "key_at c j' = Some key"
  shows "j = j'"
proof -
  from cindex_okD(4)[OF ok j] obtain i where i: "j = slot rep c key i" "\<forall>i' < i. key_at c (slot rep c key i') \<notin> {None, Some key}" by blast
  from cindex_okD(4)[OF ok j'] obtain l where l: "j' = slot rep c key l" "\<forall>i' < l. key_at c (slot rep c key i') \<notin> {None, Some key}" by blast
  show ?thesis
  proof (cases i l rule: linorder_cases)
    case less
    then show ?thesis using l(2) i(1) j(2) by auto
  next
    case greater
    then show ?thesis using i(2) l(1) j'(2) by auto
  qed (use i l in simp)
qed

lemma lookup_iff:
  assumes ok: "cindex_ok rep c"
  shows "cindex_lookup c key = Some v \<longleftrightarrow> (\<exists>j < ci_capacity c. ci_table c ! j = Some (key, v))"
proof -
  let ?kvs = "List.map_filter id (ci_table c)"
  have set: "(key, v) \<in> set ?kvs \<longleftrightarrow> (\<exists>j < ci_capacity c. ci_table c ! j = Some (key, v))" for key v
    using cindex_okD(1)[OF ok] by (auto simp: List.map_filter_def in_set_conv_nth image_iff)
  have "v = v'" if a: "(key, v) \<in> set ?kvs" "(key, v') \<in> set ?kvs" for v v'
  proof -
    obtain j j' where j: "j < ci_capacity c" "ci_table c ! j = Some (key, v)" "j' < ci_capacity c" "ci_table c ! j' = Some (key, v')"
      using a unfolding set by blast
    then have "j = j'" using key_unique[OF ok, of j key j'] by (simp add: key_at_def)
    then show ?thesis using j by simp
  qed
  then show ?thesis unfolding cindex_lookup_def set[symmetric]
    by (metis map_of_SomeD map_of_eq_None_iff fst_conv image_eqI option.exhaust)
qed

text \<open>Where the walk for a key stops: at an empty slot or at the key's own.\<close>

definition stops :: "('k \<Rightarrow> bytes) \<Rightarrow> ('k, 'v) cindex \<Rightarrow> 'k \<Rightarrow> nat \<Rightarrow> bool" where
  "stops rep c key i \<longleftrightarrow> key_at c (slot rep c key i) \<in> {None, Some key}"

definition put_slot :: "('k \<Rightarrow> bytes) \<Rightarrow> 'k \<Rightarrow> 'v \<Rightarrow> nat \<Rightarrow> ('k, 'v) cindex \<Rightarrow> ('k, 'v) cindex" where
  "put_slot rep key v i c = c\<lparr>ci_table := (ci_table c)[slot rep c key i := Some (key, v)]\<rparr>"

lemma walk_step:
  assumes ok: "cindex_ok rep c" "cindex_key_ok rep c key" and i: "i < ci_capacity c"
  shows "insert_from (khash rep key) key v i (Suc n) c =
      (if stops rep c key i then Some (put_slot rep key v i c) else insert_from (khash rep key) key v (i + 1) n c)"
    "get_from (khash rep key) key i (Suc n) c =
      (if stops rep c key i then Some (map_option snd (ci_table c ! slot rep c key i)) else get_from (khash rep key) key (i + 1) n c)"
  using probe_slot[OF assms] cindex_okD[OF ok(1)]
  by (auto simp: stops_def key_at_def put_slot_def nth_chk_def split: option.split)

lemma walk_stops:
  assumes ok: "cindex_ok rep c" "cindex_key_ok rep c key" and s: "s < ci_capacity c" "stops rep c key s" "\<forall>i < s. \<not> stops rep c key i"
    and i: "i \<le> s" "i + n = ci_capacity c"
  shows "insert_from (khash rep key) key v i n c = Some (put_slot rep key v s c) \<and>
    get_from (khash rep key) key i n c = Some (map_option snd (ci_table c ! slot rep c key s))"
  using i
proof (induction n arbitrary: i)
  case (Suc n)
  have ic: "i < ci_capacity c" using Suc.prems by simp
  show ?case
  proof (cases "i = s")
    case True
    then show ?thesis using walk_step[OF ok ic] s by simp
  next
    case False
    then show ?thesis using walk_step[OF ok ic] s Suc.IH[of "i + 1"] Suc.prems by auto
  qed
qed (use s in simp)

lemma walk_ends:
  assumes ok: "cindex_ok rep c" "cindex_key_ok rep c key" and s: "\<forall>i < ci_capacity c. \<not> stops rep c key i" and i: "i + n = ci_capacity c"
  shows "insert_from (khash rep key) key v i n c = None \<and> get_from (khash rep key) key i n c = Some None"
  using i
proof (induction n arbitrary: i)
  case (Suc n)
  then have ic: "i < ci_capacity c" by simp
  then show ?case using walk_step[OF ok ic] s Suc by auto
qed simp

lemma key_at_lookup:
  assumes "cindex_ok rep c" "j < ci_capacity c"
  shows "key_at c j = Some key \<Longrightarrow> cindex_lookup c key = map_option snd (ci_table c ! j)"
    "cindex_lookup c key = None \<Longrightarrow> key_at c j \<noteq> Some key"
  using lookup_iff[OF assms(1), of key] assms(2) by (force simp: key_at_def)+

lemma lookup_key_at: "cindex_ok rep c \<Longrightarrow> cindex_lookup c key = Some v \<Longrightarrow> \<exists>j < ci_capacity c. key_at c j = Some key"
  using lookup_iff[of rep c key v] by (auto simp: key_at_def)

text \<open>The first stop is at the key if the table has it, else at a free slot; without a stop there is neither.\<close>

lemma first_stop:
  assumes ok: "cindex_ok rep c"
  obtains (stop) s where "s < ci_capacity c" "stops rep c key s" "\<forall>i < s. \<not> stops rep c key i"
      "cindex_lookup c key = map_option snd (ci_table c ! slot rep c key s)"
  | (full) "\<forall>i < ci_capacity c. \<not> stops rep c key i" "cindex_lookup c key = None" "cindex_room c = 0"
proof (cases "\<exists>i < ci_capacity c. stops rep c key i")
  case True
  define s where "s = (LEAST i. stops rep c key i)"
  have s: "stops rep c key s" "\<forall>i < s. \<not> stops rep c key i" "s < ci_capacity c"
    using True LeastI_ex[of "stops rep c key"] not_less_Least[of _ "stops rep c key"] Least_le[of "stops rep c key"]
    unfolding s_def by (blast, blast, metis le_less_trans)
  let ?j = "slot rep c key s"
  have j: "?j < ci_capacity c" using cindex_okD(3)[OF ok] .
  have "cindex_lookup c key = map_option snd (ci_table c ! ?j)"
  proof (cases "key_at c ?j = Some key")
    case True
    then show ?thesis by (rule key_at_lookup(1)[OF ok j])
  next
    case False
    then have none: "key_at c ?j = None" using s(1) by (auto simp: stops_def)
    have "cindex_lookup c key = None"
    proof (rule ccontr)
      assume "cindex_lookup c key \<noteq> None"
      then obtain j' where "j' < ci_capacity c" "key_at c j' = Some key" using lookup_key_at[OF ok] by blast
      with cindex_okD(4)[OF ok this] obtain i where i: "key_at c (slot rep c key i) = Some key"
        "\<forall>i' < i. key_at c (slot rep c key i') \<notin> {None, Some key}" by metis
      then have "stops rep c key i" "\<forall>i' < i. \<not> stops rep c key i'" by (auto simp: stops_def)
      then have "i = s" using s by (meson linorder_neqE_nat)
      then show False using i none by simp
    qed
    then show ?thesis using none by (simp add: key_at_def)
  qed
  then show thesis using stop s by blast
next
  case False
  have j: "key_at c j \<notin> {None, Some key}" if "j < ci_capacity c" for j
    using every_slot[OF ok that, of key] False by (auto simp: stops_def)
  then have "cindex_lookup c key = None" using lookup_key_at[OF ok, of key] by (cases "cindex_lookup c key") auto
  moreover have "cindex_room c = 0" unfolding cindex_room_def
    by (rule cnt_zero) (use j cindex_okD(1)[OF ok] in \<open>auto simp: in_set_conv_nth key_at_def\<close>)
  ultimately show thesis using full False by blast
qed

section \<open>The table implements a map\<close>

lemma stop_unique:
  assumes ok: "cindex_ok rep c" and s: "stops rep c key s" "\<forall>i < s. \<not> stops rep c key i" and j: "j < ci_capacity c" "key_at c j = Some key"
  shows "j = slot rep c key s"
proof -
  from cindex_okD(4)[OF ok j] obtain i where i: "j = slot rep c key i" "\<forall>i' < i. key_at c (slot rep c key i') \<notin> {None, Some key}" by blast
  then have "stops rep c key i" "\<forall>i' < i. \<not> stops rep c key i'" using j by (auto simp: stops_def)
  then have "i = s" using s by (meson linorder_neqE_nat)
  then show ?thesis using i by simp
qed

lemma put_slot_frame:
  assumes "cindex_ok rep c"
  shows "ci_capacity (put_slot rep key v s c) = ci_capacity c" "slot rep (put_slot rep key v s c) k i = slot rep c k i"
    "j < ci_capacity c \<Longrightarrow> key_at (put_slot rep key v s c) j = (if j = slot rep c key s then Some key else key_at c j)"
    "j < ci_capacity c \<Longrightarrow> ci_table (put_slot rep key v s c) ! j = (if j = slot rep c key s then Some (key, v) else ci_table c ! j)"
    "length (ci_table (put_slot rep key v s c)) = length (ci_table c)"
  using cindex_okD(1)[OF assms] by (auto simp: put_slot_def slot_def key_at_def)

lemma put_slot_ok:
  assumes ok: "cindex_ok rep c" and s: "s < ci_capacity c" "stops rep c key s" "\<forall>i < s. \<not> stops rep c key i"
  shows "cindex_ok rep (put_slot rep key v s c)"
proof -
  let ?c = "put_slot rep key v s c" and ?p = "slot rep c key s"
  note fr = put_slot_frame[OF ok, where key = key and v = v and s = s]
  have sl: "slot rep c k i < ci_capacity c" for k i using cindex_okD(3)[OF ok] .
  have "\<exists>i < ci_capacity c. j = slot rep c k i \<and> (\<forall>i' < i. key_at ?c (slot rep c k i') \<notin> {None, Some k})"
    if j: "j < ci_capacity c" "key_at ?c j = Some k" for j k
  proof (cases "k = key")
    case True
    then have "j = ?p" using j fr(3)[OF j(1)] stop_unique[OF ok s(2,3) j(1)] by (auto split: if_splits)
    moreover have "key_at ?c (slot rep c key i') \<notin> {None, Some key}" if "i' < s" for i'
    proof -
      have "key_at c (slot rep c key i') \<notin> {None, Some key}" using s(3) that by (auto simp: stops_def)
      moreover then have "slot rep c key i' \<noteq> ?p" using s(2) by (auto simp: stops_def)
      ultimately show ?thesis using fr(3)[OF sl[of key i']] by simp
    qed
    ultimately show ?thesis using True s(1) by blast
  next
    case False
    then have "key_at c j = Some k" using j fr(3)[OF j(1)] by (auto split: if_splits)
    then obtain i where i: "i < ci_capacity c" "j = slot rep c k i" "\<forall>i' < i. key_at c (slot rep c k i') \<notin> {None, Some k}"
      using cindex_okD(4)[OF ok j(1)] by blast
    then have "\<forall>i' < i. key_at ?c (slot rep c k i') \<notin> {None, Some k}" using False by (simp add: fr(3)[OF sl])
    then show ?thesis using i by blast
  qed
  then show ?thesis using ok fr by (simp add: cindex_ok_def)
qed

lemma put_slot_lookup:
  assumes ok: "cindex_ok rep c" and s: "s < ci_capacity c" "stops rep c key s" "\<forall>i < s. \<not> stops rep c key i"
  shows "cindex_lookup (put_slot rep key v s c) = (cindex_lookup c)(key \<mapsto> v)"
proof
  fix k
  let ?c = "put_slot rep key v s c" and ?p = "slot rep c key s"
  note fr = put_slot_frame[OF ok, where key = key and v = v and s = s] and ok' = put_slot_ok[OF assms, of v]
  have p: "?p < ci_capacity c" using cindex_okD(3)[OF ok] .
  have old: "ci_table c ! ?p \<noteq> Some (k', x)" if "k' \<noteq> key" for k' x using s(2) that by (auto simp: stops_def key_at_def)
  show "cindex_lookup ?c k = ((cindex_lookup c)(key \<mapsto> v)) k"
  proof (cases "k = key")
    case True
    have "ci_table ?c ! ?p = Some (key, v)" using fr(4)[OF p] by simp
    then show ?thesis using lookup_iff[OF ok', of key v] p fr(1) True by auto
  next
    case False
    have "(\<exists>j < ci_capacity c. ci_table ?c ! j = Some (k, x)) \<longleftrightarrow> (\<exists>j < ci_capacity c. ci_table c ! j = Some (k, x))" for x
      using False old[OF False, of x] fr(4) by (metis Pair_inject option.inject)
    then have "cindex_lookup ?c k = Some x \<longleftrightarrow> cindex_lookup c k = Some x" for x using lookup_iff[OF ok', of k x] lookup_iff[OF ok, of k x] fr(1) by simp
    then show ?thesis using False by (metis fun_upd_apply option.exhaust)
  qed
qed

lemma put_slot_room:
  assumes ok: "cindex_ok rep c" and look: "cindex_lookup c key = map_option snd (ci_table c ! slot rep c key s)"
  shows "cindex_room (put_slot rep key v s c) = cindex_room c - (if cindex_lookup c key = None then 1 else 0)"
  using cnt_update[of "slot rep c key s" "ci_table c" "\<lambda>b. b = None" "Some (key, v)"] cindex_okD(1,3)[OF ok] look
  by (auto simp: cindex_room_def put_slot_def)

interpretation ci: bounded_map "cindex_get rep" "cindex_insert rep" cindex_lookup "cindex_ok rep" "cindex_key_ok rep" cindex_room
proof
  fix c :: "('a, 'b) cindex" and key :: 'a and v :: 'b
  assume ok: "cindex_ok rep c" "cindex_key_ok rep c key"
  note hash [simp] = khash_def[symmetric] and walk = cindex_get_def cindex_insert_def
  show "cindex_get rep key c = Some (cindex_lookup c key)"
    using ok(1)
  proof (cases rule: first_stop[where key = key])
    case (stop s)
    then show ?thesis using walk_stops[OF ok stop(1,2,3), of 0 "ci_capacity c"] by (simp add: walk)
  next
    case full
    then show ?thesis using walk_ends[OF ok full(1), of 0 "ci_capacity c"] by (simp add: walk)
  qed
  show "cindex_insert rep key v c = None" if none: "cindex_lookup c key = None" "cindex_room c = 0"
    using ok(1)
  proof (cases rule: first_stop[where key = key])
    case (stop s)
    then have "ci_table c ! slot rep c key s = None" using none by simp
    then have "0 < cindex_room c" using cnt_pos[of "slot rep c key s" "ci_table c" "\<lambda>b. b = None"] cindex_okD(1,3)[OF ok(1)] by (simp add: cindex_room_def)
    then show ?thesis using none by simp
  next
    case full
    then show ?thesis using walk_ends[OF ok full(1), of 0 "ci_capacity c"] by (simp add: walk)
  qed
  show "\<exists>m'. cindex_insert rep key v c = Some m' \<and> cindex_ok rep m' \<and> cindex_lookup m' = (cindex_lookup c)(key \<mapsto> v) \<and>
      cindex_room m' = cindex_room c - (if cindex_lookup c key = None then 1 else 0) \<and> (\<forall>k. cindex_key_ok rep m' k = cindex_key_ok rep c k)"
    if "cindex_lookup c key \<noteq> None \<or> 0 < cindex_room c"
    using ok(1)
  proof (cases rule: first_stop[where key = key])
    case (stop s)
    then have "cindex_insert rep key v c = Some (put_slot rep key v s c)" using walk_stops[OF ok stop(1,2,3), of 0 "ci_capacity c"] by (simp add: walk)
    then show ?thesis
      using put_slot_ok[OF ok(1) stop(1,2,3)] put_slot_lookup[OF ok(1) stop(1,2,3)] put_slot_room[OF ok(1) stop(4)] put_slot_frame(1)[OF ok(1)]
      by (simp add: cindex_key_ok_def)
  next
    case full
    then show ?thesis using that by simp
  qed
qed

lemma with_capacity_ok:
  fixes rep :: "'k \<Rightarrow> bytes"
  assumes "n = 2 ^ k"
  shows "cindex_ok rep (with_capacity n :: ('k, 'v) cindex)" "cindex_lookup (with_capacity n :: ('k, 'v) cindex) = (\<lambda>_. None)"
    "cindex_room (with_capacity n :: ('k, 'v) cindex) = n" "ci_capacity (with_capacity n :: ('k, 'v) cindex) = n"
  using assms
  by (auto simp: cindex_ok_def cindex_lookup_def cindex_room_def with_capacity_def init_table_def key_at_def cnt_def List.map_filter_def Let_def)



end
