(* ===== verification/Maglev.thy ===== *)
theory Maglev
  imports Cindex_Spec
begin

text \<open>
  Consistent hashing of flows to backends, \<^verbatim>\<open>src/domains/lib/libbenchnet/src/maglev.rs\<close>: the lookup table
  filled by turns from one permutation per backend, and the cache of flows in front of it.  The two hash functions of a
  backend and the hash of a flow come from external crates and are arguments.
\<close>

section \<open>The code\<close>

abbreviation TABLE_SIZE :: nat where "TABLE_SIZE \<equiv> 65537"
abbreviation CACHE_SIZE :: nat where "CACHE_SIZE \<equiv> 2097152"

definition as_i8 :: "nat \<Rightarrow> int" where
  "as_i8 n = (let k = int (n mod 256) in if k < 128 then k else k - 256)"

definition i8_as_usize :: "int \<Rightarrow> nat" where
  "i8_as_usize x = nat (x mod 2 ^ 64)"

text \<open>The memory of a key of the cache: eight bytes, the lowest first.\<close>

definition usize_bytes :: "nat \<Rightarrow> bytes" where
  "usize_bytes x = map (\<lambda>i. of_nat (x div 256 ^ i)) [0..<8]"

definition hash_offset_skip :: "('n \<Rightarrow> nat) \<Rightarrow> ('n \<Rightarrow> nat) \<Rightarrow> 'n \<Rightarrow> nat \<Rightarrow> nat \<times> nat" where
  "hash_offset_skip h1 h2 key m = (h2 key mod m, h1 key mod (m - 1) + 1)"

fun permutation_from :: "nat \<Rightarrow> nat \<Rightarrow> nat \<Rightarrow> nat list \<Rightarrow> nat list option" where
  "permutation_from m offset skip [] = Some []"
| "permutation_from m offset skip (i # is) =
     do { p \<leftarrow> mul_usize i skip; s \<leftarrow> add_usize offset p; r \<leftarrow> permutation_from m offset skip is; Some (s mod m # r) }"

definition permutation :: "nat \<Rightarrow> nat \<times> nat \<Rightarrow> nat list option" where
  "permutation m os = (case os of (offset, skip) \<Rightarrow> permutation_from m offset skip [0..<m])"

fun permutations :: "nat \<Rightarrow> (nat \<times> nat) list \<Rightarrow> nat list list option" where
  "permutations m [] = Some []"
| "permutations m (os # oss) = do { p \<leftarrow> permutation m os; ps \<leftarrow> permutations m oss; Some (p # ps) }"

text \<open>The inner loop: from position \<open>nx\<close> of a permutation to the first slot that is free.\<close>

function skip_taken :: "nat list \<Rightarrow> int list \<Rightarrow> nat \<Rightarrow> (nat \<times> nat) option" where
  "skip_taken perm entry nx =
     do { c \<leftarrow> nth_chk perm nx;
          e \<leftarrow> nth_chk entry c;
          if 0 \<le> e then do { nx \<leftarrow> add_usize nx 1; skip_taken perm entry nx } else Some (c, nx) }"
  by pat_completeness auto

termination
  by (relation "measure (\<lambda>(perm, entry, nx). length perm - nx)") (auto simp: nth_chk_def add_usize_def split: if_splits)

declare skip_taken.simps [simp del]

record fill =
  fl_next :: "nat list"
  fl_entry :: "int list"
  fl_j :: nat

definition place :: "nat list list \<Rightarrow> nat \<Rightarrow> fill \<Rightarrow> fill option" where
  "place perms i f =
     do { perm \<leftarrow> nth_chk perms i;
          nx \<leftarrow> nth_chk (fl_next f) i;
          (c, nx) \<leftarrow> skip_taken perm (fl_entry f) nx;
          entry \<leftarrow> upd_chk (fl_entry f) c (as_i8 i);
          nx \<leftarrow> add_usize nx 1;
          nxt \<leftarrow> upd_chk (fl_next f) i nx;
          j \<leftarrow> add_usize (fl_j f) 1;
          Some \<lparr>fl_next = nxt, fl_entry = entry, fl_j = j\<rparr> }"

text \<open>One turn of the backends \<open>is\<close>, ended when the table is full.\<close>

fun turn :: "nat list list \<Rightarrow> nat \<Rightarrow> nat list \<Rightarrow> fill \<Rightarrow> fill option" where
  "turn perms m [] f = Some f"
| "turn perms m (i # is) f = do { f \<leftarrow> place perms i f; if fl_j f = m then Some f else turn perms m is f }"

text \<open>The outer loop may run forever; then it has no value.\<close>

partial_function (option) fill_table :: "nat list list \<Rightarrow> nat \<Rightarrow> nat \<Rightarrow> fill \<Rightarrow> int list option" where
  "fill_table perms m n f =
     (if fl_j f < m then Option.bind (turn perms m [0..<n] f) (\<lambda>f. fill_table perms m n f) else Some (fl_entry f))"

definition populate_size :: "nat \<Rightarrow> ('n \<Rightarrow> nat) \<Rightarrow> ('n \<Rightarrow> nat) \<Rightarrow> 'n list \<Rightarrow> int list option" where
  "populate_size m h1 h2 nodes =
     do { perms \<leftarrow> permutations m (map (\<lambda>node. hash_offset_skip h1 h2 node m) nodes);
          fill_table perms m (length nodes)
            \<lparr>fl_next = replicate (length nodes) 0, fl_entry = replicate m (- 1), fl_j = 0\<rparr> }"

definition populate_lookup :: "('n \<Rightarrow> nat) \<Rightarrow> ('n \<Rightarrow> nat) \<Rightarrow> 'n list \<Rightarrow> int list option" where
  "populate_lookup h1 h2 nodes = populate_size TABLE_SIZE h1 h2 nodes"

record 'n maglev =
  mg_nodes :: "'n list"
  mg_lookup :: "int list"
  mg_cache :: "(nat, nat) cindex"
  mg_hit_count :: nat
  mg_total :: nat

definition Maglev_new :: "('n \<Rightarrow> nat) \<Rightarrow> ('n \<Rightarrow> nat) \<Rightarrow> 'n list \<Rightarrow> 'n maglev option" where
  "Maglev_new h1 h2 nodes =
     do { lookup \<leftarrow> populate_lookup h1 h2 nodes;
          Some \<lparr>mg_nodes = nodes, mg_lookup = lookup, mg_cache = with_capacity CACHE_SIZE, mg_hit_count = 0, mg_total = 0\<rparr> }"

definition table_index :: "int list \<Rightarrow> nat \<Rightarrow> nat option" where
  "table_index lookup hash =
     do { assert_that (length lookup \<noteq> 0); x \<leftarrow> nth_chk lookup (hash mod length lookup); Some (i8_as_usize x) }"

definition get_index_from_hash :: "nat \<Rightarrow> 'n maglev \<Rightarrow> (nat \<times> 'n maglev) option" where
  "get_index_from_hash hash g =
     do { r \<leftarrow> cindex_get usize_bytes hash (mg_cache g);
          (x, set_cache, g) \<leftarrow> (case r of
             Some idx \<Rightarrow> do { hits \<leftarrow> add_usize (mg_hit_count g) 1; Some (idx, False, g\<lparr>mg_hit_count := hits\<rparr>) }
           | None \<Rightarrow> do { x \<leftarrow> table_index (mg_lookup g) hash; Some (x, True, g) });
          total \<leftarrow> add_usize (mg_total g) 1;
          let g = g\<lparr>mg_total := total\<rparr>;
          if set_cache then do { c \<leftarrow> cindex_insert usize_bytes hash x (mg_cache g); Some (x, g\<lparr>mg_cache := c\<rparr>) }
          else Some (x, g) }"

definition maglev_get :: "('q \<Rightarrow> nat) \<Rightarrow> 'q \<Rightarrow> 'n maglev \<Rightarrow> ('n \<times> 'n maglev) option" where
  "maglev_get h key g = do { (i, g) \<leftarrow> get_index_from_hash (h key) g; n \<leftarrow> nth_chk (mg_nodes g) i; Some (n, g) }"

end
