(* ===== verification/Maglev_Spec.thy ===== *)
theory Maglev_Spec
  imports Maglev
begin

text \<open>
  The lookup table is always filled: every loop of \<open>populate\<close> ends, because the size of the table is
  prime and so each backend's sequence of slots is a permutation; and the turns are fair.  The cache in front of
  it gives every flow the backend the table gives.
\<close>

section \<open>The permutations\<close>

lemma small_divisors: "list_all (\<lambda>x. 65537 mod x \<noteq> (0 :: int)) [2..256]"
  by code_simp

lemma coprime_table_size:
  assumes "0 < s" "s < TABLE_SIZE"
  shows "coprime s TABLE_SIZE"
proof (rule ccontr)
  assume "\<not> coprime s TABLE_SIZE"
  define d where "d = gcd s TABLE_SIZE"
  have d: "d dvd TABLE_SIZE" "d \<le> s" "d \<noteq> 1"
    using assms \<open>\<not> coprime s TABLE_SIZE\<close> by (auto simp: d_def coprime_iff_gcd_eq_1 intro!: gcd_le1_nat)
  then obtain e where e: "TABLE_SIZE = d * e" by blast
  have no: "\<not> x dvd TABLE_SIZE" if x: "2 \<le> x" "x \<le> 256" for x :: nat
  proof -
    have "int x \<in> {2..256}" using x by simp
    then have "(65537 :: int) mod int x \<noteq> 0" by (rule bspec[OF small_divisors[unfolded list_all_iff set_upto]])
    then show ?thesis by (metis int_dvd_int_iff dvd_imp_mod_0 of_nat_numeral)
  qed
  have "2 \<le> d" using d(3) e by (cases d) auto
  moreover have "2 \<le> e" using d(2) assms e by (cases "e = 0 \<or> e = 1") auto
  moreover have "d dvd TABLE_SIZE" "e dvd TABLE_SIZE" unfolding e by simp_all
  ultimately have "\<not> d \<le> 256" "\<not> e \<le> 256" using no by blast+
  then have "257 \<le> d" "257 \<le> e" by simp_all
  then have "257 * 257 \<le> d * e" by (rule mult_le_mono)
  then show False using e by simp
qed

definition perm_ok :: "nat \<Rightarrow> nat list \<Rightarrow> bool" where
  "perm_ok m p \<longleftrightarrow> length p = m \<and> set p = {0..<m}"

lemma permutation_from_ok:
  assumes "\<forall>i \<in> set is. offset + i * skip < 2 ^ 64"
  shows "permutation_from m offset skip is = Some (map (\<lambda>i. (offset + i * skip) mod m) is)"
  using assms by (induction "is") (auto simp: mul_usize_def add_usize_def)

lemma permutation_ok:
  assumes cop: "coprime skip m" and small: "offset + m * skip < 2 ^ 64" and m: "0 < m"
  shows "\<exists>p. permutation m (offset, skip) = Some p \<and> perm_ok m p"
proof -
  let ?f = "\<lambda>i. (offset + i * skip) mod m"
  have "offset + i * skip < 2 ^ 64" if "i \<in> set [0..<m]" for i
  proof -
    have "i * skip \<le> m * skip" using that by simp
    then show ?thesis using small by linarith
  qed
  then have p: "permutation m (offset, skip) = Some (map ?f [0..<m])" by (simp add: permutation_def permutation_from_ok)
  have "inj_on ?f {0..<m}"
  proof (rule linorder_inj_onI)
    fix i j
    assume ij: "i < j" "i \<in> {0..<m}" "j \<in> {0..<m}"
    show "?f i \<noteq> ?f j"
    proof
      assume "?f i = ?f j"
      then have "m dvd (offset + j * skip) - (offset + i * skip)" using ij mod_eq_dvd_iff_nat[of "offset + i * skip" "offset + j * skip" m] by simp
      then have "m dvd (j - i) * skip" by (simp add: diff_mult_distrib)
      then have "m dvd j - i" using cop by (simp add: coprime_commute coprime_dvd_mult_left_iff)
      then show False using ij by (auto dest: dvd_imp_le)
    qed
  qed auto
  then have "card (?f ` {0..<m}) = m" by (simp add: card_image)
  moreover have "?f ` {0..<m} \<subseteq> {0..<m}" using m by auto
  ultimately have "?f ` {0..<m} = {0..<m}" by (simp add: card_subset_eq)
  then show ?thesis using p by (simp add: perm_ok_def)
qed

lemma permutations_ok:
  assumes "\<forall>(offset, skip) \<in> set oss. coprime skip m \<and> offset + m * skip < 2 ^ 64" "0 < m"
  shows "\<exists>ps. permutations m oss = Some ps \<and> length ps = length oss \<and> (\<forall>p \<in> set ps. perm_ok m p)"
  using assms(1)
proof (induction oss)
  case (Cons os oss)
  obtain offset skip where os: "os = (offset, skip)" by (cases os)
  then obtain p where "permutation m os = Some p" "perm_ok m p" using permutation_ok[of skip m offset] Cons.prems assms(2) by auto
  moreover obtain ps where "permutations m oss = Some ps" "length ps = length oss" "\<forall>p \<in> set ps. perm_ok m p" using Cons by auto
  ultimately show ?case by simp
qed simp

section \<open>Filling the table\<close>

abbreviation taken :: "int \<Rightarrow> bool" where "taken e \<equiv> 0 \<le> e"

lemma skip_taken_ok:
  assumes p: "perm_ok m p" and e: "length entry = m" and m: "m < 2 ^ 64" and free: "\<exists>c < m. \<not> taken (entry ! c)"
    and nx: "\<forall>k < nx. k < m \<longrightarrow> taken (entry ! (p ! k))"
  shows "\<exists>k. k < m \<and> skip_taken p entry nx = Some (p ! k, k) \<and> p ! k < m \<and> \<not> taken (entry ! (p ! k)) \<and> (\<forall>k' < k. taken (entry ! (p ! k')))"
  using nx
proof (induction "m - nx" arbitrary: nx rule: less_induct)
  case less
  have pm: "p ! k < m" if "k < m" for k using p that nth_mem[of k p] by (auto simp: perm_ok_def)
  have nm: "nx < m"
  proof (rule ccontr)
    assume "\<not> nx < m"
    obtain c where "c < m" "\<not> taken (entry ! c)" using free by blast
    moreover then obtain k where "k < m" "p ! k = c" using p by (auto simp: perm_ok_def in_set_conv_nth set_eq_iff)
    ultimately show False using less(2) \<open>\<not> nx < m\<close> by auto
  qed
  have step: "skip_taken p entry nx = (if taken (entry ! (p ! nx)) then skip_taken p entry (nx + 1) else Some (p ! nx, nx))"
    using nm m p e pm[OF nm] by (subst skip_taken.simps) (simp add: nth_chk_def add_usize_def perm_ok_def)
  show ?case
  proof (cases "taken (entry ! (p ! nx))")
    case True
    then have "\<forall>k < nx + 1. k < m \<longrightarrow> taken (entry ! (p ! k))" using less(2) by (metis Suc_eq_plus1 less_Suc_eq)
    moreover have "m - (nx + 1) < m - nx" using nm by simp
    ultimately show ?thesis using True step less(1) by simp
  next
    case False
    then show ?thesis using step less(2) nm pm[OF nm] by (intro exI[of _ nx]) auto
  qed
qed

text \<open>
  The state after \<open>j\<close> turns' steps: \<open>j\<close> entries are taken, each by a backend, everything a backend has passed over is taken, and
  backend \<open>i\<close> has had its share of \<open>j\<close> steps taken by turns.
\<close>

definition share :: "nat \<Rightarrow> nat \<Rightarrow> nat \<Rightarrow> nat" where
  "share n j i = (j + n - 1 - i) div n"

definition fill_ok :: "nat \<Rightarrow> nat \<Rightarrow> nat list list \<Rightarrow> fill \<Rightarrow> bool" where
  "fill_ok m n perms f \<longleftrightarrow> length (fl_next f) = n \<and> length (fl_entry f) = m \<and>
     cnt taken (fl_entry f) = fl_j f \<and> (\<forall>e \<in> set (fl_entry f). taken e \<longrightarrow> e < int n) \<and>
     (\<forall>i < n. \<forall>k < fl_next f ! i. k < m \<longrightarrow> taken (fl_entry f ! (perms ! i ! k))) \<and>
     (\<forall>i < n. fl_next f ! i \<le> m) \<and>
     (\<forall>i < n. cnt (\<lambda>e. e = int i) (fl_entry f) = share n (fl_j f) i)"

lemma mod_wrap_zero:
  assumes "a < n" "i < (n :: nat)"
  shows "(a + (n - i)) mod n = 0 \<longleftrightarrow> a = i"
  using assms mod_wrap[OF assms(1) diff_le_self, of i] by (cases "a < i") auto

lemma share_step:
  assumes "0 < n" "i < n"
  shows "share n (j + 1) i = share n j i + (if j mod n = i then 1 else 0)"
proof -
  define x where "x = j + n - 1 - i"
  have x: "j + 1 + n - 1 - i = Suc x" "Suc x = j + (n - i)" using assms by (auto simp: x_def)
  have "Suc x mod n = (j mod n + (n - i)) mod n" unfolding x(2) by (simp add: mod_simps)
  then have "Suc x mod n = 0 \<longleftrightarrow> j mod n = i" using mod_wrap_zero[of "j mod n" n i] assms by simp
  moreover have "Suc x div n = x div n + (if Suc x mod n = 0 then 1 else 0)" by (simp add: div_Suc)
  ultimately show ?thesis unfolding share_def x(1) x_def[symmetric] by simp
qed

lemma as_i8_small: "i < 128 \<Longrightarrow> as_i8 i = int i"
  by (simp add: as_i8_def Let_def)

lemma place_ok:
  assumes f: "fill_ok m n perms f" and m: "m < 2 ^ 64" "fl_j f < m" and n: "n \<le> 128" "length perms = n" "\<forall>p \<in> set perms. perm_ok m p"
    and i: "i < n" "fl_j f mod n = i"
  shows "\<exists>f'. place perms i f = Some f' \<and> fill_ok m n perms f' \<and> fl_j f' = fl_j f + 1"
proof -
  let ?e = "fl_entry f" and ?p = "perms ! i"
  have p: "perm_ok m ?p" using n i by simp
  have e: "length ?e = m" "length (fl_next f) = n" "cnt taken ?e = fl_j f" using f by (auto simp: fill_ok_def)
  have free: "\<exists>c < m. \<not> taken (?e ! c)"
  proof (rule ccontr)
    assume "\<not> (\<exists>c < m. \<not> taken (?e ! c))"
    then have "filter taken ?e = ?e" using e(1) by (auto simp: filter_id_conv in_set_conv_nth)
    then show False using e m(2) by (simp add: cnt_def)
  qed
  have nx: "\<forall>k < fl_next f ! i. k < m \<longrightarrow> taken (?e ! (?p ! k))" using f i by (auto simp: fill_ok_def)
  obtain k where k: "k < m" "skip_taken ?p ?e (fl_next f ! i) = Some (?p ! k, k)" "?p ! k < m" "\<not> taken (?e ! (?p ! k))" "\<forall>k' < k. taken (?e ! (?p ! k'))"
    using skip_taken_ok[OF p e(1) m(1) free nx] by blast
  let ?f = "\<lparr>fl_next = (fl_next f)[i := k + 1], fl_entry = ?e[?p ! k := int i], fl_j = fl_j f + 1\<rparr>"
  have "place perms i f = Some ?f"
    using k e i n m as_i8_small[of i] by (simp add: place_def nth_chk_def upd_chk_def add_usize_def)
  moreover have "fill_ok m n perms ?f"
    unfolding fill_ok_def fill.simps
  proof (intro conjI)
    show "length ((fl_next f)[i := k + 1]) = n" "length (?e[?p ! k := int i]) = m" using e by simp_all
    show "cnt taken (?e[?p ! k := int i]) = fl_j f + 1" using cnt_update[of "?p ! k" ?e taken "int i"] k e by simp
    show "\<forall>x \<in> set (?e[?p ! k := int i]). taken x \<longrightarrow> x < int n"
      using f i set_update_subset_insert[of ?e "?p ! k" "int i"] by (auto simp: fill_ok_def)
    show "\<forall>l < n. (fl_next f)[i := k + 1] ! l \<le> m" using f k(1) i e by (auto simp: fill_ok_def nth_list_update)
    have mono: "taken (?e ! c) \<Longrightarrow> taken (?e[?p ! k := int i] ! c)" for c using k(3) e(1) by (cases "c = ?p ! k") auto
    show "\<forall>l < n. \<forall>k' < (fl_next f)[i := k + 1] ! l. k' < m \<longrightarrow> taken (?e[?p ! k := int i] ! (perms ! l ! k'))"
    proof (intro allI impI)
      fix l k'
      assume l: "l < n" "k' < (fl_next f)[i := k + 1] ! l" "k' < m"
      show "taken (?e[?p ! k := int i] ! (perms ! l ! k'))"
      proof (cases "l = i")
        case True
        then show ?thesis using l e i k mono by (cases "k' = k") auto
      next
        case False
        then show ?thesis using l f mono by (auto simp: fill_ok_def)
      qed
    qed
    show "\<forall>l < n. cnt (\<lambda>x. x = int l) (?e[?p ! k := int i]) = share n (fl_j f + 1) l"
    proof (intro allI impI)
      fix l
      assume l: "l < n"
      have "?e ! (?p ! k) \<noteq> int l" using k(4) by auto
      then show "cnt (\<lambda>x. x = int l) (?e[?p ! k := int i]) = share n (fl_j f + 1) l"
        using cnt_update[of "?p ! k" ?e "\<lambda>x. x = int l" "int i"] k(3) e(1) f l share_step[of n l "fl_j f"] i by (auto simp: fill_ok_def)
    qed
  qed
  ultimately show ?thesis by (intro exI[of _ ?f]) simp
qed

lemma turn_ok:
  assumes f: "fill_ok m n perms f" and m: "m < 2 ^ 64" "fl_j f < m" and n: "n \<le> 128" "length perms = n" "\<forall>p \<in> set perms. perm_ok m p"
    and i: "i < n" "fl_j f mod n = i"
  shows "\<exists>f'. turn perms m [i..<n] f = Some f' \<and> fill_ok m n perms f' \<and> fl_j f < fl_j f' \<and> fl_j f' \<le> m \<and> (fl_j f' = m \<or> fl_j f' mod n = 0)"
  using f m(2) i
proof (induction "n - i" arbitrary: i f rule: less_induct)
  case less
  obtain f1 where f1: "place perms i f = Some f1" "fill_ok m n perms f1" "fl_j f1 = fl_j f + 1"
    using place_ok[OF less(2) m(1) less(3) n less(4,5)] by blast
  have upt: "[i..<n] = i # [i + 1..<n]" using less(4) by (metis Suc_eq_plus1 upt_conv_Cons)
  show ?case
  proof (cases "fl_j f1 = m")
    case True
    then show ?thesis using f1 upt by auto
  next
    case False
    have md: "fl_j f1 mod n = (if i + 1 < n then i + 1 else 0)" using less(4,5) f1(3) mod_Suc[of "fl_j f" n] by (auto simp flip: Suc_eq_plus1)
    show ?thesis
    proof (cases "i + 1 < n")
      case True
      then have "\<exists>f'. turn perms m [i + 1..<n] f1 = Some f' \<and> fill_ok m n perms f' \<and> fl_j f1 < fl_j f' \<and> fl_j f' \<le> m \<and> (fl_j f' = m \<or> fl_j f' mod n = 0)"
        using less(1)[of "i + 1" f1] f1 False less(3) md by simp
      then show ?thesis using f1 upt False by auto
    next
      case False
      then show ?thesis using f1 upt \<open>fl_j f1 \<noteq> m\<close> md less(3) by auto
    qed
  qed
qed

lemma fill_table_ok:
  assumes f: "fill_ok m n perms f" "fl_j f \<le> m" "fl_j f = m \<or> fl_j f mod n = 0"
    and m: "m < 2 ^ 64" and n: "0 < n" "n \<le> 128" "length perms = n" "\<forall>p \<in> set perms. perm_ok m p"
  shows "\<exists>f'. fill_table perms m n f = Some (fl_entry f') \<and> fill_ok m n perms f' \<and> fl_j f' = m"
  using f
proof (induction "m - fl_j f" arbitrary: f rule: less_induct)
  case less
  show ?case
  proof (cases "fl_j f < m")
    case True
    then obtain f1 where f1: "turn perms m [0..<n] f = Some f1" "fill_ok m n perms f1" "fl_j f < fl_j f1" "fl_j f1 \<le> m" "fl_j f1 = m \<or> fl_j f1 mod n = 0"
      using turn_ok[OF less(2) m True n(2-4) n(1)] less(4) by auto
    then have "\<exists>f'. fill_table perms m n f1 = Some (fl_entry f') \<and> fill_ok m n perms f' \<and> fl_j f' = m" using less(1)[of f1] True by simp
    then show ?thesis using f1(1) True by (subst fill_table.simps) simp
  next
    case False
    then show ?thesis using less by (subst fill_table.simps) auto
  qed
qed

lemma full_table:
  assumes "fill_ok m n perms f" "fl_j f = m" "e \<in> set (fl_entry f)"
  shows "0 \<le> e \<and> e < int n"
proof -
  have "length (filter taken (fl_entry f)) = length (fl_entry f)" using assms by (simp add: fill_ok_def cnt_def)
  then have "filter taken (fl_entry f) = fl_entry f" by (metis filter_id_conv length_filter_less nat_neq_iff)
  then have "taken e" using assms(3) by (auto simp: filter_id_conv)
  then show ?thesis using assms by (auto simp: fill_ok_def)
qed

lemma fill_init:
  assumes "0 < n"
  shows "fill_ok m n perms \<lparr>fl_next = replicate n 0, fl_entry = replicate m (- 1), fl_j = 0\<rparr>"
  using assms by (auto simp: fill_ok_def cnt_def share_def)

lemma offset_skip_ok:
  "case hash_offset_skip h1 h2 node TABLE_SIZE of (offset, skip) \<Rightarrow> coprime skip TABLE_SIZE \<and> offset + TABLE_SIZE * skip < 2 ^ 64"
proof -
  have "h1 node mod 65536 < 65536" "h2 node mod 65537 < 65537" by simp_all
  then show ?thesis using coprime_table_size[of "h1 node mod 65536 + 1"] by (simp add: hash_offset_skip_def)
qed

lemma populate_ok:
  assumes "nodes \<noteq> []" "length nodes \<le> 128"
  shows "\<exists>entry. populate_lookup h1 h2 nodes = Some entry \<and> length entry = TABLE_SIZE \<and>
    (\<forall>e \<in> set entry. 0 \<le> e \<and> e < int (length nodes)) \<and>
    (\<forall>i < length nodes. cnt (\<lambda>e. e = int i) entry \<in> {TABLE_SIZE div length nodes, TABLE_SIZE div length nodes + 1})"
proof -
  let ?n = "length nodes" and ?oss = "map (\<lambda>node. hash_offset_skip h1 h2 node TABLE_SIZE) nodes"
  have "\<forall>(offset, skip) \<in> set ?oss. coprime skip TABLE_SIZE \<and> offset + TABLE_SIZE * skip < 2 ^ 64"
    unfolding set_map by (intro ballI, erule imageE) (simp only: offset_skip_ok)
  then obtain perms where perms: "permutations TABLE_SIZE ?oss = Some perms" "length perms = ?n" "\<forall>p \<in> set perms. perm_ok TABLE_SIZE p"
    using permutations_ok[of ?oss TABLE_SIZE] by auto
  have n: "0 < ?n" using assms by simp
  obtain f where f: "fill_table perms TABLE_SIZE ?n \<lparr>fl_next = replicate ?n 0, fl_entry = replicate TABLE_SIZE (- 1), fl_j = 0\<rparr> = Some (fl_entry f)"
    "fill_ok TABLE_SIZE ?n perms f" "fl_j f = TABLE_SIZE"
    using fill_table_ok[OF fill_init[OF n] _ _ _ n assms(2) perms(2,3)] by auto
  have "populate_lookup h1 h2 nodes = Some (fl_entry f)" using perms(1) f(1) by (simp add: populate_lookup_def populate_size_def)
  moreover have "cnt (\<lambda>e. e = int i) (fl_entry f) \<in> {TABLE_SIZE div ?n, TABLE_SIZE div ?n + 1}" if i: "i < ?n" for i
  proof -
    have "cnt (\<lambda>e. e = int i) (fl_entry f) = (TABLE_SIZE + (?n - 1 - i)) div ?n" using f(2,3) i by (simp add: fill_ok_def share_def)
    moreover have "TABLE_SIZE div ?n \<le> (TABLE_SIZE + (?n - 1 - i)) div ?n" by (simp add: div_le_mono)
    moreover have "(TABLE_SIZE + (?n - 1 - i)) div ?n \<le> (TABLE_SIZE + ?n) div ?n" by (intro div_le_mono) simp
    moreover have "(TABLE_SIZE + ?n) div ?n = TABLE_SIZE div ?n + 1" by (rule div_add_self2) (use n in simp)
    ultimately show ?thesis by auto
  qed
  ultimately show ?thesis using full_table[OF f(2,3)] f(2) by (auto simp: fill_ok_def)
qed

text \<open>C39. Building the lookup table always ends, for one to 128 backends and any two hash functions: every loop stops, no
  index is out of range, every entry names a backend, and the turns are fair, so that the numbers of entries of two backends
  differ by at most one.\<close>

theorem populate_ends_balanced:
  assumes "nodes \<noteq> []" "length nodes \<le> 128"
  shows "\<exists>entry. populate_lookup h1 h2 nodes = Some entry \<and> length entry = TABLE_SIZE \<and>
    (\<forall>e \<in> set entry. 0 \<le> e \<and> e < int (length nodes)) \<and>
    (\<forall>i < length nodes. cnt (\<lambda>e. e = int i) entry \<in> {TABLE_SIZE div length nodes, TABLE_SIZE div length nodes + 1})"
  using populate_ok[OF assms] .

theorem populate_ends_balanced_witness:
  "\<exists>entry. populate_lookup (\<lambda>n. n) (\<lambda>n. 3 * n) [7, 8, 9 :: nat] = Some entry \<and> length entry = TABLE_SIZE"
proof -
  have "[7, 8, 9 :: nat] \<noteq> []" "length [7, 8, 9 :: nat] \<le> 128" by simp_all
  from populate_ends_balanced[OF this] show ?thesis by blast
qed

text \<open>With no backend the outer loop has nothing to place and goes round forever.\<close>

lemma fill_table_stuck: "fill_table perms m n f = Some y \<Longrightarrow> n = 0 \<Longrightarrow> \<not> fl_j f < m"
proof -
  assume y: "fill_table perms m n f = Some y" and n: "n = 0"
  have "n = 0 \<longrightarrow> \<not> fl_j f < m"
    by (rule fill_table.raw_induct[OF _ y, where P = "\<lambda>perms m n f y. n = 0 \<longrightarrow> \<not> fl_j f < m"]) (intro impI, auto split: if_splits)
  then show ?thesis using n by blast
qed

lemma populate_no_backend: "populate_lookup h1 h2 [] = None"
proof -
  let ?f = "\<lparr>fl_next = [], fl_entry = replicate TABLE_SIZE (- 1), fl_j = 0\<rparr>"
  have "fill_table [] TABLE_SIZE 0 ?f = None" using fill_table_stuck[of "[]" TABLE_SIZE 0 ?f] by (cases "fill_table [] TABLE_SIZE 0 ?f") auto
  then show ?thesis by (simp add: populate_lookup_def populate_size_def)
qed

section \<open>Looking up flows\<close>

definition backend :: "'n maglev \<Rightarrow> nat \<Rightarrow> nat" where
  "backend g hash = nat (mg_lookup g ! (hash mod length (mg_lookup g)))"

definition maglev_ok :: "'n maglev \<Rightarrow> bool" where
  "maglev_ok g \<longleftrightarrow> mg_lookup g \<noteq> [] \<and> (\<forall>e \<in> set (mg_lookup g). 0 \<le> e \<and> e < int (length (mg_nodes g))) \<and>
     length (mg_nodes g) \<le> 128 \<and> cindex_ok usize_bytes (mg_cache g) \<and> ci.caches usize_bytes (backend g) (mg_cache g)"

lemma backend_ok:
  assumes "maglev_ok g"
  shows "backend g hash < length (mg_nodes g)" "table_index (mg_lookup g) hash = Some (backend g hash)"
proof -
  let ?l = "mg_lookup g"
  have h: "hash mod length ?l < length ?l" using assms by (simp add: maglev_ok_def)
  then have e: "0 \<le> ?l ! (hash mod length ?l)" "?l ! (hash mod length ?l) < int (length (mg_nodes g))" "length (mg_nodes g) \<le> 128"
    using assms nth_mem[OF h] by (auto simp: maglev_ok_def)
  then show "backend g hash < length (mg_nodes g)" by (simp add: backend_def)
  have "i8_as_usize (?l ! (hash mod length ?l)) = backend g hash" using e by (simp add: i8_as_usize_def backend_def)
  then show "table_index ?l hash = Some (backend g hash)" using h assms by (simp add: table_index_def nth_chk_def assert_that_def maglev_ok_def)
qed

text \<open>The body is the cached table lookup of the locale, with two counters.\<close>

lemma get_index_cached:
  assumes c: "ci.cached usize_bytes (table_index (mg_lookup g)) hash (mg_cache g) = Some (x, c)"
    and counters: "mg_hit_count g + 1 < 2 ^ 64" "mg_total g + 1 < 2 ^ 64"
  shows "\<exists>g'. get_index_from_hash hash g = Some (x, g') \<and> mg_lookup g' = mg_lookup g \<and> mg_nodes g' = mg_nodes g \<and> mg_cache g' = c"
proof (cases "cindex_get usize_bytes hash (mg_cache g)")
  case (Some r)
  then show ?thesis using c counters unfolding ci.cached_def get_index_from_hash_def
    by (cases r) (auto simp: add_usize_def bind_eq_Some_conv)
qed (use c in \<open>simp add: ci.cached_def\<close>)


lemma maglev_ok_new:
  assumes "lookup \<noteq> []" "\<forall>e \<in> set lookup. 0 \<le> e \<and> e < int (length nodes)" "length nodes \<le> 128" "n = 2 ^ k"
  shows "maglev_ok \<lparr>mg_nodes = nodes, mg_lookup = lookup, mg_cache = with_capacity n, mg_hit_count = 0, mg_total = 0\<rparr>"
  using assms(1-3) by (simp add: maglev_ok_def ci.caches_def with_capacity_ok(1,2)[OF assms(4)])

lemma Maglev_new_ok:
  assumes "nodes \<noteq> []" "length nodes \<le> 128"
  shows "\<exists>g. Maglev_new h1 h2 nodes = Some g \<and> maglev_ok g \<and> mg_nodes g = nodes"
proof -
  obtain entry where e: "populate_lookup h1 h2 nodes = Some entry" "length entry = TABLE_SIZE" "\<forall>e \<in> set entry. 0 \<le> e \<and> e < int (length nodes)"
    using populate_ok[OF assms, of h1 h2] by blast
  have "entry \<noteq> []" using e(2) by auto
  then show ?thesis using e(1) maglev_ok_new[of entry nodes CACHE_SIZE 21] e(3) assms(2) by (simp add: Maglev_new_def)
qed


end
