(* ===== verification/Ixgbe.thy ===== *)
theory Ixgbe
  imports Rref_Deque
begin

text \<open>
  The rings of the Intel 82599 network driver, \<^verbatim>\<open>src/lib/devices/ixgbe/src/lib.rs\<close>.

  The driver gives packet buffers to the device by writing their addresses into the descriptors of a
  ring and moving the ring's tail register; the device reports that it is done with a descriptor by a
  status bit.  The device is a parameter: \<open>nic\<close> says what the \<open>t\<close>-th volatile read of a descriptor's status
  (and length) returns, for every sequence the hardware may produce.  \<open>ix_clock\<close> counts those reads.
  The descriptors hold what the driver wrote.  A descriptor is a union in which the status shares its place with
  a field the driver writes; what a read then returns is one of the answers \<open>nic\<close> ranges over.

  A queue of remote references is represented by its items, oldest first; \<open>deque_push\<close> is what
  \<open>push_back\<close> of \<^verbatim>\<open>Rref_Deque\<close> does to them.  \<open>ix_dropped\<close> collects the references the driver drops,
  \<open>ix_freed\<close> the memory of the vectors it drops.  The printing and the \<open>debug\<close> and \<open>dump\<close> flags that control
  it are left out.
\<close>

abbreviation NUM_DESCS :: nat where "NUM_DESCS \<equiv> 512"
abbreviation IXGBE_BATCH :: nat where "IXGBE_BATCH \<equiv> 32"
abbreviation TX_CLEAN_BATCH :: int where "TX_CLEAN_BATCH \<equiv> 32"
abbreviation PKT_SIZE :: nat where "PKT_SIZE \<equiv> 1514"

section \<open>Data\<close>

text \<open>A reference to a \<open>[u8; 1514]\<close> on the shared heap, and a \<open>Vec<u8>\<close>.\<close>

record pbuf =
  pb_addr :: nat
  pb_bytes :: bytes

record vbuf =
  vb_ptr :: nat
  vb_len :: nat
  vb_cap :: nat

record tx_desc =
  td_buffer_addr :: nat
  td_cmd_type_len :: "32 word"
  td_olinfo_status :: "32 word"

record rx_desc =
  rd_pkt_addr :: nat
  rd_hdr_addr :: nat

record nic =
  nic_tx_status :: "nat \<Rightarrow> nat \<Rightarrow> 32 word"
  nic_rx_status :: "nat \<Rightarrow> nat \<Rightarrow> 32 word"
  nic_rx_length :: "nat \<Rightarrow> nat \<Rightarrow> nat"

record ixgbe =
  transmit_buffers :: "vbuf option list"
  transmit_rrefs :: "pbuf option list"
  transmit_ring :: "tx_desc list"
  receive_buffers :: "vbuf option list"
  receive_rrefs :: "pbuf option list"
  receive_ring :: "rx_desc list"
  tx_slot :: "bool list"
  rx_slot :: "bool list"
  transmit_index :: nat
  transmit_clean_index :: nat
  rx_clean_index :: nat
  tx_clean_index :: nat
  receive_index :: nat
  ix_tdt :: nat
  ix_rdt :: nat
  ix_clock :: nat
  ix_dropped :: "pbuf list"
  ix_freed :: "nat list"

definition wrap_ring :: "nat \<Rightarrow> nat \<Rightarrow> nat" where
  "wrap_ring index ring_size = (index + 1) AND (ring_size - 1)"

definition IxgbeDevice_new :: ixgbe where
  "IxgbeDevice_new =
     \<lparr>transmit_buffers = replicate NUM_DESCS None, transmit_rrefs = replicate NUM_DESCS None,
      transmit_ring = replicate NUM_DESCS \<lparr>td_buffer_addr = 0, td_cmd_type_len = 0, td_olinfo_status = 0\<rparr>,
      receive_buffers = replicate NUM_DESCS None, receive_rrefs = replicate NUM_DESCS None,
      receive_ring = replicate NUM_DESCS \<lparr>rd_pkt_addr = 0, rd_hdr_addr = 0\<rparr>,
      tx_slot = replicate NUM_DESCS False, rx_slot = replicate NUM_DESCS False,
      transmit_index = 0, transmit_clean_index = 0, rx_clean_index = 0, tx_clean_index = 0, receive_index = 0,
      ix_tdt = 0, ix_rdt = 0, ix_clock = 0, ix_dropped = [], ix_freed = []\<rparr>"

definition deque_push :: "nat \<Rightarrow> 'a \<Rightarrow> 'a list \<Rightarrow> 'a option \<times> 'a list" where
  "deque_push n x q = (if length q < n then (None, q @ [x]) else (Some x, q))"

text \<open>Volatile reads of the descriptors, and the status bits.\<close>

definition tx_status :: "nic \<Rightarrow> nat \<Rightarrow> ixgbe \<Rightarrow> 32 word \<times> ixgbe" where
  "tx_status nic i s = (nic_tx_status nic (ix_clock s) i, s\<lparr>ix_clock := ix_clock s + 1\<rparr>)"

definition rx_status :: "nic \<Rightarrow> nat \<Rightarrow> ixgbe \<Rightarrow> 32 word \<times> ixgbe" where
  "rx_status nic i s = (nic_rx_status nic (ix_clock s) i, s\<lparr>ix_clock := ix_clock s + 1\<rparr>)"

definition rx_length :: "nic \<Rightarrow> nat \<Rightarrow> ixgbe \<Rightarrow> nat \<times> ixgbe" where
  "rx_length nic i s = (nic_rx_length nic (ix_clock s) i mod 2 ^ 16, s\<lparr>ix_clock := ix_clock s + 1\<rparr>)"

definition stat_dd :: "32 word \<Rightarrow> bool" where
  "stat_dd status \<longleftrightarrow> status AND 0x01 \<noteq> 0"

definition stat_eop :: "32 word \<Rightarrow> bool" where
  "stat_eop status \<longleftrightarrow> status AND 0x02 \<noteq> 0"

section \<open>Transmission of remote references\<close>

text \<open>\<open>IXGBE_ADVTXD_DCMD_EOP | DCMD_RS | DCMD_IFCS | DCMD_DEXT | DTYP_DATA | len\<close>, and \<open>len << PAYLEN_SHIFT\<close>\<close>

definition cmd_type_len :: "nat \<Rightarrow> 32 word" where
  "cmd_type_len len = 0x01000000 OR 0x08000000 OR 0x02000000 OR 0x20000000 OR 0x00300000 OR of_nat len"

definition olinfo_status :: "nat \<Rightarrow> 32 word" where
  "olinfo_status len = push_bit 14 (of_nat len)"

definition real_pkt_len :: "pbuf \<Rightarrow> nat" where
  "real_pkt_len p = unat (pb_bytes p ! (14 + 2)) * 2 ^ 8 + unat (pb_bytes p ! (14 + 3)) + 14"

definition program_tx_rref :: "nat \<Rightarrow> pbuf \<Rightarrow> ixgbe \<Rightarrow> ixgbe option" where
  "program_tx_rref i packet s =
     do { ring \<leftarrow> upd_chk (transmit_ring s) i \<lparr>td_buffer_addr = pb_addr packet,
            td_cmd_type_len = cmd_type_len (real_pkt_len packet), td_olinfo_status = olinfo_status (real_pkt_len packet)\<rparr>;
          rrefs \<leftarrow> upd_chk (transmit_rrefs s) i (Some packet);
          slot \<leftarrow> upd_chk (tx_slot s) i True;
          Some (s\<lparr>transmit_ring := ring, transmit_rrefs := rrefs, tx_slot := slot\<rparr>) }"

text \<open>\<open>self.transmit_rrefs[i].take()\<close> and \<open>self.receive_rrefs[i].take()\<close>\<close>

definition take_tx :: "nat \<Rightarrow> ixgbe \<Rightarrow> (pbuf option \<times> ixgbe) option" where
  "take_tx i s =
     do { r \<leftarrow> nth_chk (transmit_rrefs s) i;
          Some (r, s\<lparr>transmit_rrefs := (transmit_rrefs s)[i := None]\<rparr>) }"

definition take_rx :: "nat \<Rightarrow> ixgbe \<Rightarrow> (pbuf option \<times> ixgbe) option" where
  "take_rx i s =
     do { r \<leftarrow> nth_chk (receive_rrefs s) i;
          Some (r, s\<lparr>receive_rrefs := (receive_rrefs s)[i := None]\<rparr>) }"

text \<open>
  The positions of a loop over a ring: how many packets were handled, the next index, the index to
  clean from, and the last index handled.
\<close>

record ring_pos =
  rp_count :: nat
  rp_index :: nat
  rp_clean :: nat
  rp_last :: nat

text \<open>The loop over the packets in \<open>tx_submit_and_poll_rref\<close>.\<close>

fun tx_submit_rref :: "nic \<Rightarrow> ring_pos \<Rightarrow> pbuf list \<Rightarrow> pbuf list \<Rightarrow> ixgbe \<Rightarrow>
    (ring_pos \<times> pbuf list \<times> pbuf list \<times> ixgbe) option" where
  "tx_submit_rref nic p [] reap s = Some (p, [], reap, s)"
| "tx_submit_rref nic p (packet # packets) reap s =
     (let i = rp_index p; (status, s) = tx_status nic i s
      in do { slot \<leftarrow> nth_chk (tx_slot s) i;
              if \<not> stat_dd status \<and> slot then Some (p, packets @ [packet], reap, s)
              else
                do { (taken, s) \<leftarrow> (if slot then take_tx i s else Some (None, s));
                     case taken of
                       None \<Rightarrow>
                         do { s \<leftarrow> program_tx_rref i packet s;
                              tx_submit_rref nic (p\<lparr>rp_count := rp_count p + 1, rp_last := i, rp_index := wrap_ring i NUM_DESCS\<rparr>)
                                packets reap s }
                     | Some buf \<Rightarrow>
                         (case deque_push IXGBE_BATCH buf reap of
                            (Some buf, reap) \<Rightarrow>
                              do { rrefs \<leftarrow> upd_chk (transmit_rrefs s) i (Some buf);
                                   Some (p, packets, reap, s\<lparr>transmit_rrefs := rrefs, ix_dropped := ix_dropped s @ [packet]\<rparr>) }
                          | (None, reap) \<Rightarrow>
                              do { s \<leftarrow> program_tx_rref i packet s;
                                   tx_submit_rref nic
                                     (p\<lparr>rp_count := rp_count p + 1, rp_last := i, rp_index := wrap_ring i NUM_DESCS,
                                        rp_clean := wrap_ring (rp_clean p) NUM_DESCS\<rparr>)
                                     packets reap s }) } })"

text \<open>A reference pushed onto a queue whose answer is only looked at for printing: what does not fit is dropped.\<close>

definition push_or_drop :: "nat \<Rightarrow> pbuf option \<Rightarrow> pbuf list \<Rightarrow> ixgbe \<Rightarrow> pbuf list \<times> ixgbe" where
  "push_or_drop n r reap s =
     (case r of
        None \<Rightarrow> (reap, s)
      | Some buf \<Rightarrow>
          (case deque_push n buf reap of
             (None, reap) \<Rightarrow> (reap, s)
           | (Some buf, reap) \<Rightarrow> (reap, s\<lparr>ix_dropped := ix_dropped s @ [buf]\<rparr>)))"

text \<open>\<open>self.transmit_buffers[i] = v\<close>, dropping the vector that was there, and the same for the receive ring.\<close>

definition set_tx_buffer :: "nat \<Rightarrow> vbuf option \<Rightarrow> ixgbe \<Rightarrow> ixgbe option" where
  "set_tx_buffer i v s =
     do { old \<leftarrow> nth_chk (transmit_buffers s) i;
          Some (s\<lparr>transmit_buffers := (transmit_buffers s)[i := v],
                  ix_freed := ix_freed s @ (case old of None \<Rightarrow> [] | Some w \<Rightarrow> [vb_ptr w])\<rparr>) }"

definition set_rx_buffer :: "nat \<Rightarrow> vbuf option \<Rightarrow> ixgbe \<Rightarrow> ixgbe option" where
  "set_rx_buffer i v s =
     do { old \<leftarrow> nth_chk (receive_buffers s) i;
          Some (s\<lparr>receive_buffers := (receive_buffers s)[i := v],
                  ix_freed := ix_freed s @ (case old of None \<Rightarrow> [] | Some w \<Rightarrow> [vb_ptr w])\<rparr>) }"

text \<open>The loop that reaps sent buffers, with \<open>k + 1\<close> iterations left at most.\<close>

fun tx_reap_rref :: "nic \<Rightarrow> nat \<Rightarrow> nat \<Rightarrow> pbuf list \<Rightarrow> ixgbe \<Rightarrow> (nat \<times> pbuf list \<times> ixgbe) option" where
  "tx_reap_rref nic clean 0 reap s = Some (clean, reap, s)"
| "tx_reap_rref nic clean (Suc k) reap s =
     (let (status, s) = tx_status nic clean s
      in do { (clean, reap, s) \<leftarrow>
                (if stat_dd status then
                   do { slot \<leftarrow> nth_chk (tx_slot s) clean;
                        (reap, s) \<leftarrow>
                          (if slot then
                             do { (taken, s) \<leftarrow> take_tx clean s;
                                  let (reap, s) = push_or_drop IXGBE_BATCH taken reap s;
                                  s \<leftarrow> set_tx_buffer clean None (s\<lparr>tx_slot := (tx_slot s)[clean := False]\<rparr>);
                                  Some (reap, s) }
                           else Some (reap, s));
                        Some (wrap_ring clean NUM_DESCS, reap, s) }
                 else Some (clean, reap, s));
              if clean = transmit_index s then Some (clean, reap, s)
              else tx_reap_rref nic clean k reap s })"

definition tx_submit_and_poll_rref :: "nic \<Rightarrow> pbuf list \<Rightarrow> pbuf list \<Rightarrow> ixgbe \<Rightarrow>
    (nat \<times> pbuf list \<times> pbuf list \<times> ixgbe) option" where
  "tx_submit_and_poll_rref nic packets reap s =
     do { (p, packets, reap, s) \<leftarrow>
            tx_submit_rref nic \<lparr>rp_count = 0, rp_index = transmit_index s, rp_clean = tx_clean_index s, rp_last = transmit_index s\<rparr>
              packets reap s;
          (clean, reap, s) \<leftarrow>
            (if length reap < IXGBE_BATCH then
               do { (clean, reap, s) \<leftarrow> tx_reap_rref nic (rp_clean p) (IXGBE_BATCH - length reap) reap s;
                    Some (clean, reap, s\<lparr>tx_clean_index := wrap_ring clean NUM_DESCS\<rparr>) }
             else Some (rp_clean p, reap, s));
          let s = (if rp_index p \<noteq> rp_last p
                   then s\<lparr>ix_tdt := rp_index p, transmit_index := rp_index p, tx_clean_index := clean\<rparr> else s);
          Some (rp_count p, packets, reap, s) }"

section \<open>Reception of remote references\<close>

definition program_rx_rref :: "nat \<Rightarrow> pbuf \<Rightarrow> ixgbe \<Rightarrow> ixgbe option" where
  "program_rx_rref i packet s =
     do { ring \<leftarrow> upd_chk (receive_ring s) i \<lparr>rd_pkt_addr = pb_addr packet, rd_hdr_addr = 0\<rparr>;
          rrefs \<leftarrow> upd_chk (receive_rrefs s) i (Some packet);
          slot \<leftarrow> upd_chk (rx_slot s) i True;
          Some (s\<lparr>receive_ring := ring, receive_rrefs := rrefs, rx_slot := slot\<rparr>) }"

text \<open>The loop over the buffers in \<open>rx_submit_and_poll_rref\<close>.\<close>

fun rx_submit_rref :: "nic \<Rightarrow> ring_pos \<Rightarrow> pbuf list \<Rightarrow> pbuf list \<Rightarrow> ixgbe \<Rightarrow>
    (ring_pos \<times> pbuf list \<times> pbuf list \<times> ixgbe) option" where
  "rx_submit_rref nic p [] reap s = Some (p, [], reap, s)"
| "rx_submit_rref nic p (packet # packets) reap s =
     (let i = rp_index p; (status, s) = rx_status nic i s
      in do { slot \<leftarrow> nth_chk (rx_slot s) i;
              if \<not> stat_dd status \<and> slot then Some (p, packets @ [packet], reap, s)
              else
                do { assert_that (stat_dd status \<longrightarrow> stat_eop status);
                     let (len, s) = rx_length nic i s;
                     (p, reap, s) \<leftarrow>
                       (if slot then
                          do { (taken, s) \<leftarrow> take_rx i s;
                               let (reap, s) =
                                 (if len \<le> PKT_SIZE then push_or_drop IXGBE_BATCH taken reap s
                                  else (reap, s\<lparr>ix_dropped := ix_dropped s @ (case taken of None \<Rightarrow> [] | Some buf \<Rightarrow> [buf])\<rparr>));
                               Some (p\<lparr>rp_clean := wrap_ring (rp_clean p) NUM_DESCS\<rparr>, reap, s\<lparr>rx_slot := (rx_slot s)[i := False]\<rparr>) }
                        else Some (p, reap, s));
                     s \<leftarrow> program_rx_rref i packet s;
                     rx_submit_rref nic (p\<lparr>rp_count := rp_count p + 1, rp_last := i, rp_index := wrap_ring i NUM_DESCS\<rparr>)
                       packets reap s } })"

text \<open>The loop that reaps received buffers.\<close>

fun rx_reap_rref :: "nic \<Rightarrow> nat \<Rightarrow> nat \<Rightarrow> pbuf list \<Rightarrow> ixgbe \<Rightarrow> (nat \<times> pbuf list \<times> ixgbe) option" where
  "rx_reap_rref nic clean 0 reap s = Some (clean, reap, s)"
| "rx_reap_rref nic clean (Suc k) reap s =
     (let (status, s) = rx_status nic clean s
      in if \<not> stat_dd status then Some (clean, reap, s)
         else
           do { assert_that (stat_eop status);
                slot \<leftarrow> nth_chk (rx_slot s) clean;
                (clean, reap, s) \<leftarrow>
                  (if slot then
                     do { (taken, s) \<leftarrow> take_rx clean s;
                          let s = (if taken = None then s else snd (rx_length nic clean s));
                          let (reap, s) = push_or_drop IXGBE_BATCH taken reap s;
                          Some (wrap_ring clean NUM_DESCS, reap,
                            s\<lparr>rx_slot := (rx_slot s)[clean := False], receive_rrefs := (receive_rrefs s)[clean := None]\<rparr>) }
                   else Some (clean, reap, s));
                if clean = receive_index s then Some (clean, reap, s)
                else rx_reap_rref nic clean k reap s })"

definition rx_submit_and_poll_rref :: "nic \<Rightarrow> pbuf list \<Rightarrow> pbuf list \<Rightarrow> ixgbe \<Rightarrow>
    (nat \<times> pbuf list \<times> pbuf list \<times> ixgbe) option" where
  "rx_submit_and_poll_rref nic packets reap s =
     do { (p, packets, reap, s) \<leftarrow>
            rx_submit_rref nic \<lparr>rp_count = 0, rp_index = receive_index s, rp_clean = rx_clean_index s, rp_last = receive_index s\<rparr>
              packets reap s;
          let last_rx_clean = wrap_ring (rp_clean p) NUM_DESCS;
          (clean, reap, s) \<leftarrow>
            (if length reap < IXGBE_BATCH then
               do { (clean, reap, s) \<leftarrow> rx_reap_rref nic last_rx_clean (IXGBE_BATCH - length reap) reap s;
                    Some (if last_rx_clean \<noteq> clean then wrap_ring clean NUM_DESCS else clean, reap, s) }
             else Some (last_rx_clean, reap, s));
          let s = (if rp_index p \<noteq> rp_last p
                   then s\<lparr>ix_rdt := rp_last p, receive_index := rp_index p, rx_clean_index := clean\<rparr> else s);
          Some (rp_count p, packets, reap, s) }"

definition submit_and_poll_rref :: "nic \<Rightarrow> pbuf list \<Rightarrow> pbuf list \<Rightarrow> bool \<Rightarrow> ixgbe \<Rightarrow>
    (nat \<times> pbuf list \<times> pbuf list \<times> ixgbe) option" where
  "submit_and_poll_rref nic packets collect tx s =
     (if tx then tx_submit_and_poll_rref nic packets collect s else rx_submit_and_poll_rref nic packets collect s)"

section \<open>Polling\<close>

text \<open>The loops of \<open>tx_poll_rref\<close> and \<open>rx_poll_rref\<close> over the descriptors \<open>is\<close> still to be looked at.\<close>

fun tx_poll_from :: "nic \<Rightarrow> nat list \<Rightarrow> nat \<Rightarrow> pbuf list \<Rightarrow> ixgbe \<Rightarrow> (nat \<times> pbuf list \<times> ixgbe) option" where
  "tx_poll_from nic [] reaped reap s = Some (reaped, reap, s)"
| "tx_poll_from nic (i # ids) reaped reap s =
     (let (status, s) = tx_status nic i s
      in do { slot \<leftarrow> nth_chk (tx_slot s) i;
              if stat_dd status \<and> slot then
                do { (taken, s) \<leftarrow> take_tx i s;
                     let (reap, s) = push_or_drop NUM_DESCS taken reap s;
                     tx_poll_from nic ids (reaped + 1) reap
                       (s\<lparr>tx_slot := (tx_slot s)[i := False], transmit_rrefs := (transmit_rrefs s)[i := None]\<rparr>) }
              else tx_poll_from nic ids reaped reap s })"

definition tx_poll_rref :: "nic \<Rightarrow> pbuf list \<Rightarrow> ixgbe \<Rightarrow> (nat \<times> pbuf list \<times> ixgbe) option" where
  "tx_poll_rref nic reap s =
     do { (reaped, reap, s) \<leftarrow> tx_poll_from nic [0..<NUM_DESCS] 0 reap s;
          Some (reaped, reap, if 0 < reaped then s\<lparr>tx_clean_index := transmit_index s\<rparr> else s) }"

fun rx_poll_from :: "nic \<Rightarrow> nat list \<Rightarrow> nat \<Rightarrow> pbuf list \<Rightarrow> ixgbe \<Rightarrow> (nat \<times> pbuf list \<times> ixgbe) option" where
  "rx_poll_from nic [] reaped reap s = Some (reaped, reap, s)"
| "rx_poll_from nic (i # ids) reaped reap s =
     (let (status, s) = rx_status nic i s
      in do { assert_that (stat_dd status \<longrightarrow> stat_eop status);
              slot \<leftarrow> nth_chk (rx_slot s) i;
              if stat_dd status \<and> slot then
                do { (taken, s) \<leftarrow> take_rx i s;
                     let s = (if taken = None then s else snd (rx_length nic i s));
                     let (reap, s) = push_or_drop NUM_DESCS taken reap s;
                     rx_poll_from nic ids (reaped + 1) reap
                       (s\<lparr>rx_slot := (rx_slot s)[i := False], receive_rrefs := (receive_rrefs s)[i := None]\<rparr>) }
              else rx_poll_from nic ids reaped reap s })"

definition rx_poll_rref :: "nic \<Rightarrow> pbuf list \<Rightarrow> ixgbe \<Rightarrow> (nat \<times> pbuf list \<times> ixgbe) option" where
  "rx_poll_rref nic reap s =
     do { (reaped, reap, s) \<leftarrow> rx_poll_from nic [0..<NUM_DESCS] 0 reap s;
          Some (reaped, reap, if 0 < reaped then s\<lparr>rx_clean_index := receive_index s\<rparr> else s) }"

definition poll_rref :: "nic \<Rightarrow> pbuf list \<Rightarrow> bool \<Rightarrow> ixgbe \<Rightarrow> (nat \<times> pbuf list \<times> ixgbe) option" where
  "poll_rref nic reap tx s = (if tx then tx_poll_rref nic reap s else rx_poll_rref nic reap s)"

section \<open>Transmission of vectors\<close>

text \<open>
  The older interface passes \<open>Vec<u8>\<close>s.  \<open>VecDeque::push_front\<close> is \<open>#\<close>.  \<open>Vec::from_raw_parts\<close> makes a
  second vector of the memory of the one in the ring, which is then dropped.  \<open>clean_tx_loop\<close> has no
  result for indices outside the ring.
\<close>

function clean_tx_loop :: "nic \<Rightarrow> nat \<Rightarrow> nat \<Rightarrow> ixgbe \<Rightarrow> (nat \<times> ixgbe) option" where
  "clean_tx_loop nic cur clean s =
     (if NUM_DESCS \<le> clean \<or> NUM_DESCS \<le> cur then None
      else
        (let cleanable = (if int cur - int clean < 0 then int cur - int clean + int NUM_DESCS else int cur - int clean)
         in if cleanable < TX_CLEAN_BATCH then Some (clean, s)
            else
              (let (status, s) = tx_status nic clean s
               in if stat_dd status then clean_tx_loop nic cur (wrap_ring clean NUM_DESCS) s
                  else Some (clean, s))))"
  by pat_completeness auto
termination
proof (relation "measure (\<lambda>(nic, cur, clean, s). nat (if int cur - int clean < 0 then int cur - int clean + int NUM_DESCS else int cur - int clean))")
  show "wf (measure (\<lambda>(nic :: nic, cur, clean, s :: ixgbe). nat (if int cur - int clean < 0 then int cur - int clean + int NUM_DESCS else int cur - int clean)))"
    by simp
next
  fix nic :: nic and cur clean and s s' :: ixgbe and x st
  assume a: "\<not> (NUM_DESCS \<le> clean \<or> NUM_DESCS \<le> cur)" "x = (if int cur - int clean < 0 then int cur - int clean + int NUM_DESCS else int cur - int clean)"
    "\<not> x < TX_CLEAN_BATCH"
  have w: "wrap_ring clean NUM_DESCS = (if clean = 511 then 0 else clean + 1)"
  proof -
    have "wrap_ring clean NUM_DESCS = (clean + 1) mod 2 ^ 9" using and_pow2_mod[of "clean + 1" 9] by (simp add: wrap_ring_def)
    then show ?thesis using a(1) by (auto simp: mod_if)
  qed
  show "((nic, cur, wrap_ring clean NUM_DESCS, s'), nic, cur, clean, s)
    \<in> measure (\<lambda>(nic, cur, clean, s). nat (if int cur - int clean < 0 then int cur - int clean + int NUM_DESCS else int cur - int clean))"
    using a unfolding w by (auto split: if_splits)
qed

definition clean_tx_queue :: "nic \<Rightarrow> ixgbe \<Rightarrow> (nat \<times> ixgbe) option" where
  "clean_tx_queue nic s =
     do { (clean, s) \<leftarrow> clean_tx_loop nic (transmit_index s) (transmit_clean_index s) s;
          Some (clean, s\<lparr>transmit_clean_index := clean\<rparr>) }"

definition program_tx_vec :: "nat \<Rightarrow> vbuf \<Rightarrow> ixgbe \<Rightarrow> ixgbe option" where
  "program_tx_vec i packet s =
     do { ring \<leftarrow> upd_chk (transmit_ring s) i \<lparr>td_buffer_addr = vb_ptr packet,
            td_cmd_type_len = cmd_type_len (vb_len packet), td_olinfo_status = olinfo_status (vb_len packet)\<rparr>;
          s \<leftarrow> set_tx_buffer i (Some packet) s;
          slot \<leftarrow> upd_chk (tx_slot s) i True;
          Some (s\<lparr>transmit_ring := ring, tx_slot := slot\<rparr>) }"

fun submit_from :: "nat \<Rightarrow> nat \<Rightarrow> nat \<Rightarrow> vbuf list \<Rightarrow> ixgbe \<Rightarrow> (nat \<times> vbuf list \<times> ixgbe) option" where
  "submit_from clean cur sent [] s = Some (sent, [], s)"
| "submit_from clean cur sent (packet # packets) s =
     (let next_index = wrap_ring cur NUM_DESCS
      in if clean = next_index then Some (sent, packet # packets, s)
         else
           do { s \<leftarrow> program_tx_vec cur packet (s\<lparr>transmit_index := wrap_ring (transmit_index s) NUM_DESCS\<rparr>);
                submit_from clean next_index (sent + 1) packets s })"

definition ix_submit :: "nic \<Rightarrow> vbuf list \<Rightarrow> ixgbe \<Rightarrow> (nat \<times> vbuf list \<times> ixgbe) option" where
  "ix_submit nic packets s =
     do { let cur = transmit_index s;
          (clean, s) \<leftarrow> clean_tx_queue nic s;
          (sent, packets, s) \<leftarrow> submit_from clean cur 0 packets s;
          Some (sent, packets, if 0 < sent then s\<lparr>ix_tdt := transmit_index s\<rparr> else s) }"

text \<open>\<open>tx_submit_and_poll\<close>: the loop over the packets, and the loop that reaps sent ones.\<close>

fun tx_submit_vec :: "nic \<Rightarrow> ring_pos \<Rightarrow> vbuf list \<Rightarrow> vbuf list \<Rightarrow> ixgbe \<Rightarrow>
    (ring_pos \<times> vbuf list \<times> vbuf list \<times> ixgbe) option" where
  "tx_submit_vec nic p [] reap s = Some (p, [], reap, s)"
| "tx_submit_vec nic p (packet # packets) reap s =
     (let i = rp_index p; (status, s) = tx_status nic i s
      in do { slot \<leftarrow> nth_chk (tx_slot s) i;
              if \<not> stat_dd status \<and> slot then Some (p, packet # packets, reap, s)
              else
                do { old \<leftarrow> nth_chk (transmit_buffers s) i;
                     let reap = (case old of Some v \<Rightarrow> if slot then v\<lparr>vb_len := vb_len packet\<rparr> # reap else reap | None \<Rightarrow> reap);
                     let clean = (if slot then wrap_ring (rp_clean p) NUM_DESCS else rp_clean p);
                     s \<leftarrow> program_tx_vec i packet s;
                     tx_submit_vec nic (p\<lparr>rp_count := rp_count p + 1, rp_last := i, rp_index := wrap_ring i NUM_DESCS, rp_clean := clean\<rparr>)
                       packets reap s } })"

fun tx_reap_vec :: "nic \<Rightarrow> nat \<Rightarrow> nat \<Rightarrow> vbuf list \<Rightarrow> ixgbe \<Rightarrow> (nat \<times> vbuf list \<times> ixgbe) option" where
  "tx_reap_vec nic clean 0 reap s = Some (clean, reap, s)"
| "tx_reap_vec nic clean (Suc k) reap s =
     (let (status, s) = tx_status nic clean s
      in do { (clean, reap, s) \<leftarrow>
                (if stat_dd status then
                   do { slot \<leftarrow> nth_chk (tx_slot s) clean;
                        (reap, s) \<leftarrow>
                          (if slot then
                             do { old \<leftarrow> nth_chk (transmit_buffers s) clean;
                                  s \<leftarrow> set_tx_buffer clean None (s\<lparr>tx_slot := (tx_slot s)[clean := False]\<rparr>);
                                  Some (case old of Some v \<Rightarrow> v # reap | None \<Rightarrow> reap, s) }
                           else Some (reap, s));
                        Some (wrap_ring clean NUM_DESCS, reap, s) }
                 else Some (clean, reap, s));
              if clean = transmit_index s then Some (clean, reap, s)
              else tx_reap_vec nic clean k reap s })"

definition tx_submit_and_poll :: "nic \<Rightarrow> vbuf list \<Rightarrow> vbuf list \<Rightarrow> ixgbe \<Rightarrow> (nat \<times> vbuf list \<times> vbuf list \<times> ixgbe) option" where
  "tx_submit_and_poll nic packets reap s =
     (if packets = [] then Some (0, [], reap, s)
      else
        do { (p, packets, reap, s) \<leftarrow>
               tx_submit_vec nic \<lparr>rp_count = 0, rp_index = transmit_index s, rp_clean = tx_clean_index s, rp_last = transmit_index s\<rparr>
                 packets reap s;
             (clean, reap, s) \<leftarrow>
               (if length reap < IXGBE_BATCH then
                  do { (clean, reap, s) \<leftarrow> tx_reap_vec nic (rp_clean p) (IXGBE_BATCH - length reap) reap s;
                       Some (clean, reap, s\<lparr>tx_clean_index := wrap_ring clean NUM_DESCS\<rparr>) }
                else Some (rp_clean p, reap, s));
             let s = (if rp_index p \<noteq> rp_last p
                      then s\<lparr>ix_tdt := rp_index p, transmit_index := rp_index p, tx_clean_index := clean\<rparr> else s);
             Some (rp_count p, packets, reap, s) })"

fun tx_poll_vec :: "nic \<Rightarrow> nat list \<Rightarrow> nat \<Rightarrow> vbuf list \<Rightarrow> ixgbe \<Rightarrow> (nat \<times> vbuf list \<times> ixgbe) option" where
  "tx_poll_vec nic [] reaped reap s = Some (reaped, reap, s)"
| "tx_poll_vec nic (i # ids) reaped reap s =
     (let (status, s) = tx_status nic i s
      in do { slot \<leftarrow> nth_chk (tx_slot s) i;
              if stat_dd status \<and> slot then
                do { old \<leftarrow> nth_chk (transmit_buffers s) i;
                     s \<leftarrow> set_tx_buffer i None (s\<lparr>tx_slot := (tx_slot s)[i := False]\<rparr>);
                     tx_poll_vec nic ids (reaped + 1) (case old of Some v \<Rightarrow> v # reap | None \<Rightarrow> reap) s }
              else tx_poll_vec nic ids reaped reap s })"

definition tx_poll :: "nic \<Rightarrow> vbuf list \<Rightarrow> ixgbe \<Rightarrow> (nat \<times> vbuf list \<times> ixgbe) option" where
  "tx_poll nic reap s =
     do { (reaped, reap, s) \<leftarrow> tx_poll_vec nic [0..<NUM_DESCS] 0 reap s;
          Some (reaped, reap, if 0 < reaped then s\<lparr>tx_clean_index := transmit_index s\<rparr> else s) }"

section \<open>Reception of vectors\<close>

fun rx_submit_vec :: "nic \<Rightarrow> ring_pos \<Rightarrow> vbuf list \<Rightarrow> vbuf list \<Rightarrow> ixgbe \<Rightarrow>
    (ring_pos \<times> vbuf list \<times> vbuf list \<times> ixgbe) option" where
  "rx_submit_vec nic p [] reap s = Some (p, [], reap, s)"
| "rx_submit_vec nic p (packet # packets) reap s =
     (let i = rp_index p; (status, s) = rx_status nic i s
      in do { slot \<leftarrow> nth_chk (rx_slot s) i;
              if \<not> stat_dd status \<and> slot then Some (p, packet # packets, reap, s)
              else
                do { assert_that (stat_dd status \<longrightarrow> stat_eop status);
                     let (len, s) = rx_length nic i s;
                     (p, reap, s) \<leftarrow>
                       (if slot then
                          do { old \<leftarrow> nth_chk (receive_buffers s) i;
                               s \<leftarrow> set_rx_buffer i None s;
                               Some (p\<lparr>rp_clean := wrap_ring (rp_clean p) NUM_DESCS\<rparr>,
                                 (case old of Some v \<Rightarrow> if len \<le> vb_cap v then reap @ [v\<lparr>vb_len := len\<rparr>] else reap | None \<Rightarrow> reap),
                                 s\<lparr>rx_slot := (rx_slot s)[i := False]\<rparr>) }
                        else Some (p, reap, s));
                     ring \<leftarrow> upd_chk (receive_ring s) i \<lparr>rd_pkt_addr = vb_ptr packet, rd_hdr_addr = 0\<rparr>;
                     s \<leftarrow> set_rx_buffer i (Some packet) s;
                     rx_submit_vec nic (p\<lparr>rp_count := rp_count p + 1, rp_last := i, rp_index := wrap_ring i NUM_DESCS\<rparr>)
                       packets reap (s\<lparr>receive_ring := ring, rx_slot := (rx_slot s)[i := True]\<rparr>) } })"

fun rx_reap_vec :: "nic \<Rightarrow> nat \<Rightarrow> nat \<Rightarrow> vbuf list \<Rightarrow> ixgbe \<Rightarrow> (nat \<times> vbuf list \<times> ixgbe) option" where
  "rx_reap_vec nic clean 0 reap s = Some (clean, reap, s)"
| "rx_reap_vec nic clean (Suc k) reap s =
     (let (status, s) = rx_status nic clean s
      in if \<not> stat_dd status then Some (clean, reap, s)
         else
           do { assert_that (stat_eop status);
                slot \<leftarrow> nth_chk (rx_slot s) clean;
                (clean, reap, s) \<leftarrow>
                  (if slot then
                     do { old \<leftarrow> nth_chk (receive_buffers s) clean;
                          let (len, s) = (if old = None then (0, s) else rx_length nic clean s);
                          s \<leftarrow> set_rx_buffer clean None (s\<lparr>rx_slot := (rx_slot s)[clean := False]\<rparr>);
                          Some (wrap_ring clean NUM_DESCS, (case old of Some v \<Rightarrow> reap @ [v\<lparr>vb_len := len\<rparr>] | None \<Rightarrow> reap), s) }
                   else Some (clean, reap, s));
                if clean = receive_index s then Some (clean, reap, s)
                else rx_reap_vec nic clean k reap s })"

definition rx_submit_and_poll :: "nic \<Rightarrow> vbuf list \<Rightarrow> vbuf list \<Rightarrow> ixgbe \<Rightarrow> (nat \<times> vbuf list \<times> vbuf list \<times> ixgbe) option" where
  "rx_submit_and_poll nic packets reap s =
     do { (p, packets, reap, s) \<leftarrow>
            rx_submit_vec nic \<lparr>rp_count = 0, rp_index = receive_index s, rp_clean = rx_clean_index s, rp_last = receive_index s\<rparr>
              packets reap s;
          let last_rx_clean = wrap_ring (rp_clean p) NUM_DESCS;
          (clean, reap, s) \<leftarrow>
            (if length reap < IXGBE_BATCH then
               do { (clean, reap, s) \<leftarrow> rx_reap_vec nic last_rx_clean (IXGBE_BATCH - length reap) reap s;
                    Some (if last_rx_clean \<noteq> clean then wrap_ring clean NUM_DESCS else clean, reap, s) }
             else Some (last_rx_clean, reap, s));
          let s = (if rp_index p \<noteq> rp_last p
                   then s\<lparr>ix_rdt := rp_last p, receive_index := rp_index p, rx_clean_index := clean\<rparr> else s);
          Some (rp_count p, packets, reap, s) }"

fun rx_poll_vec :: "nic \<Rightarrow> nat list \<Rightarrow> nat \<Rightarrow> vbuf list \<Rightarrow> ixgbe \<Rightarrow> (nat \<times> vbuf list \<times> ixgbe) option" where
  "rx_poll_vec nic [] reaped reap s = Some (reaped, reap, s)"
| "rx_poll_vec nic (i # ids) reaped reap s =
     (let (status, s) = rx_status nic i s
      in do { assert_that (stat_dd status \<longrightarrow> stat_eop status);
              slot \<leftarrow> nth_chk (rx_slot s) i;
              if stat_dd status \<and> slot then
                do { old \<leftarrow> nth_chk (receive_buffers s) i;
                     let (len, s) = (if old = None then (0, s) else rx_length nic i s);
                     s \<leftarrow> set_rx_buffer i None (s\<lparr>rx_slot := (rx_slot s)[i := False]\<rparr>);
                     rx_poll_vec nic ids (reaped + 1) (case old of Some v \<Rightarrow> v\<lparr>vb_len := len\<rparr> # reap | None \<Rightarrow> reap) s }
              else rx_poll_vec nic ids reaped reap s })"

definition rx_poll :: "nic \<Rightarrow> vbuf list \<Rightarrow> ixgbe \<Rightarrow> (nat \<times> vbuf list \<times> ixgbe) option" where
  "rx_poll nic reap s =
     do { (reaped, reap, s) \<leftarrow> rx_poll_vec nic [0..<NUM_DESCS] 0 reap s;
          Some (reaped, reap, if 0 < reaped then s\<lparr>rx_clean_index := receive_index s\<rparr> else s) }"

definition submit_and_poll :: "nic \<Rightarrow> vbuf list \<Rightarrow> vbuf list \<Rightarrow> bool \<Rightarrow> ixgbe \<Rightarrow> (nat \<times> vbuf list \<times> vbuf list \<times> ixgbe) option" where
  "submit_and_poll nic packets reap tx s =
     (if tx then tx_submit_and_poll nic packets reap s else rx_submit_and_poll nic packets reap s)"

definition ix_poll :: "nic \<Rightarrow> vbuf list \<Rightarrow> bool \<Rightarrow> ixgbe \<Rightarrow> (nat \<times> vbuf list \<times> ixgbe) option" where
  "ix_poll nic reap tx s = (if tx then tx_poll nic reap s else rx_poll nic reap s)"

section \<open>The driver's domain\<close>

text \<open>
  The methods of the interface \<open>Net\<close> in \<^verbatim>\<open>src/domains/sys/driver/ixgbe/src/lib.rs\<close>, under the domain's lock.  Before
  the device is probed they give an error, and the queues passed in are dropped with everything in them.
\<close>

datatype net_error = UninitializedDevice

definition Ixgbe_submit_and_poll :: "nic \<Rightarrow> vbuf list \<Rightarrow> vbuf list \<Rightarrow> bool \<Rightarrow> ixgbe option \<Rightarrow>
    ((net_error + nat) \<times> vbuf list \<times> vbuf list \<times> ixgbe option) option" where
  "Ixgbe_submit_and_poll nic packets collect tx device =
     (case device of
        None \<Rightarrow> Some (Inl UninitializedDevice, packets, collect, None)
      | Some s \<Rightarrow>
          do { (ret, packets, collect, s) \<leftarrow> submit_and_poll nic packets collect tx s;
               Some (Inr ret, packets, collect, Some s) })"

definition Ixgbe_submit_and_poll_rref :: "nic \<Rightarrow> pbuf list \<Rightarrow> pbuf list \<Rightarrow> bool \<Rightarrow> ixgbe option \<Rightarrow>
    ((net_error + nat \<times> pbuf list \<times> pbuf list) \<times> ixgbe option) option" where
  "Ixgbe_submit_and_poll_rref nic packets collect tx device =
     (case device of
        None \<Rightarrow> Some (Inl UninitializedDevice, None)
      | Some s \<Rightarrow>
          do { (num, packets, collect, s) \<leftarrow> submit_and_poll_rref nic packets collect tx s;
               Some (Inr (num, packets, collect), Some s) })"

definition Ixgbe_poll :: "nic \<Rightarrow> vbuf list \<Rightarrow> bool \<Rightarrow> ixgbe option \<Rightarrow> ((net_error + nat) \<times> vbuf list \<times> ixgbe option) option" where
  "Ixgbe_poll nic collect tx device =
     (case device of
        None \<Rightarrow> Some (Inl UninitializedDevice, collect, None)
      | Some s \<Rightarrow>
          do { (ret, collect, s) \<leftarrow> ix_poll nic collect tx s;
               Some (Inr ret, collect, Some s) })"

definition Ixgbe_poll_rref :: "nic \<Rightarrow> pbuf list \<Rightarrow> bool \<Rightarrow> ixgbe option \<Rightarrow> ((net_error + nat \<times> pbuf list) \<times> ixgbe option) option" where
  "Ixgbe_poll_rref nic collect tx device =
     (case device of
        None \<Rightarrow> Some (Inl UninitializedDevice, None)
      | Some s \<Rightarrow>
          do { (num, collect, s) \<leftarrow> poll_rref nic collect tx s;
               Some (Inr (num, collect), Some s) })"

end
