(* ===== verification/Ixgbe_Spec.thy ===== *)
theory Ixgbe_Spec
  imports Ixgbe "HOL-Library.Multiset"
begin

text \<open>
  Correctness of the network driver's rings.  \<open>ring_step\<close> is the protocol between the driver, its
  clients and the device: a descriptor is looked at, a buffer is put into a free slot, a buffer is
  taken out of a slot right after the device reported it done, a buffer is dropped.  Every loop of the driver
  is a sequence of such steps, so what the steps keep holds of the driver: no packet buffer is lost
  or duplicated, a descriptor names the buffer its slot holds, and a buffer the device has not
  reported done stays in the ring, whatever the device answers.
\<close>

section \<open>The protocol\<close>

record 'd dring =
  dr_bufs :: "pbuf option list"
  dr_slot :: "bool list"
  dr_desc :: "'d list"
  dr_clock :: nat
  dr_dropped :: "pbuf list"

definition look_buf :: "'d dring \<Rightarrow> 'd dring" where
  "look_buf r = r\<lparr>dr_clock := dr_clock r + 1\<rparr>"

definition put_buf :: "(pbuf \<Rightarrow> 'd) \<Rightarrow> nat \<Rightarrow> pbuf \<Rightarrow> 'd dring \<Rightarrow> 'd dring" where
  "put_buf d i p r = r\<lparr>dr_bufs := (dr_bufs r)[i := Some p], dr_slot := (dr_slot r)[i := True], dr_desc := (dr_desc r)[i := d p]\<rparr>"

definition take_buf :: "nat \<Rightarrow> 'd dring \<Rightarrow> 'd dring" where
  "take_buf i r = r\<lparr>dr_bufs := (dr_bufs r)[i := None], dr_slot := (dr_slot r)[i := False], dr_clock := dr_clock r + 1\<rparr>"

definition drop_buf :: "pbuf \<Rightarrow> 'd dring \<Rightarrow> 'd dring" where
  "drop_buf p r = r\<lparr>dr_dropped := dr_dropped r @ [p]\<rparr>"

text \<open>The second part of a state is what the callers of the driver hold.\<close>

inductive ring_step :: "(nat \<Rightarrow> nat \<Rightarrow> 32 word) \<Rightarrow> (pbuf \<Rightarrow> 'd) \<Rightarrow> 'd dring \<times> pbuf multiset \<Rightarrow> 'd dring \<times> pbuf multiset \<Rightarrow> bool"
  for st d where
  look: "ring_step st d (r, M) (look_buf r, M)"
| put: "i < NUM_DESCS \<Longrightarrow> \<not> dr_slot r ! i \<Longrightarrow> ring_step st d (r, add_mset p M) (put_buf d i p r, M)"
| reap: "i < NUM_DESCS \<Longrightarrow> dr_bufs r ! i = Some b \<Longrightarrow> stat_dd (st (dr_clock r) i) \<Longrightarrow>
    ring_step st d (r, M) (take_buf i r, add_mset b M)"
| drop: "ring_step st d (r, add_mset p M) (drop_buf p r, M)"

abbreviation ring_steps :: "(nat \<Rightarrow> nat \<Rightarrow> 32 word) \<Rightarrow> (pbuf \<Rightarrow> 'd) \<Rightarrow> 'd dring \<times> pbuf multiset \<Rightarrow> 'd dring \<times> pbuf multiset \<Rightarrow> bool" where
  "ring_steps st d \<equiv> (ring_step st d)\<^sup>*\<^sup>*"

text \<open>A slot is in use exactly when it holds a buffer, and its descriptor names that buffer.\<close>

definition ring_ok :: "(pbuf \<Rightarrow> 'd) \<Rightarrow> 'd dring \<Rightarrow> bool" where
  "ring_ok d r \<longleftrightarrow> length (dr_bufs r) = NUM_DESCS \<and> length (dr_slot r) = NUM_DESCS \<and> length (dr_desc r) = NUM_DESCS \<and>
     (\<forall>i < NUM_DESCS. (dr_slot r ! i \<longleftrightarrow> dr_bufs r ! i \<noteq> None) \<and> (\<forall>b. dr_bufs r ! i = Some b \<longrightarrow> dr_desc r ! i = d b))"

fun opt_mset :: "'a option \<Rightarrow> 'a multiset" where
  "opt_mset None = {#}"
| "opt_mset (Some x) = {#x#}"

definition bufs :: "'a option list \<Rightarrow> 'a multiset" where
  "bufs xs = sum_list (map opt_mset xs)"

text \<open>The slot was not reported done between two moments.\<close>

definition pending :: "(nat \<Rightarrow> nat \<Rightarrow> 32 word) \<Rightarrow> 'd dring \<Rightarrow> 'd dring \<Rightarrow> nat \<Rightarrow> bool" where
  "pending st r r' i \<longleftrightarrow> (\<forall>t. dr_clock r \<le> t \<longrightarrow> t < dr_clock r' \<longrightarrow> \<not> stat_dd (st t i))"

lemmas ring_defs = look_buf_def put_buf_def take_buf_def drop_buf_def

lemma bufs_update: "i < length xs \<Longrightarrow> bufs (xs[i := y]) + opt_mset (xs ! i) = bufs xs + opt_mset y"
proof (induction xs arbitrary: i)
  case (Cons x xs)
  then show ?case by (cases i) (auto simp: bufs_def ac_simps)
qed simp

lemma bufs_put: "i < length xs \<Longrightarrow> xs ! i = None \<Longrightarrow> bufs (xs[i := Some p]) = add_mset p (bufs xs)"
  using bufs_update[of i xs "Some p"] by simp

lemma bufs_take: "i < length xs \<Longrightarrow> xs ! i = Some b \<Longrightarrow> bufs xs = add_mset b (bufs (xs[i := None]))"
  using bufs_update[of i xs None] by simp

lemma ring_okD:
  assumes "ring_ok d r"
  shows "length (dr_bufs r) = NUM_DESCS" "length (dr_slot r) = NUM_DESCS" "length (dr_desc r) = NUM_DESCS"
    "i < NUM_DESCS \<Longrightarrow> dr_slot r ! i \<longleftrightarrow> dr_bufs r ! i \<noteq> None"
    "i < NUM_DESCS \<Longrightarrow> dr_bufs r ! i = Some b \<Longrightarrow> dr_desc r ! i = d b"
  using assms by (simp_all add: ring_ok_def)

lemma nth_update: "j < length xs \<Longrightarrow> xs[i := x] ! j = (if i = j then x else xs ! j)"
  by (cases "i = j") simp_all

lemma ring_ok_look: "ring_ok d r \<Longrightarrow> ring_ok d (look_buf r)"
  by (simp add: ring_ok_def look_buf_def)

lemma ring_ok_drop: "ring_ok d r \<Longrightarrow> ring_ok d (drop_buf p r)"
  by (simp add: ring_ok_def drop_buf_def)

lemma ring_ok_put: "ring_ok d r \<Longrightarrow> ring_ok d (put_buf d i p r)"
  by (auto simp: ring_ok_def put_buf_def nth_update split: if_splits)

lemma ring_ok_take: "ring_ok d r \<Longrightarrow> ring_ok d (take_buf i r)"
  by (auto simp: ring_ok_def take_buf_def nth_update split: if_splits)

lemmas ring_ok_ops = ring_ok_look ring_ok_drop ring_ok_put ring_ok_take

lemma ring_step_ok: "ring_step st d (r, M) (r', M') \<Longrightarrow> ring_ok d r \<Longrightarrow> ring_ok d r'"
  by (erule ring_step.cases) (auto intro: ring_ok_ops)

lemma ring_step_keeps:
  assumes "ring_step st d (r, M) (r', M')" "ring_ok d r"
  shows "M' + bufs (dr_bufs r') + mset (dr_dropped r') = M + bufs (dr_bufs r) + mset (dr_dropped r)"
  using assms
proof (cases rule: ring_step.cases)
  case (put i p)
  then show ?thesis using assms(2) ring_okD(1,4)[OF assms(2)] by (simp add: put_buf_def bufs_put)
next
  case (reap i b)
  then show ?thesis using ring_okD(1)[OF assms(2)] bufs_take[of i "dr_bufs r" b] by (simp add: take_buf_def)
qed (auto simp: ring_defs)

lemma ring_step_clock: "ring_step st d (r, M) (r', M') \<Longrightarrow> dr_clock r \<le> dr_clock r'"
  by (erule ring_step.cases) (auto simp: ring_defs)

lemma ring_step_pending:
  assumes s: "ring_step st d (r, M) (r', M')" and ok: "ring_ok d r"
    and i: "i < NUM_DESCS" "dr_slot r ! i" "pending st r r' i"
  shows "dr_slot r' ! i \<and> dr_bufs r' ! i = dr_bufs r ! i \<and> dr_desc r' ! i = dr_desc r ! i"
  using s
proof (cases rule: ring_step.cases)
  case (put j p)
  then have "j \<noteq> i" using i(2) by auto
  then show ?thesis using put i(2) by (simp add: put_buf_def)
next
  case (reap j b)
  have "j \<noteq> i" using i(3) reap by (auto simp: pending_def take_buf_def)
  then show ?thesis using reap i(2) by (simp add: take_buf_def)
qed (use i(2) in \<open>auto simp: ring_defs\<close>)

text \<open>What any sequence of steps keeps.\<close>

definition ring_moved :: "(nat \<Rightarrow> nat \<Rightarrow> 32 word) \<Rightarrow> 'd dring \<Rightarrow> pbuf multiset \<Rightarrow> 'd dring \<Rightarrow> pbuf multiset \<Rightarrow> bool" where
  "ring_moved st r M r' M' \<longleftrightarrow> dr_clock r \<le> dr_clock r' \<and>
     M' + bufs (dr_bufs r') + mset (dr_dropped r') = M + bufs (dr_bufs r) + mset (dr_dropped r) \<and>
     (\<forall>i < NUM_DESCS. dr_slot r ! i \<longrightarrow> pending st r r' i \<longrightarrow>
        dr_slot r' ! i \<and> dr_bufs r' ! i = dr_bufs r ! i \<and> dr_desc r' ! i = dr_desc r ! i)"

lemma pending_split:
  "pending st r r'' i \<Longrightarrow> dr_clock r \<le> dr_clock r' \<Longrightarrow> dr_clock r' \<le> dr_clock r'' \<Longrightarrow> pending st r r' i \<and> pending st r' r'' i"
  by (simp add: pending_def)

lemma ring_steps_keep:
  assumes "ring_steps st d (r, M) (r', M')" "ring_ok d r"
  shows "ring_ok d r' \<and> ring_moved st r M r' M'"
  using assms(1)
proof (induction rule: rtranclp_induct2)
  case refl
  then show ?case using assms(2) by (simp add: ring_moved_def)
next
  case (step r1 M1 r2 M2)
  from step.IH have ok: "ring_ok d r1" and m: "ring_moved st r M r1 M1" by auto
  have c: "dr_clock r \<le> dr_clock r1" "dr_clock r1 \<le> dr_clock r2"
    using m ring_step_clock[OF step.hyps(2)] by (auto simp: ring_moved_def)
  have "dr_slot r2 ! i \<and> dr_bufs r2 ! i = dr_bufs r ! i \<and> dr_desc r2 ! i = dr_desc r ! i"
    if i: "i < NUM_DESCS" "dr_slot r ! i" "pending st r r2 i" for i
  proof -
    note p = pending_split[OF i(3) c]
    have "dr_slot r1 ! i \<and> dr_bufs r1 ! i = dr_bufs r ! i \<and> dr_desc r1 ! i = dr_desc r ! i"
      using m i(1,2) p by (auto simp: ring_moved_def)
    then show ?thesis using ring_step_pending[OF step.hyps(2) ok i(1)] p by simp
  qed
  then have "ring_moved st r M r2 M2"
    using m c ring_step_keeps[OF step.hyps(2) ok] by (simp add: ring_moved_def)
  then show ?case using ring_step_ok[OF step.hyps(2) ok] by simp
qed

text \<open>The caller may hold more than a sequence of steps uses.\<close>

lemma ring_step_frame: "ring_step st d (r, M) (r', M') \<Longrightarrow> ring_step st d (r, M + X) (r', M' + X)"
  by (erule ring_step.cases) (auto intro: ring_step.intros)

lemma ring_steps_frame: "ring_steps st d (r, M) (r', M') \<Longrightarrow> ring_steps st d (r, M + X) (r', M' + X)"
  by (induction rule: rtranclp_induct2) (auto intro: ring_step_frame rtranclp.rtrancl_into_rtrancl)

text \<open>The combinations of steps the driver makes.\<close>

lemma steps_look_put:
  assumes "i < NUM_DESCS" "\<not> dr_slot r ! i"
  shows "ring_steps st d (r, add_mset p M) (put_buf d i p (look_buf r), M)"
proof -
  have "ring_step st d (look_buf r, add_mset p M) (put_buf d i p (look_buf r), M)"
    using assms by (intro put) (simp_all add: look_buf_def)
  then show ?thesis using look[of st d r "add_mset p M"] by (meson converse_rtranclp_into_rtranclp r_into_rtranclp)
qed

lemma steps_look_drop: "ring_steps st d (r, add_mset p M) (drop_buf p (look_buf r), M)"
  by (meson look drop converse_rtranclp_into_rtranclp r_into_rtranclp)

section \<open>The transmit ring\<close>

definition tx_desc_of :: "pbuf \<Rightarrow> tx_desc" where
  "tx_desc_of b = \<lparr>td_buffer_addr = pb_addr b, td_cmd_type_len = cmd_type_len (real_pkt_len b),
     td_olinfo_status = olinfo_status (real_pkt_len b)\<rparr>"

definition tx_ring :: "ixgbe \<Rightarrow> tx_desc dring" where
  "tx_ring s = \<lparr>dr_bufs = transmit_rrefs s, dr_slot = tx_slot s, dr_desc = transmit_ring s, dr_clock = ix_clock s,
     dr_dropped = ix_dropped s\<rparr>"

definition rx_desc_of :: "pbuf \<Rightarrow> rx_desc" where
  "rx_desc_of b = \<lparr>rd_pkt_addr = pb_addr b, rd_hdr_addr = 0\<rparr>"

definition rx_ring :: "ixgbe \<Rightarrow> rx_desc dring" where
  "rx_ring s = \<lparr>dr_bufs = receive_rrefs s, dr_slot = rx_slot s, dr_desc = receive_ring s, dr_clock = ix_clock s,
     dr_dropped = ix_dropped s\<rparr>"

lemma ring_sel [simp]:
  "dr_bufs (tx_ring s) = transmit_rrefs s" "dr_slot (tx_ring s) = tx_slot s" "dr_desc (tx_ring s) = transmit_ring s"
  "dr_clock (tx_ring s) = ix_clock s" "dr_dropped (tx_ring s) = ix_dropped s"
  "dr_bufs (rx_ring s) = receive_rrefs s" "dr_slot (rx_ring s) = rx_slot s" "dr_desc (rx_ring s) = receive_ring s"
  "dr_clock (rx_ring s) = ix_clock s" "dr_dropped (rx_ring s) = ix_dropped s"
  by (simp_all add: tx_ring_def rx_ring_def)

definition ix_inv :: "ixgbe \<Rightarrow> bool" where
  "ix_inv s \<longleftrightarrow> ring_ok tx_desc_of (tx_ring s) \<and> ring_ok rx_desc_of (rx_ring s) \<and> length (transmit_buffers s) = NUM_DESCS \<and>
     transmit_index s < NUM_DESCS \<and> tx_clean_index s < NUM_DESCS \<and>
     receive_index s < NUM_DESCS \<and> rx_clean_index s < NUM_DESCS \<and> ix_tdt s = transmit_index s"

text \<open>What work on one ring leaves alone.\<close>

definition rx_same :: "ixgbe \<Rightarrow> ixgbe \<Rightarrow> bool" where
  "rx_same s s' \<longleftrightarrow> receive_rrefs s' = receive_rrefs s \<and> receive_ring s' = receive_ring s \<and> rx_slot s' = rx_slot s \<and>
     receive_index s' = receive_index s \<and> rx_clean_index s' = rx_clean_index s \<and> ix_rdt s' = ix_rdt s"

definition tx_same :: "ixgbe \<Rightarrow> ixgbe \<Rightarrow> bool" where
  "tx_same s s' \<longleftrightarrow> transmit_buffers s' = transmit_buffers s \<and> transmit_rrefs s' = transmit_rrefs s \<and>
     transmit_ring s' = transmit_ring s \<and> tx_slot s' = tx_slot s \<and> transmit_index s' = transmit_index s \<and>
     tx_clean_index s' = tx_clean_index s \<and> ix_tdt s' = ix_tdt s"

definition tx_kept :: "ixgbe \<Rightarrow> ixgbe \<Rightarrow> bool" where
  "tx_kept s s' \<longleftrightarrow> rx_same s s' \<and> transmit_index s' = transmit_index s \<and> tx_clean_index s' = tx_clean_index s \<and>
     ix_tdt s' = ix_tdt s \<and> length (transmit_buffers s') = length (transmit_buffers s)"

lemma tx_kept_trans: "tx_kept s s' \<Longrightarrow> tx_kept s' s'' \<Longrightarrow> tx_kept s s''"
  by (simp add: tx_kept_def rx_same_def)

abbreviation tx_run :: "nic \<Rightarrow> ixgbe \<Rightarrow> pbuf multiset \<Rightarrow> ixgbe \<Rightarrow> pbuf multiset \<Rightarrow> bool" where
  "tx_run nic s M s' M' \<equiv> ring_steps (nic_tx_status nic) tx_desc_of (tx_ring s, M) (tx_ring s', M')"

lemma wrap_ring_less [simp]: "wrap_ring i NUM_DESCS < NUM_DESCS"
  using and_pow2_mod[of "i + 1" 9] by (simp add: wrap_ring_def)

lemma wrap_ring_mod: "wrap_ring i NUM_DESCS = (i + 1) mod NUM_DESCS"
  using and_pow2_mod[of "i + 1" 9] by (simp add: wrap_ring_def)

lemma wrap_ring_neq: "i < NUM_DESCS \<Longrightarrow> wrap_ring i NUM_DESCS \<noteq> i"
  using and_pow2_mod[of "i + 1" 9] by (auto simp: wrap_ring_def mod_if)

text \<open>The items of a queue of remote references change as \<open>deque_push\<close> says.\<close>

lemma deque_push_refines:
  assumes "dq_ok n (q, h)"
  shows "\<exists>r s. push_back dm n x (q, h) = Some (r, s) \<and> dq_ok n s \<and> (r, dq_items n s) = deque_push n x (dq_items n (q, h))"
proof (cases "length (dq_items n (q, h)) < n")
  case True
  then show ?thesis using push_back_room[OF assms True, of dm x] by (auto simp: deque_push_def)
next
  case False
  then show ?thesis using push_back_full[OF assms, of dm x] assms by (auto simp: deque_push_def)
qed

text \<open>The states in which an iteration leaves the driver.\<close>

definition tick :: "ixgbe \<Rightarrow> ixgbe" where
  "tick s = s\<lparr>ix_clock := ix_clock s + 1\<rparr>"

definition drop_pkt :: "pbuf \<Rightarrow> ixgbe \<Rightarrow> ixgbe" where
  "drop_pkt p s = s\<lparr>ix_dropped := ix_dropped s @ [p]\<rparr>"

definition put_tx :: "nat \<Rightarrow> pbuf \<Rightarrow> ixgbe \<Rightarrow> ixgbe" where
  "put_tx i p s = s\<lparr>transmit_ring := (transmit_ring s)[i := tx_desc_of p], transmit_rrefs := (transmit_rrefs s)[i := Some p],
     tx_slot := (tx_slot s)[i := True]\<rparr>"

lemmas state_defs = tick_def drop_pkt_def put_tx_def

lemma dropped_states [simp]:
  "ix_dropped (tick s) = ix_dropped s" "ix_dropped (drop_pkt p s) = ix_dropped s @ [p]" "ix_dropped (put_tx i p s) = ix_dropped s"
  by (simp_all add: state_defs)

lemma tick_sel [simp]:
  "transmit_rrefs (tick s) = transmit_rrefs s" "tx_slot (tick s) = tx_slot s" "transmit_ring (tick s) = transmit_ring s"
  "receive_rrefs (tick s) = receive_rrefs s" "rx_slot (tick s) = rx_slot s" "receive_ring (tick s) = receive_ring s"
  "transmit_buffers (tick s) = transmit_buffers s" "transmit_index (tick s) = transmit_index s"
  "receive_index (tick s) = receive_index s"
  by (simp_all add: tick_def)

lemma status_tick:
  "tx_status nic i s = (nic_tx_status nic (ix_clock s) i, tick s)" "rx_status nic i s = (nic_rx_status nic (ix_clock s) i, tick s)"
  "rx_length nic i s = (nic_rx_length nic (ix_clock s) i mod 2 ^ 16, tick s)"
  by (simp_all add: tx_status_def rx_status_def rx_length_def tick_def)

lemma tx_ring_states [simp]:
  "tx_ring (tick s) = look_buf (tx_ring s)"
  "tx_ring (drop_pkt p s) = drop_buf p (tx_ring s)"
  "tx_ring (put_tx i p s) = put_buf tx_desc_of i p (tx_ring s)"
  "rx_ring (tick s) = look_buf (rx_ring s)"
  "rx_ring (drop_pkt p s) = drop_buf p (rx_ring s)"
  by (simp_all add: tx_ring_def rx_ring_def ring_defs state_defs)

lemma tx_kept_states [simp]: "tx_kept s s" "tx_kept s (tick s)" "tx_kept s (drop_pkt p (tick s))" "tx_kept s (put_tx i p (tick s))"
  by (simp_all add: tx_kept_def rx_same_def state_defs)

lemma put_swap: "put_buf d i p (look_buf r) = put_buf d i p (take_buf i r)"
  by (simp add: ring_defs)

lemma steps_swap:
  assumes "ring_ok d r" "i < NUM_DESCS" "dr_bufs r ! i = Some b" "stat_dd (st (dr_clock r) i)"
  shows "ring_steps st d (r, add_mset p M) (put_buf d i p (look_buf r), add_mset b M)"
proof -
  have 1: "ring_step st d (r, add_mset p M) (take_buf i r, add_mset b (add_mset p M))"
    using assms by (intro reap)
  have "\<not> dr_slot (take_buf i r) ! i" using ring_okD(2)[OF assms(1)] assms(2) by (simp add: take_buf_def)
  then have "ring_step st d (take_buf i r, add_mset p (add_mset b M)) (put_buf d i p (take_buf i r), add_mset b M)"
    using assms(2) by (intro put)
  then have 2: "ring_step st d (take_buf i r, add_mset b (add_mset p M)) (put_buf d i p (look_buf r), add_mset b M)"
    by (simp add: add_mset_commute put_swap)
  show ?thesis using 1 2 by (meson converse_rtranclp_into_rtranclp r_into_rtranclp)
qed

lemma tx_okD:
  assumes "ring_ok tx_desc_of (tx_ring s)"
  shows "length (transmit_rrefs s) = NUM_DESCS" "length (tx_slot s) = NUM_DESCS" "length (transmit_ring s) = NUM_DESCS"
    "i < NUM_DESCS \<Longrightarrow> tx_slot s ! i \<longleftrightarrow> transmit_rrefs s ! i \<noteq> None"
  using ring_okD(1-4)[OF assms] by (simp_all add: tx_ring_def)

lemma program_tx_rref_Some:
  assumes "ring_ok tx_desc_of (tx_ring s)" "i < NUM_DESCS"
  shows "program_tx_rref i p (tick s) = Some (put_tx i p (tick s))"
    "program_tx_rref i p ((tick s)\<lparr>transmit_rrefs := (transmit_rrefs s)[i := None]\<rparr>) = Some (put_tx i p (tick s))"
  using tx_okD(1-3)[OF assms(1)] assms(2) by (simp_all add: program_tx_rref_def upd_chk_def state_defs tx_desc_of_def)

text \<open>One iteration of the loop over the packets, in each of its cases.\<close>

lemma tx_submit_rref_cases:
  assumes ok: "ring_ok tx_desc_of (tx_ring s)" and i: "rp_index p = i" "i < NUM_DESCS"
  shows "tx_slot s ! i \<Longrightarrow> \<not> stat_dd (nic_tx_status nic (ix_clock s) i) \<Longrightarrow>
      tx_submit_rref nic p (pk # pks) reap s = Some (p, pks @ [pk], reap, tick s)"
    "\<not> tx_slot s ! i \<Longrightarrow> tx_submit_rref nic p (pk # pks) reap s =
      tx_submit_rref nic (p\<lparr>rp_count := rp_count p + 1, rp_last := i, rp_index := wrap_ring i NUM_DESCS\<rparr>) pks reap (put_tx i pk (tick s))"
    "transmit_rrefs s ! i = Some b \<Longrightarrow> stat_dd (nic_tx_status nic (ix_clock s) i) \<Longrightarrow> length reap < IXGBE_BATCH \<Longrightarrow>
      tx_submit_rref nic p (pk # pks) reap s =
      tx_submit_rref nic (p\<lparr>rp_count := rp_count p + 1, rp_last := i, rp_index := wrap_ring i NUM_DESCS,
        rp_clean := wrap_ring (rp_clean p) NUM_DESCS\<rparr>) pks (reap @ [b]) (put_tx i pk (tick s))"
    "transmit_rrefs s ! i = Some b \<Longrightarrow> stat_dd (nic_tx_status nic (ix_clock s) i) \<Longrightarrow> \<not> length reap < IXGBE_BATCH \<Longrightarrow>
      tx_submit_rref nic p (pk # pks) reap s = Some (p, pks, reap, drop_pkt pk (tick s))"
proof -
  note l = tx_okD(1-3)[OF ok] tx_okD(4)[OF ok i(2)] i
  have u: "(transmit_rrefs s)[i := Some b] = transmit_rrefs s" if "transmit_rrefs s ! i = Some b"
    using that by (metis list_update_id)
  show "tx_submit_rref nic p (pk # pks) reap s = Some (p, pks @ [pk], reap, tick s)"
    if "tx_slot s ! i" "\<not> stat_dd (nic_tx_status nic (ix_clock s) i)"
    using that l by (simp add: status_tick nth_chk_def)
  show "tx_submit_rref nic p (pk # pks) reap s =
      tx_submit_rref nic (p\<lparr>rp_count := rp_count p + 1, rp_last := i, rp_index := wrap_ring i NUM_DESCS\<rparr>) pks reap (put_tx i pk (tick s))"
    if "\<not> tx_slot s ! i"
    using that l program_tx_rref_Some(1)[OF ok i(2)] by (simp add: status_tick nth_chk_def)
  assume b: "transmit_rrefs s ! i = Some b" "stat_dd (nic_tx_status nic (ix_clock s) i)"
  show "tx_submit_rref nic p (pk # pks) reap s =
      tx_submit_rref nic (p\<lparr>rp_count := rp_count p + 1, rp_last := i, rp_index := wrap_ring i NUM_DESCS,
        rp_clean := wrap_ring (rp_clean p) NUM_DESCS\<rparr>) pks (reap @ [b]) (put_tx i pk (tick s))" if "length reap < IXGBE_BATCH"
    using that b l program_tx_rref_Some(2)[OF ok i(2)] by (simp add: status_tick nth_chk_def take_tx_def deque_push_def)
  show "tx_submit_rref nic p (pk # pks) reap s = Some (p, pks, reap, drop_pkt pk (tick s))" if "\<not> length reap < IXGBE_BATCH"
    using that b l u[OF b(1)] by (simp add: status_tick nth_chk_def take_tx_def deque_push_def upd_chk_def drop_pkt_def)
qed

text \<open>
  The loop over the packets runs to its end, by steps of the protocol.  It drops a packet only
  when the reap queue is full.
\<close>

definition pos_ok :: "ring_pos \<Rightarrow> bool" where
  "pos_ok p \<longleftrightarrow> rp_index p < NUM_DESCS \<and> rp_clean p < NUM_DESCS"

text \<open>A loop over the ring moves its index by as many places as it handled packets.\<close>

definition pos_moved :: "ring_pos \<Rightarrow> ring_pos \<Rightarrow> bool" where
  "pos_moved p p' \<longleftrightarrow> pos_ok p' \<and> rp_count p \<le> rp_count p' \<and>
     rp_index p' = (rp_index p + (rp_count p' - rp_count p)) mod NUM_DESCS \<and>
     (if rp_count p' = rp_count p then rp_last p' = rp_last p
      else rp_last p' < NUM_DESCS \<and> rp_index p' = wrap_ring (rp_last p') NUM_DESCS)"

lemma pos_moved_refl: "pos_ok p \<Longrightarrow> pos_moved p p"
  by (simp add: pos_moved_def pos_ok_def)

lemma pos_moved_step:
  assumes "pos_ok p" "pos_moved q p'" "rp_count q = rp_count p + 1" "rp_index q = wrap_ring (rp_index p) NUM_DESCS" "rp_last q = rp_index p"
  shows "pos_moved p p'"
proof -
  have i: "rp_index p < NUM_DESCS" using assms(1) by (simp add: pos_ok_def)
  have "rp_index p' = (rp_index p + (rp_count p' - rp_count p)) mod NUM_DESCS"
    using assms(2,3,4) by (simp add: pos_moved_def wrap_ring_mod mod_add_left_eq Suc_diff_Suc)
  moreover have "rp_last p' < NUM_DESCS \<and> rp_index p' = wrap_ring (rp_last p') NUM_DESCS"
  proof (cases "rp_count p' = rp_count q")
    case True
    then have "rp_index p' = rp_index q mod NUM_DESCS" "rp_last p' = rp_last q" using assms(2) by (simp_all add: pos_moved_def)
    then show ?thesis using assms(4,5) i by simp
  next
    case False
    then show ?thesis using assms(2) unfolding pos_moved_def if_not_P[OF False] by blast
  qed
  ultimately show ?thesis using assms(2,3) by (simp add: pos_moved_def)
qed

lemma pos_moved_index:
  assumes "pos_moved p0 p" "rp_index p0 = rp_last p0" "rp_index p0 < NUM_DESCS"
  shows "rp_index p \<noteq> rp_last p \<longleftrightarrow> rp_count p \<noteq> rp_count p0"
proof (cases "rp_count p = rp_count p0")
  case True
  then show ?thesis using assms by (simp add: pos_moved_def)
next
  case False
  then have "rp_last p < NUM_DESCS" "rp_index p = wrap_ring (rp_last p) NUM_DESCS"
    using assms(1) unfolding pos_moved_def if_not_P[OF False] by blast+
  then show ?thesis using False wrap_ring_neq[of "rp_last p"] by simp
qed

definition tx_submits :: "nic \<Rightarrow> ring_pos \<Rightarrow> pbuf list \<Rightarrow> pbuf list \<Rightarrow> ixgbe \<Rightarrow> bool" where
  "tx_submits nic p pks reap s \<longleftrightarrow> (\<exists>p' rest reap' s'. tx_submit_rref nic p pks reap s = Some (p', rest, reap', s') \<and>
     tx_run nic s (mset pks + mset reap) s' (mset rest + mset reap') \<and> tx_kept s s' \<and> pos_moved p p' \<and>
     length reap' \<le> IXGBE_BATCH \<and> (length pks + length reap \<le> IXGBE_BATCH \<longrightarrow> ix_dropped s' = ix_dropped s) \<and>
     rp_count p' + length rest + length (ix_dropped s') = rp_count p + length pks + length (ix_dropped s))"

lemma tx_submits_more:
  assumes eq: "tx_submit_rref nic p (pk # pks) reap s = tx_submit_rref nic q pks reap2 s2"
    and run: "tx_run nic s (mset (pk # pks) + mset reap) s2 (mset pks + mset reap2)" and k: "tx_kept s s2"
    and pos: "pos_ok p" "rp_count q = rp_count p + 1" "rp_index q = wrap_ring (rp_index p) NUM_DESCS" "rp_last q = rp_index p"
    and same: "ix_dropped s2 = ix_dropped s" "length reap2 \<le> length reap + 1"
    and more: "tx_submits nic q pks reap2 s2"
  shows "tx_submits nic p (pk # pks) reap s"
proof -
  obtain p' rest reap' s' where 2: "tx_submit_rref nic q pks reap2 s2 = Some (p', rest, reap', s')"
    "tx_run nic s2 (mset pks + mset reap2) s' (mset rest + mset reap')" "tx_kept s2 s'" "pos_moved q p'" "length reap' \<le> IXGBE_BATCH"
    "length pks + length reap2 \<le> IXGBE_BATCH \<longrightarrow> ix_dropped s' = ix_dropped s2"
    "rp_count p' + length rest + length (ix_dropped s') = rp_count q + length pks + length (ix_dropped s2)"
    using more unfolding tx_submits_def by blast
  show ?thesis unfolding tx_submits_def eq
    using 2 same pos(2) pos_moved_step[OF pos(1) 2(4) pos(2-4)] tx_kept_trans[OF k 2(3)] rtranclp_trans[OF run 2(2)] by (intro exI) auto
qed

lemma tx_submit_rref_runs:
  assumes "ring_ok tx_desc_of (tx_ring s)" "pos_ok p" "length reap \<le> IXGBE_BATCH"
  shows "tx_submits nic p pks reap s"
  using assms
proof (induction pks arbitrary: p reap s)
  case Nil
  then show ?case by (simp add: tx_submits_def pos_moved_refl)
next
  case (Cons pk pks)
  note ok = Cons.prems(1)
  define i where "i = rp_index p"
  have i: "rp_index p = i" "i < NUM_DESCS" using Cons.prems(2) by (auto simp: i_def pos_ok_def)
  note cs = tx_submit_rref_cases[OF ok i, where nic = nic] and slot = tx_okD(4)[OF ok i(2)]
  let ?q = "p\<lparr>rp_count := rp_count p + 1, rp_last := i, rp_index := wrap_ring i NUM_DESCS\<rparr>" and ?s2 = "put_tx i pk (tick s)"
  have q: "pos_ok ?q" "pos_ok (?q\<lparr>rp_clean := wrap_ring (rp_clean p) NUM_DESCS\<rparr>)"
    using Cons.prems(2) by (simp_all add: pos_ok_def)
  have s2: "ring_ok tx_desc_of (tx_ring ?s2)" "ix_dropped ?s2 = ix_dropped s"
    using ok by (simp_all add: ring_ok_ops)
  consider (wait) "tx_slot s ! i" "\<not> stat_dd (nic_tx_status nic (ix_clock s) i)" | (free) "\<not> tx_slot s ! i"
    | (swap) b where "transmit_rrefs s ! i = Some b" "stat_dd (nic_tx_status nic (ix_clock s) i)" "length reap < IXGBE_BATCH"
    | (full) b where "transmit_rrefs s ! i = Some b" "stat_dd (nic_tx_status nic (ix_clock s) i)" "\<not> length reap < IXGBE_BATCH"
    using slot by auto
  then show ?case
  proof cases
    case wait
    have "tx_run nic s (mset (pk # pks) + mset reap) (tick s) (mset (pks @ [pk]) + mset reap)"
      using look[of _ _ "tx_ring s"] by (simp add: r_into_rtranclp)
    then show ?thesis using cs(1)[OF wait, of pk pks reap] Cons.prems(2,3) by (simp add: tx_submits_def pos_moved_refl)
  next
    case free
    have "tx_run nic s (mset (pk # pks) + mset reap) ?s2 (mset pks + mset reap)"
      using steps_look_put[of i "tx_ring s" "nic_tx_status nic" tx_desc_of pk "mset pks + mset reap"] free i(2)
      by simp
    then show ?thesis using s2 i(1) Cons.prems(2) Cons.IH[OF s2(1) q(1) Cons.prems(3)] by (intro tx_submits_more[OF cs(2)[OF free]]) simp_all
  next
    case swap
    have "tx_run nic s (mset (pk # pks) + mset reap) ?s2 (mset pks + mset (reap @ [b]))"
      using steps_swap[OF ok i(2), of b "nic_tx_status nic" pk "mset pks + mset reap"] swap by simp
    then show ?thesis using s2 i(1) Cons.prems(2) swap(3) Cons.IH[OF s2(1) q(2), of "reap @ [b]"]
      by (intro tx_submits_more[OF cs(3)[OF swap]]) simp_all
  next
    case full
    have "tx_run nic s (mset (pk # pks) + mset reap) (drop_pkt pk (tick s)) (mset pks + mset reap)"
      using steps_look_drop[of _ _ "tx_ring s" pk "mset pks + mset reap"] by simp
    then show ?thesis using cs(4)[OF full, of pk pks] Cons.prems(2,3) full(3) by (simp add: tx_submits_def pos_moved_refl)
  qed
qed

text \<open>An iteration of the loop that reaps, and the whole loop: within its bound it drops nothing.\<close>

definition out_tx :: "nat \<Rightarrow> ixgbe \<Rightarrow> ixgbe" where
  "out_tx i s = (tick s)\<lparr>transmit_rrefs := (transmit_rrefs s)[i := None], tx_slot := (tx_slot s)[i := False],
     transmit_buffers := (transmit_buffers s)[i := None],
     ix_freed := ix_freed s @ (case transmit_buffers s ! i of None \<Rightarrow> [] | Some w \<Rightarrow> [vb_ptr w])\<rparr>"

lemma out_tx_state [simp]: "tx_ring (out_tx i s) = take_buf i (tx_ring s)" "tx_kept s (out_tx i s)" "ix_dropped (out_tx i s) = ix_dropped s"
  by (simp_all add: out_tx_def tx_ring_def take_buf_def tx_kept_def rx_same_def tick_def)

lemma push_or_drop_room: "length reap < n \<Longrightarrow> push_or_drop n (Some b) reap s = (reap @ [b], s)"
  by (simp add: push_or_drop_def deque_push_def)

lemma tx_reap_step:
  assumes ok: "ring_ok tx_desc_of (tx_ring s)" "length (transmit_buffers s) = NUM_DESCS" and c: "c < NUM_DESCS" and room: "length reap < IXGBE_BATCH"
  shows "\<exists>c1 reap1 s1. tx_reap_rref nic c (Suc k) reap s =
       (if c1 = transmit_index s1 then Some (c1, reap1, s1) else tx_reap_rref nic c1 k reap1 s1) \<and>
     tx_run nic s (mset reap) s1 (mset reap1) \<and> tx_kept s s1 \<and> c1 < NUM_DESCS \<and> length reap1 \<le> length reap + 1 \<and>
     ix_dropped s1 = ix_dropped s"
proof -
  note l = tx_okD(1-3)[OF ok(1)] tx_okD(4)[OF ok(1) c] c ok(2)
  have look: "tx_run nic s (mset reap) (tick s) (mset reap)" by (simp add: look r_into_rtranclp)
  consider (wait) "\<not> stat_dd (nic_tx_status nic (ix_clock s) c)" | (free) "stat_dd (nic_tx_status nic (ix_clock s) c)" "\<not> tx_slot s ! c"
    | (out) b where "stat_dd (nic_tx_status nic (ix_clock s) c)" "transmit_rrefs s ! c = Some b" using l by auto
  then show ?thesis
  proof cases
    case wait
    show ?thesis by (rule exI[of _ c], rule exI[of _ reap], rule exI[of _ "tick s"]) (use wait l look in \<open>simp add: status_tick\<close>)
  next
    case free
    show ?thesis by (rule exI[of _ "wrap_ring c NUM_DESCS"], rule exI[of _ reap], rule exI[of _ "tick s"])
      (use free l look in \<open>simp add: status_tick nth_chk_def\<close>)
  next
    case out
    have "tx_run nic s (mset reap) (out_tx c s) (mset (reap @ [b]))"
      using reap[of c "tx_ring s" b "nic_tx_status nic" tx_desc_of "mset reap"] out c by (simp add: r_into_rtranclp)
    moreover have "tx_reap_rref nic c (Suc k) reap s =
      (if wrap_ring c NUM_DESCS = transmit_index (out_tx c s) then Some (wrap_ring c NUM_DESCS, reap @ [b], out_tx c s)
       else tx_reap_rref nic (wrap_ring c NUM_DESCS) k (reap @ [b]) (out_tx c s))"
      using out l room by (simp add: status_tick nth_chk_def take_tx_def push_or_drop_room set_tx_buffer_def) (simp add: out_tx_def tick_def)
    ultimately show ?thesis
      by (intro exI[of _ "wrap_ring c NUM_DESCS"] exI[of _ "reap @ [b]"] exI[of _ "out_tx c s"]) simp
  qed
qed

lemma tx_reap_rref_runs:
  assumes "ring_ok tx_desc_of (tx_ring s)" "length (transmit_buffers s) = NUM_DESCS" "c < NUM_DESCS" "length reap + k \<le> IXGBE_BATCH"
  shows "\<exists>c' reap' s'. tx_reap_rref nic c k reap s = Some (c', reap', s') \<and> tx_run nic s (mset reap) s' (mset reap') \<and> tx_kept s s' \<and>
     c' < NUM_DESCS \<and> length reap' \<le> IXGBE_BATCH \<and> ix_dropped s' = ix_dropped s"
  using assms
proof (induction k arbitrary: c reap s)
  case 0
  then show ?case by simp
next
  case (Suc k)
  have "length reap < IXGBE_BATCH" using Suc.prems(4) by simp
  from tx_reap_step[OF Suc.prems(1-3) this, of nic k] obtain c1 reap1 s1
    where 1: "tx_reap_rref nic c (Suc k) reap s = (if c1 = transmit_index s1 then Some (c1, reap1, s1) else tx_reap_rref nic c1 k reap1 s1)"
      "tx_run nic s (mset reap) s1 (mset reap1)" "tx_kept s s1" "c1 < NUM_DESCS" "length reap1 \<le> length reap + 1" "ix_dropped s1 = ix_dropped s"
    by blast
  have ok: "ring_ok tx_desc_of (tx_ring s1)" using ring_steps_keep[OF 1(2) Suc.prems(1)] by blast
  have lb: "length (transmit_buffers s1) = NUM_DESCS" and room: "length reap1 + k \<le> IXGBE_BATCH"
    using 1(3,5) Suc.prems(2,4) by (simp_all add: tx_kept_def)
  show ?case
  proof (cases "c1 = transmit_index s1")
    case True
    then show ?thesis using 1 room by simp
  next
    case False
    from Suc.IH[OF ok lb 1(4) room] obtain c' reap' s' where 2: "tx_reap_rref nic c1 k reap1 s1 = Some (c', reap', s')"
      "tx_run nic s1 (mset reap1) s' (mset reap')" "tx_kept s1 s'" "c' < NUM_DESCS" "length reap' \<le> IXGBE_BATCH" "ix_dropped s' = ix_dropped s1"
      by blast
    show ?thesis using 1(1,6) False 2 tx_kept_trans[OF 1(3) 2(3)] rtranclp_trans[OF 1(2) 2(2)] by simp
  qed
qed

text \<open>The whole operation.\<close>

definition tx_result :: "nic \<Rightarrow> ixgbe \<Rightarrow> pbuf list \<Rightarrow> pbuf list \<Rightarrow> nat \<Rightarrow> pbuf list \<Rightarrow> pbuf list \<Rightarrow> ixgbe \<Rightarrow> bool" where
  "tx_result nic s packets reap sent packets' reap' s' \<longleftrightarrow> ix_inv s' \<and> rx_same s s' \<and>
     tx_run nic s (mset packets + mset reap) s' (mset packets' + mset reap') \<and> length reap' \<le> IXGBE_BATCH \<and>
     ix_tdt s' = (transmit_index s + sent) mod NUM_DESCS \<and>
     sent + length packets' + length (ix_dropped s') = length packets + length (ix_dropped s) \<and>
     (length packets + length reap \<le> IXGBE_BATCH \<longrightarrow> ix_dropped s' = ix_dropped s)"

lemma rx_ring_frame: "rx_same s s' \<Longrightarrow> ring_ok rx_desc_of (rx_ring s) \<Longrightarrow> ring_ok rx_desc_of (rx_ring s')"
  by (simp add: rx_same_def ring_ok_def)

lemma tx_ring_index [simp]:
  "tx_ring (s\<lparr>tx_clean_index := x\<rparr>) = tx_ring s" "tx_ring (s\<lparr>transmit_index := x\<rparr>) = tx_ring s" "tx_ring (s\<lparr>ix_tdt := x\<rparr>) = tx_ring s"
  "rx_ring (s\<lparr>tx_clean_index := x\<rparr>) = rx_ring s" "rx_ring (s\<lparr>transmit_index := x\<rparr>) = rx_ring s" "rx_ring (s\<lparr>ix_tdt := x\<rparr>) = rx_ring s"
  by (simp_all add: tx_ring_def rx_ring_def)

lemma tx_finish:
  assumes inv: "ix_inv s" and ok: "ring_ok tx_desc_of (tx_ring s1)" and k: "tx_kept s s1" and pos: "pos_moved p0 p" "c < NUM_DESCS" "x < NUM_DESCS"
    and p0: "rp_count p0 = 0" "rp_index p0 = transmit_index s" "rp_last p0 = transmit_index s"
    and s': "s' = (if rp_index p \<noteq> rp_last p then s1\<lparr>ix_tdt := rp_index p, transmit_index := rp_index p, tx_clean_index := c\<rparr>
                   else s1\<lparr>tx_clean_index := x\<rparr>)"
  shows "ix_inv s' \<and> rx_same s s' \<and> tx_ring s' = tx_ring s1 \<and> ix_tdt s' = (transmit_index s + rp_count p) mod NUM_DESCS"
proof -
  have rx: "rx_same s s1" using k by (simp add: tx_kept_def)
  have 1: "ix_inv s'" using inv ok k pos rx_ring_frame[OF rx] unfolding s' by (simp add: ix_inv_def tx_kept_def rx_same_def pos_moved_def pos_ok_def)
  have 2: "rx_same s s'" using rx by (simp add: s' rx_same_def)
  have 3: "tx_ring s' = tx_ring s1" by (simp add: s')
  have i: "rp_index p = (transmit_index s + rp_count p) mod NUM_DESCS" using pos(1) p0 by (simp add: pos_moved_def)
  have "ix_tdt s' = (transmit_index s + rp_count p) mod NUM_DESCS"
  proof (cases "rp_index p = rp_last p")
    case True
    then have "rp_count p = 0" using pos_moved_index[OF pos(1)] p0 inv by (simp add: ix_inv_def)
    then show ?thesis using True k inv by (simp add: s' tx_kept_def ix_inv_def)
  next
    case False
    then show ?thesis using i by (simp add: s')
  qed
  then show ?thesis using 1 2 3 by blast
qed

lemma tx_submit_and_poll_rref_result:
  assumes inv: "ix_inv s" and reap: "length reap \<le> IXGBE_BATCH"
  shows "\<exists>sent packets' reap' s'. tx_submit_and_poll_rref nic packets reap s = Some (sent, packets', reap', s') \<and>
    tx_result nic s packets reap sent packets' reap' s'"
proof -
  define p0 where "p0 = \<lparr>rp_count = 0, rp_index = transmit_index s, rp_clean = tx_clean_index s, rp_last = transmit_index s\<rparr>"
  have ok: "ring_ok tx_desc_of (tx_ring s)" and p0: "pos_ok p0" using inv by (simp_all add: ix_inv_def p0_def pos_ok_def)
  from tx_submit_rref_runs[OF ok p0 reap, of nic packets] obtain p rest reap1 s1
    where 1: "tx_submit_rref nic p0 packets reap s = Some (p, rest, reap1, s1)"
      "tx_run nic s (mset packets + mset reap) s1 (mset rest + mset reap1)" "tx_kept s s1" "pos_moved p0 p" "length reap1 \<le> IXGBE_BATCH"
      "length packets + length reap \<le> IXGBE_BATCH \<longrightarrow> ix_dropped s1 = ix_dropped s"
      "rp_count p + length rest + length (ix_dropped s1) = rp_count p0 + length packets + length (ix_dropped s)"
    unfolding tx_submits_def by blast
  have ok1: "ring_ok tx_desc_of (tx_ring s1)" using ring_steps_keep[OF 1(2) ok] by blast
  have l1: "length (transmit_buffers s1) = NUM_DESCS" "rp_clean p < NUM_DESCS" "length reap1 + (IXGBE_BATCH - length reap1) \<le> IXGBE_BATCH"
    using 1(3,4,5) inv by (simp_all add: tx_kept_def ix_inv_def pos_moved_def pos_ok_def)
  from tx_reap_rref_runs[OF ok1 l1, of nic] obtain c reap2 s2
    where 2: "tx_reap_rref nic (rp_clean p) (IXGBE_BATCH - length reap1) reap1 s1 = Some (c, reap2, s2)"
      "tx_run nic s1 (mset reap1) s2 (mset reap2)" "tx_kept s1 s2" "c < NUM_DESCS" "length reap2 \<le> IXGBE_BATCH" "ix_dropped s2 = ix_dropped s1"
    by blast
  have run: "tx_run nic s (mset packets + mset reap) s2 (mset rest + mset reap2)"
    using rtranclp_trans[OF 1(2)] ring_steps_frame[OF 2(2), of "mset rest"] by (simp add: add.commute)
  have ok2: "ring_ok tx_desc_of (tx_ring s2)" using ring_steps_keep[OF 2(2) ok1] by blast
  have pos: "rp_count p0 = 0" "rp_index p0 = transmit_index s" "rp_last p0 = transmit_index s" by (simp_all add: p0_def)
  show ?thesis
  proof (cases "length reap1 < IXGBE_BATCH")
    case True
    define s' where "s' = (if rp_index p \<noteq> rp_last p then s2\<lparr>ix_tdt := rp_index p, transmit_index := rp_index p, tx_clean_index := c\<rparr>
      else s2\<lparr>tx_clean_index := wrap_ring c NUM_DESCS\<rparr>)"
    have "tx_submit_and_poll_rref nic packets reap s = Some (rp_count p, rest, reap2, s')"
      using 1(1) 2(1) True by (simp add: tx_submit_and_poll_rref_def p0_def s'_def)
    moreover have "tx_result nic s packets reap (rp_count p) rest reap2 s'"
      using tx_finish[OF inv ok2 tx_kept_trans[OF 1(3) 2(3)] 1(4) 2(4) wrap_ring_less pos s'_def] run 1(5,6,7) 2(5,6) pos
      by (simp add: tx_result_def) (simp add: s'_def)
    ultimately show ?thesis by blast
  next
    case False
    have x: "tx_clean_index s1 < NUM_DESCS" using 1(3) inv by (simp add: tx_kept_def ix_inv_def)
    define s' where "s' = (if rp_index p \<noteq> rp_last p then s1\<lparr>ix_tdt := rp_index p, transmit_index := rp_index p, tx_clean_index := rp_clean p\<rparr>
      else s1\<lparr>tx_clean_index := tx_clean_index s1\<rparr>)"
    have "tx_submit_and_poll_rref nic packets reap s = Some (rp_count p, rest, reap1, s')"
      using 1(1) False by (simp add: tx_submit_and_poll_rref_def p0_def s'_def)
    moreover have "tx_result nic s packets reap (rp_count p) rest reap1 s'"
      using tx_finish[OF inv ok1 1(3,4) l1(2) x pos s'_def] 1 pos by (simp add: tx_result_def) (simp add: s'_def)
    ultimately show ?thesis by blast
  qed
qed

end
