(* ===== verification/Ixgbe_Rx.thy ===== *)
theory Ixgbe_Rx
  imports Ixgbe_Spec
begin

text \<open>
  The receive ring of the network driver, the polls of both rings, and the driver under any sequence
  of calls.
\<close>

section \<open>The receive ring\<close>

definition rx_kept :: "ixgbe \<Rightarrow> ixgbe \<Rightarrow> bool" where
  "rx_kept s s' \<longleftrightarrow> tx_same s s' \<and> receive_index s' = receive_index s \<and> rx_clean_index s' = rx_clean_index s \<and> ix_rdt s' = ix_rdt s"

lemma rx_kept_trans: "rx_kept s s' \<Longrightarrow> rx_kept s' s'' \<Longrightarrow> rx_kept s s''"
  by (simp add: rx_kept_def tx_same_def)

abbreviation rx_run :: "nic \<Rightarrow> ixgbe \<Rightarrow> pbuf multiset \<Rightarrow> ixgbe \<Rightarrow> pbuf multiset \<Rightarrow> bool" where
  "rx_run nic s M s' M' \<equiv> ring_steps (nic_rx_status nic) rx_desc_of (rx_ring s, M) (rx_ring s', M')"

text \<open>What the device is documented to do: a done descriptor holds a whole frame, of at most 1514 bytes.\<close>

definition whole_frames :: "nic \<Rightarrow> bool" where
  "whole_frames nic \<longleftrightarrow> (\<forall>t i. stat_dd (nic_rx_status nic t i) \<longrightarrow> stat_eop (nic_rx_status nic t i))"

definition short_frames :: "nic \<Rightarrow> bool" where
  "short_frames nic \<longleftrightarrow> (\<forall>t i. nic_rx_length nic t i mod 2 ^ 16 \<le> PKT_SIZE)"

definition put_rx :: "nat \<Rightarrow> pbuf \<Rightarrow> ixgbe \<Rightarrow> ixgbe" where
  "put_rx i p s = s\<lparr>receive_ring := (receive_ring s)[i := rx_desc_of p], receive_rrefs := (receive_rrefs s)[i := Some p],
     rx_slot := (rx_slot s)[i := True]\<rparr>"

lemma put_rx_state [simp]: "rx_ring (put_rx i p s) = put_buf rx_desc_of i p (rx_ring s)" "ix_dropped (put_rx i p s) = ix_dropped s"
  by (simp_all add: put_rx_def rx_ring_def put_buf_def)

lemma rx_kept_states [simp]: "rx_kept s s" "rx_kept s (tick s)" "rx_kept s (put_rx i p (tick (tick s)))"
  "rx_kept s (put_rx i p (drop_pkt b (tick (tick s))))"
  by (simp_all add: rx_kept_def tx_same_def put_rx_def tick_def drop_pkt_def)

lemma clock_tick [simp]: "ix_clock (tick s) = Suc (ix_clock s)"
  by (simp add: tick_def)

lemma rx_okD:
  assumes "ring_ok rx_desc_of (rx_ring s)"
  shows "length (receive_rrefs s) = NUM_DESCS" "length (rx_slot s) = NUM_DESCS" "length (receive_ring s) = NUM_DESCS"
    "i < NUM_DESCS \<Longrightarrow> rx_slot s ! i \<longleftrightarrow> receive_rrefs s ! i \<noteq> None"
  using ring_okD(1-4)[OF assms] by simp_all

text \<open>The driver's sequences of steps for a free slot and for a slot with a received frame.\<close>

lemma steps_look_look_put:
  assumes "i < NUM_DESCS" "\<not> dr_slot r ! i"
  shows "ring_steps st d (r, add_mset p M) (put_buf d i p (look_buf (look_buf r)), M)"
  using look[of st d r "add_mset p M"] steps_look_put[of i "look_buf r" st d p M] assms
  by (simp add: look_buf_def converse_rtranclp_into_rtranclp)

lemma drop_put: "drop_buf b (put_buf d i p r) = put_buf d i p (drop_buf b r)"
  by (cases r) (simp add: ring_defs)

lemma steps_exchange:
  assumes ok: "ring_ok d r" and i: "i < NUM_DESCS" "dr_bufs r ! i = Some b" "stat_dd (st (dr_clock r) i)"
  shows "ring_steps st d (r, add_mset p M) (put_buf d i p (look_buf (look_buf r)), add_mset b M)"
    "ring_steps st d (r, add_mset p M) (put_buf d i p (drop_buf b (look_buf (look_buf r))), M)"
proof -
  have 1: "ring_step st d (r, add_mset p M) (take_buf i r, add_mset b (add_mset p M))" using i by (intro reap)
  have s: "\<not> dr_slot (take_buf i r) ! i" using ring_okD(2)[OF ok] i(1) by (simp add: take_buf_def)
  have "ring_steps st d (take_buf i r, add_mset p (add_mset b M)) (put_buf d i p (look_buf (take_buf i r)), add_mset b M)"
    by (rule steps_look_put[OF i(1) s])
  then show 2: "ring_steps st d (r, add_mset p M) (put_buf d i p (look_buf (look_buf r)), add_mset b M)"
    using 1 by (simp add: ring_defs add_mset_commute converse_rtranclp_into_rtranclp)
  have "ring_step st d (put_buf d i p (look_buf (look_buf r)), add_mset b M) (drop_buf b (put_buf d i p (look_buf (look_buf r))), M)"
    by (rule drop)
  then show "ring_steps st d (r, add_mset p M) (put_buf d i p (drop_buf b (look_buf (look_buf r))), M)"
    using 2 unfolding drop_put by (rule rtranclp.rtrancl_into_rtrancl[rotated])
qed

lemma program_rx_rref_Some:
  assumes "ring_ok rx_desc_of (rx_ring s)" "i < NUM_DESCS"
  shows "program_rx_rref i p (tick (tick s)) = Some (put_rx i p (tick (tick s)))"
    "program_rx_rref i p ((tick (tick s))\<lparr>receive_rrefs := (receive_rrefs s)[i := None], rx_slot := (rx_slot s)[i := False]\<rparr>) =
      Some (put_rx i p (tick (tick s)))"
    "program_rx_rref i p ((tick (tick s))\<lparr>receive_rrefs := (receive_rrefs s)[i := None], ix_dropped := ix_dropped s @ [b], rx_slot := (rx_slot s)[i := False]\<rparr>) =
      Some (put_rx i p (drop_pkt b (tick (tick s))))"
  using rx_okD(1-3)[OF assms(1)] assms(2) by (simp_all add: program_rx_rref_def upd_chk_def put_rx_def drop_pkt_def tick_def rx_desc_of_def)

definition next_pos :: "ring_pos \<Rightarrow> ring_pos" where
  "next_pos p = p\<lparr>rp_count := rp_count p + 1, rp_last := rp_index p, rp_index := wrap_ring (rp_index p) NUM_DESCS\<rparr>"

definition clean_pos :: "ring_pos \<Rightarrow> ring_pos" where
  "clean_pos p = p\<lparr>rp_clean := wrap_ring (rp_clean p) NUM_DESCS\<rparr>"

lemma rx_submit_rref_cases:
  assumes ok: "ring_ok rx_desc_of (rx_ring s)" and i: "rp_index p = i" "i < NUM_DESCS" and whole: "whole_frames nic"
  shows "rx_slot s ! i \<Longrightarrow> \<not> stat_dd (nic_rx_status nic (ix_clock s) i) \<Longrightarrow>
      rx_submit_rref nic p (pk # pks) reap s = Some (p, pks @ [pk], reap, tick s)"
    "\<not> rx_slot s ! i \<Longrightarrow> rx_submit_rref nic p (pk # pks) reap s =
      rx_submit_rref nic (next_pos p) pks reap (put_rx i pk (tick (tick s)))"
    "receive_rrefs s ! i = Some b \<Longrightarrow> stat_dd (nic_rx_status nic (ix_clock s) i) \<Longrightarrow>
      nic_rx_length nic (ix_clock s + 1) i mod 2 ^ 16 \<le> PKT_SIZE \<and> length reap < IXGBE_BATCH \<Longrightarrow>
      rx_submit_rref nic p (pk # pks) reap s =
      rx_submit_rref nic (next_pos (clean_pos p)) pks (reap @ [b]) (put_rx i pk (tick (tick s)))"
    "receive_rrefs s ! i = Some b \<Longrightarrow> stat_dd (nic_rx_status nic (ix_clock s) i) \<Longrightarrow>
      \<not> (nic_rx_length nic (ix_clock s + 1) i mod 2 ^ 16 \<le> PKT_SIZE \<and> length reap < IXGBE_BATCH) \<Longrightarrow>
      rx_submit_rref nic p (pk # pks) reap s =
      rx_submit_rref nic (next_pos (clean_pos p)) pks reap (put_rx i pk (drop_pkt b (tick (tick s))))"
proof -
  have eop: "stat_dd (nic_rx_status nic (ix_clock s) i) \<longrightarrow> stat_eop (nic_rx_status nic (ix_clock s) i)"
    using whole by (simp add: whole_frames_def)
  note l = rx_okD(1-3)[OF ok] rx_okD(4)[OF ok i(2)] i eop
  note ds = status_tick nth_chk_def take_rx_def push_or_drop_def deque_push_def assert_that_def next_pos_def clean_pos_def
  show "rx_submit_rref nic p (pk # pks) reap s = Some (p, pks @ [pk], reap, tick s)"
    if "rx_slot s ! i" "\<not> stat_dd (nic_rx_status nic (ix_clock s) i)"
    using that l by (simp add: ds)
  show "rx_submit_rref nic p (pk # pks) reap s = rx_submit_rref nic (next_pos p) pks reap (put_rx i pk (tick (tick s)))"
    if "\<not> rx_slot s ! i"
    using that l program_rx_rref_Some(1)[OF ok i(2)] by (simp add: ds)
  assume b: "receive_rrefs s ! i = Some b" "stat_dd (nic_rx_status nic (ix_clock s) i)"
  show "rx_submit_rref nic p (pk # pks) reap s =
      rx_submit_rref nic (next_pos (clean_pos p)) pks (reap @ [b]) (put_rx i pk (tick (tick s)))"
    if "nic_rx_length nic (ix_clock s + 1) i mod 2 ^ 16 \<le> PKT_SIZE \<and> length reap < IXGBE_BATCH"
    using that b l program_rx_rref_Some(2)[OF ok i(2)] by (simp add: ds)
  show "rx_submit_rref nic p (pk # pks) reap s =
      rx_submit_rref nic (next_pos (clean_pos p)) pks reap (put_rx i pk (drop_pkt b (tick (tick s))))"
    if "\<not> (nic_rx_length nic (ix_clock s + 1) i mod 2 ^ 16 \<le> PKT_SIZE \<and> length reap < IXGBE_BATCH)"
    using that b l program_rx_rref_Some(3)[OF ok i(2)] by (auto simp: ds)
qed

text \<open>The loop over the buffers runs to its end, by steps of the protocol.\<close>

definition rx_submits :: "nic \<Rightarrow> ring_pos \<Rightarrow> pbuf list \<Rightarrow> pbuf list \<Rightarrow> ixgbe \<Rightarrow> bool" where
  "rx_submits nic p pks reap s \<longleftrightarrow> (\<exists>p' rest reap' s'. rx_submit_rref nic p pks reap s = Some (p', rest, reap', s') \<and>
     rx_run nic s (mset pks + mset reap) s' (mset rest + mset reap') \<and> rx_kept s s' \<and> pos_moved p p' \<and>
     length reap' \<le> IXGBE_BATCH \<and> (short_frames nic \<and> length pks + length reap \<le> IXGBE_BATCH \<longrightarrow> ix_dropped s' = ix_dropped s) \<and>
     rp_count p' + length rest = rp_count p + length pks)"

lemma rx_submits_more:
  assumes eq: "rx_submit_rref nic p (pk # pks) reap s = rx_submit_rref nic q pks reap2 s2"
    and run: "rx_run nic s (mset (pk # pks) + mset reap) s2 (mset pks + mset reap2)" and k: "rx_kept s s2"
    and pos: "pos_ok p" "rp_count q = rp_count p + 1" "rp_index q = wrap_ring (rp_index p) NUM_DESCS" "rp_last q = rp_index p"
    and same: "short_frames nic \<and> length reap < IXGBE_BATCH \<longrightarrow> ix_dropped s2 = ix_dropped s" "length reap2 \<le> length reap + 1"
    and more: "rx_submits nic q pks reap2 s2"
  shows "rx_submits nic p (pk # pks) reap s"
proof -
  obtain p' rest reap' s' where 2: "rx_submit_rref nic q pks reap2 s2 = Some (p', rest, reap', s')"
    "rx_run nic s2 (mset pks + mset reap2) s' (mset rest + mset reap')" "rx_kept s2 s'" "pos_moved q p'" "length reap' \<le> IXGBE_BATCH"
    "short_frames nic \<and> length pks + length reap2 \<le> IXGBE_BATCH \<longrightarrow> ix_dropped s' = ix_dropped s2"
    "rp_count p' + length rest = rp_count q + length pks"
    using more unfolding rx_submits_def by blast
  show ?thesis unfolding rx_submits_def eq
    using 2 same pos(2) pos_moved_step[OF pos(1) 2(4) pos(2-4)] rx_kept_trans[OF k 2(3)] rtranclp_trans[OF run 2(2)] by (intro exI) auto
qed

lemma rx_submit_rref_runs:
  assumes "ring_ok rx_desc_of (rx_ring s)" "pos_ok p" "length reap \<le> IXGBE_BATCH" and whole: "whole_frames nic"
  shows "rx_submits nic p pks reap s"
  using assms(1-3)
proof (induction pks arbitrary: p reap s)
  case Nil
  then show ?case by (simp add: rx_submits_def pos_moved_refl)
next
  case (Cons pk pks)
  note ok = Cons.prems(1)
  define i where "i = rp_index p"
  have i: "rp_index p = i" "i < NUM_DESCS" using Cons.prems(2) by (auto simp: i_def pos_ok_def)
  note cs = rx_submit_rref_cases[OF ok i whole] and slot = rx_okD(4)[OF ok i(2)]
  have q: "pos_ok (next_pos p)" "pos_ok (next_pos (clean_pos p))"
    using Cons.prems(2) by (simp_all add: pos_ok_def next_pos_def clean_pos_def)
  have ok2: "ring_ok rx_desc_of (rx_ring (put_rx i pk (tick (tick s))))" "ring_ok rx_desc_of (rx_ring (put_rx i pk (drop_pkt b (tick (tick s)))))" for b
    using ok by (simp_all add: ring_ok_ops)
  let ?len = "nic_rx_length nic (ix_clock s + 1) i mod 2 ^ 16"
  consider (wait) "rx_slot s ! i" "\<not> stat_dd (nic_rx_status nic (ix_clock s) i)" | (free) "\<not> rx_slot s ! i"
    | (swap) b where "receive_rrefs s ! i = Some b" "stat_dd (nic_rx_status nic (ix_clock s) i)" "?len \<le> PKT_SIZE \<and> length reap < IXGBE_BATCH"
    | (full) b where "receive_rrefs s ! i = Some b" "stat_dd (nic_rx_status nic (ix_clock s) i)" "\<not> (?len \<le> PKT_SIZE \<and> length reap < IXGBE_BATCH)"
    using slot by auto
  then show ?case
  proof cases
    case wait
    have "rx_run nic s (mset (pk # pks) + mset reap) (tick s) (mset (pks @ [pk]) + mset reap)"
      using look[of _ _ "rx_ring s"] by (simp add: r_into_rtranclp)
    then show ?thesis using cs(1)[OF wait, of pk pks reap] Cons.prems(2,3) by (simp add: rx_submits_def pos_moved_refl)
  next
    case free
    have "rx_run nic s (mset (pk # pks) + mset reap) (put_rx i pk (tick (tick s))) (mset pks + mset reap)"
      using steps_look_look_put[of i "rx_ring s" "nic_rx_status nic" rx_desc_of pk "mset pks + mset reap"] free i(2) by simp
    then show ?thesis using Cons.prems(2) Cons.IH[OF ok2(1) q(1) Cons.prems(3)]
      by (intro rx_submits_more[OF cs(2)[OF free]]) (simp_all add: next_pos_def)
  next
    case swap
    have "rx_run nic s (mset (pk # pks) + mset reap) (put_rx i pk (tick (tick s))) (mset pks + mset (reap @ [b]))"
      using steps_exchange(1)[OF ok i(2), of b "nic_rx_status nic" pk "mset pks + mset reap"] swap by simp
    then show ?thesis using Cons.prems(2) swap(3) Cons.IH[OF ok2(1) q(2), of "reap @ [b]"]
      by (intro rx_submits_more[OF cs(3)[OF swap]]) (simp_all add: next_pos_def clean_pos_def)
  next
    case full
    have "rx_run nic s (mset (pk # pks) + mset reap) (put_rx i pk (drop_pkt b (tick (tick s)))) (mset pks + mset reap)"
      using steps_exchange(2)[OF ok i(2), of b "nic_rx_status nic" pk "mset pks + mset reap"] full by simp
    moreover have "short_frames nic \<Longrightarrow> \<not> length reap < IXGBE_BATCH" using full(3) unfolding short_frames_def by blast
    ultimately show ?thesis using Cons.prems(2) Cons.IH[OF ok2(2) q(2) Cons.prems(3)]
      by (intro rx_submits_more[OF cs(4)[OF full]]) (auto simp: next_pos_def clean_pos_def)
  qed
qed

text \<open>The loop that reaps received buffers: within its bound it drops nothing.\<close>

definition out_rx :: "nat \<Rightarrow> ixgbe \<Rightarrow> ixgbe" where
  "out_rx i s = (tick (tick s))\<lparr>rx_slot := (rx_slot s)[i := False], receive_rrefs := (receive_rrefs s)[i := None]\<rparr>"

lemma out_rx_state [simp]: "rx_ring (out_rx i s) = look_buf (take_buf i (rx_ring s))" "rx_kept s (out_rx i s)" "ix_dropped (out_rx i s) = ix_dropped s"
  by (simp_all add: out_rx_def rx_ring_def ring_defs rx_kept_def tx_same_def tick_def)

lemma out_rx_run:
  assumes "i < NUM_DESCS" "receive_rrefs s ! i = Some b" "stat_dd (nic_rx_status nic (ix_clock s) i)"
  shows "rx_run nic s M (out_rx i s) (add_mset b M)"
  using reap[of i "rx_ring s" b "nic_rx_status nic" rx_desc_of M] assms look[of "nic_rx_status nic" rx_desc_of "take_buf i (rx_ring s)" "add_mset b M"]
  by (simp add: r_into_rtranclp rtranclp.rtrancl_into_rtrancl)

lemma rx_reap_step:
  assumes ok: "ring_ok rx_desc_of (rx_ring s)" and c: "c < NUM_DESCS" and room: "length reap < IXGBE_BATCH" and whole: "whole_frames nic"
  shows "\<exists>c1 reap1 s1. (rx_reap_rref nic c (Suc k) reap s = Some (c1, reap1, s1) \<or> rx_reap_rref nic c (Suc k) reap s = rx_reap_rref nic c1 k reap1 s1) \<and>
     rx_run nic s (mset reap) s1 (mset reap1) \<and> rx_kept s s1 \<and> c1 < NUM_DESCS \<and> length reap1 \<le> length reap + 1 \<and>
     ix_dropped s1 = ix_dropped s"
proof -
  have eop: "stat_dd (nic_rx_status nic (ix_clock s) c) \<longrightarrow> stat_eop (nic_rx_status nic (ix_clock s) c)"
    using whole by (simp add: whole_frames_def)
  note l = rx_okD(1-3)[OF ok] rx_okD(4)[OF ok c] c eop
  have look: "rx_run nic s (mset reap) (tick s) (mset reap)" by (simp add: look r_into_rtranclp)
  consider (wait) "\<not> stat_dd (nic_rx_status nic (ix_clock s) c)" | (free) "stat_dd (nic_rx_status nic (ix_clock s) c)" "\<not> rx_slot s ! c"
    | (out) b where "stat_dd (nic_rx_status nic (ix_clock s) c)" "receive_rrefs s ! c = Some b" using l by auto
  then show ?thesis
  proof cases
    case wait
    show ?thesis by (rule exI[of _ c], rule exI[of _ reap], rule exI[of _ "tick s"]) (use wait l look in \<open>simp add: status_tick\<close>)
  next
    case free
    show ?thesis by (rule exI[of _ c], rule exI[of _ reap], rule exI[of _ "tick s"])
      (use free l look in \<open>simp add: status_tick nth_chk_def\<close>)
  next
    case out
    have "rx_run nic s (mset reap) (out_rx c s) (mset (reap @ [b]))" using out_rx_run[OF c out(2,1)] by simp
    moreover have "rx_reap_rref nic c (Suc k) reap s =
      (if wrap_ring c NUM_DESCS = receive_index (out_rx c s) then Some (wrap_ring c NUM_DESCS, reap @ [b], out_rx c s)
       else rx_reap_rref nic (wrap_ring c NUM_DESCS) k (reap @ [b]) (out_rx c s))"
      using out l room by (simp add: status_tick nth_chk_def take_rx_def push_or_drop_room) (simp add: out_rx_def tick_def)
    ultimately show ?thesis
      by (intro exI[of _ "wrap_ring c NUM_DESCS"] exI[of _ "reap @ [b]"] exI[of _ "out_rx c s"]) simp
  qed
qed

lemma rx_reap_rref_runs:
  assumes "ring_ok rx_desc_of (rx_ring s)" "c < NUM_DESCS" "length reap + k \<le> IXGBE_BATCH" and whole: "whole_frames nic"
  shows "\<exists>c' reap' s'. rx_reap_rref nic c k reap s = Some (c', reap', s') \<and> rx_run nic s (mset reap) s' (mset reap') \<and> rx_kept s s' \<and>
     c' < NUM_DESCS \<and> length reap' \<le> IXGBE_BATCH \<and> ix_dropped s' = ix_dropped s"
  using assms(1-3)
proof (induction k arbitrary: c reap s)
  case 0
  then show ?case by simp
next
  case (Suc k)
  have "length reap < IXGBE_BATCH" using Suc.prems(3) by simp
  from rx_reap_step[OF Suc.prems(1-2) this whole, of k] obtain c1 reap1 s1
    where 1: "rx_reap_rref nic c (Suc k) reap s = Some (c1, reap1, s1) \<or> rx_reap_rref nic c (Suc k) reap s = rx_reap_rref nic c1 k reap1 s1"
      "rx_run nic s (mset reap) s1 (mset reap1)" "rx_kept s s1" "c1 < NUM_DESCS" "length reap1 \<le> length reap + 1" "ix_dropped s1 = ix_dropped s"
    by blast
  have ok: "ring_ok rx_desc_of (rx_ring s1)" using ring_steps_keep[OF 1(2) Suc.prems(1)] by blast
  have room: "length reap1 + k \<le> IXGBE_BATCH" using 1(5) Suc.prems(3) by simp
  from 1(1) show ?case
  proof
    assume "rx_reap_rref nic c (Suc k) reap s = Some (c1, reap1, s1)"
    then show ?thesis using 1 room by simp
  next
    assume eq: "rx_reap_rref nic c (Suc k) reap s = rx_reap_rref nic c1 k reap1 s1"
    from Suc.IH[OF ok 1(4) room] obtain c' reap' s' where 2: "rx_reap_rref nic c1 k reap1 s1 = Some (c', reap', s')"
      "rx_run nic s1 (mset reap1) s' (mset reap')" "rx_kept s1 s'" "c' < NUM_DESCS" "length reap' \<le> IXGBE_BATCH" "ix_dropped s' = ix_dropped s1"
      by blast
    show ?thesis unfolding eq using 1(6) 2 rx_kept_trans[OF 1(3) 2(3)] rtranclp_trans[OF 1(2) 2(2)] by simp
  qed
qed

text \<open>The whole operation.  The tail register names the last buffer given, one before the next index.\<close>

definition rx_result :: "nic \<Rightarrow> ixgbe \<Rightarrow> pbuf list \<Rightarrow> pbuf list \<Rightarrow> nat \<Rightarrow> pbuf list \<Rightarrow> pbuf list \<Rightarrow> ixgbe \<Rightarrow> bool" where
  "rx_result nic s packets reap received packets' reap' s' \<longleftrightarrow> ix_inv s' \<and> tx_same s s' \<and>
     rx_run nic s (mset packets + mset reap) s' (mset packets' + mset reap') \<and> length reap' \<le> IXGBE_BATCH \<and>
     receive_index s' = (receive_index s + received) mod NUM_DESCS \<and>
     (0 < received \<longrightarrow> receive_index s' = wrap_ring (ix_rdt s') NUM_DESCS) \<and>
     received + length packets' = length packets \<and>
     (short_frames nic \<and> length packets + length reap \<le> IXGBE_BATCH \<longrightarrow> ix_dropped s' = ix_dropped s)"

lemma tx_ring_frame: "tx_same s s' \<Longrightarrow> ring_ok tx_desc_of (tx_ring s) \<Longrightarrow> ring_ok tx_desc_of (tx_ring s')"
  by (simp add: tx_same_def ring_ok_def)

lemma rx_ring_index [simp]:
  "rx_ring (s\<lparr>rx_clean_index := x\<rparr>) = rx_ring s" "rx_ring (s\<lparr>receive_index := x\<rparr>) = rx_ring s" "rx_ring (s\<lparr>ix_rdt := x\<rparr>) = rx_ring s"
  "tx_ring (s\<lparr>rx_clean_index := x\<rparr>) = tx_ring s" "tx_ring (s\<lparr>receive_index := x\<rparr>) = tx_ring s" "tx_ring (s\<lparr>ix_rdt := x\<rparr>) = tx_ring s"
  by (simp_all add: tx_ring_def rx_ring_def)

lemma rx_finish:
  assumes inv: "ix_inv s" and ok: "ring_ok rx_desc_of (rx_ring s1)" and k: "rx_kept s s1" and pos: "pos_moved p0 p" "c < NUM_DESCS"
    and p0: "rp_count p0 = 0" "rp_index p0 = receive_index s" "rp_last p0 = receive_index s"
    and s': "s' = (if rp_index p \<noteq> rp_last p then s1\<lparr>ix_rdt := rp_last p, receive_index := rp_index p, rx_clean_index := c\<rparr> else s1)"
  shows "ix_inv s' \<and> tx_same s s' \<and> rx_ring s' = rx_ring s1 \<and> receive_index s' = (receive_index s + rp_count p) mod NUM_DESCS \<and>
     (0 < rp_count p \<longrightarrow> receive_index s' = wrap_ring (ix_rdt s') NUM_DESCS)"
proof -
  have tx: "tx_same s s1" using k by (simp add: rx_kept_def)
  have 1: "ix_inv s'" using inv ok k pos tx_ring_frame[OF tx] unfolding s' by (simp add: ix_inv_def rx_kept_def tx_same_def pos_moved_def pos_ok_def)
  have 2: "tx_same s s'" using tx by (simp add: s' tx_same_def)
  have 3: "rx_ring s' = rx_ring s1" by (simp add: s')
  have "rp_index p0 = rp_last p0" "rp_index p0 < NUM_DESCS" using p0 inv by (simp_all add: ix_inv_def)
  note ne = pos_moved_index[OF pos(1) this]
  show ?thesis
  proof (cases "rp_index p = rp_last p")
    case True
    then have "rp_count p = 0" using ne p0(1) by simp
    then show ?thesis using True k inv 1 2 3 by (simp add: s' rx_kept_def ix_inv_def)
  next
    case False
    then have n: "rp_count p \<noteq> rp_count p0" using ne by simp
    have "rp_index p = wrap_ring (rp_last p) NUM_DESCS" using pos(1) unfolding pos_moved_def if_not_P[OF n] by blast
    moreover have "rp_index p = (receive_index s + rp_count p) mod NUM_DESCS" using pos(1) p0 by (simp add: pos_moved_def)
    moreover have "receive_index s' = rp_index p" "ix_rdt s' = rp_last p" using False by (simp_all add: s')
    ultimately show ?thesis using 1 2 3 by metis
  qed
qed

lemma rx_submit_and_poll_rref_result:
  assumes inv: "ix_inv s" and reap: "length reap \<le> IXGBE_BATCH" and whole: "whole_frames nic"
  shows "\<exists>received packets' reap' s'. rx_submit_and_poll_rref nic packets reap s = Some (received, packets', reap', s') \<and>
    rx_result nic s packets reap received packets' reap' s'"
proof -
  define p0 where "p0 = \<lparr>rp_count = 0, rp_index = receive_index s, rp_clean = rx_clean_index s, rp_last = receive_index s\<rparr>"
  have ok: "ring_ok rx_desc_of (rx_ring s)" and p0: "pos_ok p0" using inv by (simp_all add: ix_inv_def p0_def pos_ok_def)
  from rx_submit_rref_runs[OF ok p0 reap whole, of packets] obtain p rest reap1 s1
    where 1: "rx_submit_rref nic p0 packets reap s = Some (p, rest, reap1, s1)"
      "rx_run nic s (mset packets + mset reap) s1 (mset rest + mset reap1)" "rx_kept s s1" "pos_moved p0 p" "length reap1 \<le> IXGBE_BATCH"
      "short_frames nic \<and> length packets + length reap \<le> IXGBE_BATCH \<longrightarrow> ix_dropped s1 = ix_dropped s"
      "rp_count p + length rest = rp_count p0 + length packets"
    unfolding rx_submits_def by blast
  define l where "l = wrap_ring (rp_clean p) NUM_DESCS"
  have ok1: "ring_ok rx_desc_of (rx_ring s1)" using ring_steps_keep[OF 1(2) ok] by blast
  have l1: "l < NUM_DESCS" "length reap1 + (IXGBE_BATCH - length reap1) \<le> IXGBE_BATCH" using 1(5) by (simp_all add: l_def)
  from rx_reap_rref_runs[OF ok1 l1 whole] obtain c reap2 s2
    where 2: "rx_reap_rref nic l (IXGBE_BATCH - length reap1) reap1 s1 = Some (c, reap2, s2)"
      "rx_run nic s1 (mset reap1) s2 (mset reap2)" "rx_kept s1 s2" "c < NUM_DESCS" "length reap2 \<le> IXGBE_BATCH" "ix_dropped s2 = ix_dropped s1"
    by blast
  have run: "rx_run nic s (mset packets + mset reap) s2 (mset rest + mset reap2)"
    using rtranclp_trans[OF 1(2)] ring_steps_frame[OF 2(2), of "mset rest"] by (simp add: add.commute)
  have ok2: "ring_ok rx_desc_of (rx_ring s2)" using ring_steps_keep[OF 2(2) ok1] by blast
  have pos: "rp_count p0 = 0" "rp_index p0 = receive_index s" "rp_last p0 = receive_index s" by (simp_all add: p0_def)
  show ?thesis
  proof (cases "length reap1 < IXGBE_BATCH")
    case True
    define c' where "c' = (if l \<noteq> c then wrap_ring c NUM_DESCS else c)"
    define s' where "s' = (if rp_index p \<noteq> rp_last p then s2\<lparr>ix_rdt := rp_last p, receive_index := rp_index p, rx_clean_index := c'\<rparr> else s2)"
    have d: "ix_dropped s' = ix_dropped s2" by (simp add: s'_def)
    have c': "c' < NUM_DESCS" using 2(4) by (simp add: c'_def)
    have "rx_submit_and_poll_rref nic packets reap s = Some (rp_count p, rest, reap2, s')"
      using 1(1) 2(1) True by (simp add: rx_submit_and_poll_rref_def p0_def s'_def c'_def l_def)
    moreover have "rx_result nic s packets reap (rp_count p) rest reap2 s'"
      using rx_finish[OF inv ok2 rx_kept_trans[OF 1(3) 2(3)] 1(4) c' pos s'_def] run 1(5,6,7) 2(5,6) pos d
      by (auto simp: rx_result_def)
    ultimately show ?thesis by blast
  next
    case False
    define s' where "s' = (if rp_index p \<noteq> rp_last p then s1\<lparr>ix_rdt := rp_last p, receive_index := rp_index p, rx_clean_index := l\<rparr> else s1)"
    have d: "ix_dropped s' = ix_dropped s1" by (simp add: s'_def)
    have "rx_submit_and_poll_rref nic packets reap s = Some (rp_count p, rest, reap1, s')"
      using 1(1) False by (simp add: rx_submit_and_poll_rref_def p0_def s'_def l_def)
    moreover have "rx_result nic s packets reap (rp_count p) rest reap1 s'"
      using rx_finish[OF inv ok1 1(3,4) l1(1) pos s'_def] 1 pos d by (auto simp: rx_result_def)
    ultimately show ?thesis by blast
  qed
qed

section \<open>Polling\<close>

lemma push_or_drop_cases:
  "push_or_drop n (Some b) reap s = (if length reap < n then (reap @ [b], s) else (reap, drop_pkt b s))"
  by (simp add: push_or_drop_def deque_push_def drop_pkt_def)

definition poll_tx :: "nat \<Rightarrow> ixgbe \<Rightarrow> ixgbe" where
  "poll_tx i s = s\<lparr>tx_slot := (tx_slot s)[i := False], transmit_rrefs := (transmit_rrefs s)[i := None]\<rparr>"

lemma poll_tx_state [simp]:
  "tx_ring (poll_tx i (tick s)) = take_buf i (tx_ring s)" "tx_ring (poll_tx i (drop_pkt b (tick s))) = drop_buf b (take_buf i (tx_ring s))"
  "tx_kept s (poll_tx i (tick s))" "tx_kept s (poll_tx i (drop_pkt b (tick s)))" "ix_dropped (poll_tx i s) = ix_dropped s"
  by (simp_all add: poll_tx_def tx_ring_def ring_defs tx_kept_def rx_same_def tick_def drop_pkt_def)

definition poll_rx :: "nat \<Rightarrow> ixgbe \<Rightarrow> ixgbe" where
  "poll_rx i s = s\<lparr>rx_slot := (rx_slot s)[i := False], receive_rrefs := (receive_rrefs s)[i := None]\<rparr>"

lemma poll_rx_state [simp]:
  "rx_ring (poll_rx i (tick (tick s))) = look_buf (take_buf i (rx_ring s))"
  "rx_ring (poll_rx i (drop_pkt b (tick (tick s)))) = drop_buf b (look_buf (take_buf i (rx_ring s)))"
  "rx_kept s (poll_rx i (tick (tick s)))" "rx_kept s (poll_rx i (drop_pkt b (tick (tick s))))" "ix_dropped (poll_rx i s) = ix_dropped s"
  by (simp_all add: poll_rx_def rx_ring_def ring_defs rx_kept_def tx_same_def tick_def drop_pkt_def)

lemma steps_take:
  assumes "i < NUM_DESCS" "dr_bufs r ! i = Some b" "stat_dd (st (dr_clock r) i)"
  shows "ring_steps st d (r, M) (take_buf i r, add_mset b M)" "ring_steps st d (r, M) (drop_buf b (take_buf i r), M)"
    "ring_steps st d (r, M) (look_buf (take_buf i r), add_mset b M)" "ring_steps st d (r, M) (drop_buf b (look_buf (take_buf i r)), M)"
proof -
  show 1: "ring_steps st d (r, M) (take_buf i r, add_mset b M)" using reap[of i r b st d M] assms by blast
  then show "ring_steps st d (r, M) (drop_buf b (take_buf i r), M)" by (rule rtranclp.rtrancl_into_rtrancl) (rule drop)
  show 2: "ring_steps st d (r, M) (look_buf (take_buf i r), add_mset b M)" by (rule rtranclp.rtrancl_into_rtrancl[OF 1]) (rule look)
  show "ring_steps st d (r, M) (drop_buf b (look_buf (take_buf i r)), M)" by (rule rtranclp.rtrancl_into_rtrancl[OF 2]) (rule drop)
qed

text \<open>An iteration of each poll.\<close>

lemma tx_poll_step:
  assumes ok: "ring_ok tx_desc_of (tx_ring s)" and i: "i < NUM_DESCS"
  shows "\<exists>n1 reap1 s1. tx_poll_from nic (i # ids) n reap s = tx_poll_from nic ids n1 reap1 s1 \<and> tx_run nic s (mset reap) s1 (mset reap1) \<and>
     tx_kept s s1 \<and> (length reap \<le> NUM_DESCS \<longrightarrow> length reap1 \<le> NUM_DESCS) \<and> length reap1 \<le> length reap + 1 \<and>
     (length reap < NUM_DESCS \<longrightarrow> ix_dropped s1 = ix_dropped s) \<and>
     n1 + length reap + length (ix_dropped s) = n + length reap1 + length (ix_dropped s1)"
proof -
  note l = tx_okD(1-3)[OF ok] tx_okD(4)[OF ok i] i
  show ?thesis
  proof (cases "stat_dd (nic_tx_status nic (ix_clock s) i) \<and> tx_slot s ! i")
    case True
    then obtain b where b: "transmit_rrefs s ! i = Some b" "stat_dd (nic_tx_status nic (ix_clock s) i)" using l by auto
    note st = steps_take[of i "tx_ring s" b "nic_tx_status nic" tx_desc_of "mset reap"]
    have "tx_poll_from nic (i # ids) n reap s = (if length reap < NUM_DESCS then tx_poll_from nic ids (n + 1) (reap @ [b]) (poll_tx i (tick s))
       else tx_poll_from nic ids (n + 1) reap (poll_tx i (drop_pkt b (tick s))))"
      using b l True by (simp add: status_tick nth_chk_def take_tx_def push_or_drop_cases) (simp add: poll_tx_def drop_pkt_def)
    then show ?thesis
      using st i b
      by (intro exI[of _ "n + 1"] exI[of _ "if length reap < NUM_DESCS then reap @ [b] else reap"]
        exI[of _ "poll_tx i (if length reap < NUM_DESCS then tick s else drop_pkt b (tick s))"]) simp
  next
    case False
    have "tx_run nic s (mset reap) (tick s) (mset reap)" by (simp add: look r_into_rtranclp)
    then show ?thesis using False l by (intro exI[of _ n] exI[of _ reap] exI[of _ "tick s"]) (auto simp: status_tick nth_chk_def)
  qed
qed

lemma rx_poll_step:
  assumes ok: "ring_ok rx_desc_of (rx_ring s)" and i: "i < NUM_DESCS" and whole: "whole_frames nic"
  shows "\<exists>n1 reap1 s1. rx_poll_from nic (i # ids) n reap s = rx_poll_from nic ids n1 reap1 s1 \<and> rx_run nic s (mset reap) s1 (mset reap1) \<and>
     rx_kept s s1 \<and> (length reap \<le> NUM_DESCS \<longrightarrow> length reap1 \<le> NUM_DESCS) \<and> length reap1 \<le> length reap + 1 \<and>
     (length reap < NUM_DESCS \<longrightarrow> ix_dropped s1 = ix_dropped s) \<and>
     n1 + length reap + length (ix_dropped s) = n + length reap1 + length (ix_dropped s1)"
proof -
  have eop: "stat_dd (nic_rx_status nic (ix_clock s) i) \<longrightarrow> stat_eop (nic_rx_status nic (ix_clock s) i)"
    using whole by (simp add: whole_frames_def)
  note l = rx_okD(1-3)[OF ok] rx_okD(4)[OF ok i] i eop
  show ?thesis
  proof (cases "stat_dd (nic_rx_status nic (ix_clock s) i) \<and> rx_slot s ! i")
    case True
    then obtain b where b: "receive_rrefs s ! i = Some b" "stat_dd (nic_rx_status nic (ix_clock s) i)" using l by auto
    note st = steps_take[of i "rx_ring s" b "nic_rx_status nic" rx_desc_of "mset reap"]
    have "rx_poll_from nic (i # ids) n reap s = (if length reap < NUM_DESCS then rx_poll_from nic ids (n + 1) (reap @ [b]) (poll_rx i (tick (tick s)))
       else rx_poll_from nic ids (n + 1) reap (poll_rx i (drop_pkt b (tick (tick s)))))"
      using b l True by (simp add: status_tick nth_chk_def take_rx_def push_or_drop_cases) (simp add: poll_rx_def drop_pkt_def tick_def)
    then show ?thesis
      using st i b
      by (intro exI[of _ "n + 1"] exI[of _ "if length reap < NUM_DESCS then reap @ [b] else reap"]
        exI[of _ "poll_rx i (if length reap < NUM_DESCS then tick (tick s) else drop_pkt b (tick (tick s)))"]) simp
  next
    case False
    have "rx_run nic s (mset reap) (tick s) (mset reap)" by (simp add: look r_into_rtranclp)
    then show ?thesis using False l by (intro exI[of _ n] exI[of _ reap] exI[of _ "tick s"]) (auto simp: status_tick nth_chk_def)
  qed
qed

lemma tx_poll_from_runs:
  assumes "ring_ok tx_desc_of (tx_ring s)" "\<forall>i\<in>set ids. i < NUM_DESCS" "length reap \<le> NUM_DESCS"
  shows "\<exists>n' reap' s'. tx_poll_from nic ids n reap s = Some (n', reap', s') \<and> tx_run nic s (mset reap) s' (mset reap') \<and>
     tx_kept s s' \<and> length reap' \<le> NUM_DESCS \<and> (length reap + length ids \<le> NUM_DESCS \<longrightarrow> ix_dropped s' = ix_dropped s) \<and>
     n' + length reap + length (ix_dropped s) = n + length reap' + length (ix_dropped s')"
  using assms(1-3)
proof (induction ids arbitrary: n reap s)
  case Nil
  then show ?case by simp
next
  case (Cons i ids)
  have i: "i < NUM_DESCS" "\<forall>i\<in>set ids. i < NUM_DESCS" using Cons.prems(2) by simp_all
  obtain n1 reap1 s1 where 1: "tx_poll_from nic (i # ids) n reap s = tx_poll_from nic ids n1 reap1 s1"
    "tx_run nic s (mset reap) s1 (mset reap1)" "tx_kept s s1" "length reap \<le> NUM_DESCS \<longrightarrow> length reap1 \<le> NUM_DESCS" "length reap1 \<le> length reap + 1"
    "length reap < NUM_DESCS \<longrightarrow> ix_dropped s1 = ix_dropped s" "n1 + length reap + length (ix_dropped s) = n + length reap1 + length (ix_dropped s1)"
    using tx_poll_step[OF Cons.prems(1) i(1), of nic ids n reap] by blast
  have ok: "ring_ok tx_desc_of (tx_ring s1)" using ring_steps_keep[OF 1(2) Cons.prems(1)] by blast
  have l1: "length reap1 \<le> NUM_DESCS" using 1(4) Cons.prems(3) by simp
  obtain n' reap' s' where 2: "tx_poll_from nic ids n1 reap1 s1 = Some (n', reap', s')"
    "tx_run nic s1 (mset reap1) s' (mset reap')" "tx_kept s1 s'" "length reap' \<le> NUM_DESCS"
    "length reap1 + length ids \<le> NUM_DESCS \<longrightarrow> ix_dropped s' = ix_dropped s1"
    "n' + length reap1 + length (ix_dropped s1) = n1 + length reap' + length (ix_dropped s')"
    using Cons.IH[OF ok i(2) l1, of n1] by blast
  have d: "length reap + length (i # ids) \<le> NUM_DESCS \<longrightarrow> ix_dropped s' = ix_dropped s" using 1(5,6) 2(5) by auto
  have c: "n' + length reap + length (ix_dropped s) = n + length reap' + length (ix_dropped s')" using 1(7) 2(6) by linarith
  show ?case unfolding 1(1) using 2(1,4) d c tx_kept_trans[OF 1(3) 2(3)] rtranclp_trans[OF 1(2) 2(2)] by blast
qed

lemma rx_poll_from_runs:
  assumes "ring_ok rx_desc_of (rx_ring s)" "\<forall>i\<in>set ids. i < NUM_DESCS" "length reap \<le> NUM_DESCS" "whole_frames nic"
  shows "\<exists>n' reap' s'. rx_poll_from nic ids n reap s = Some (n', reap', s') \<and> rx_run nic s (mset reap) s' (mset reap') \<and>
     rx_kept s s' \<and> length reap' \<le> NUM_DESCS \<and> (length reap + length ids \<le> NUM_DESCS \<longrightarrow> ix_dropped s' = ix_dropped s) \<and>
     n' + length reap + length (ix_dropped s) = n + length reap' + length (ix_dropped s')"
  using assms(1-3)
proof (induction ids arbitrary: n reap s)
  case Nil
  then show ?case by simp
next
  case (Cons i ids)
  have i: "i < NUM_DESCS" "\<forall>i\<in>set ids. i < NUM_DESCS" using Cons.prems(2) by simp_all
  obtain n1 reap1 s1 where 1: "rx_poll_from nic (i # ids) n reap s = rx_poll_from nic ids n1 reap1 s1"
    "rx_run nic s (mset reap) s1 (mset reap1)" "rx_kept s s1" "length reap \<le> NUM_DESCS \<longrightarrow> length reap1 \<le> NUM_DESCS" "length reap1 \<le> length reap + 1"
    "length reap < NUM_DESCS \<longrightarrow> ix_dropped s1 = ix_dropped s" "n1 + length reap + length (ix_dropped s) = n + length reap1 + length (ix_dropped s1)"
    using rx_poll_step[OF Cons.prems(1) i(1) assms(4), of ids n reap] by blast
  have ok: "ring_ok rx_desc_of (rx_ring s1)" using ring_steps_keep[OF 1(2) Cons.prems(1)] by blast
  have l1: "length reap1 \<le> NUM_DESCS" using 1(4) Cons.prems(3) by simp
  obtain n' reap' s' where 2: "rx_poll_from nic ids n1 reap1 s1 = Some (n', reap', s')"
    "rx_run nic s1 (mset reap1) s' (mset reap')" "rx_kept s1 s'" "length reap' \<le> NUM_DESCS"
    "length reap1 + length ids \<le> NUM_DESCS \<longrightarrow> ix_dropped s' = ix_dropped s1"
    "n' + length reap1 + length (ix_dropped s1) = n1 + length reap' + length (ix_dropped s')"
    using Cons.IH[OF ok i(2) l1, of n1] by blast
  have d: "length reap + length (i # ids) \<le> NUM_DESCS \<longrightarrow> ix_dropped s' = ix_dropped s" using 1(5,6) 2(5) by auto
  have c: "n' + length reap + length (ix_dropped s) = n + length reap' + length (ix_dropped s')" using 1(7) 2(6) by linarith
  show ?case unfolding 1(1) using 2(1,4) d c rx_kept_trans[OF 1(3) 2(3)] rtranclp_trans[OF 1(2) 2(2)] by blast
qed

lemma tx_poll_rref_result:
  assumes inv: "ix_inv s" and reap: "length reap \<le> NUM_DESCS"
  shows "\<exists>n reap' s'. tx_poll_rref nic reap s = Some (n, reap', s') \<and> ix_inv s' \<and> rx_same s s' \<and> tx_run nic s (mset reap) s' (mset reap') \<and>
     length reap' \<le> NUM_DESCS \<and> (reap = [] \<longrightarrow> ix_dropped s' = ix_dropped s \<and> n = length reap')"
proof -
  have ok: "ring_ok tx_desc_of (tx_ring s)" using inv by (simp add: ix_inv_def)
  have ids: "\<forall>i\<in>set [0..<NUM_DESCS]. i < NUM_DESCS" by simp
  obtain n reap' s1 where 1: "tx_poll_from nic [0..<NUM_DESCS] 0 reap s = Some (n, reap', s1)" "tx_run nic s (mset reap) s1 (mset reap')"
    "tx_kept s s1" "length reap' \<le> NUM_DESCS" "length reap + length [0..<NUM_DESCS] \<le> NUM_DESCS \<longrightarrow> ix_dropped s1 = ix_dropped s"
    "n + length reap + length (ix_dropped s) = 0 + length reap' + length (ix_dropped s1)"
    using tx_poll_from_runs[OF ok ids reap, of nic 0] by blast
  have ok1: "ring_ok tx_desc_of (tx_ring s1)" using ring_steps_keep[OF 1(2) ok] by blast
  have rx: "rx_same s s1" using 1(3) by (simp add: tx_kept_def)
  define s' where "s' = (if 0 < n then s1\<lparr>tx_clean_index := transmit_index s1\<rparr> else s1)"
  have "tx_poll_rref nic reap s = Some (n, reap', s')" using 1(1) by (simp add: tx_poll_rref_def s'_def)
  moreover have "ix_inv s'" using inv ok1 1(3) rx_ring_frame[OF rx] by (simp add: s'_def ix_inv_def tx_kept_def rx_same_def)
  moreover have "rx_same s s'" "tx_ring s' = tx_ring s1" "ix_dropped s' = ix_dropped s1" using rx by (simp_all add: s'_def rx_same_def)
  ultimately show ?thesis using 1(2,4,5,6) by auto
qed

lemma rx_poll_rref_result:
  assumes inv: "ix_inv s" and reap: "length reap \<le> NUM_DESCS" and whole: "whole_frames nic"
  shows "\<exists>n reap' s'. rx_poll_rref nic reap s = Some (n, reap', s') \<and> ix_inv s' \<and> tx_same s s' \<and> rx_run nic s (mset reap) s' (mset reap') \<and>
     length reap' \<le> NUM_DESCS \<and> (reap = [] \<longrightarrow> ix_dropped s' = ix_dropped s \<and> n = length reap')"
proof -
  have ok: "ring_ok rx_desc_of (rx_ring s)" using inv by (simp add: ix_inv_def)
  have ids: "\<forall>i\<in>set [0..<NUM_DESCS]. i < NUM_DESCS" by simp
  obtain n reap' s1 where 1: "rx_poll_from nic [0..<NUM_DESCS] 0 reap s = Some (n, reap', s1)" "rx_run nic s (mset reap) s1 (mset reap')"
    "rx_kept s s1" "length reap' \<le> NUM_DESCS" "length reap + length [0..<NUM_DESCS] \<le> NUM_DESCS \<longrightarrow> ix_dropped s1 = ix_dropped s"
    "n + length reap + length (ix_dropped s) = 0 + length reap' + length (ix_dropped s1)"
    using rx_poll_from_runs[OF ok ids reap whole, of 0] by blast
  have ok1: "ring_ok rx_desc_of (rx_ring s1)" using ring_steps_keep[OF 1(2) ok] by blast
  have tx: "tx_same s s1" using 1(3) by (simp add: rx_kept_def)
  define s' where "s' = (if 0 < n then s1\<lparr>rx_clean_index := receive_index s1\<rparr> else s1)"
  have "rx_poll_rref nic reap s = Some (n, reap', s')" using 1(1) by (simp add: rx_poll_rref_def s'_def)
  moreover have "ix_inv s'" using inv ok1 1(3) tx_ring_frame[OF tx] by (simp add: s'_def ix_inv_def rx_kept_def tx_same_def)
  moreover have "tx_same s s'" "rx_ring s' = rx_ring s1" "ix_dropped s' = ix_dropped s1" using tx by (simp_all add: s'_def tx_same_def)
  ultimately show ?thesis using 1(2,4,5,6) by auto
qed

end
