(* ===== verification/Ixgbe_System.thy ===== *)
theory Ixgbe_System
  imports Ixgbe_Rx
begin

text \<open>
  The network driver under any sequence of calls of its interface for remote references, and the
  older interface for vectors.
\<close>

section \<open>Calls\<close>

text \<open>
  A call of \<open>submit_and_poll_rref\<close> or \<open>poll_rref\<close> on a probed device takes buffers from the clients and gives buffers
  back; the second part of a state is what the clients hold.
\<close>

inductive ix_call :: "nic \<Rightarrow> ixgbe \<times> pbuf multiset \<Rightarrow> ixgbe \<times> pbuf multiset \<Rightarrow> bool" for nic where
  submit: "length packets \<le> IXGBE_BATCH \<Longrightarrow> length collect \<le> IXGBE_BATCH \<Longrightarrow>
    submit_and_poll_rref nic packets collect tx s = Some (n, packets', collect', s') \<Longrightarrow>
    ix_call nic (s, mset packets + mset collect + M) (s', mset packets' + mset collect' + M)"
| poll: "length collect \<le> NUM_DESCS \<Longrightarrow> poll_rref nic collect tx s = Some (n, collect', s') \<Longrightarrow>
    ix_call nic (s, mset collect + M) (s', mset collect' + M)"

abbreviation ix_calls :: "nic \<Rightarrow> ixgbe \<times> pbuf multiset \<Rightarrow> ixgbe \<times> pbuf multiset \<Rightarrow> bool" where
  "ix_calls nic \<equiv> (ix_call nic)\<^sup>*\<^sup>*"

text \<open>All buffers: those of the clients, those in the rings, and those that were dropped.\<close>

definition all_bufs :: "ixgbe \<Rightarrow> pbuf multiset \<Rightarrow> pbuf multiset" where
  "all_bufs s M = M + bufs (transmit_rrefs s) + bufs (receive_rrefs s) + mset (ix_dropped s)"

text \<open>The buffers the device may still use stay where they are, with the descriptors that name them.\<close>

definition dma_safe :: "nic \<Rightarrow> ixgbe \<Rightarrow> ixgbe \<Rightarrow> bool" where
  "dma_safe nic s s' \<longleftrightarrow> (\<forall>i < NUM_DESCS.
     (tx_slot s ! i \<and> pending (nic_tx_status nic) (tx_ring s) (tx_ring s') i \<longrightarrow>
        tx_slot s' ! i \<and> transmit_rrefs s' ! i = transmit_rrefs s ! i \<and> transmit_ring s' ! i = transmit_ring s ! i) \<and>
     (rx_slot s ! i \<and> pending (nic_rx_status nic) (rx_ring s) (rx_ring s') i \<longrightarrow>
        rx_slot s' ! i \<and> receive_rrefs s' ! i = receive_rrefs s ! i \<and> receive_ring s' ! i = receive_ring s ! i))"

definition ix_moved :: "nic \<Rightarrow> ixgbe \<Rightarrow> pbuf multiset \<Rightarrow> ixgbe \<Rightarrow> pbuf multiset \<Rightarrow> bool" where
  "ix_moved nic s M s' M' \<longleftrightarrow> ix_clock s \<le> ix_clock s' \<and> all_bufs s' M' = all_bufs s M \<and> dma_safe nic s s'"

lemma tx_run_moved:
  assumes "ring_ok tx_desc_of (tx_ring s)" "rx_same s s'" "tx_run nic s A s' B"
  shows "ix_moved nic s (A + M) s' (B + M)"
proof -
  have m: "ring_moved (nic_tx_status nic) (tx_ring s) A (tx_ring s') B" using ring_steps_keep[OF assms(3,1)] by blast
  have "B + (bufs (transmit_rrefs s') + mset (ix_dropped s')) = A + (bufs (transmit_rrefs s) + mset (ix_dropped s))"
    using m by (simp add: ring_moved_def add.assoc)
  then have "all_bufs s' (B + M) = all_bufs s (A + M)"
    using assms(2) unfolding all_bufs_def rx_same_def by (simp add: ac_simps)
  then show ?thesis using m assms(2) by (simp add: ring_moved_def ix_moved_def dma_safe_def rx_same_def)
qed

lemma rx_run_moved:
  assumes "ring_ok rx_desc_of (rx_ring s)" "tx_same s s'" "rx_run nic s A s' B"
  shows "ix_moved nic s (A + M) s' (B + M)"
proof -
  have m: "ring_moved (nic_rx_status nic) (rx_ring s) A (rx_ring s') B" using ring_steps_keep[OF assms(3,1)] by blast
  have "B + (bufs (receive_rrefs s') + mset (ix_dropped s')) = A + (bufs (receive_rrefs s) + mset (ix_dropped s))"
    using m by (simp add: ring_moved_def add.assoc)
  then have "all_bufs s' (B + M) = all_bufs s (A + M)"
    using assms(2) unfolding all_bufs_def tx_same_def by (simp add: ac_simps)
  then show ?thesis using m assms(2) by (simp add: ring_moved_def ix_moved_def dma_safe_def tx_same_def)
qed

lemma ix_moved_trans:
  assumes 1: "ix_moved nic s M s1 M1" and 2: "ix_moved nic s1 M1 s2 M2"
  shows "ix_moved nic s M s2 M2"
proof -
  have c: "ix_clock s \<le> ix_clock s1" "ix_clock s1 \<le> ix_clock s2" using 1 2 by (auto simp: ix_moved_def)
  have p: "pending (nic_tx_status nic) (tx_ring s) (tx_ring s2) i \<Longrightarrow>
      pending (nic_tx_status nic) (tx_ring s) (tx_ring s1) i \<and> pending (nic_tx_status nic) (tx_ring s1) (tx_ring s2) i"
    "pending (nic_rx_status nic) (rx_ring s) (rx_ring s2) i \<Longrightarrow>
      pending (nic_rx_status nic) (rx_ring s) (rx_ring s1) i \<and> pending (nic_rx_status nic) (rx_ring s1) (rx_ring s2) i" for i
    by (rule pending_split; use c in simp)+
  have "dma_safe nic s s2" using 1 2 p unfolding ix_moved_def dma_safe_def by metis
  then show ?thesis using 1 2 c by (simp add: ix_moved_def)
qed

lemma ix_call_keeps:
  assumes "ix_call nic (s, M) (s', M')" "ix_inv s" "whole_frames nic"
  shows "ix_inv s' \<and> ix_moved nic s M s' M'"
  using assms(1)
proof (cases rule: ix_call.cases)
  case (submit packets collect tx n packets' collect' X)
  have ok: "ring_ok tx_desc_of (tx_ring s)" "ring_ok rx_desc_of (rx_ring s)" using assms(2) by (simp_all add: ix_inv_def)
  show ?thesis
  proof (cases tx)
    case True
    then have "tx_result nic s packets collect n packets' collect' s'"
      using tx_submit_and_poll_rref_result[OF assms(2) submit(4), of nic packets] submit(5) by (auto simp: submit_and_poll_rref_def)
    then show ?thesis using tx_run_moved[OF ok(1)] submit(1,2) by (simp add: tx_result_def)
  next
    case False
    then have "rx_result nic s packets collect n packets' collect' s'"
      using rx_submit_and_poll_rref_result[OF assms(2) submit(4) assms(3), of packets] submit(5) by (auto simp: submit_and_poll_rref_def)
    then show ?thesis using rx_run_moved[OF ok(2)] submit(1,2) by (simp add: rx_result_def)
  qed
next
  case (poll collect tx n collect' X)
  have ok: "ring_ok tx_desc_of (tx_ring s)" "ring_ok rx_desc_of (rx_ring s)" using assms(2) by (simp_all add: ix_inv_def)
  show ?thesis
  proof (cases tx)
    case True
    then have "ix_inv s' \<and> rx_same s s' \<and> tx_run nic s (mset collect) s' (mset collect')"
      using tx_poll_rref_result[OF assms(2) poll(3), of nic] poll(4) by (auto simp: poll_rref_def)
    then show ?thesis using tx_run_moved[OF ok(1)] poll(1,2) by simp
  next
    case False
    then have "ix_inv s' \<and> tx_same s s' \<and> rx_run nic s (mset collect) s' (mset collect')"
      using rx_poll_rref_result[OF assms(2) poll(3) assms(3)] poll(4) by (auto simp: poll_rref_def)
    then show ?thesis using rx_run_moved[OF ok(2)] poll(1,2) by simp
  qed
qed

lemma ix_calls_keep:
  assumes "ix_calls nic (s, M) (s', M')" "ix_inv s" "whole_frames nic"
  shows "ix_inv s' \<and> ix_moved nic s M s' M'"
  using assms(1)
proof (induction rule: rtranclp_induct2)
  case refl
  then show ?case using assms(2) by (simp add: ix_moved_def dma_safe_def)
next
  case (step s1 M1 s2 M2)
  then show ?case using ix_call_keeps[OF step.hyps(2) _ assms(3)] ix_moved_trans by blast
qed

lemma new_inv: "ix_inv IxgbeDevice_new"
  by (simp add: ix_inv_def ring_ok_def IxgbeDevice_new_def)


section \<open>Exclusive ownership\<close>

lemma bufs_member: "i < length xs \<Longrightarrow> xs ! i = Some b \<Longrightarrow> b \<in># bufs xs"
  using bufs_take[of i xs b] by simp

lemma bufs_twice:
  assumes "i < length xs" "j < length xs" "i \<noteq> j" "xs ! i = Some b" "xs ! j = Some b"
  shows "2 \<le> count (bufs xs) b"
proof -
  have "bufs xs = add_mset b (bufs (xs[i := None]))" using assms(1,4) by (rule bufs_take)
  moreover have "b \<in># bufs (xs[i := None])" using assms by (intro bufs_member[of j]) simp_all
  ultimately show ?thesis by (simp add: count_greater_zero_iff[symmetric] del: count_greater_zero_iff)
qed

lemma bufs_none: "bufs (replicate n None) = {#}"
  by (induction n) (simp_all add: bufs_def)

text \<open>A buffer the driver holds is in one slot of one ring, and no client has it.\<close>

definition exclusive :: "ixgbe \<Rightarrow> pbuf multiset \<Rightarrow> bool" where
  "exclusive s M \<longleftrightarrow> (\<forall>i < NUM_DESCS. \<forall>b.
     (transmit_rrefs s ! i = Some b \<longrightarrow> b \<notin># M \<and> (\<forall>j < NUM_DESCS. receive_rrefs s ! j \<noteq> Some b \<and> (j \<noteq> i \<longrightarrow> transmit_rrefs s ! j \<noteq> Some b))) \<and>
     (receive_rrefs s ! i = Some b \<longrightarrow> b \<notin># M \<and> (\<forall>j < NUM_DESCS. j \<noteq> i \<longrightarrow> receive_rrefs s ! j \<noteq> Some b)))"

lemma all_bufs_exclusive:
  assumes inv: "ix_inv s" and one: "\<And>b. count (all_bufs s M) b \<le> 1"
  shows "exclusive s M"
proof -
  have len: "length (transmit_rrefs s) = NUM_DESCS" "length (receive_rrefs s) = NUM_DESCS"
    using inv tx_okD(1) rx_okD(1) by (auto simp: ix_inv_def)
  have c: "count M b + count (bufs (transmit_rrefs s)) b + count (bufs (receive_rrefs s)) b \<le> 1" for b
    using one[of b] by (simp add: all_bufs_def)
  have t: "0 < count (bufs (transmit_rrefs s)) b" if "i < NUM_DESCS" "transmit_rrefs s ! i = Some b" for i b
    using bufs_member[of i "transmit_rrefs s" b] that len by simp
  have r: "0 < count (bufs (receive_rrefs s)) b" if "i < NUM_DESCS" "receive_rrefs s ! i = Some b" for i b
    using bufs_member[of i "receive_rrefs s" b] that len by simp
  have tt: "i = j" if "i < NUM_DESCS" "j < NUM_DESCS" "transmit_rrefs s ! i = Some b" "transmit_rrefs s ! j = Some b" for i j b
    using bufs_twice[of i "transmit_rrefs s" j b] that len c[of b] by fastforce
  have rr: "i = j" if "i < NUM_DESCS" "j < NUM_DESCS" "receive_rrefs s ! i = Some b" "receive_rrefs s ! j = Some b" for i j b
    using bufs_twice[of i "receive_rrefs s" j b] that len c[of b] by fastforce
  have m: "b \<notin># M" if "0 < count (bufs (transmit_rrefs s)) b + count (bufs (receive_rrefs s)) b" for b
  proof -
    have "count M b = 0" using c[of b] that by linarith
    then show ?thesis by (simp add: not_in_iff)
  qed
  have tr: False if "i < NUM_DESCS" "j < NUM_DESCS" "transmit_rrefs s ! i = Some b" "receive_rrefs s ! j = Some b" for i j b
    using t[OF that(1,3)] r[OF that(2,4)] c[of b] by linarith
  show ?thesis unfolding exclusive_def using t r tt rr m tr by (metis add_gr_0)
qed

section \<open>The interface for vectors\<close>

text \<open>
  \<open>Vec::from_raw_parts\<close> shares the memory of the vector in the ring, and \<open>transmit_buffers[i] = None\<close> then
  drops that vector: every vector a poll hands out has been freed.
\<close>

lemma set_buffer_freed:
  "set_tx_buffer i v s = Some s' \<Longrightarrow> transmit_buffers s ! i = Some w \<Longrightarrow> vb_ptr w \<in> set (ix_freed s')"
  "set_tx_buffer i v s = Some s' \<Longrightarrow> set (ix_freed s) \<subseteq> set (ix_freed s')"
  "set_rx_buffer i v s = Some s' \<Longrightarrow> receive_buffers s ! i = Some w \<Longrightarrow> vb_ptr w \<in> set (ix_freed s')"
  "set_rx_buffer i v s = Some s' \<Longrightarrow> set (ix_freed s) \<subseteq> set (ix_freed s')"
  by (auto simp: set_tx_buffer_def set_rx_buffer_def bind_eq_Some_conv nth_chk_def split: if_splits)

definition dangling :: "vbuf list \<Rightarrow> ixgbe \<Rightarrow> vbuf list \<Rightarrow> ixgbe \<Rightarrow> bool" where
  "dangling reap s reap' s' \<longleftrightarrow> set (ix_freed s) \<subseteq> set (ix_freed s') \<and> (\<forall>v \<in> set reap'. v \<in> set reap \<or> vb_ptr v \<in> set (ix_freed s'))"

lemma tx_poll_vec_dangling:
  "tx_poll_vec nic ids n reap s = Some (n', reap', s') \<Longrightarrow> dangling reap s reap' s'"
proof (induction ids arbitrary: n reap s)
  case Nil
  then show ?case by (simp add: dangling_def)
next
  case (Cons i ids)
  show ?case
  proof (cases "stat_dd (nic_tx_status nic (ix_clock s) i) \<and> tx_slot s ! i")
    case True
    then obtain s1 where 1: "set_tx_buffer i None ((tick s)\<lparr>tx_slot := (tx_slot s)[i := False]\<rparr>) = Some s1"
      "tx_poll_vec nic ids (n + 1) (case transmit_buffers s ! i of Some v \<Rightarrow> v # reap | None \<Rightarrow> reap) s1 = Some (n', reap', s')"
      using Cons.prems by (auto simp: status_tick bind_eq_Some_conv nth_chk_def split: if_splits)
    note d = Cons.IH[OF 1(2)] and f = set_buffer_freed(1)[OF 1(1)] set_buffer_freed(2)[OF 1(1)]
    show ?thesis using d f by (cases "transmit_buffers s ! i") (auto simp: dangling_def tick_def)
  next
    case False
    then have "tx_poll_vec nic ids n reap (tick s) = Some (n', reap', s')"
      using Cons.prems by (auto simp: status_tick bind_eq_Some_conv nth_chk_def split: if_splits)
    from Cons.IH[OF this] show ?thesis by (simp add: dangling_def tick_def)
  qed
qed

lemma tx_poll_frees:
  assumes "tx_poll nic [] s = Some (n, reap, s')" "v \<in> set reap"
  shows "vb_ptr v \<in> set (ix_freed s')"
proof -
  obtain s1 where 1: "tx_poll_vec nic [0..<NUM_DESCS] 0 [] s = Some (n, reap, s1)" "ix_freed s' = ix_freed s1"
    using assms(1) by (auto simp: tx_poll_def bind_eq_Some_conv split: if_splits)
  from tx_poll_vec_dangling[OF 1(1)] show ?thesis using assms(2) 1(2) by (simp add: dangling_def)
qed

section \<open>Example\<close>

definition sample_nic :: nic where
  "sample_nic = \<lparr>nic_tx_status = \<lambda>t i. if t < 2 then 0 else 1, nic_rx_status = \<lambda>t i. if t < 3 then 0 else 3, nic_rx_length = \<lambda>t i. 60\<rparr>"

definition sample_pkt :: pbuf where
  "sample_pkt = \<lparr>pb_addr = 4096, pb_bytes = replicate 1514 0\<rparr>"

definition sample_sent :: ixgbe where
  "sample_sent = (tick (put_tx 0 sample_pkt (tick IxgbeDevice_new)))\<lparr>ix_tdt := 1, transmit_index := 1, tx_clean_index := 0\<rparr>"

definition sample_given :: ixgbe where
  "sample_given = (tick (put_rx 0 sample_pkt (tick (tick IxgbeDevice_new))))\<lparr>ix_rdt := 0, receive_index := 1, rx_clean_index := 1\<rparr>"

lemma sample_frames: "whole_frames sample_nic" "short_frames sample_nic"
  by (simp_all add: whole_frames_def short_frames_def sample_nic_def stat_dd_def stat_eop_def)

lemma sample_status:
  "\<not> stat_dd (nic_tx_status sample_nic 0 i)" "\<not> stat_dd (nic_tx_status sample_nic 1 i)"
  "\<not> stat_dd (nic_rx_status sample_nic 2 i)"
  by (simp_all add: sample_nic_def stat_dd_def)

lemma new_sel:
  "transmit_index IxgbeDevice_new = 0" "tx_clean_index IxgbeDevice_new = 0" "receive_index IxgbeDevice_new = 0"
  "rx_clean_index IxgbeDevice_new = 0" "ix_clock IxgbeDevice_new = 0" "ix_dropped IxgbeDevice_new = []"
  "transmit_rrefs IxgbeDevice_new = replicate NUM_DESCS None" "receive_rrefs IxgbeDevice_new = replicate NUM_DESCS None"
  "tx_slot IxgbeDevice_new = replicate NUM_DESCS False" "rx_slot IxgbeDevice_new = replicate NUM_DESCS False"
  by (simp_all add: IxgbeDevice_new_def)

lemma wrap_sample: "wrap_ring 0 NUM_DESCS = 1"
  by (simp add: wrap_ring_mod)

lemma sample_tx: "tx_submit_and_poll_rref sample_nic [sample_pkt] [] IxgbeDevice_new = Some (1, [], [], sample_sent)"
proof -
  let ?p = "\<lparr>rp_count = 0, rp_index = 0, rp_clean = 0, rp_last = 0\<rparr>" and ?s = "put_tx 0 sample_pkt (tick IxgbeDevice_new)"
  have ok: "ring_ok tx_desc_of (tx_ring IxgbeDevice_new)" using new_inv by (simp add: ix_inv_def)
  have 1: "tx_submit_rref sample_nic ?p [sample_pkt] [] IxgbeDevice_new = Some (\<lparr>rp_count = 1, rp_index = 1, rp_clean = 0, rp_last = 0\<rparr>, [], [], ?s)"
    using tx_submit_rref_cases(2)[OF ok, of ?p 0 sample_nic sample_pkt "[]" "[]"] by (simp add: new_sel wrap_sample)
  have t: "ix_clock ?s = 1" "transmit_index ?s = 0" by (simp_all add: put_tx_def new_sel)
  have "tx_reap_rref sample_nic 0 (Suc 31) [] ?s = Some (0, [], tick ?s)"
    unfolding tx_reap_rref.simps status_tick t using sample_status t by simp
  then have 2: "tx_reap_rref sample_nic 0 IXGBE_BATCH [] ?s = Some (0, [], tick ?s)" by simp
  show ?thesis using 1 2 by (simp add: tx_submit_and_poll_rref_def new_sel sample_sent_def)
qed

lemma sample_rx: "rx_submit_and_poll_rref sample_nic [sample_pkt] [] IxgbeDevice_new = Some (1, [], [], sample_given)"
proof -
  let ?p = "\<lparr>rp_count = 0, rp_index = 0, rp_clean = 0, rp_last = 0\<rparr>" and ?s = "put_rx 0 sample_pkt (tick (tick IxgbeDevice_new))"
  have ok: "ring_ok rx_desc_of (rx_ring IxgbeDevice_new)" using new_inv by (simp add: ix_inv_def)
  have 1: "rx_submit_rref sample_nic ?p [sample_pkt] [] IxgbeDevice_new = Some (\<lparr>rp_count = 1, rp_index = 1, rp_clean = 0, rp_last = 0\<rparr>, [], [], ?s)"
    using rx_submit_rref_cases(2)[OF ok, of ?p 0 sample_nic sample_pkt "[]" "[]"] sample_frames(1) by (simp add: new_sel wrap_sample next_pos_def)
  have t: "ix_clock ?s = 2" by (simp add: put_rx_def new_sel)
  have "rx_reap_rref sample_nic 1 (Suc 31) [] ?s = Some (1, [], tick ?s)"
    unfolding rx_reap_rref.simps status_tick t using sample_status by simp
  then have 2: "rx_reap_rref sample_nic 1 IXGBE_BATCH [] ?s = Some (1, [], tick ?s)" by simp
  show ?thesis using 1 2 by (simp add: rx_submit_and_poll_rref_def new_sel sample_given_def wrap_sample)
qed

section \<open>Results\<close>



text \<open>C31.
  Submitting packets and collecting sent ones always returns.  It works by steps of the ring's protocol and leaves the receive ring
  alone; the tail register, through which the device learns of the packets, moves by exactly as many places as packets
  were sent; every packet is sent, handed back or dropped, and none is dropped when packets and collected buffers together fit into
  a queue.
\<close>

theorem tx_submit_and_poll_rref_correct:
  assumes "ix_inv s" "length reap \<le> IXGBE_BATCH"
  shows "\<exists>sent packets' reap' s'. tx_submit_and_poll_rref nic packets reap s = Some (sent, packets', reap', s') \<and> ix_inv s' \<and> rx_same s s' \<and>
    ring_steps (nic_tx_status nic) tx_desc_of (tx_ring s, mset packets + mset reap) (tx_ring s', mset packets' + mset reap') \<and>
    length reap' \<le> IXGBE_BATCH \<and> ix_tdt s' = (transmit_index s + sent) mod NUM_DESCS \<and> transmit_index s' = ix_tdt s' \<and>
    sent + length packets' + length (ix_dropped s') = length packets + length (ix_dropped s) \<and>
    (length packets + length reap \<le> IXGBE_BATCH \<longrightarrow> ix_dropped s' = ix_dropped s)"
proof -
  obtain sent packets' reap' s' where 1: "tx_submit_and_poll_rref nic packets reap s = Some (sent, packets', reap', s')"
    and r: "tx_result nic s packets reap sent packets' reap' s'" using tx_submit_and_poll_rref_result[OF assms] by blast
  have "transmit_index s' = ix_tdt s'" using r by (simp add: tx_result_def ix_inv_def)
  then show ?thesis using 1 r unfolding tx_result_def by blast
qed

theorem tx_submit_and_poll_rref_correct_witness:
  "tx_submit_and_poll_rref sample_nic [sample_pkt] [] IxgbeDevice_new = Some (1, [], [], sample_sent) \<and> ix_inv sample_sent \<and>
   ix_tdt sample_sent = 1 \<and> ix_dropped sample_sent = [] \<and> transmit_ring sample_sent ! 0 = tx_desc_of sample_pkt"
proof -
  have "transmit_ring sample_sent ! 0 = tx_desc_of sample_pkt"
    by (simp add: sample_sent_def tick_def put_tx_def IxgbeDevice_new_def)
  then show ?thesis
    using tx_submit_and_poll_rref_correct[of IxgbeDevice_new "[]" sample_nic "[sample_pkt]"] new_inv sample_tx by (simp add: new_sel)
qed

text \<open>C32.
  As long as the device reports whole frames, giving it buffers and collecting received ones returns.  It works by steps of the
  ring's protocol and leaves the transmit ring alone; the next index moves by as many places as buffers were given, and the tail
  register names the last of them; every buffer is given or handed back, and no received one is dropped when frames are no longer than a
  buffer and buffers and collected ones together fit into a queue.
\<close>

theorem rx_submit_and_poll_rref_correct:
  assumes "whole_frames nic" "ix_inv s" "length reap \<le> IXGBE_BATCH"
  shows "\<exists>received packets' reap' s'. rx_submit_and_poll_rref nic packets reap s = Some (received, packets', reap', s') \<and> ix_inv s' \<and> tx_same s s' \<and>
    ring_steps (nic_rx_status nic) rx_desc_of (rx_ring s, mset packets + mset reap) (rx_ring s', mset packets' + mset reap') \<and>
    length reap' \<le> IXGBE_BATCH \<and> receive_index s' = (receive_index s + received) mod NUM_DESCS \<and>
    (0 < received \<longrightarrow> receive_index s' = wrap_ring (ix_rdt s') NUM_DESCS) \<and> received + length packets' = length packets \<and>
    (short_frames nic \<and> length packets + length reap \<le> IXGBE_BATCH \<longrightarrow> ix_dropped s' = ix_dropped s)"
  using rx_submit_and_poll_rref_result[OF assms(2,3,1), of packets] unfolding rx_result_def by blast

theorem rx_submit_and_poll_rref_correct_witness:
  "rx_submit_and_poll_rref sample_nic [sample_pkt] [] IxgbeDevice_new = Some (1, [], [], sample_given) \<and> ix_inv sample_given \<and>
   receive_index sample_given = 1 \<and> wrap_ring (ix_rdt sample_given) NUM_DESCS = 1 \<and> ix_dropped sample_given = [] \<and>
   receive_ring sample_given ! 0 = rx_desc_of sample_pkt"
proof -
  have "receive_ring sample_given ! 0 = rx_desc_of sample_pkt"
    by (simp add: sample_given_def tick_def put_rx_def IxgbeDevice_new_def)
  then show ?thesis
    using rx_submit_and_poll_rref_correct[OF sample_frames(1) new_inv, of "[]" "[sample_pkt]"] sample_rx sample_frames(2) by (auto simp: new_sel)
qed

end
