(* ===== verification/Spec2Isabelle.thy ===== *)
theory Spec2Isabelle
  imports Sysfile_Spec Dir_Spec Inode_Blocks Fslog_Spec Condvar Sched_System Buddy_Heap Sharedheap_Spec Rref_Deque Spin_Spec Maglev_Spec Ixgbe_System
begin

text \<open>
  A verification library for the RedLeaf operating system.

  \<^bold>\<open>The program.\<close>  RedLeaf is an operating system written in Rust, without hardware isolation: the kernel
  (\<^verbatim>\<open>src/kernel\<close>) offers memory, threads, interrupts and a shared heap; everything else is a \<^emph>\<open>domain\<close>,
  a separately compiled crate (\<^verbatim>\<open>src/domains\<close>) that the language keeps apart from the others.  Domains
  exchange objects only through remote references into the shared heap (\<^verbatim>\<open>src/interface/src/rref\<close>), so
  that a domain that fails can be removed with everything it owns.  The largest group of domains is Rv6, a
  Rust version of xv6 (\<^verbatim>\<open>src/domains/usr/xv6\<close>): its file system runs over a block device, below it a
  buffer cache and a write-ahead log, above it inodes, directories, pipes, devices and the table of
  open files that the system calls work on.

  \<^bold>\<open>Conventions.\<close>  A panic is \<^const>\<open>None\<close> of the option monad and state is passed explicitly, so \<open>do { ... }\<close>
  reads like the Rust body.  The default build is a debug build: arithmetic is checked, and the checks are
  written out by \<open>add_u32\<close>, \<open>add_usize\<close>, \<open>sub_chk\<close> and so on over \<^typ>\<open>nat\<close>; indexing is \<open>nth_chk\<close> and
  \<open>upd_chk\<close>, slicing \<open>slice_chk\<close>.  Bytes are \<open>8 word\<close>.  A Rust \<open>Result\<close> is a sum type, \<^const>\<open>Inl\<close> the error.
  Code that blocks is cut at the points where it gives up the processor or a lock; what happens between two
  such points is one function, and an inductive step relation interleaves them.  What does not live under
  \<^verbatim>\<open>src/\<close> is an argument of the definitions that use it: the keyboard (\<open>console_read\<close>), the crate slabmalloc
  (\<open>zone_ops\<close>), the drop functions the interface compiler generates (\<open>drop_map\<close>).

  \<^bold>\<open>Theories and code.\<close>
  \<^item> \<open>Redleaf_Base\<close>: checked arithmetic, panics, little-endian integers, and the collections \<open>panic_simps\<close> and
    \<open>codec_simps\<close> that the other proofs use.
  \<^item> \<open>Membdev\<close>: the memory block device, \<^verbatim>\<open>lib/external/libmembdev\<close>; locale \<open>block_device\<close> states what a block
    device promises.
  \<^item> \<open>Bcache\<close>, \<open>Bcache_Spec\<close>: the buffer cache, \<^verbatim>\<open>xv6/kernel/fs/src/bcache.rs\<close>, with its doubly-linked recency list
    of indices.  \<open>bc_ok\<close> is the representation invariant, \<open>content\<close> and \<open>disk\<close> the two views of a block; locale
    \<open>block_cache\<close> is the contract that the log and the allocator above are proved from.
  \<^item> \<open>Fslog\<close>, \<open>Fslog_Spec\<close>: the write-ahead log, \<^verbatim>\<open>log.rs\<close>, and mounting, \<^verbatim>\<open>fs.rs\<close>.  The crash argument runs
    recovery on the disk after every prefix of a commit's writes.
  \<^item> \<open>Fsblock\<close>: the free-block bitmap, \<^verbatim>\<open>block.rs\<close>.
  \<^item> \<open>Vfs\<close>, \<open>Inode\<close>, \<open>Icache\<close>: vocabulary, inodes with their block maps and directories, the inode cache and path
    resolution; \<^verbatim>\<open>usr_interface/src/vfs.rs\<close>, \<^verbatim>\<open>fs/src/icache/inode.rs\<close>, \<^verbatim>\<open>icache/mod.rs\<close>, \<^verbatim>\<open>cwd.rs\<close>.
    \<open>Inode_Spec\<close> has the invariant \<open>file_inv\<close> and reading and writing of files, \<open>Inode_Blocks\<close> truncation and the
    indirect tables, \<open>Dir_Spec\<close> directories and the inode cache.
  \<^item> \<open>Queues\<close>: locale \<open>fifo\<close>, what a bounded queue promises, and the kernel's circular buffer, \<^verbatim>\<open>kernel/src/cb.rs\<close>.
  \<^item> \<open>Pipe\<close>, \<open>Condvar\<close>, \<open>Console\<close>: pipes, condition variables and the console device, \<^verbatim>\<open>fs/src/pipe.rs\<close>,
    \<^verbatim>\<open>xv6/lib/utils/src/condvar.rs\<close> with \<^verbatim>\<open>kernel/src/syscalls.rs\<close>, \<^verbatim>\<open>fs/src/console_device.rs\<close>.
  \<^item> \<open>Sysfile\<close>, \<open>Sysfile_Spec\<close>: open files and the system calls, \<^verbatim>\<open>opened_file.rs\<close>, \<^verbatim>\<open>sysfile.rs\<close>,
    \<^verbatim>\<open>cross_thread_temp_storage.rs\<close>, \<^verbatim>\<open>lib.rs\<close>, with the drops that Rust inserts.
  \<^item> \<open>Sched\<close>, \<open>Sched_Spec\<close>, \<open>Sched_System\<close>: the scheduler, \<^verbatim>\<open>kernel/src/thread.rs\<close> and \<^verbatim>\<open>waitqueue.rs\<close>.  Locale
    \<open>link_field\<close> gives the intrusive linked lists their list view, once for each of the two link fields.
  \<^item> \<open>Buddy\<close>, \<open>Buddy_Spec\<close>, \<open>Buddy_Heap\<close>: the physical memory allocator, \<^verbatim>\<open>kernel/src/memory/buddy.rs\<close> and
    \<^verbatim>\<open>memory/mod.rs\<close>, and its set-up in \<^verbatim>\<open>arch/mod.rs\<close>.  The free lists live in the free blocks themselves.
  \<^item> \<open>Sharedheap\<close>, \<open>Sharedheap_Spec\<close>, \<open>Rref_Deque\<close>: the shared heap, \<^verbatim>\<open>kernel/src/heap.rs\<close> and \<^verbatim>\<open>dropper.rs\<close>,
    and remote references with their containers, \<^verbatim>\<open>interface/src/rref\<close>.
  \<^item> \<open>Spin\<close>, \<open>Spin_Spec\<close>: mutex, reader-writer lock and one-time initialisation, \<^verbatim>\<open>lib/core/spin-rs\<close>, cut into their
    atomic accesses and interleaved over any number of threads.
  \<^item> \<open>Ixgbe\<close>, \<open>Ixgbe_Spec\<close>, \<open>Ixgbe_Rx\<close>, \<open>Ixgbe_System\<close>: the rings of the network driver, \<^verbatim>\<open>lib/devices/ixgbe\<close>, and the
    driver's domain above them.  \<open>ring_step\<close> is the protocol between driver, clients and device that the loops are shown to
    follow; \<open>ix_call\<close> interleaves the calls of the clients.  The device is the parameter \<open>nic\<close>.
  \<^item> \<open>Cindex\<close>, \<open>Cindex_Spec\<close>: the hash table with linear probing that caches flows, \<^verbatim>\<open>lib/external/sashstore/src/cindexmap\<close>;
    locale \<open>bounded_map\<close> is what its clients rely on.
  \<^item> \<open>Maglev\<close>, \<open>Maglev_Spec\<close>: the load balancer above it, \<^verbatim>\<open>libbenchnet/src/maglev.rs\<close>; the hash functions are
    arguments.

  \<^bold>\<open>What is shown.\<close>
  \<^item> Storage: a read returns the block's content, releases keep the recency list, eviction takes the least
    recent buffer, a commit is atomic under crashes at every write, the log never overflows, allocation
    and freeing of blocks change one bit.
  \<^item> Files: reads and writes within the direct blocks do what an array of bytes does, truncation gives the blocks
    back, inodes survive encoding, linking a name fills an empty entry.
  \<^item> Communication: pipes, the circular buffer and the queue of remote references lose and reorder nothing;
    a waiting writer is released; a condition variable's caller returns with the lock and the predicate.
  \<^item> Descriptors: counts of open files equal the entries that name them, the ends of a pipe stay open exactly
    that long, and a forked child gets the chosen files.
  \<^item> Scheduling: no thread is lost or queued twice, a processor never idles with a runnable thread queued, a
    signalled interrupt wakes all its threads.
  \<^item> Memory: handed-out blocks are disjoint and coalesce back, and a dead domain's objects are freed once
    while no other domain loses anything.
  \<^item> Locks: a writer of the reader-writer lock is alone, \<open>Once\<close> builds one value.
  \<^item> Network: under every sequence of calls no packet buffer is lost, duplicated or in two places, a descriptor names
    the buffer of its slot, and a buffer the device may still use stays put; the flow table is a bounded map, and the
    balancer's table is built in finite time with its entries shared evenly.
  \<^item> Failures of the code itself, each with a run or a state that shows it: recovery of a committed
    transaction panics, a full log panics at commit, a wake-up can be lost, linking into a full directory
    replaces its first entry, an inode in use is given a second slot, a block added through an indirect table is
    forgotten, a polled vector has been freed, closing an unlinked file never frees it, a
    console read counts one byte too many, \<open>set_affinity\<close> accepts an affinity that later panics, the
    set-up of the allocator can use memory past the end of an area.

  \<^bold>\<open>Bounds and fuel.\<close>  Loops whose bound is in the code are recursions on that bound; the others come with a
  termination proof (\<open>run_drops\<close>, by the table's size) or with fuel and a theorem that a stated amount is enough: the
  recency list is walked for at most NBUF steps, \<open>rdeque_collect\<close> for one step more than the queue's length.  The loop that
  fills the balancer's table, \<open>fill_table\<close>, has no bound in the code; it is a partial function that is proved to return
  for one to 128 backends.  Results on files are for the 12 direct blocks, 49152 bytes, with room in the log and on the
  disk as hypotheses; those on the flow table for capacities that are powers of two; those on the reader-writer lock
  for fewer than \<open>2 ^ 61\<close> threads, so that the lock word does not overflow.  Addresses
  and sizes are \<^typ>\<open>nat\<close> with the 64-bit checks written out.

  \<^bold>\<open>Not modelled.\<close>
  \<^item> The start-up and statistics of the network driver and the other drivers with their libraries (nvme, virtio, ahci, tpm, pci): they are reads and writes of device
    registers and of memory shared with the device, whose behaviour is not in the sources.
  \<^item> Page tables, interrupt entry, the loader, start-up and the context switch: assembly and the crates x86 and
    elfloader.
  \<^item> Benchmarks, the network stack's glue, the HTTP server, user programs and tools: clients of the
    components above or of external crates.
  \<^item> Proxies and stubs that the interface compiler generates at build time.
\<close>

end
